(* ===== verification/Prelude.thy ===== *)
theory Prelude
  imports Main "HOL-Library.Word" "HOL-Library.Monad_Syntax"
begin

unbundle bit_operations_syntax

text \<open>
  What the components share: the C integer types at their width, the result codes of
  \<^verbatim>\<open>sqlite.h.in\<close>, bounds-checked access to byte buffers, and the generic lemmas on
  words, lists and options that the component proofs use. The collection \<open>codec_simps\<close>
  gathers the rewrite rules that turn masked and shifted words into bit statements.
\<close>

section \<open>Types and result codes\<close>

type_synonym u8 = "8 word"
type_synonym u16 = "16 word"
type_synonym u32 = "32 word"
type_synonym u64 = "64 word"

text \<open>
  The result codes are small C integers (\<^verbatim>\<open>#define SQLITE_OK 0\<close> and so on), and code
  combines them with \<^verbatim>\<open>|=\<close>, so they are integers here too.
\<close>

abbreviation (input) SQLITE_OK :: int where "SQLITE_OK \<equiv> 0"
abbreviation (input) SQLITE_ERROR :: int where "SQLITE_ERROR \<equiv> 1"
abbreviation (input) SQLITE_NOMEM :: int where "SQLITE_NOMEM \<equiv> 7"

named_theorems codec_simps

section \<open>Byte buffers\<close>

text \<open>
  A C routine that is handed a pointer into a buffer is modelled on the list of the bytes
  from that pointer to the end of the buffer. A read past the end, undefined in C, is
  \<open>None\<close>, so a theorem that a routine returns \<open>Some\<close> also says that it stays in bounds.
\<close>

definition rd :: "'a list \<Rightarrow> nat \<Rightarrow> 'a option" where
  "rd p i = (if i < length p then Some (p ! i) else None)"

lemma rd_Nil [simp]: "rd [] i = None"
  by (simp add: rd_def)

lemma rd_Cons_0 [simp]: "rd (x # xs) 0 = Some x"
  by (simp add: rd_def)

lemma rd_Cons_Suc [simp]: "rd (x # xs) (Suc i) = rd xs i"
  by (simp add: rd_def)

lemma rd_Cons_numeral [simp]: "rd (x # xs) (numeral k) = rd xs (pred_numeral k)"
  by (simp add: numeral_eq_Suc)

lemma rd_eq_Some_iff: "rd p i = Some x \<longleftrightarrow> i < length p \<and> p ! i = x"
  by (simp add: rd_def)

lemma rd_nth: "i < length p \<Longrightarrow> rd p i = Some (p ! i)"
  by (simp add: rd_def)

lemma rd_append: "rd (xs @ ys) i = (if i < length xs then rd xs i else rd ys (i - length xs))"
  by (auto simp: rd_def nth_append)

lemma nth_list_update_cases: "xs[i := x] ! j = (if i = j \<and> i < length xs then x else xs ! j)"
  by (cases "i < length xs") (auto simp: nth_list_update list_update_beyond)

section \<open>Words\<close>

text \<open>Disjoint bit ranges: the rules that prove a reassembled word equal to the original.\<close>

lemma bit_u8_bound: "bit (b :: u8) n \<Longrightarrow> n < 8"
  by (auto dest: bit_imp_le_length)

lemma bit_ucast_u8 [codec_simps]:
  "bit (ucast (b :: u8) :: 'a :: len word) n \<longleftrightarrow> n < LENGTH('a) \<and> n < 8 \<and> bit b n"
  by (auto simp: bit_simps dest: bit_u8_bound)

lemma bit_u8_high [codec_simps]: "8 \<le> n \<Longrightarrow> bit (b :: u8) n = False"
  by (auto dest: bit_u8_bound)

lemma push_drop_or_take: "push_bit k (drop_bit k v) OR take_bit k v = v" for v :: "'a :: len word"
proof (rule bit_word_eqI)
  fix n
  assume "n < LENGTH('a)"
  then show "bit (push_bit k (drop_bit k v) OR take_bit k v) n = bit v n"
    by (cases "n < k") (auto simp: bit_simps)
qed

text \<open>
  An equation of 64-bit (32-bit) words is the conjunction of the equations of their bits.
  Over explicit bit positions the rules \<open>bit_simps\<close> evaluate every shift and mask, so an
  equation between two ways of assembling the same bytes is closed by the simplifier.
\<close>

lemma upt_0_64: "[0..<64] =
    [0, 1, 2, 3, 4, 5, 6, 7, 8, 9, 10, 11, 12, 13, 14, 15,
     16, 17, 18, 19, 20, 21, 22, 23, 24, 25, 26, 27, 28, 29, 30, 31,
     32, 33, 34, 35, 36, 37, 38, 39, 40, 41, 42, 43, 44, 45, 46, 47,
     48, 49, 50, 51, 52, 53, 54, 55, 56, 57, 58, 59, 60, 61, 62, 63]"
  by (simp add: upt_rec)

lemma upt_0_32: "[0..<32] =
    [0, 1, 2, 3, 4, 5, 6, 7, 8, 9, 10, 11, 12, 13, 14, 15,
     16, 17, 18, 19, 20, 21, 22, 23, 24, 25, 26, 27, 28, 29, 30, 31]"
  by (simp add: upt_rec)

lemma u64_eq_iff: "(x :: u64) = y \<longleftrightarrow> list_all (\<lambda>n. bit x n = bit y n) [0..<64]"
  by (auto simp: bit_eq_iff list_all_iff dest: bit_imp_le_length)

lemma u32_eq_iff: "(x :: u32) = y \<longleftrightarrow> list_all (\<lambda>n. bit x n = bit y n) [0..<32]"
  by (auto simp: bit_eq_iff list_all_iff dest: bit_imp_le_length)

lemma u8_eq_iff: "(x :: u8) = y \<longleftrightarrow> list_all (\<lambda>n. bit x n = bit y n) [0..<8]"
  by (auto simp: bit_eq_iff list_all_iff dest: bit_imp_le_length)

lemma upt_0_8: "[0..<8] = [0, 1, 2, 3, 4, 5, 6, 7]"
  by (simp add: upt_rec)

lemma bit_u64_high: "64 \<le> n \<Longrightarrow> bit (x :: u64) n = False"
  by (auto dest: bit_imp_le_length)

lemma bit_u32_high: "32 \<le> n \<Longrightarrow> bit (x :: u32) n = False"
  by (auto dest: bit_imp_le_length)

lemmas u64_bitwise = u64_eq_iff upt_0_64 bit_simps bit_u8_high bit_u32_high bit_u64_high
lemmas u8_bitwise = u8_eq_iff upt_0_8 bit_simps bit_u8_high bit_u32_high bit_u64_high
lemmas u32_bitwise = u32_eq_iff upt_0_32 bit_simps bit_u8_high bit_u32_high bit_u64_high

lemma bit_0x80_int [codec_simps]: "bit (0x80 :: int) n \<longleftrightarrow> n = 7"
proof -
  have "(0x80 :: int) = 2 ^ 7" by simp
  then show ?thesis by (simp only: bit_exp_iff) auto
qed

lemma and_0x80_eq_0_iff [codec_simps]:
  "7 < LENGTH('a) \<Longrightarrow> ((a :: 'a :: len word) AND 0x80 = 0) \<longleftrightarrow> \<not> bit a 7"
  by (auto simp: bit_eq_iff [where 'a = "'a word"] bit_and_iff bit_0x80_int)

lemma numeral_0x7f [codec_simps]: "(0x7f :: 'a :: len word) = mask 7"
  by (simp add: mask_eq_exp_minus_1)

lemma drop_bit_less_unat:
  fixes v :: "'a :: len word"
  assumes "v \<noteq> 0" and "0 < k"
  shows "unat (drop_bit k v) < unat v"
proof -
  have "unat v div 2 ^ k < unat v"
    using assms by (intro div_less_dividend) (auto simp: unat_gt_0 simp del: One_nat_def)
  then show ?thesis by (simp add: unat_drop_bit_eq [unfolded drop_bit_eq_div [where 'a = nat]])
qed

lemma word_less_exp_iff_drop_bit:
  assumes "k < LENGTH('a)"
  shows "(v :: 'a :: len word) < 2 ^ k \<longleftrightarrow> drop_bit k v = 0"
proof -
  have "unat (push_bit k 1 :: 'a word) = 2 ^ k"
    using assms by (simp only: unsigned_push_bit_eq) (simp add: take_bit_push_bit push_bit_eq_mult)
  then have "unat (2 ^ k :: 'a word) = 2 ^ k" by (simp add: push_bit_of_1)
  then have "v < 2 ^ k \<longleftrightarrow> unat (drop_bit k v) = 0"
    by (simp add: word_less_nat_alt unat_drop_bit_eq drop_bit_eq_div [where 'a = nat] div_eq_0_iff)
  then show ?thesis by (simp only: unat_eq_zero)
qed

lemma take_bit_word_eq_self_iff:
  "take_bit n (v :: 'a :: len word) = v \<longleftrightarrow> drop_bit n v = 0"
  by (metis add.right_neutral bits_ident drop_bit_eq_div take_bit_drop_bit
      bit.conj_zero_right drop_bit_take_bit diff_self_eq_0 take_bit_0 push_bit_of_0 add_0)

lemma unat_u8_less: "unat (x :: u8) < 256"
  using unsigned_less [of x] by simp

end
