(* ===== verification/Codec.thy ===== *)
theory Codec
  imports Prelude
begin

text \<open>
  The contract of a self-delimiting binary encoding, as the record and page formats use it:
  a routine \<open>put\<close> that writes the bytes of a value, and a routine \<open>get\<close> that reads a
  value from the front of a buffer and says how many bytes it took. The one law a provider
  promises is that \<open>get\<close> undoes \<open>put\<close> whatever bytes follow. A client that stores
  several values one after the other needs no more than that: the facts proved here are
  that no encoding is a prefix of another and that a whole sequence can be read back.
\<close>

locale prefix_codec =
  fixes put :: "'a \<Rightarrow> u8 list"
    and get :: "u8 list \<Rightarrow> ('a \<times> nat) option"
  assumes get_put: "get (put x @ q) = Some (x, length (put x))"
    and put_nonempty: "put x \<noteq> []"
begin

lemma prefix_free:
  assumes "put x @ q = put y @ r"
  shows "x = y \<and> q = r"
proof -
  have "get (put x @ q) = get (put y @ r)"
    using assms by simp
  then have "x = y" by (simp add: get_put)
  with assms show ?thesis by simp
qed

lemma put_inject: "put x = put y \<longleftrightarrow> x = y"
  using prefix_free [of x "[]" y "[]"] by auto

lemma concat_put_inject: "concat (map put xs) = concat (map put ys) \<longleftrightarrow> xs = ys"
proof (induction xs arbitrary: ys)
  case Nil
  then show ?case using put_nonempty by (cases ys) auto
next
  case (Cons x xs)
  then show ?case
  proof (cases ys)
    case Nil
    then show ?thesis using put_nonempty by simp
  next
    case (Cons y ys')
    then show ?thesis
      using Cons.IH prefix_free [of x _ y] by auto
  qed
qed

end

text \<open>The loop by which a client reads values from a buffer until \<open>n\<close> have been read.\<close>

fun read_seq :: "(u8 list \<Rightarrow> ('a \<times> nat) option) \<Rightarrow> nat \<Rightarrow> u8 list \<Rightarrow> ('a list \<times> u8 list) option" where
  "read_seq get 0 p = Some ([], p)"
| "read_seq get (Suc n) p = do {
     (x, k) \<leftarrow> get p;
     (xs, q) \<leftarrow> read_seq get n (drop k p);
     Some (x # xs, q)
   }"

context prefix_codec
begin

lemma read_seq_put: "read_seq get (length xs) (concat (map put xs) @ q) = Some (xs, q)"
  by (induction xs) (simp_all add: get_put)

end

end
