(* ===== verification/Varint.thy ===== *)
theory Varint
  imports Codec
begin

text \<open>
  The variable-length integers of the file format, \<^verbatim>\<open>src/util.c\<close>:
  \<open>sqlite3PutVarint\<close>, \<open>sqlite3PutVarint32\<close>, \<open>sqlite3VarintLen\<close> write and measure them,
  \<open>sqlite3GetVarint\<close> and \<open>sqlite3GetVarint32\<close> read them with the unrolled code on
  two 32-bit accumulators. The unrolled reader is proved equal to the byte-at-a-time
  reference \<open>varint_ref\<close>, and the round trip follows from the reference. The big-endian
  four-byte integers \<open>sqlite3Get4byte\<close> and \<open>sqlite3Put4byte\<close> are here as well, and
  \<open>prefix_codec\<close> is the contract that every such pair of routines offers to its clients.
\<close>

section \<open>Writing\<close>

text \<open>The \<^verbatim>\<open>for(i=7; i>=0; i--)\<close> loop of the nine-byte case: it fills the buffer from the back.\<close>

fun putVarint_fill :: "nat \<Rightarrow> u64 \<Rightarrow> u8 list \<Rightarrow> u8 list" where
  "putVarint_fill 0 v acc = acc"
| "putVarint_fill (Suc i) v acc =
     putVarint_fill i (drop_bit 7 v) (ucast ((v AND 0x7f) OR 0x80) # acc)"

text \<open>The \<^verbatim>\<open>do ... while( v!=0 )\<close> loop: \<open>buf\<close> in the order it is written.\<close>

function putVarint_buf :: "u64 \<Rightarrow> u8 list" where
  "putVarint_buf v =
     (let b = ucast ((v AND 0x7f) OR 0x80); v' = drop_bit 7 v
      in if v' \<noteq> 0 then b # putVarint_buf v' else [b])"
  by pat_completeness auto
termination
proof (relation "measure unat", goal_cases)
  case 2
  then show ?case
    using drop_bit_less_unat by (metis drop_bit_of_0 in_measure zero_less_numeral)
qed simp

declare putVarint_buf.simps [simp del]

text \<open>The bytes written at \<^verbatim>\<open>p\<close>; the C return value is the length of the list.\<close>

definition sqlite3PutVarint :: "u64 \<Rightarrow> u8 list" where
  "sqlite3PutVarint v =
     (if v AND push_bit 32 0xff000000 \<noteq> 0
      then putVarint_fill 8 (drop_bit 8 v) [ucast v]
      else (let buf = putVarint_buf v; buf' = buf[0 := buf ! 0 AND 0x7f] in rev buf'))"

text \<open>The loop counter of \<open>sqlite3VarintLen\<close>; the \<open>ALWAYS(i<9)\<close> bound is kept.\<close>

function varintLen_loop :: "nat \<Rightarrow> u64 \<Rightarrow> nat" where
  "varintLen_loop i v =
     (let i' = i + 1; v' = drop_bit 7 v
      in if v' \<noteq> 0 \<and> i' < 9 then varintLen_loop i' v' else i')"
  by pat_completeness auto
termination
  by (relation "measure (\<lambda>(i, v). 9 - i)") auto

declare varintLen_loop.simps [simp del]

definition sqlite3VarintLen :: "u64 \<Rightarrow> nat" where
  "sqlite3VarintLen v = varintLen_loop 0 v"

section \<open>Reading\<close>

definition SLOT_2_0 :: u32 where "SLOT_2_0 = 0x001fc07f"
definition SLOT_4_2_0 :: u32 where "SLOT_4_2_0 = 0xf01fc07f"

text \<open>\<^verbatim>\<open>*v = ((u64)s)<<32 | a\<close>\<close>

definition join32 :: "u32 \<Rightarrow> u32 \<Rightarrow> u64" where
  "join32 s a = push_bit 32 (ucast s) OR ucast a"

text \<open>
  The unrolled reader. \<open>a\<close>, \<open>b\<close> and \<open>s\<close> are the 32-bit locals of the C code; a
  primed name is the same variable after an assignment. \<^verbatim>\<open>!(a&0x80)\<close> is the test of bit 7.
\<close>

definition sqlite3GetVarint :: "u8 list \<Rightarrow> (u64 \<times> nat) option" where
  "sqlite3GetVarint p = do {
     p0 \<leftarrow> rd p 0;
     let a = (ucast p0 :: u32);
     if a AND 0x80 = 0 then Some (ucast a, 1) else do {
     p1 \<leftarrow> rd p 1;
     let b = (ucast p1 :: u32);
     if b AND 0x80 = 0 then Some (ucast (push_bit 7 (a AND 0x7f) OR b), 2) else do {
     p2 \<leftarrow> rd p 2;
     let a = push_bit 14 a OR ucast p2;
     if a AND 0x80 = 0
     then Some (ucast ((a AND SLOT_2_0) OR push_bit 7 (b AND 0x7f)), 3) else do {
     let a = a AND SLOT_2_0;
     p3 \<leftarrow> rd p 3;
     let b = push_bit 14 b OR ucast p3;
     if b AND 0x80 = 0
     then Some (ucast (push_bit 7 a OR (b AND SLOT_2_0)), 4) else do {
     let b = b AND SLOT_2_0;
     let s = a;
     p4 \<leftarrow> rd p 4;
     let a = push_bit 14 a OR ucast p4;
     if a AND 0x80 = 0
     then Some (join32 (drop_bit 18 s) (a OR push_bit 7 b), 5) else do {
     let s = push_bit 7 s OR b;
     p5 \<leftarrow> rd p 5;
     let b = push_bit 14 b OR ucast p5;
     if b AND 0x80 = 0
     then Some (join32 (drop_bit 18 s) (push_bit 7 (a AND SLOT_2_0) OR b), 6) else do {
     p6 \<leftarrow> rd p 6;
     let a = push_bit 14 a OR ucast p6;
     if a AND 0x80 = 0
     then Some (join32 (drop_bit 11 s)
                 ((a AND SLOT_4_2_0) OR push_bit 7 (b AND SLOT_2_0)), 7) else do {
     let a = a AND SLOT_2_0;
     p7 \<leftarrow> rd p 7;
     let b = push_bit 14 b OR ucast p7;
     if b AND 0x80 = 0
     then Some (join32 (drop_bit 4 s) (push_bit 7 a OR (b AND SLOT_4_2_0)), 8) else do {
     p8 \<leftarrow> rd p 8;
     let a = push_bit 15 a OR ucast p8;
     let b = push_bit 8 (b AND SLOT_2_0);
     let a = a OR b;
     let s = push_bit 4 s;
     let b = drop_bit 3 (ucast p4 AND 0x7f);
     let s = s OR b;
     Some (join32 s a, 9)
   }}}}}}}}}"

text \<open>
  \<open>sqlite3GetVarint32\<close> is compiled without its one-byte case, which the macro
  \<open>getVarint32\<close> of \<^verbatim>\<open>sqliteInt.h\<close> handles before it calls the function.
\<close>

definition sqlite3GetVarint32 :: "u8 list \<Rightarrow> (u32 \<times> nat) option" where
  "sqlite3GetVarint32 p = do {
     p0 \<leftarrow> rd p 0;
     let a = (ucast p0 :: u32);
     p1 \<leftarrow> rd p 1;
     let b = (ucast p1 :: u32);
     if b AND 0x80 = 0 then Some (push_bit 7 (a AND 0x7f) OR b, 2) else do {
     p2 \<leftarrow> rd p 2;
     let a = push_bit 14 a OR ucast p2;
     if a AND 0x80 = 0
     then Some ((a AND (push_bit 14 0x7f OR 0x7f)) OR push_bit 7 (b AND 0x7f), 3) else do {
     (v64, n) \<leftarrow> sqlite3GetVarint p;
     if v64 AND 0xffffffff \<noteq> v64 then Some (0xffffffff, n) else Some (ucast v64, n)
   }}}"

definition getVarint32 :: "u8 list \<Rightarrow> (u32 \<times> nat) option" where
  "getVarint32 p = do {
     p0 \<leftarrow> rd p 0;
     if p0 < 0x80 then Some (ucast p0, 1) else sqlite3GetVarint32 p
   }"

text \<open>
  Likewise \<open>sqlite3PutVarint32\<close> has lost its one-byte case to the macro \<open>putVarint32\<close>.
\<close>

definition sqlite3PutVarint32 :: "u32 \<Rightarrow> u8 list" where
  "sqlite3PutVarint32 v =
     (if v AND NOT 0x3fff = 0 then [ucast (drop_bit 7 v OR 0x80), ucast (v AND 0x7f)]
      else sqlite3PutVarint (ucast v))"

definition putVarint32 :: "u32 \<Rightarrow> u8 list" where
  "putVarint32 v = (if v < 0x80 then [ucast v] else sqlite3PutVarint32 v)"

section \<open>Big-endian four-byte integers\<close>

definition sqlite3Get4byte :: "u8 list \<Rightarrow> u32 option" where
  "sqlite3Get4byte p = do {
     p0 \<leftarrow> rd p 0; p1 \<leftarrow> rd p 1; p2 \<leftarrow> rd p 2; p3 \<leftarrow> rd p 3;
     Some (push_bit 24 (ucast p0) OR push_bit 16 (ucast p1) OR push_bit 8 (ucast p2) OR ucast p3)
   }"

definition sqlite3Put4byte :: "u32 \<Rightarrow> u8 list" where
  "sqlite3Put4byte v =
     [ucast (drop_bit 24 v), ucast (drop_bit 16 v), ucast (drop_bit 8 v), ucast v]"

section \<open>The reference reader\<close>

text \<open>
  The encoding as its comment in \<^verbatim>\<open>util.c\<close> describes it: seven bits a byte, most
  significant first, while the top bit is set; the ninth byte counts with all its bits.
\<close>

fun varint_ref :: "nat \<Rightarrow> u64 \<Rightarrow> u8 list \<Rightarrow> (u64 \<times> nat) option" where
  "varint_ref k acc [] = None"
| "varint_ref k acc (b # p) =
     (if k = 8 then Some (push_bit 8 acc OR ucast b, 9)
      else if \<not> bit b 7 then Some (push_bit 7 acc OR ucast b, Suc k)
      else varint_ref (Suc k) (push_bit 7 acc OR ucast (b AND 0x7f)) p)"

section \<open>The unrolled reader equals the reference\<close>

lemma SLOT_2_0_eq: "SLOT_2_0 = push_bit 14 (mask 7) OR mask 7"
  by (simp add: SLOT_2_0_def mask_eq_exp_minus_1)

lemma SLOT_4_2_0_eq: "SLOT_4_2_0 = push_bit 28 (mask 4) OR push_bit 14 (mask 7) OR mask 7"
  by (simp add: SLOT_4_2_0_def mask_eq_exp_minus_1)

lemmas getVarint_unfold = sqlite3GetVarint_def Let_def and_0x80_eq_0_iff
lemmas getVarint_bits = u64_bitwise SLOT_2_0_eq SLOT_4_2_0_eq numeral_0x7f join32_def

text \<open>
  One lemma for each number \<open>k\<close> of leading bytes known to have the continuation bit, from
  the last byte back to the first: the bytes run out, the next byte ends the number (an
  equation of words, bit by bit), or it has the continuation bit and the lemma for
  \<open>k + 1\<close> applies.
\<close>

lemma getVarint_ref_8:
  assumes "bit p0 7" "bit p1 7" "bit p2 7" "bit p3 7" "bit p4 7" "bit p5 7" "bit p6 7" "bit p7 7"
  shows "sqlite3GetVarint (p0 # p1 # p2 # p3 # p4 # p5 # p6 # p7 # q) =
    varint_ref 0 0 (p0 # p1 # p2 # p3 # p4 # p5 # p6 # p7 # q)"
proof (cases q)
  case Nil
  then show ?thesis using assms by (simp add: getVarint_unfold bit_simps)
next
  case (Cons b q')
  then show ?thesis using assms by (simp add: getVarint_unfold getVarint_bits)
qed

lemma getVarint_ref_7:
  assumes "bit p0 7" "bit p1 7" "bit p2 7" "bit p3 7" "bit p4 7" "bit p5 7" "bit p6 7"
  shows "sqlite3GetVarint (p0 # p1 # p2 # p3 # p4 # p5 # p6 # q) =
    varint_ref 0 0 (p0 # p1 # p2 # p3 # p4 # p5 # p6 # q)"
proof (cases q)
  case Nil
  then show ?thesis using assms by (simp add: getVarint_unfold bit_simps)
next
  case (Cons b q')
  show ?thesis
  proof (cases "bit b 7")
    case True
    then show ?thesis using Cons assms by (simp add: getVarint_ref_8 del: varint_ref.simps)
  next
    case False
    then show ?thesis using Cons assms by (simp add: getVarint_unfold getVarint_bits)
  qed
qed

lemma getVarint_ref_6:
  assumes "bit p0 7" "bit p1 7" "bit p2 7" "bit p3 7" "bit p4 7" "bit p5 7"
  shows "sqlite3GetVarint (p0 # p1 # p2 # p3 # p4 # p5 # q) =
    varint_ref 0 0 (p0 # p1 # p2 # p3 # p4 # p5 # q)"
proof (cases q)
  case Nil
  then show ?thesis using assms by (simp add: getVarint_unfold bit_simps)
next
  case (Cons b q')
  show ?thesis
  proof (cases "bit b 7")
    case True
    then show ?thesis using Cons assms by (simp add: getVarint_ref_7 del: varint_ref.simps)
  next
    case False
    then show ?thesis using Cons assms by (simp add: getVarint_unfold getVarint_bits)
  qed
qed

lemma getVarint_ref_5:
  assumes "bit p0 7" "bit p1 7" "bit p2 7" "bit p3 7" "bit p4 7"
  shows "sqlite3GetVarint (p0 # p1 # p2 # p3 # p4 # q) =
    varint_ref 0 0 (p0 # p1 # p2 # p3 # p4 # q)"
proof (cases q)
  case Nil
  then show ?thesis using assms by (simp add: getVarint_unfold bit_simps)
next
  case (Cons b q')
  show ?thesis
  proof (cases "bit b 7")
    case True
    then show ?thesis using Cons assms by (simp add: getVarint_ref_6 del: varint_ref.simps)
  next
    case False
    then show ?thesis using Cons assms by (simp add: getVarint_unfold getVarint_bits)
  qed
qed

lemma getVarint_ref_4:
  assumes "bit p0 7" "bit p1 7" "bit p2 7" "bit p3 7"
  shows "sqlite3GetVarint (p0 # p1 # p2 # p3 # q) =
    varint_ref 0 0 (p0 # p1 # p2 # p3 # q)"
proof (cases q)
  case Nil
  then show ?thesis using assms by (simp add: getVarint_unfold bit_simps)
next
  case (Cons b q')
  show ?thesis
  proof (cases "bit b 7")
    case True
    then show ?thesis using Cons assms by (simp add: getVarint_ref_5 del: varint_ref.simps)
  next
    case False
    then show ?thesis using Cons assms by (simp add: getVarint_unfold getVarint_bits)
  qed
qed

lemma getVarint_ref_3:
  assumes "bit p0 7" "bit p1 7" "bit p2 7"
  shows "sqlite3GetVarint (p0 # p1 # p2 # q) = varint_ref 0 0 (p0 # p1 # p2 # q)"
proof (cases q)
  case Nil
  then show ?thesis using assms by (simp add: getVarint_unfold bit_simps)
next
  case (Cons b q')
  show ?thesis
  proof (cases "bit b 7")
    case True
    then show ?thesis using Cons assms by (simp add: getVarint_ref_4 del: varint_ref.simps)
  next
    case False
    then show ?thesis using Cons assms by (simp add: getVarint_unfold getVarint_bits)
  qed
qed

lemma getVarint_ref_2:
  assumes "bit p0 7" "bit p1 7"
  shows "sqlite3GetVarint (p0 # p1 # q) = varint_ref 0 0 (p0 # p1 # q)"
proof (cases q)
  case Nil
  then show ?thesis using assms by (simp add: getVarint_unfold bit_simps)
next
  case (Cons b q')
  show ?thesis
  proof (cases "bit b 7")
    case True
    then show ?thesis using Cons assms by (simp add: getVarint_ref_3 del: varint_ref.simps)
  next
    case False
    then show ?thesis using Cons assms by (simp add: getVarint_unfold getVarint_bits)
  qed
qed

lemma getVarint_ref_1:
  assumes "bit p0 7"
  shows "sqlite3GetVarint (p0 # q) = varint_ref 0 0 (p0 # q)"
proof (cases q)
  case Nil
  then show ?thesis using assms by (simp add: getVarint_unfold bit_simps)
next
  case (Cons b q')
  show ?thesis
  proof (cases "bit b 7")
    case True
    then show ?thesis using Cons assms by (simp add: getVarint_ref_2 del: varint_ref.simps)
  next
    case False
    then show ?thesis using Cons assms by (simp add: getVarint_unfold getVarint_bits)
  qed
qed

lemma sqlite3GetVarint_ref:
  shows "sqlite3GetVarint q = varint_ref 0 0 q"
proof (cases q)
  case Nil
  then show ?thesis by (simp add: getVarint_unfold bit_simps)
next
  case (Cons b q')
  show ?thesis
  proof (cases "bit b 7")
    case True
    then show ?thesis using Cons by (simp add: getVarint_ref_1 del: varint_ref.simps)
  next
    case False
    then show ?thesis using Cons by (simp add: getVarint_unfold getVarint_bits)
  qed
qed

section \<open>The round trip\<close>

lemma varint_byte_masked: "(ucast ((v AND 0x7f) OR 0x80) :: u8) AND 0x7f = take_bit 7 (ucast v)" for v :: u64
  by (rule bit_word_eqI) (auto simp: numeral_0x7f bit_simps bit_0x80_int)

lemma varint_byte_flag: "bit (ucast ((v AND 0x7f) OR 0x80) :: u8) 7" for v :: u64
  by (simp add: bit_simps bit_0x80_int)

lemma varint_ref_fill:
  "k + i \<le> 8 \<Longrightarrow> varint_ref k a (putVarint_fill i v acc) =
     varint_ref (k + i) (push_bit (7 * i) a OR take_bit (7 * i) v) acc"
proof (induction i arbitrary: v acc)
  case 0
  then show ?case by simp
next
  case (Suc i)
  have "push_bit 7 (push_bit (7 * i) a OR take_bit (7 * i) (drop_bit 7 v)) OR ucast (take_bit 7 (ucast v) :: u8)
      = push_bit (7 * Suc i) a OR take_bit (7 * Suc i) v"
    using Suc.prems
    by (auto intro!: bit_word_eqI simp: bit_simps)
  with Suc show ?case
    by (simp add: varint_byte_masked varint_byte_flag)
qed

lemma putVarint_buf_length: "length (putVarint_buf v) = Suc (if drop_bit 7 v = 0 then 0 else length (putVarint_buf (drop_bit 7 v)))"
  by (subst putVarint_buf.simps) (simp add: Let_def)

lemma putVarint_fill_append: "putVarint_fill i v acc @ q = putVarint_fill i v (acc @ q)"
  by (induction i v acc rule: putVarint_fill.induct) simp_all

lemma length_putVarint_fill: "length (putVarint_fill i v acc) = i + length acc"
  by (induction i v acc rule: putVarint_fill.induct) simp_all

lemma rev_putVarint_buf: "rev (putVarint_buf v) = putVarint_fill (length (putVarint_buf v)) v []"
proof (induction v rule: putVarint_buf.induct)
  case (1 v)
  then show ?case
    by (simp add: putVarint_buf.simps [of v] Let_def putVarint_fill_append)
qed

lemma putVarint_buf_bound: "take_bit (7 * length (putVarint_buf v)) v = v"
proof (induction v rule: putVarint_buf.induct)
  case (1 v)
  show ?case
  proof (cases "drop_bit 7 v = 0")
    case True
    then show ?thesis
      by (simp add: putVarint_buf.simps [of v] take_bit_word_eq_self_iff)
  next
    case False
    with 1 have "take_bit (7 * length (putVarint_buf (drop_bit 7 v))) (drop_bit 7 v) = drop_bit 7 v"
      by simp
    then have *: "bit v (7 + m) \<Longrightarrow> m < 7 * length (putVarint_buf (drop_bit 7 v))" for m
      by (metis bit_drop_bit_eq bit_take_bit_iff comp_apply)
    have "n < 7 + 7 * length (putVarint_buf (drop_bit 7 v))" if "bit v n" for n
      using * [of "n - 7"] that by (cases "7 \<le> n") auto
    with False show ?thesis
      by (auto simp: putVarint_buf.simps [of v] Let_def bit_take_bit_iff intro!: bit_word_eqI)
  qed
qed

lemma length_putVarint_buf_le: "drop_bit (7 * n) v = 0 \<Longrightarrow> 0 < n \<Longrightarrow> length (putVarint_buf v) \<le> n"
proof (induction n arbitrary: v)
  case 0
  then show ?case by simp
next
  case (Suc n)
  show ?case
  proof (cases "drop_bit 7 v = 0")
    case True
    then show ?thesis by (simp add: putVarint_buf.simps [of v])
  next
    case False
    moreover have "drop_bit (7 * n) (drop_bit 7 v) = 0"
      using Suc.prems by (simp add: add.commute)
    moreover have "0 < n"
      using Suc.prems False by (cases n) simp_all
    ultimately show ?thesis
      using Suc.IH [of "drop_bit 7 v"] by (simp add: putVarint_buf.simps [of v] Let_def)
  qed
qed

lemma sqlite3PutVarint_small:
  assumes "v AND push_bit 32 0xff000000 = 0"
  obtains m where "m \<le> 7" and "take_bit (7 * m) (drop_bit 7 v) = drop_bit 7 v"
    and "sqlite3PutVarint v = putVarint_fill m (drop_bit 7 v) [take_bit 7 (ucast v)]"
proof -
  have high: "drop_bit 56 v = 0"
  proof -
    have "push_bit 32 (0xff000000 :: u64) = push_bit 56 (mask 8)"
      by (simp add: mask_eq_exp_minus_1)
    with assms have *: "v AND push_bit 56 (mask 8) = 0"
      by simp
    have "\<not> bit v (56 + n)" if "n < 8" for n
      using arg_cong [OF *, of "\<lambda>w. bit w (56 + n)"] that by (simp add: bit_simps)
    moreover have "\<not> bit v (56 + n)" if "\<not> n < 8" for n
      using that by (auto dest: bit_imp_le_length)
    ultimately show ?thesis
      by (intro bit_word_eqI) (simp add: bit_drop_bit_eq, blast)
  qed
  show ?thesis
  proof (cases "drop_bit 7 v = 0")
    case True
    with assms show ?thesis
      by (intro that [of 0])
        (simp_all add: sqlite3PutVarint_def putVarint_buf.simps [of v] varint_byte_masked)
  next
    case False
    have "length (putVarint_buf (drop_bit 7 v)) \<le> 7"
      using high by (intro length_putVarint_buf_le) simp_all
    moreover have "sqlite3PutVarint v =
        putVarint_fill (length (putVarint_buf (drop_bit 7 v))) (drop_bit 7 v) [take_bit 7 (ucast v)]"
      using assms False rev_putVarint_buf [of "drop_bit 7 v"]
      by (simp add: sqlite3PutVarint_def putVarint_buf.simps [of v] Let_def varint_byte_masked
          putVarint_fill_append)
    ultimately show ?thesis
      using putVarint_buf_bound that by blast
  qed
qed

lemma varint_ref_put: "varint_ref 0 0 (sqlite3PutVarint v @ q) = Some (v, length (sqlite3PutVarint v))"
proof (cases "v AND push_bit 32 0xff000000 = 0")
  case True
  then obtain m where m: "m \<le> 7" "take_bit (7 * m) (drop_bit 7 v) = drop_bit 7 v"
    and put: "sqlite3PutVarint v = putVarint_fill m (drop_bit 7 v) [take_bit 7 (ucast v)]"
    by (rule sqlite3PutVarint_small)
  have "ucast (take_bit 7 (ucast v) :: u8) = take_bit 7 v"
    by (rule bit_word_eqI) (auto simp: bit_simps)
  then have "push_bit 7 (drop_bit 7 v) OR ucast (take_bit 7 (ucast v) :: u8) = v"
    by (simp add: push_drop_or_take)
  with m show ?thesis
    by (simp add: put putVarint_fill_append varint_ref_fill length_putVarint_fill bit_take_bit_iff)
next
  case False
  have "push_bit 8 (take_bit 56 (drop_bit 8 v)) OR ucast (ucast v :: u8) = v"
    by (simp add: u64_bitwise)
  with False show ?thesis
    by (simp add: sqlite3PutVarint_def putVarint_fill_append varint_ref_fill length_putVarint_fill del: putVarint_fill.simps)
qed
interpretation varint: prefix_codec sqlite3PutVarint sqlite3GetVarint
proof
  show "sqlite3GetVarint (sqlite3PutVarint x @ q) = Some (x, length (sqlite3PutVarint x))" for x q
    by (simp add: sqlite3GetVarint_ref varint_ref_put)
  then show "sqlite3PutVarint x \<noteq> []" for x
    by (metis append_Nil rd_Nil option.distinct(1) sqlite3GetVarint_ref varint_ref.simps(1))
qed

lemma get4byte_put4byte: "sqlite3Get4byte (sqlite3Put4byte v @ q) = Some v"
  by (simp add: sqlite3Get4byte_def sqlite3Put4byte_def) (simp add: u32_bitwise)

interpretation be32: prefix_codec sqlite3Put4byte "\<lambda>p. map_option (\<lambda>v. (v, 4)) (sqlite3Get4byte p)"
  by unfold_locales (simp_all add: get4byte_put4byte, simp_all add: sqlite3Put4byte_def)

section \<open>Lengths\<close>

lemma varintLen_loop_eq: "i < 9 \<Longrightarrow> varintLen_loop i v = min 9 (i + length (putVarint_buf v))"
proof (induction i v rule: varintLen_loop.induct)
  case (1 i v)
  then show ?case
    by (simp add: varintLen_loop.simps [of i v] putVarint_buf.simps [of v] Let_def)
qed

lemma length_putVarint_buf_gt: "drop_bit (7 * n) v \<noteq> 0 \<Longrightarrow> n < length (putVarint_buf v)"
proof (induction n arbitrary: v)
  case 0
  then show ?case by (simp add: putVarint_buf.simps [of v] Let_def)
next
  case (Suc n)
  then have "drop_bit (7 * n) (drop_bit 7 v) \<noteq> 0"
    by (simp add: add.commute)
  moreover from this have "drop_bit 7 v \<noteq> 0" by (metis drop_bit_of_0)
  ultimately show ?case
    using Suc.IH [of "drop_bit 7 v"] by (simp add: putVarint_buf.simps [of v] Let_def)
qed

lemma putVarint_high_byte: "v AND 0xff00000000000000 = 0 \<longleftrightarrow> drop_bit 56 v = 0" for v :: u64
proof -
  have "v AND 0xff00000000000000 = push_bit 56 (drop_bit 56 v)"
    by (simp add: u64_bitwise)
  then show ?thesis by (simp add: u64_bitwise)
qed

lemma sqlite3VarintLen_correct: "sqlite3VarintLen v = length (sqlite3PutVarint v)"
proof (cases "drop_bit 56 v = 0")
  case True
  then have "length (putVarint_buf v) \<le> 8"
    by (intro length_putVarint_buf_le) simp_all
  with True show ?thesis
    by (simp add: sqlite3VarintLen_def varintLen_loop_eq sqlite3PutVarint_def putVarint_high_byte Let_def)
next
  case False
  then have "8 < length (putVarint_buf v)"
    by (intro length_putVarint_buf_gt) simp_all
  with False show ?thesis
    by (simp add: sqlite3VarintLen_def varintLen_loop_eq sqlite3PutVarint_def putVarint_high_byte
        length_putVarint_fill del: putVarint_fill.simps)
qed

lemma and_not_0x3fff_iff: "v AND - 16384 = 0 \<longleftrightarrow> drop_bit 14 v = 0" for v :: u32
  by (simp add: u32_bitwise)

lemma putVarint32_correct: "putVarint32 v = sqlite3PutVarint (ucast v)"
proof -
  have high: "drop_bit 56 (ucast v :: u64) = 0"
    by (simp add: u64_bitwise)
  have less: "v < 0x80 \<longleftrightarrow> drop_bit 7 v = 0"
    using word_less_exp_iff_drop_bit [of 7 v] by simp
  have drop: "drop_bit n (ucast v :: u64) = ucast (drop_bit n v)" for n
    by (rule bit_word_eqI) (auto simp: bit_simps dest: bit_imp_le_length)
  have ucast_0: "(ucast w :: u64) = 0 \<longleftrightarrow> w = 0" for w :: u32
    by (simp add: u64_bitwise u32_bitwise)
  note unfold = putVarint32_def sqlite3PutVarint32_def sqlite3PutVarint_def putVarint_high_byte
    high less and_not_0x3fff_iff drop ucast_0 varint_byte_masked Let_def
  consider "drop_bit 7 v = 0" | "drop_bit 7 v \<noteq> 0" "drop_bit 14 v = 0" | "drop_bit 7 v \<noteq> 0" "drop_bit 14 v \<noteq> 0"
    by blast
  then show ?thesis
  proof cases
    case 1
    then show ?thesis
      by (simp add: unfold putVarint_buf.simps [of "ucast v"]) (simp add: u8_bitwise u32_bitwise)
  next
    case 2
    have "drop_bit 7 (ucast (drop_bit 7 v) :: u64) = ucast (drop_bit 14 v)"
      by (simp add: u64_bitwise)
    with 2 show ?thesis
      by (simp add: unfold putVarint_buf.simps [of "ucast v"] putVarint_buf.simps [of "ucast (drop_bit 7 v)"])
        (simp add: u8_bitwise)
  next
    case 3
    then show ?thesis by (simp add: unfold)
  qed
qed

lemma getVarint32_correct:
  "getVarint32 p =
     map_option (\<lambda>(v, n). (if v AND 0xffffffff \<noteq> v then 0xffffffff else ucast v, n)) (sqlite3GetVarint p)"
proof -
  have *: "p0 < 0x80 \<longleftrightarrow> \<not> bit p0 7" for p0 :: u8
    using word_less_exp_iff_drop_bit [of 7 p0] by (simp add: u8_bitwise)
  show ?thesis
  proof (cases "\<exists>a b c q. p = a # b # c # q \<and> bit a 7 \<and> bit b 7 \<and> bit c 7")
    case True
    then show ?thesis
      by (cases "sqlite3GetVarint p")
        (auto simp: getVarint32_def sqlite3GetVarint32_def * Let_def and_0x80_eq_0_iff bit_simps)
  next
    case False
    then show ?thesis
      by (cases p; cases "tl p"; cases "tl (tl p)")
        (simp_all add: getVarint32_def sqlite3GetVarint32_def * getVarint_unfold bit_simps,
          simp_all add: u32_bitwise getVarint_bits)
  qed
qed

section \<open>Properties\<close>

text \<open>
  C22: The unrolled two-accumulator reader \<open>sqlite3GetVarint\<close> computes, on every buffer, the
  value and the length that the byte-at-a-time definition of the format gives, and reads
  past the end of the buffer exactly when the format asks for a byte that is not there.
\<close>

theorem sqlite3GetVarint_equiv: "sqlite3GetVarint p = varint_ref 0 0 p"
  by (rule sqlite3GetVarint_ref)

lemma length_sqlite3PutVarint: "length (sqlite3PutVarint v) \<in> {1..9}"
proof -
  have "length (sqlite3PutVarint v) = varintLen_loop 0 v"
    using sqlite3VarintLen_correct [of v] by (simp add: sqlite3VarintLen_def)
  moreover have "0 < length (putVarint_buf v)"
    by (simp add: putVarint_buf_length)
  ultimately show ?thesis by (auto simp: varintLen_loop_eq Suc_le_eq)
qed

text \<open>
  C23: What \<open>sqlite3PutVarint\<close> writes, followed by anything, is read back by
  \<open>sqlite3GetVarint\<close> as the same value and length; the length is the one that
  \<open>sqlite3VarintLen\<close> predicts and lies between 1 and 9.
\<close>

theorem varint_roundtrip:
  "sqlite3GetVarint (sqlite3PutVarint v @ q) = Some (v, sqlite3VarintLen v) \<and>
     sqlite3VarintLen v = length (sqlite3PutVarint v) \<and> sqlite3VarintLen v \<in> {1..9}"
  using varint.get_put [of v q] length_sqlite3PutVarint [of v]
  by (simp add: sqlite3VarintLen_correct)

text \<open>
  The 32-bit entry points agree with the 64-bit ones: \<open>putVarint32\<close> writes the bytes
  of \<open>sqlite3PutVarint\<close>, and \<open>getVarint32\<close> reads the value and length of
  \<open>sqlite3GetVarint\<close>, a value above 32 bits being clipped to 0xffffffff.
\<close>

theorem varint32_agrees:
  "putVarint32 w = sqlite3PutVarint (ucast w) \<and>
   getVarint32 p =
     map_option (\<lambda>(v, n). (if v AND 0xffffffff \<noteq> v then 0xffffffff else ucast v, n)) (sqlite3GetVarint p)"
  using putVarint32_correct getVarint32_correct by simp

text \<open>
  A run of varints is read back value by value, whatever follows it, and two different
  runs never have the same bytes.
\<close>

theorem varint_sequence:
  "read_seq sqlite3GetVarint (length vs) (concat (map sqlite3PutVarint vs) @ q) = Some (vs, q) \<and>
   (concat (map sqlite3PutVarint vs) = concat (map sqlite3PutVarint ws) \<longleftrightarrow> vs = ws)"
  by (simp add: varint.read_seq_put varint.concat_put_inject)

end
