(* ===== verification/Ctype.thy ===== *)
theory Ctype
  imports Prelude
begin

text \<open>
  The character tables of \<^verbatim>\<open>src/global.c\<close> in their ASCII variant, and the macros of
  \<^verbatim>\<open>sqliteInt.h\<close> that read them. The lemmas say which bytes each class holds; they are
  proved by evaluating the table at all 256 bytes.
\<close>

section \<open>The tables\<close>

definition sqlite3UpperToLower :: "u8 list" where
  "sqlite3UpperToLower =
    [0, 1, 2, 3, 4, 5, 6, 7, 8, 9, 10, 11, 12, 13, 14, 15,
     16, 17, 18, 19, 20, 21, 22, 23, 24, 25, 26, 27, 28, 29, 30, 31,
     32, 33, 34, 35, 36, 37, 38, 39, 40, 41, 42, 43, 44, 45, 46, 47,
     48, 49, 50, 51, 52, 53, 54, 55, 56, 57, 58, 59, 60, 61, 62, 63,
     64, 97, 98, 99, 100, 101, 102, 103, 104, 105, 106, 107, 108, 109, 110, 111,
     112, 113, 114, 115, 116, 117, 118, 119, 120, 121, 122, 91, 92, 93, 94, 95,
     96, 97, 98, 99, 100, 101, 102, 103, 104, 105, 106, 107, 108, 109, 110, 111,
     112, 113, 114, 115, 116, 117, 118, 119, 120, 121, 122, 123, 124, 125, 126, 127,
     128, 129, 130, 131, 132, 133, 134, 135, 136, 137, 138, 139, 140, 141, 142, 143,
     144, 145, 146, 147, 148, 149, 150, 151, 152, 153, 154, 155, 156, 157, 158, 159,
     160, 161, 162, 163, 164, 165, 166, 167, 168, 169, 170, 171, 172, 173, 174, 175,
     176, 177, 178, 179, 180, 181, 182, 183, 184, 185, 186, 187, 188, 189, 190, 191,
     192, 193, 194, 195, 196, 197, 198, 199, 200, 201, 202, 203, 204, 205, 206, 207,
     208, 209, 210, 211, 212, 213, 214, 215, 216, 217, 218, 219, 220, 221, 222, 223,
     224, 225, 226, 227, 228, 229, 230, 231, 232, 233, 234, 235, 236, 237, 238, 239,
     240, 241, 242, 243, 244, 245, 246, 247, 248, 249, 250, 251, 252, 253, 254, 255]"

definition sqlite3CtypeMap :: "u8 list" where
  "sqlite3CtypeMap =
    [0x00, 0x00, 0x00, 0x00, 0x00, 0x00, 0x00, 0x00,
     0x00, 0x01, 0x01, 0x01, 0x01, 0x01, 0x00, 0x00,
     0x00, 0x00, 0x00, 0x00, 0x00, 0x00, 0x00, 0x00,
     0x00, 0x00, 0x00, 0x00, 0x00, 0x00, 0x00, 0x00,
     0x01, 0x00, 0x00, 0x00, 0x40, 0x00, 0x00, 0x00,
     0x00, 0x00, 0x00, 0x00, 0x00, 0x00, 0x00, 0x00,
     0x0c, 0x0c, 0x0c, 0x0c, 0x0c, 0x0c, 0x0c, 0x0c,
     0x0c, 0x0c, 0x00, 0x00, 0x00, 0x00, 0x00, 0x00,
     0x00, 0x0a, 0x0a, 0x0a, 0x0a, 0x0a, 0x0a, 0x02,
     0x02, 0x02, 0x02, 0x02, 0x02, 0x02, 0x02, 0x02,
     0x02, 0x02, 0x02, 0x02, 0x02, 0x02, 0x02, 0x02,
     0x02, 0x02, 0x02, 0x00, 0x00, 0x00, 0x00, 0x40,
     0x00, 0x2a, 0x2a, 0x2a, 0x2a, 0x2a, 0x2a, 0x22,
     0x22, 0x22, 0x22, 0x22, 0x22, 0x22, 0x22, 0x22,
     0x22, 0x22, 0x22, 0x22, 0x22, 0x22, 0x22, 0x22,
     0x22, 0x22, 0x22, 0x00, 0x00, 0x00, 0x00, 0x00,
     0x40, 0x40, 0x40, 0x40, 0x40, 0x40, 0x40, 0x40,
     0x40, 0x40, 0x40, 0x40, 0x40, 0x40, 0x40, 0x40,
     0x40, 0x40, 0x40, 0x40, 0x40, 0x40, 0x40, 0x40,
     0x40, 0x40, 0x40, 0x40, 0x40, 0x40, 0x40, 0x40,
     0x40, 0x40, 0x40, 0x40, 0x40, 0x40, 0x40, 0x40,
     0x40, 0x40, 0x40, 0x40, 0x40, 0x40, 0x40, 0x40,
     0x40, 0x40, 0x40, 0x40, 0x40, 0x40, 0x40, 0x40,
     0x40, 0x40, 0x40, 0x40, 0x40, 0x40, 0x40, 0x40,
     0x40, 0x40, 0x40, 0x40, 0x40, 0x40, 0x40, 0x40,
     0x40, 0x40, 0x40, 0x40, 0x40, 0x40, 0x40, 0x40,
     0x40, 0x40, 0x40, 0x40, 0x40, 0x40, 0x40, 0x40,
     0x40, 0x40, 0x40, 0x40, 0x40, 0x40, 0x40, 0x40,
     0x40, 0x40, 0x40, 0x40, 0x40, 0x40, 0x40, 0x40,
     0x40, 0x40, 0x40, 0x40, 0x40, 0x40, 0x40, 0x40,
     0x40, 0x40, 0x40, 0x40, 0x40, 0x40, 0x40, 0x40,
     0x40, 0x40, 0x40, 0x40, 0x40, 0x40, 0x40, 0x40]"

section \<open>The macros\<close>

definition UpperToLower :: "u8 \<Rightarrow> u8" where
  "UpperToLower x = sqlite3UpperToLower ! unat x"

definition ctype :: "u8 \<Rightarrow> u8" where
  "ctype x = sqlite3CtypeMap ! unat x"

definition sqlite3Toupper :: "u8 \<Rightarrow> u8" where
  "sqlite3Toupper x = x AND NOT (ctype x AND 0x20)"

definition sqlite3Isspace :: "u8 \<Rightarrow> bool" where
  "sqlite3Isspace x \<longleftrightarrow> ctype x AND 0x01 \<noteq> 0"

definition sqlite3Isalnum :: "u8 \<Rightarrow> bool" where
  "sqlite3Isalnum x \<longleftrightarrow> ctype x AND 0x06 \<noteq> 0"

definition sqlite3Isalpha :: "u8 \<Rightarrow> bool" where
  "sqlite3Isalpha x \<longleftrightarrow> ctype x AND 0x02 \<noteq> 0"

definition sqlite3Isdigit :: "u8 \<Rightarrow> bool" where
  "sqlite3Isdigit x \<longleftrightarrow> ctype x AND 0x04 \<noteq> 0"

definition sqlite3Isxdigit :: "u8 \<Rightarrow> bool" where
  "sqlite3Isxdigit x \<longleftrightarrow> ctype x AND 0x08 \<noteq> 0"

text \<open>\<^verbatim>\<open>IdChar\<close> of \<^verbatim>\<open>tokenize.c\<close> and \<^verbatim>\<open>complete.c\<close>: an identifier character.\<close>

definition IdChar :: "u8 \<Rightarrow> bool" where
  "IdChar x \<longleftrightarrow> ctype x AND 0x46 \<noteq> 0"

section \<open>What the classes hold\<close>

lemma table_class:
  assumes "length t = 256" and "list_all (\<lambda>(n, c). P n c) (List.enumerate 0 t)"
  shows "P (unat (x :: u8)) (t ! unat x)"
proof -
  have "(unat x, t ! unat x) \<in> set (List.enumerate 0 t)"
    using unat_u8_less [of x] assms(1) by (simp add: in_set_enumerate_eq)
  with assms(2) show ?thesis by (auto simp: list_all_iff)
qed

lemma length_tables: "length sqlite3CtypeMap = 256" "length sqlite3UpperToLower = 256"
  by (simp_all add: sqlite3CtypeMap_def sqlite3UpperToLower_def)

lemma ctype_classes:
  "list_all (\<lambda>(n, c). (c AND 0x01 \<noteq> 0 \<longleftrightarrow> (9 \<le> n \<and> n \<le> 13) \<or> n = 32)
      \<and> (c AND 0x04 \<noteq> 0 \<longleftrightarrow> 48 \<le> n \<and> n \<le> 57)
      \<and> (c AND 0x02 \<noteq> 0 \<longleftrightarrow> (65 \<le> n \<and> n \<le> 90) \<or> (97 \<le> n \<and> n \<le> 122))
      \<and> (c AND 0x08 \<noteq> 0 \<longleftrightarrow>
          (48 \<le> n \<and> n \<le> 57) \<or> (65 \<le> n \<and> n \<le> 70) \<or> (97 \<le> n \<and> n \<le> 102))
      \<and> (c AND 0x06 \<noteq> 0 \<longleftrightarrow> c AND 0x02 \<noteq> 0 \<or> c AND 0x04 \<noteq> 0)
      \<and> (c AND 0x46 \<noteq> 0 \<longleftrightarrow> c AND 0x06 \<noteq> 0 \<or> n = 36 \<or> n = 95 \<or> 128 \<le> n)
      \<and> (c AND 0x20 = (if 97 \<le> n \<and> n \<le> 122 then 0x20 else 0)))
    (List.enumerate 0 sqlite3CtypeMap)"
  by code_simp

lemmas ctype_class = table_class [OF length_tables(1) ctype_classes, folded ctype_def]

lemma Isspace_iff: "sqlite3Isspace x \<longleftrightarrow> (9 \<le> x \<and> x \<le> 13) \<or> x = 32"
  using ctype_class [of x] by (simp add: sqlite3Isspace_def word_le_nat_alt word_unat_eq_iff [of x])

lemma Isdigit_iff: "sqlite3Isdigit x \<longleftrightarrow> 48 \<le> x \<and> x \<le> 57"
  using ctype_class [of x] by (simp add: sqlite3Isdigit_def word_le_nat_alt)

lemma Isalpha_iff: "sqlite3Isalpha x \<longleftrightarrow> (65 \<le> x \<and> x \<le> 90) \<or> (97 \<le> x \<and> x \<le> 122)"
  using ctype_class [of x] by (simp add: sqlite3Isalpha_def word_le_nat_alt)

lemma Isxdigit_iff: "sqlite3Isxdigit x \<longleftrightarrow>
    (48 \<le> x \<and> x \<le> 57) \<or> (65 \<le> x \<and> x \<le> 70) \<or> (97 \<le> x \<and> x \<le> 102)"
  using ctype_class [of x] by (simp add: sqlite3Isxdigit_def word_le_nat_alt)

lemma Isalnum_iff: "sqlite3Isalnum x \<longleftrightarrow> sqlite3Isalpha x \<or> sqlite3Isdigit x"
  using ctype_class [of x] by (auto simp: sqlite3Isalnum_def sqlite3Isalpha_def sqlite3Isdigit_def)

lemma IdChar_iff: "IdChar x \<longleftrightarrow> sqlite3Isalnum x \<or> x = 36 \<or> x = 95 \<or> 128 \<le> x"
  using ctype_class [of x] by (auto simp: IdChar_def sqlite3Isalnum_def word_le_nat_alt word_unat_eq_iff [of x])

lemma Toupper_eq: "sqlite3Toupper x = (if 97 \<le> x \<and> x \<le> 122 then x AND NOT 0x20 else x)"
  using ctype_class [of x] by (simp add: sqlite3Toupper_def word_le_nat_alt)

lemma UpperToLower_table:
  "list_all (\<lambda>(n, c). c = word_of_nat (if 65 \<le> n \<and> n \<le> 90 then n + 32 else n))
    (List.enumerate 0 sqlite3UpperToLower)"
  by code_simp

lemma UpperToLower_eq: "UpperToLower x = (if 65 \<le> x \<and> x \<le> 90 then x + 32 else x)"
  using table_class [OF length_tables(2) UpperToLower_table, of x]
  by (simp add: UpperToLower_def word_le_nat_alt)

lemma UpperToLower_idem: "UpperToLower (UpperToLower x) = UpperToLower x"
  by (auto simp: UpperToLower_eq word_le_nat_alt unat_word_ariths)

section \<open>Properties\<close>

text \<open>
  The class table \<open>sqlite3CtypeMap\<close> and the case table \<open>sqlite3UpperToLower\<close> are the
  ASCII classes and the ASCII lower-case mapping, for every byte; bytes from 128 on are
  identifier characters and nothing else.
\<close>

theorem ctype_tables_ascii:
  "(sqlite3Isspace x \<longleftrightarrow> (9 \<le> x \<and> x \<le> 13) \<or> x = 32) \<and>
   (sqlite3Isdigit x \<longleftrightarrow> 48 \<le> x \<and> x \<le> 57) \<and>
   (sqlite3Isalpha x \<longleftrightarrow> (65 \<le> x \<and> x \<le> 90) \<or> (97 \<le> x \<and> x \<le> 122)) \<and>
   (IdChar x \<longleftrightarrow> sqlite3Isalpha x \<or> sqlite3Isdigit x \<or> x = 36 \<or> x = 95 \<or> 128 \<le> x) \<and>
   UpperToLower x = (if 65 \<le> x \<and> x \<le> 90 then x + 32 else x) \<and>
   sqlite3Toupper x = (if 97 \<le> x \<and> x \<le> 122 then x AND NOT 0x20 else x)"
  by (intro conjI Isspace_iff Isdigit_iff Isalpha_iff UpperToLower_eq Toupper_eq)
    (simp add: IdChar_iff Isalnum_iff)

end
