(* ===== verification/IntOps.thy ===== *)
theory IntOps
  imports Prelude "HOL-Library.Signed_Division"
begin

text \<open>
  Overflow-checked 64-bit arithmetic of \<^verbatim>\<open>src/util.c\<close>: \<open>sqlite3AddInt64\<close>,
  \<open>sqlite3SubInt64\<close>, \<open>sqlite3MulInt64\<close> and \<open>sqlite3AbsInt32\<close>. An \<^verbatim>\<open>i64\<close> is an
  integer in \<open>[-2^63, 2^63)\<close> and every C operation on it wraps around with \<open>i64\<close>; signed
  overflow is undefined in C, and wrap-around is what the supported compilers generate.
  Addition and subtraction are exact. Multiplication misses overflows of two operands
  that both fit in 32 bits.
\<close>

section \<open>64-bit signed integers\<close>

definition i64 :: "int \<Rightarrow> int" where
  "i64 x = signed_take_bit 63 x"

definition is_i64 :: "int \<Rightarrow> bool" where
  "is_i64 x \<longleftrightarrow> - 9223372036854775808 \<le> x \<and> x < 9223372036854775808"

abbreviation (input) LARGEST_INT64 :: int where "LARGEST_INT64 \<equiv> 0x7fffffffffffffff"
abbreviation (input) SMALLEST_INT64 :: int where "SMALLEST_INT64 \<equiv> - 0x8000000000000000"

lemma i64_id: "is_i64 x \<Longrightarrow> i64 x = x"
  by (simp add: is_i64_def i64_def signed_take_bit_int_eq_self)

lemma is_i64_i64: "is_i64 (i64 x)"
  using signed_take_bit_int_less_exp [of 63 x] signed_take_bit_int_greater_eq_minus_exp [of 63 x]
  by (simp add: is_i64_def i64_def)

section \<open>The operations\<close>

text \<open>Each returns the C return value and the value of \<^verbatim>\<open>*pA\<close> afterwards.\<close>

definition sqlite3AddInt64 :: "int \<Rightarrow> int \<Rightarrow> int \<times> int" where
  "sqlite3AddInt64 iA iB =
     (if 0 \<le> iB
      then (if 0 < iA \<and> i64 (LARGEST_INT64 - iA) < iB then (1, iA) else (0, i64 (iA + iB)))
      else (if iA < 0 \<and> i64 (iB + 1) < i64 (- i64 (iA + LARGEST_INT64)) then (1, iA)
            else (0, i64 (iA + iB))))"

definition sqlite3SubInt64 :: "int \<Rightarrow> int \<Rightarrow> int \<times> int" where
  "sqlite3SubInt64 iA iB =
     (if iB = SMALLEST_INT64
      then (if 0 \<le> iA then (1, iA) else (0, i64 (iA - iB)))
      else sqlite3AddInt64 iA (i64 (- iB)))"

abbreviation (input) TWOPOWER32 :: int where "TWOPOWER32 \<equiv> 0x100000000"
abbreviation (input) TWOPOWER31 :: int where "TWOPOWER31 \<equiv> 0x80000000"

definition sqlite3MulInt64 :: "int \<Rightarrow> int \<Rightarrow> int \<times> int" where
  "sqlite3MulInt64 iA iB =
     (let iA1 = iA sdiv TWOPOWER32; iA0 = iA smod TWOPOWER32;
          iB1 = iB sdiv TWOPOWER32; iB0 = iB smod TWOPOWER32
      in if i64 (iA1 * iB1) \<noteq> 0 then (1, iA)
         else let r = i64 (i64 (iA1 * iB0) + i64 (iA0 * iB1))
              in if r < - TWOPOWER31 \<or> TWOPOWER31 \<le> r then (1, iA)
                 else let r = i64 (r * TWOPOWER32); (rc, r) = sqlite3AddInt64 r (i64 (iA0 * iB0))
                      in if rc \<noteq> 0 then (1, iA) else (0, r))"

text \<open>A 32-bit \<^verbatim>\<open>int\<close>.\<close>

definition sqlite3AbsInt32 :: "int \<Rightarrow> int" where
  "sqlite3AbsInt32 x =
     (if 0 \<le> x then x else if x = - 0x80000000 then 0x7fffffff else - x)"

section \<open>Correctness\<close>

lemma AddInt64_correct:
  assumes "is_i64 iA" and "is_i64 iB"
  shows "sqlite3AddInt64 iA iB = (if is_i64 (iA + iB) then (0, iA + iB) else (1, iA))"
proof -
  have "0 < iA \<Longrightarrow> i64 (LARGEST_INT64 - iA) = LARGEST_INT64 - iA"
    and "iA < 0 \<Longrightarrow> i64 (iA + LARGEST_INT64) = iA + LARGEST_INT64"
    and "iA < 0 \<Longrightarrow> i64 (- (iA + LARGEST_INT64)) = - (iA + LARGEST_INT64)"
    and "iB < 0 \<Longrightarrow> i64 (iB + 1) = iB + 1"
    using assms by (auto intro!: i64_id simp: is_i64_def)
  with assms show ?thesis
    by (auto simp: sqlite3AddInt64_def i64_id) (auto simp: is_i64_def i64_id)
qed

lemma SubInt64_correct:
  assumes "is_i64 iA" and "is_i64 iB"
  shows "sqlite3SubInt64 iA iB = (if is_i64 (iA - iB) then (0, iA - iB) else (1, iA))"
proof (cases "iB = SMALLEST_INT64")
  case True
  with assms show ?thesis
    by (auto simp: sqlite3SubInt64_def is_i64_def i64_id)
next
  case False
  with assms have "is_i64 (- iB)" by (auto simp: is_i64_def)
  with False assms show ?thesis
    by (simp add: sqlite3SubInt64_def i64_id AddInt64_correct)
qed

text \<open>
  Multiplication splits each operand at \<open>2^32\<close> with C's truncating division. The first lemma
  is that split; the second is the case in which the second operand has no high part.
\<close>

lemma split32:
  fixes a :: int
  defines "hi \<equiv> a sdiv TWOPOWER32" and "lo \<equiv> a smod TWOPOWER32"
  shows "a = hi * TWOPOWER32 + lo" and "\<bar>lo\<bar> < TWOPOWER32"
    and "0 < hi \<Longrightarrow> 0 \<le> lo" and "hi < 0 \<Longrightarrow> lo \<le> 0"
proof -
  show eq: "a = hi * TWOPOWER32 + lo"
    unfolding hi_def lo_def by (rule sdiv_mult_smod_eq [symmetric])
  have "hi = a div TWOPOWER32" if "0 \<le> a"
    using that by (cases "a = 0") (simp_all add: hi_def signed_divide_int_def)
  with eq have pos: "0 \<le> lo \<and> lo < TWOPOWER32 \<and> 0 \<le> hi" if "0 \<le> a"
    using that div_mult_mod_eq [of a TWOPOWER32] pos_mod_bound [of TWOPOWER32 a]
      pos_mod_sign [of TWOPOWER32 a] pos_imp_zdiv_nonneg_iff [of TWOPOWER32 a] by linarith
  have "hi = - ((- a) div TWOPOWER32)" if "a < 0"
    using that by (simp add: hi_def signed_divide_int_def)
  with eq have neg: "lo \<le> 0 \<and> - TWOPOWER32 < lo \<and> hi \<le> 0" if "a < 0"
    using that div_mult_mod_eq [of "- a" TWOPOWER32] pos_mod_bound [of TWOPOWER32 "- a"]
      pos_mod_sign [of TWOPOWER32 "- a"] pos_imp_zdiv_nonneg_iff [of TWOPOWER32 "- a"] by linarith
  show "\<bar>lo\<bar> < TWOPOWER32" and "0 < hi \<Longrightarrow> 0 \<le> lo" and "hi < 0 \<Longrightarrow> lo \<le> 0"
    using pos neg by (cases "0 \<le> a"; simp)+
qed

lemma split32_hi:
  shows "a sdiv TWOPOWER32 = 0 \<longleftrightarrow> \<bar>a\<bar> < TWOPOWER32"
    and "\<bar>a\<bar> < TWOPOWER32 \<Longrightarrow> a smod TWOPOWER32 = a"
    and "is_i64 a \<Longrightarrow> \<bar>a sdiv TWOPOWER32\<bar> \<le> TWOPOWER31"
proof -
  define hi lo where "hi = a sdiv TWOPOWER32" and "lo = a smod TWOPOWER32"
  note s = split32 [of a, folded hi_def lo_def]
  consider "hi = 0" | "1 \<le> hi" "0 \<le> lo" | "hi \<le> - 1" "lo \<le> 0"
    using s(3,4) by linarith
  then have zero: "hi = 0 \<longleftrightarrow> \<bar>a\<bar> < TWOPOWER32"
    using s(1,2) by cases linarith+
  then show "a sdiv TWOPOWER32 = 0 \<longleftrightarrow> \<bar>a\<bar> < TWOPOWER32"
    unfolding hi_def .
  show "a smod TWOPOWER32 = a" if "\<bar>a\<bar> < TWOPOWER32"
    using s(1) zero that unfolding lo_def [symmetric] by linarith
  show "\<bar>a sdiv TWOPOWER32\<bar> \<le> TWOPOWER31" if "is_i64 a"
    using s(1,2) that unfolding hi_def [symmetric] is_i64_def by linarith
qed

lemma mult_bound: "\<bar>x\<bar> \<le> m \<Longrightarrow> \<bar>y\<bar> \<le> n \<Longrightarrow> \<bar>x * y :: int\<bar> \<le> m * n"
  unfolding abs_mult by (intro mult_mono) auto

lemma is_i64_mult:
  assumes "\<bar>x\<bar> \<le> TWOPOWER31" and "\<bar>y\<bar> < TWOPOWER32"
  shows "is_i64 (x * y)"
proof -
  have "\<bar>x * y\<bar> \<le> TWOPOWER31 * (TWOPOWER32 - 1)"
    using assms by (intro mult_bound) auto
  then show ?thesis by (auto simp: is_i64_def)
qed

text \<open>The tail of the routine, once the sum \<open>r\<close> of the mixed products is known.\<close>

lemma mul_tail:
  assumes "x * y = r * TWOPOWER32 + p"
    and "- TWOPOWER31 \<le> r \<Longrightarrow> r < TWOPOWER31 \<Longrightarrow> is_i64 p"
    and "0 < r \<Longrightarrow> 0 \<le> p" and "r < 0 \<Longrightarrow> p \<le> 0"
  shows "(if r < - TWOPOWER31 \<or> TWOPOWER31 \<le> r then (1, x)
          else let r' = i64 (r * TWOPOWER32); (rc, q) = sqlite3AddInt64 r' (i64 p)
               in if rc \<noteq> 0 then (1, x) else (0, q))
       = (if is_i64 (x * y) then (0, x * y) else (1, x))"
proof (cases "r < - TWOPOWER31 \<or> TWOPOWER31 \<le> r")
  case True
  with assms have "\<not> is_i64 (x * y)" by (auto simp: is_i64_def)
  with True show ?thesis by auto
next
  case False
  then have "is_i64 (r * TWOPOWER32)" by (auto simp: is_i64_def)
  with False assms show ?thesis
    by (simp add: i64_id AddInt64_correct Let_def)
qed

lemma MulInt64_comm:
  "sqlite3MulInt64 x y = (rc, q) \<Longrightarrow> sqlite3MulInt64 y x = (rc, if rc = 0 then q else y)"
  by (auto simp: sqlite3MulInt64_def Let_def mult.commute add.commute split: prod.splits if_splits)

lemma MulInt64_low:
  assumes a: "is_i64 x" and b: "\<bar>y\<bar> < TWOPOWER32"
    and p: "TWOPOWER32 \<le> \<bar>x\<bar> \<or> is_i64 (x * y)"
  shows "sqlite3MulInt64 x y = (if is_i64 (x * y) then (0, x * y) else (1, x))"
proof -
  define hi lo where "hi = x sdiv TWOPOWER32" and "lo = x smod TWOPOWER32"
  note s = split32 [of x, folded hi_def lo_def]
  have hy: "is_i64 (hi * y)"
    using split32_hi(3) [OF a] b unfolding hi_def by (rule is_i64_mult)
  have "x * y = hi * y * TWOPOWER32 + lo * y"
    by (subst s(1)) (simp add: algebra_simps)
  moreover have "0 < hi * y \<Longrightarrow> 0 \<le> lo * y" and "hi * y < 0 \<Longrightarrow> lo * y \<le> 0"
    using s(3,4) by (auto simp: zero_less_mult_iff mult_less_0_iff zero_le_mult_iff mult_le_0_iff)
  moreover have "is_i64 (lo * y)" if "- TWOPOWER31 \<le> hi * y" and "hi * y < TWOPOWER31"
  proof (cases "hi = 0")
    case True
    then have "lo = x" and "\<bar>x\<bar> < TWOPOWER32"
      using s(1) split32_hi(1) [of x] unfolding hi_def by linarith+
    with p show ?thesis by simp
  next
    case False
    then have "1 * \<bar>y\<bar> \<le> \<bar>hi\<bar> * \<bar>y\<bar>"
      by (intro mult_right_mono) auto
    with that have "\<bar>y\<bar> \<le> TWOPOWER31"
      unfolding abs_mult [symmetric] by linarith
    then show ?thesis
      using is_i64_mult [of y lo] s(2) by (simp add: mult.commute)
  qed
  ultimately have "(if hi * y < - TWOPOWER31 \<or> TWOPOWER31 \<le> hi * y then (1, x)
          else let r' = i64 (hi * y * TWOPOWER32); (rc, q) = sqlite3AddInt64 r' (i64 (lo * y))
               in if rc \<noteq> 0 then (1, x) else (0, q))
       = (if is_i64 (x * y) then (0, x * y) else (1, x))"
    by (intro mul_tail) auto
  moreover have "y sdiv TWOPOWER32 = 0" "y smod TWOPOWER32 = y"
    using split32_hi(1,2) [of y] b by auto
  ultimately show ?thesis
    by (auto simp: sqlite3MulInt64_def i64_id [OF hy] i64_id [of 0, unfolded is_i64_def] Let_def
        simp flip: hi_def lo_def split: if_splits prod.splits)
qed

lemma MulInt64_correct:
  assumes "is_i64 x" and "is_i64 y"
    and "TWOPOWER32 \<le> \<bar>x\<bar> \<or> TWOPOWER32 \<le> \<bar>y\<bar> \<or> is_i64 (x * y)"
  shows "sqlite3MulInt64 x y = (if is_i64 (x * y) then (0, x * y) else (1, x))"
proof -
  have comm: ?thesis if "sqlite3MulInt64 y x = (if is_i64 (y * x) then (0, y * x) else (1, y))"
    using MulInt64_comm [of y x] that by (auto simp: mult.commute split: if_splits)
  show ?thesis
  proof (cases "TWOPOWER32 \<le> \<bar>x\<bar> \<and> TWOPOWER32 \<le> \<bar>y\<bar>")
    case True
    define h k where "h = x sdiv TWOPOWER32" and "k = y sdiv TWOPOWER32"
    have "h * k \<noteq> 0"
      using True split32_hi(1) [of x] split32_hi(1) [of y] by (auto simp: h_def k_def)
    moreover have "is_i64 (h * k)"
      using split32_hi(3) [OF assms(1)] split32_hi(3) [OF assms(2)] unfolding h_def k_def
      by (intro is_i64_mult) linarith+
    ultimately have "sqlite3MulInt64 x y = (1, x)"
      by (simp add: sqlite3MulInt64_def i64_id Let_def flip: h_def k_def)
    moreover have "TWOPOWER32 * TWOPOWER32 \<le> \<bar>x * y\<bar>"
      unfolding abs_mult using True by (intro mult_mono) auto
    then have "\<not> is_i64 (x * y)" by (auto simp: is_i64_def)
    ultimately show ?thesis by simp
  next
    case False
    then consider "\<bar>y\<bar> < TWOPOWER32" "TWOPOWER32 \<le> \<bar>x\<bar> \<or> is_i64 (x * y)"
      | "\<bar>x\<bar> < TWOPOWER32" "TWOPOWER32 \<le> \<bar>y\<bar> \<or> is_i64 (y * x)"
      using assms(3) by (auto simp: mult.commute)
    then show ?thesis
      using MulInt64_low [of x y] MulInt64_low [of y x] assms comm by cases auto
  qed
qed

lemma MulInt64_misses_overflow:
  assumes "\<bar>x\<bar> < TWOPOWER32" and "\<bar>y\<bar> < TWOPOWER32"
  shows "sqlite3MulInt64 x y = (0, i64 (x * y))"
proof -
  have 0: "i64 0 = 0" by (simp add: i64_def)
  have "sqlite3AddInt64 0 (i64 (x * y)) = (0, i64 (x * y))"
    using AddInt64_correct [of 0 "i64 (x * y)"] is_i64_i64 by (simp add: is_i64_def)
  with assms split32_hi(1,2) [of x] split32_hi(1,2) [of y] show ?thesis
    by (simp add: sqlite3MulInt64_def Let_def 0)
qed

lemma AbsInt32_correct:
  "- 2147483648 \<le> x \<Longrightarrow> x < 2147483648 \<Longrightarrow> sqlite3AbsInt32 x = min \<bar>x\<bar> 2147483647"
  by (auto simp: sqlite3AbsInt32_def)

section \<open>Properties\<close>

text \<open>
  Addition and subtraction of 64-bit integers report overflow (result code 1, operand
  unchanged) exactly when the mathematical result does not fit, and else store that result.
\<close>

theorem AddSubInt64_exact:
  assumes "is_i64 x" and "is_i64 y"
  shows "sqlite3AddInt64 x y = (if is_i64 (x + y) then (0, x + y) else (1, x)) \<and>
    sqlite3SubInt64 x y = (if is_i64 (x - y) then (0, x - y) else (1, x))"
  using AddInt64_correct [OF assms] SubInt64_correct [OF assms] by simp

theorem AddSubInt64_exact_witness:
  "sqlite3AddInt64 9223372036854775807 1 = (1, 9223372036854775807) \<and>
   sqlite3SubInt64 9223372036854775807 1 = (0, 9223372036854775806)"
  using AddSubInt64_exact [of 9223372036854775807 1] by (simp add: is_i64_def)

text \<open>
  C24: Multiplication of 64-bit integers is exact, and reports overflow exactly when the
  product does not fit, if one of the operands is at least \<open>2^32\<close> in magnitude or the
  product fits.
\<close>

theorem MulInt64_exact:
  assumes "is_i64 x" and "is_i64 y"
    and "TWOPOWER32 \<le> \<bar>x\<bar> \<or> TWOPOWER32 \<le> \<bar>y\<bar> \<or> is_i64 (x * y)"
  shows "sqlite3MulInt64 x y = (if is_i64 (x * y) then (0, x * y) else (1, x))"
  by (rule MulInt64_correct [OF assms])

theorem MulInt64_exact_witness:
  "sqlite3MulInt64 4294967296 4294967296 = (1, 4294967296) \<and>
   sqlite3MulInt64 (- 4294967296) 2147483648 = (0, - 9223372036854775808)"
  using MulInt64_exact [of 4294967296 4294967296] MulInt64_exact [of "- 4294967296" 2147483648]
  by (simp add: is_i64_def)

text \<open>
  When both operands of a multiplication are below \<open>2^32\<close> in magnitude no overflow is
  ever reported: the wrapped product is stored with result code 0, although the product
  of two such operands need not fit in 64 bits.
\<close>

theorem MulInt64_silent_overflow:
  assumes "\<bar>x\<bar> < TWOPOWER32" and "\<bar>y\<bar> < TWOPOWER32"
  shows "sqlite3MulInt64 x y = (0, i64 (x * y))"
  by (rule MulInt64_misses_overflow [OF assms])

theorem MulInt64_silent_overflow_witness:
  "sqlite3MulInt64 4294967295 4294967295 = (0, - 8589934591) \<and> \<not> is_i64 (4294967295 * 4294967295)"
  using MulInt64_silent_overflow [of 4294967295 4294967295]
  by (simp add: i64_def signed_take_bit_eq_take_bit_shift take_bit_eq_mod is_i64_def)

end
