(* ===== verification/Strings.thy ===== *)
theory Strings
  imports Ctype IntOps
begin

text \<open>
  String routines of \<^verbatim>\<open>src/util.c\<close>: length (\<open>sqlite3Strlen30\<close>), removal of quotes
  (\<open>sqlite3Dequote\<close>), case-insensitive comparison (\<open>sqlite3_stricmp\<close>, \<open>sqlite3_strnicmp\<close>),
  decimal numbers (\<open>sqlite3Atoi64\<close>, \<open>compare2pow63\<close>, \<open>sqlite3GetInt32\<close>, \<open>sqlite3Atoi\<close>)
  and hexadecimal digits (\<open>sqlite3HexToInt\<close>, \<open>sqlite3HexToBlob\<close>). A buffer is the list of its
  bytes and a pointer into it an index; a read outside the buffer is \<open>None\<close>. A \<^verbatim>\<open>char\<close> is
  read as unsigned: the routines only compare it with ASCII characters.
\<close>

section \<open>Length and comparison\<close>

fun strlen_loop :: "u8 list \<Rightarrow> nat \<Rightarrow> nat option" where
  "strlen_loop [] n = None"
| "strlen_loop (c # z) n = (if c \<noteq> 0 then strlen_loop z (Suc n) else Some n)"

definition sqlite3Strlen30 :: "u8 list option \<Rightarrow> nat option" where
  "sqlite3Strlen30 z =
     (case z of None \<Rightarrow> Some 0 | Some z \<Rightarrow> map_option (\<lambda>n. 0x3fffffff AND n) (strlen_loop z 0))"

fun sqlite3_stricmp :: "u8 list \<Rightarrow> u8 list \<Rightarrow> int option" where
  "sqlite3_stricmp (a # as) (b # bs) =
     (if a \<noteq> 0 \<and> UpperToLower a = UpperToLower b then sqlite3_stricmp as bs
      else Some (uint (UpperToLower a) - uint (UpperToLower b)))"
| "sqlite3_stricmp _ _ = None"

fun sqlite3_strnicmp :: "u8 list \<Rightarrow> u8 list \<Rightarrow> nat \<Rightarrow> int option" where
  "sqlite3_strnicmp as bs 0 = Some 0"
| "sqlite3_strnicmp (a # as) (b # bs) (Suc n) =
     (if a \<noteq> 0 \<and> UpperToLower a = UpperToLower b then sqlite3_strnicmp as bs n
      else Some (uint (UpperToLower a) - uint (UpperToLower b)))"
| "sqlite3_strnicmp _ _ (Suc n) = None"

section \<open>Quotes\<close>

text \<open>The loop over \<open>i\<close> and \<open>j\<close>; the first argument is the number of bytes left to read.\<close>

fun dequote_loop :: "nat \<Rightarrow> u8 \<Rightarrow> u8 list \<Rightarrow> nat \<Rightarrow> nat \<Rightarrow> (u8 list \<times> nat) option" where
  "dequote_loop 0 q z i j = None"
| "dequote_loop (Suc k) q z i j = do {
     c \<leftarrow> rd z i;
     (if c = 0 then Some (z, j)
      else if c = q then do {
        c' \<leftarrow> rd z (i + 1);
        (if c' = q then dequote_loop k q (z[j := q]) (i + 2) (j + 1) else Some (z, j))
      } else dequote_loop k q (z[j := c]) (i + 1) (j + 1))
   }"

text \<open>The result is the buffer afterwards and the C return value.\<close>

definition sqlite3Dequote :: "u8 list \<Rightarrow> (u8 list \<times> int) option" where
  "sqlite3Dequote z = do {
     c \<leftarrow> rd z 0;
     (if c = 39 \<or> c = 34 \<or> c = 96 \<or> c = 91 then do {
        (z, j) \<leftarrow> dequote_loop (length z) (if c = 91 then 93 else c) z 1 0;
        Some (z[j := 0], int j)
      } else Some (z, - 1))
   }"

section \<open>Decimal numbers\<close>

text \<open>\<^verbatim>\<open>while( z<zEnd && P(*z) ) z+=incr;\<close> The first argument is at least \<^verbatim>\<open>zEnd-z\<close>.\<close>

fun skip_loop :: "nat \<Rightarrow> (u8 \<Rightarrow> bool) \<Rightarrow> nat \<Rightarrow> u8 list \<Rightarrow> nat \<Rightarrow> nat \<Rightarrow> nat option" where
  "skip_loop 0 P incr z p zEnd = Some p"
| "skip_loop (Suc k) P incr z p zEnd =
     (if p < zEnd then do {
        c \<leftarrow> rd z p;
        (if P c then skip_loop k P incr z (p + incr) zEnd else Some p)
      } else Some p)"

text \<open>\<^verbatim>\<open>for(i=0; &zNum[i]<zEnd && (c=zNum[i])>='0' && c<='9'; i+=incr)\<close>\<close>

fun digit_loop ::
  "nat \<Rightarrow> nat \<Rightarrow> u8 list \<Rightarrow> nat \<Rightarrow> nat \<Rightarrow> nat \<Rightarrow> u8 \<Rightarrow> u64 \<Rightarrow> (nat \<times> u8 \<times> u64) option" where
  "digit_loop 0 incr z zNum zEnd i c u = Some (i, c, u)"
| "digit_loop (Suc k) incr z zNum zEnd i c u =
     (if zNum + i < zEnd then do {
        c \<leftarrow> rd z (zNum + i);
        (if 48 \<le> c \<and> c \<le> 57
         then digit_loop k incr z zNum zEnd (i + incr) c (u * 10 + ucast c - 48)
         else Some (i, c, u))
      } else Some (i, c, u))"

text \<open>The digits of \<open>2^63\<close> without the last one.\<close>

definition pow63 :: "u8 list" where
  "pow63 = [57, 50, 50, 51, 51, 55, 50, 48, 51, 54, 56, 53, 52, 55, 55, 53, 56, 48]"

fun pow63_loop :: "u8 list \<Rightarrow> u8 list \<Rightarrow> nat \<Rightarrow> nat \<Rightarrow> int option" where
  "pow63_loop [] z incr p = Some 0"
| "pow63_loop (d # ds) z incr p = do {
     c \<leftarrow> rd z p;
     let r = (uint c - uint d) * 10;
     (if r = 0 then pow63_loop ds z incr (p + incr) else Some r)
   }"

definition compare2pow63 :: "u8 list \<Rightarrow> nat \<Rightarrow> nat \<Rightarrow> int option" where
  "compare2pow63 z zNum incr = do {
     c \<leftarrow> pow63_loop pow63 z incr zNum;
     (if c = 0 then do { d \<leftarrow> rd z (zNum + 18 * incr); Some (uint d - 56) } else Some c)
   }"

definition SQLITE_UTF8 :: nat where "SQLITE_UTF8 = 1"
definition SQLITE_UTF16LE :: nat where "SQLITE_UTF16LE = 2"
definition SQLITE_UTF16BE :: nat where "SQLITE_UTF16BE = 3"

text \<open>\<^verbatim>\<open>for(i=3-enc; i<length && zNum[i]==0; i+=2){}\<close>\<close>

fun utf16_zeros :: "nat \<Rightarrow> u8 list \<Rightarrow> nat \<Rightarrow> nat \<Rightarrow> nat option" where
  "utf16_zeros 0 z i n = Some i"
| "utf16_zeros (Suc k) z i n =
     (if i < n then do { c \<leftarrow> rd z i; (if c = 0 then utf16_zeros k z (i + 2) n else Some i) }
      else Some i)"

text \<open>The result is the C return value and the value of \<^verbatim>\<open>*pNum\<close>.\<close>

definition sqlite3Atoi64 :: "u8 list \<Rightarrow> nat \<Rightarrow> nat \<Rightarrow> (int \<times> int) option" where
  "sqlite3Atoi64 z n enc = do {
     (incr, nonNum, zEnd, p) \<leftarrow>
       (if enc = SQLITE_UTF8 then Some (1, False, n, 0)
        else do {
          i \<leftarrow> utf16_zeros n z (3 - enc) n;
          Some (2, i < n, i + enc - 3, enc mod 2)
        });
     p \<leftarrow> skip_loop (zEnd - p) sqlite3Isspace incr z p zEnd;
     (neg, p) \<leftarrow>
       (if p < zEnd then do {
          c \<leftarrow> rd z p;
          Some (if c = 45 then (True, p + incr) else if c = 43 then (False, p + incr) else (False, p))
        } else Some (False, p));
     let zStart = p;
     p \<leftarrow> skip_loop (zEnd - p) (\<lambda>c. c = 48) incr z p zEnd;
     (i, c, u) \<leftarrow> digit_loop (zEnd - p) incr z p zEnd 0 0 0;
     let num = (if uint u > LARGEST_INT64 then SMALLEST_INT64
                else if neg then - uint u else uint u);
     (if (c \<noteq> 0 \<and> p + i < zEnd) \<or> (i = 0 \<and> zStart = p) \<or> i > 19 * incr \<or> nonNum then Some (1, num)
      else if i < 19 * incr then Some (0, num)
      else do {
        c \<leftarrow> compare2pow63 z p incr;
        Some (if c < 0 then 0 else if c > 0 then 1 else if neg then 0 else 2, num)
      })
   }"

text \<open>A result \<open>Some None\<close> is the C result 0, \<open>Some (Some v)\<close> the result 1 with \<^verbatim>\<open>*pValue\<close> set.\<close>

fun int32_digits :: "nat \<Rightarrow> u8 list \<Rightarrow> nat \<Rightarrow> nat \<Rightarrow> int \<Rightarrow> (nat \<times> int) option" where
  "int32_digits 0 z p i v = Some (i, v)"
| "int32_digits (Suc k) z p i v = do {
     c \<leftarrow> rd z (p + i);
     (if 48 \<le> c \<and> c \<le> 57 then int32_digits k z p (i + 1) (v * 10 + (uint c - 48)) else Some (i, v))
   }"

text \<open>\<^verbatim>\<open>while( zNum[0]=='0' ) zNum++;\<close>\<close>

fun zeros_loop :: "nat \<Rightarrow> u8 list \<Rightarrow> nat \<Rightarrow> nat option" where
  "zeros_loop 0 z p = None"
| "zeros_loop (Suc k) z p = do { c \<leftarrow> rd z p; (if c = 48 then zeros_loop k z (p + 1) else Some p) }"

definition sqlite3GetInt32 :: "u8 list \<Rightarrow> int option option" where
  "sqlite3GetInt32 z = do {
     c \<leftarrow> rd z 0;
     let (neg, p) = (if c = 45 then (True, 1) else if c = 43 then (False, 1) else (False, 0));
     p \<leftarrow> zeros_loop (length z) z p;
     (i, v) \<leftarrow> int32_digits 11 z p 0 0;
     Some (if i > 10 then None
           else if v - of_bool neg > 2147483647 then None
           else if neg then Some (- v) else Some v)
   }"

definition sqlite3Atoi :: "u8 list option \<Rightarrow> int option" where
  "sqlite3Atoi z =
     (case z of None \<Rightarrow> Some 0
      | Some z \<Rightarrow> map_option (\<lambda>r. case r of None \<Rightarrow> 0 | Some v \<Rightarrow> v) (sqlite3GetInt32 z))"

section \<open>Hexadecimal digits\<close>

definition sqlite3HexToInt :: "int \<Rightarrow> u8" where
  "sqlite3HexToInt h = (let h = h + 9 * (1 AND drop_bit 6 h) in word_of_int (h AND 0xf))"

text \<open>The loop; the last byte written is the terminator.\<close>

function hexblob_loop :: "u8 list \<Rightarrow> nat \<Rightarrow> nat \<Rightarrow> u8 list option" where
  "hexblob_loop z i n =
     (if i < n then do {
        a \<leftarrow> rd z i; b \<leftarrow> rd z (i + 1);
        zs \<leftarrow> hexblob_loop z (i + 2) n;
        Some ((push_bit 4 (sqlite3HexToInt (uint a)) OR sqlite3HexToInt (uint b)) # zs)
      } else Some [0])"
  by pat_completeness auto
termination by (relation "measure (\<lambda>(z, i, n). n - i)") auto

declare hexblob_loop.simps [simp del]

text \<open>\<open>ok\<close> tells whether the allocation succeeds; \<open>Some None\<close> is a null result.\<close>

definition sqlite3HexToBlob :: "bool \<Rightarrow> u8 list \<Rightarrow> nat \<Rightarrow> u8 list option option" where
  "sqlite3HexToBlob ok z n =
     (if \<not> ok then Some None else map_option Some (hexblob_loop z 0 (n - 1)))"

section \<open>Comparison is the order of the lower-cased strings\<close>

lemma UpperToLower_0_iff: "UpperToLower x = 0 \<longleftrightarrow> x = 0"
  by (auto simp: UpperToLower_eq word_le_nat_alt unat_word_ariths word_unat_eq_iff)

lemma stricmp_post:
  "0 \<notin> set a \<Longrightarrow> 0 \<notin> set b \<Longrightarrow>
   \<exists>c. sqlite3_stricmp (a @ 0 # r) (b @ 0 # s) = Some c \<and>
     (c = 0 \<longleftrightarrow> map UpperToLower a = map UpperToLower b) \<and>
     (c < 0 \<longleftrightarrow> ord_class.lexordp (map UpperToLower a) (map UpperToLower b))"
proof (induction a arbitrary: b)
  case Nil
  have "UpperToLower 0 = 0" by (simp add: UpperToLower_0_iff)
  moreover have "0 < uint (UpperToLower (hd b))" if "b \<noteq> []"
    using Nil that UpperToLower_0_iff [of "hd b"] by (cases b) (auto simp: uint_0_iff order.strict_iff_order)
  ultimately show ?case by (cases b) auto
next
  case (Cons x a)
  have 0: "UpperToLower 0 = 0" "UpperToLower x \<noteq> 0" "0 < uint (UpperToLower x)" "x \<noteq> 0"
    using Cons.prems by (auto simp: UpperToLower_0_iff uint_0_iff order.strict_iff_order)
  show ?case
  proof (cases b)
    case Nil
    then show ?thesis using 0 by simp
  next
    case (Cons y b')
    then show ?thesis
      using Cons.IH [of b'] Cons.prems 0 by (auto simp: word_less_def word_uint_eq_iff)
  qed
qed

lemma strnicmp_0_iff:
  "length a = n \<Longrightarrow> length b = n \<Longrightarrow> 0 \<notin> set a \<Longrightarrow>
     \<exists>c. sqlite3_strnicmp (a @ r) (b @ s) n = Some c \<and> (c = 0 \<longleftrightarrow> map UpperToLower a = map UpperToLower b)"
proof (induction n arbitrary: a b)
  case 0
  then show ?case by simp
next
  case (Suc n)
  then obtain x a' y b' where "a = x # a'" "b = y # b'"
    by (metis length_Suc_conv)
  with Suc show ?case by (auto simp: word_uint_eq_iff)
qed

section \<open>Quotes are undone\<close>

definition quote_chars :: "u8 \<Rightarrow> u8 list \<Rightarrow> u8 list" where
  "quote_chars q s = concat (map (\<lambda>c. if c = q then [q, q] else [c]) s)"

lemma rd_behind: "rd (a @ b @ c # d) (length a + length b) = Some c"
  by (simp add: rd_def nth_append)

lemma dequote_loop_post:
  "0 \<notin> set s \<Longrightarrow> q \<noteq> 0 \<Longrightarrow> t \<noteq> q \<Longrightarrow> gap \<noteq> [] \<Longrightarrow> length s < k \<Longrightarrow>
   \<exists>gap'. gap' \<noteq> [] \<and>
     dequote_loop k q (out @ gap @ quote_chars q s @ q # t # r) (length out + length gap) (length out) =
     Some (out @ s @ gap' @ q # t # r, length out + length s)"
proof (induction s arbitrary: out gap k)
  case Nil
  then obtain k' where k: "k = Suc k'" by (cases k) auto
  have "rd (out @ gap @ q # t # r) (length out + length gap) = Some q"
    "rd (out @ gap @ q # t # r) (length out + length gap + 1) = Some t"
    using rd_behind [of out gap q "t # r"] rd_behind [of out "gap @ [q]" t r] by simp_all
  with Nil k show ?case by (intro exI [of _ gap]) (simp add: quote_chars_def)
next
  case (Cons c s)
  then obtain k' where k: "k = Suc k'" by (cases k) auto
  obtain g gap1 where gap: "gap = g # gap1" using Cons.prems(4) by (cases gap) auto
  define rest where "rest = quote_chars q s @ q # t # r"
  have k': "length s < k'" using Cons.prems(5) k by simp
  have IH: "\<exists>gap'. gap' \<noteq> [] \<and>
     dequote_loop k' q ((out @ [c]) @ gap2 @ rest) (length out + 1 + length gap2) (length out + 1) =
     Some (out @ (c # s) @ gap' @ q # t # r, length out + length (c # s))" if "gap2 \<noteq> []" for gap2
    using Cons.IH [of gap2 k' "out @ [c]"] Cons.prems that k' by (simp add: rest_def)
  show ?case
  proof (cases "c = q")
    case True
    let ?z = "out @ gap @ q # q # rest"
    have z: "out @ gap @ quote_chars q (c # s) @ q # t # r = ?z"
      using True by (simp add: quote_chars_def rest_def)
    have rds: "rd ?z (length out + length gap) = Some q" "rd ?z (length out + length gap + 1) = Some q"
      using rd_behind [of out gap q "q # rest"] rd_behind [of out "gap @ [q]" q rest] by simp_all
    have "?z[length out := q] = (out @ [c]) @ (gap1 @ [q, q]) @ rest"
      using gap True by simp
    with rds IH [of "gap1 @ [q, q]"] gap Cons.prems show ?thesis
      unfolding z k by simp
  next
    case False
    let ?z = "out @ gap @ c # rest"
    have z: "out @ gap @ quote_chars q (c # s) @ q # t # r = ?z"
      using False by (simp add: quote_chars_def rest_def)
    have rds: "rd ?z (length out + length gap) = Some c"
      using rd_behind [of out gap c rest] .
    have "?z[length out := c] = (out @ [c]) @ (gap1 @ [c]) @ rest"
      using gap by simp
    with rds False IH [of "gap1 @ [c]"] gap Cons.prems show ?thesis
      unfolding z k by simp
  qed
qed

lemma Dequote_post:
  assumes "0 \<notin> set s" and "q \<in> {39, 34, 96}" and "t \<noteq> q"
  shows "\<exists>r'. sqlite3Dequote (q # quote_chars q s @ q # t # r) = Some (s @ 0 # r', int (length s))"
proof -
  let ?z = "q # quote_chars q s @ q # t # r"
  have "length s \<le> length (quote_chars q s)"
    by (induction s) (auto simp: quote_chars_def)
  then obtain gap' where gap: "gap' \<noteq> []"
    "dequote_loop (length ?z) q ?z 1 0 = Some (s @ gap' @ q # t # r, length s)"
    using dequote_loop_post [of s q t "[q]" "length ?z" "[]" r] assms by auto
  then obtain g gap1 where "gap' = g # gap1" by (cases gap') auto
  moreover have "rd ?z 0 = Some q" by simp
  moreover have "(if q = 91 then 93 else q) = q" "q = 39 \<or> q = 34 \<or> q = 96 \<or> q = 91" using assms(2) by auto
  ultimately show ?thesis
    using gap(2) unfolding sqlite3Dequote_def by (simp del: dequote_loop.simps list.size)
qed

section \<open>Decimal numbers are read exactly\<close>

definition is_digit :: "u8 \<Rightarrow> bool" where "is_digit c \<longleftrightarrow> 48 \<le> c \<and> c \<le> 57"

text \<open>The number that a list of digits stands for.\<close>

fun dec :: "u8 list \<Rightarrow> int" where
  "dec [] = 0"
| "dec (d # ds) = (uint d - 48) * 10 ^ length ds + dec ds"

lemma digit_range: "is_digit d \<Longrightarrow> 0 \<le> uint d - 48 \<and> uint d - 48 \<le> 9"
  by (simp add: is_digit_def word_le_def)

lemma dec_range: "list_all is_digit ds \<Longrightarrow> 0 \<le> dec ds \<and> dec ds < 10 ^ length ds"
proof (induction ds)
  case (Cons d ds)
  then have "(uint d - 48) * 10 ^ length ds \<le> 9 * 10 ^ length ds" "0 \<le> (uint d - 48) * (10 :: int) ^ length ds"
    using digit_range [of d] by (auto intro: mult_right_mono)
  moreover have "0 \<le> dec ds" "dec ds < 10 ^ length ds" using Cons by auto
  ultimately show ?case unfolding dec.simps list.size add_Suc_right add_0_right power_Suc by linarith
qed simp

lemma dec_lower: "list_all is_digit (d # ds) \<Longrightarrow> d \<noteq> 48 \<Longrightarrow> 10 ^ length ds \<le> dec (d # ds)"
proof -
  assume d: "list_all is_digit (d # ds)" "d \<noteq> 48"
  then have "1 \<le> uint d - 48"
    using digit_range [of d] by (auto simp: word_uint_eq_iff)
  then have "1 * 10 ^ length ds \<le> (uint d - 48) * (10 :: int) ^ length ds"
    by (intro mult_right_mono) auto
  moreover have "0 \<le> dec ds" using d dec_range [of ds] by simp
  ultimately show ?thesis unfolding dec.simps by linarith
qed

lemma dec_foldl:
  "foldl (\<lambda>n c. n * 10 + (uint c - 48)) a ds = a * 10 ^ length ds + dec ds"
  by (induction ds arbitrary: a) (simp_all add: algebra_simps)

lemma dec_zeros: "dec (replicate k 48 @ ds) = dec ds"
  by (induction k) simp_all

lemma rd_at: "rd (pre @ c # rest) (length pre) = Some c"
  by (simp add: rd_def nth_append)

lemma skip_loop_post:
  "list_all P ws \<Longrightarrow> (rest = [] \<or> \<not> P (hd rest)) \<Longrightarrow> length ws + length rest \<le> k \<Longrightarrow>
     skip_loop k P 1 (pre @ ws @ rest) (length pre) (length (pre @ ws @ rest)) = Some (length pre + length ws)"
proof (induction ws arbitrary: pre k)
  case Nil
  then show ?case by (cases k; cases rest) (auto simp: rd_at)
next
  case (Cons w ws)
  then obtain k' where "k = Suc k'" by (cases k) auto
  with Cons.IH [of k' "pre @ [w]"] Cons.prems show ?case by (simp add: rd_at)
qed

lemma digit_loop_post:
  "list_all is_digit ds \<Longrightarrow> (rest = [] \<or> \<not> is_digit (hd rest)) \<Longrightarrow> length ds + length rest \<le> k \<Longrightarrow>
   length pre = p + i \<Longrightarrow>
     \<exists>c'. digit_loop k 1 (pre @ ds @ rest) p (length (pre @ ds @ rest)) i c (word_of_int a) =
       Some (i + length ds, c', word_of_int (a * 10 ^ length ds + dec ds)) \<and> (rest \<noteq> [] \<longrightarrow> c' = hd rest)"
proof (induction ds arbitrary: pre k i c a)
  case Nil
  have "rd (pre @ rest) (p + i) = Some (hd rest)" if "rest \<noteq> []"
    using that Nil(4) rd_at [of pre "hd rest" "tl rest"] by simp
  with Nil show ?case by (cases k; cases rest) (auto simp: is_digit_def)
next
  case (Cons d ds)
  then obtain k' where k: "k = Suc k'" by (cases k) auto
  have d: "48 \<le> d \<and> d \<le> 57" using Cons.prems by (simp add: is_digit_def)
  have rd: "rd (pre @ d # ds @ rest) (p + i) = Some d" using Cons.prems(4) rd_at [of pre d "ds @ rest"] by simp
  have u: "word_of_int a * 10 + ucast d - 48 = (word_of_int (a * 10 + (uint d - 48)) :: u64)"
    by (subst ucast_eq) simp
  let ?L = "pre @ (d # ds) @ rest"
  have step: "digit_loop k 1 ?L p (length ?L) i c (word_of_int a) =
      digit_loop k' 1 ?L p (length ?L) (i + 1) d (word_of_int (a * 10 + (uint d - 48)))"
    using Cons.prems(4) d rd by (simp only: k digit_loop.simps u [symmetric]) simp
  have val: "(a * 10 + (uint d - 48)) * 10 ^ length ds + dec ds = a * 10 ^ length (d # ds) + dec (d # ds)"
    by (simp add: algebra_simps)
  have "\<exists>c'. digit_loop k' 1 ((pre @ [d]) @ ds @ rest) p (length ((pre @ [d]) @ ds @ rest)) (i + 1) d
      (word_of_int (a * 10 + (uint d - 48))) =
      Some (i + 1 + length ds, c', word_of_int (a * 10 ^ length (d # ds) + dec (d # ds))) \<and> (rest \<noteq> [] \<longrightarrow> c' = hd rest)"
    unfolding val [symmetric] using Cons.prems k by (intro Cons.IH) auto
  then show ?case unfolding step by simp
qed

lemma pow63_loop_post:
  "list_all is_digit ds \<Longrightarrow> list_all is_digit ps \<Longrightarrow> length ds = length ps \<Longrightarrow>
   \<exists>r. pow63_loop ps (pre @ ds @ rest) 1 (length pre) = Some r \<and>
     (r = 0 \<longleftrightarrow> ds = ps) \<and> (r < 0 \<longleftrightarrow> dec ds < dec ps) \<and> (0 < r \<longleftrightarrow> dec ps < dec ds)"
proof (induction ds arbitrary: ps pre)
  case Nil
  then show ?case by simp
next
  case (Cons d ds)
  then obtain q qs where ps: "ps = q # qs" by (cases ps) auto
  have len: "length ds = length qs" using Cons.prems ps by simp
  show ?case
  proof (cases "d = q")
    case True
    then show ?thesis
      using Cons.IH [of qs "pre @ [d]"] Cons.prems ps rd_at [of pre d "ds @ rest"] by simp
  next
    case False
    then have ne: "uint d \<noteq> uint q" by (simp add: word_uint_eq_iff)
    have *: "dec (x # xs) < dec (y # ys)"
      if "uint x < uint y" "list_all is_digit xs" "list_all is_digit ys" "length xs = length ys" for x y xs ys
    proof -
      have "(uint x - 48) * 10 ^ length xs + 10 ^ length xs \<le> (uint y - 48) * (10 :: int) ^ length ys"
        using that mult_right_mono [of "uint x - 48 + 1" "uint y - 48" "10 ^ length ys :: int"]
        by (simp add: algebra_simps)
      then show ?thesis using dec_range [of xs] dec_range [of ys] that unfolding dec.simps by linarith
    qed
    have "uint d < uint q \<longleftrightarrow> dec (d # ds) < dec (q # qs)" "uint q < uint d \<longleftrightarrow> dec (q # qs) < dec (d # ds)"
      using * [of d q ds qs] * [of q d qs ds] ne len Cons.prems ps by (auto simp: linorder_neq_iff)
    then show ?thesis
      using ne ps False rd_at [of pre d "ds @ rest"] by (auto simp: Let_def)
  qed
qed

lemma pow63_digits: "list_all is_digit pow63" "length pow63 = 18" "dec pow63 = 922337203685477580"
  by (simp_all add: pow63_def is_digit_def)

lemma compare2pow63_post:
  assumes "list_all is_digit ds" and "length ds = 19"
  shows "\<exists>r. compare2pow63 (pre @ ds @ rest) (length pre) 1 = Some r \<and>
    (r = 0 \<longleftrightarrow> dec ds = 9223372036854775808) \<and> (r < 0 \<longleftrightarrow> dec ds < 9223372036854775808)"
proof -
  obtain d where d: "ds = butlast ds @ [d]"
    using assms(2) by (metis append_butlast_last_id list.size(3) zero_neq_numeral)
  define es where "es = butlast ds"
  have ds: "ds = es @ [d]" using d by (simp add: es_def)
  have es: "length es = 18" "list_all is_digit es" "is_digit d" using assms ds by auto
  have dec: "dec ds = dec es * 10 + (uint d - 48)"
    using dec_foldl [of 0 ds] dec_foldl [of 0 es] by (simp add: ds)
  obtain r where r: "pow63_loop pow63 (pre @ es @ [d] @ rest) 1 (length pre) = Some r"
    "r = 0 \<longleftrightarrow> es = pow63" "r < 0 \<longleftrightarrow> dec es < dec pow63" "0 < r \<longleftrightarrow> dec pow63 < dec es"
    using pow63_loop_post [of es pow63 pre "[d] @ rest"] es pow63_digits by auto
  have rd: "rd (pre @ es @ [d] @ rest) (length pre + 18) = Some d"
    using rd_at [of "pre @ es" d rest] es by simp
  have inj: "es = pow63 \<longleftrightarrow> dec es = dec pow63"
    using r(2-4) by linarith
  show ?thesis
    using digit_range [OF es(3)] r rd inj dec pow63_digits(3)
    unfolding compare2pow63_def ds by (auto split: if_splits)
qed

lemma not_space_digit: "is_digit c \<Longrightarrow> \<not> sqlite3Isspace c"
  by (auto simp: is_digit_def Isspace_iff word_le_nat_alt)

lemma split_zeros:
  obtains k ds' where "ds = replicate k 48 @ ds'" and "ds' = [] \<or> hd ds' \<noteq> (48 :: u8)"
proof -
  have "takeWhile (\<lambda>c. c = 48) ds = replicate (length (takeWhile (\<lambda>c. c = 48) ds)) (48 :: u8)"
    by (induction ds) auto
  moreover have "dropWhile (\<lambda>c. c = 48) ds = [] \<or> hd (dropWhile (\<lambda>c. c = 48) ds) \<noteq> 48"
    using hd_dropWhile [of "\<lambda>c. c = 48" ds] by blast
  ultimately show ?thesis
    using that [of "length (takeWhile (\<lambda>c. c = 48) ds)" "dropWhile (\<lambda>c. c = 48) ds"]
      takeWhile_dropWhile_id [of "\<lambda>c. c = 48" ds] by simp
qed

text \<open>The number that a sign and digits stand for.\<close>

definition signed :: "u8 list \<Rightarrow> u8 list \<Rightarrow> int" where
  "signed sg ds = (if sg = [45] then - dec ds else dec ds)"

text \<open>The code behind the sign: zeros, digits, and the verdict.\<close>

lemma Atoi64_steps:
  assumes ws: "list_all sqlite3Isspace ws" and sg: "sg \<in> {[], [43], [45]}"
    and ds: "list_all is_digit ds" "ds \<noteq> []" and rest: "rest = [] \<or> \<not> is_digit (hd rest)"
    and split: "ds = replicate k 48 @ ds'" "ds' = [] \<or> hd ds' \<noteq> 48"
  defines "z \<equiv> ws @ sg @ ds @ rest"
  defines "num \<equiv> (if uint (word_of_int (dec ds') :: u64) > LARGEST_INT64 then SMALLEST_INT64
      else if sg = [45] then - uint (word_of_int (dec ds') :: u64) else uint (word_of_int (dec ds') :: u64))"
  shows "sqlite3Atoi64 z (length z) SQLITE_UTF8 =
     (if (rest \<noteq> [] \<and> hd rest \<noteq> 0) \<or> length ds' > 19 then Some (1, num)
      else if length ds' < 19 then Some (0, num)
      else do {
        c \<leftarrow> compare2pow63 z (length (ws @ sg @ replicate k 48)) 1;
        Some (if c < 0 then 0 else if c > 0 then 1 else if sg = [45] then 0 else 2, num)
      })"
proof -
  obtain d ds1 where d: "ds = d # ds1" "is_digit d" using ds by (cases ds) auto
  have nosp: "\<not> sqlite3Isspace (hd (sg @ ds @ rest))"
    using sg d not_space_digit [OF d(2)] by (auto simp: Isspace_iff)
  let ?p1 = "length ws" and ?p2 = "length (ws @ sg)" and ?p3 = "length (ws @ sg @ replicate k 48)"
  have 1: "skip_loop (length z - 0) sqlite3Isspace 1 z 0 (length z) = Some ?p1"
    using skip_loop_post [OF ws, of "sg @ ds @ rest" "length z" "[]"] nosp by (simp add: z_def)
  have lt: "?p1 < length z" using d by (simp add: z_def)
  have rd1: "rd z ?p1 = Some (hd (sg @ ds))"
    using rd_at [of ws "hd (sg @ ds)" "tl (sg @ ds) @ rest"] d sg by (auto simp: z_def)
  have 2: "(if hd (sg @ ds) = 45 then (True, ?p1 + 1) else if hd (sg @ ds) = 43 then (False, ?p1 + 1) else (False, ?p1))
      = (sg = [45], ?p2)"
    using sg d by (auto simp: is_digit_def)
  have stop: "ds' @ rest = [] \<or> hd (ds' @ rest) \<noteq> 48"
    using split rest by (cases ds'; cases rest) (auto simp: is_digit_def)
  have 3: "skip_loop (length z - ?p2) (\<lambda>c. c = 48) 1 z ?p2 (length z) = Some ?p3"
    using skip_loop_post [of "\<lambda>c. c = 48" "replicate k 48" "ds' @ rest" "length z - ?p2" "ws @ sg"] stop split
    by (simp add: z_def list_all_iff)
  obtain c' where 4: "digit_loop (length z - ?p3) 1 z ?p3 (length z) 0 0 0 =
       Some (length ds', c', word_of_int (dec ds'))" "rest \<noteq> [] \<longrightarrow> c' = hd rest"
    using digit_loop_post [of ds' rest "length z - ?p3" "ws @ sg @ replicate k 48" ?p3 0 0 0] split ds rest
    by (auto simp: z_def list_all_iff)
  have 5: "?p3 + length ds' < length z \<longleftrightarrow> rest \<noteq> []" and 6: "?p2 = ?p3 \<and> length ds' = 0 \<longleftrightarrow> False"
    using split ds by (auto simp: z_def)
  define p1 p2 p3 c0 neg i where p: "p1 = ?p1" "p2 = ?p2" "p3 = ?p3" "c0 = hd (sg @ ds)" "neg = (sg = [45])"
    "i = length ds'"
  have 2: "(if c0 = 45 then (True, p1 + 1) else if c0 = 43 then (False, p1 + 1) else (False, p1)) = (neg, p2)"
    using 2 unfolding p .
  then have sg_suc: "(if c0 = 45 then (True, Suc p1) else if c0 = 43 then (False, Suc p1) else (False, p1)) = (neg, p2)"
    by (simp only: Suc_eq_plus1)
  have "sqlite3Atoi64 z (length z) SQLITE_UTF8 =
    (let c = c'; p = p3 in
     (if (c \<noteq> 0 \<and> p + i < length z) \<or> (i = 0 \<and> p2 = p) \<or> i > 19 * 1 \<or> False then Some (1, num)
      else if i < 19 * 1 then Some (0, num)
      else do {
        c \<leftarrow> compare2pow63 z p 1;
        Some (if c < 0 then 0 else if c > 0 then 1 else if neg then 0 else 2, num)
      }))"
    using 1 3 4(1) lt rd1 unfolding sqlite3Atoi64_def Let_def num_def p [symmetric] by (simp add: 2 sg_suc del: One_nat_def)
  also have "\<dots> = (if (rest \<noteq> [] \<and> hd rest \<noteq> 0) \<or> length ds' > 19 then Some (1, num)
      else if length ds' < 19 then Some (0, num)
      else do {
        c \<leftarrow> compare2pow63 z ?p3 1;
        Some (if c < 0 then 0 else if c > 0 then 1 else if sg = [45] then 0 else 2, num)
      })"
    unfolding p Let_def using 4(2) 5 6 by auto
  finally show ?thesis .
qed

lemma uint_word_of_dec:
  assumes "list_all is_digit ds" and "length ds \<le> 19"
  shows "uint (word_of_int (dec ds) :: u64) = dec ds"
proof -
  have "(10 :: int) ^ length ds \<le> 10 ^ 19" using assms(2) by (intro power_increasing) auto
  then have "dec ds < 2 ^ 64" using dec_range [OF assms(1)] by simp
  then show ?thesis using dec_range [OF assms(1)] by (simp add: unsigned_of_int take_bit_int_eq_self)
qed

lemma dec_big:
  assumes "list_all is_digit ds" and "ds = [] \<or> hd ds \<noteq> 48" and "19 < length ds"
  shows "9223372036854775808 < dec ds"
proof -
  obtain d ds1 where d: "ds = d # ds1" using assms(3) by (cases ds) auto
  have "(10 :: int) ^ 19 \<le> 10 ^ length ds1" using assms(3) d by (intro power_increasing) auto
  with dec_lower [of d ds1] assms d show ?thesis by simp
qed

lemma dec_small:
  assumes "list_all is_digit ds" and "length ds < 19"
  shows "dec ds < 9223372036854775808"
proof -
  have "(10 :: int) ^ length ds \<le> 10 ^ 18" using assms(2) by (intro power_increasing) auto
  then show ?thesis using dec_range [OF assms(1)] by simp
qed

lemma Atoi64_post:
  assumes "list_all sqlite3Isspace ws" and "sg \<in> {[], [43], [45]}" and ds: "list_all is_digit ds" "ds \<noteq> []"
    and "rest = [] \<or> \<not> is_digit (hd rest)"
  shows "\<exists>rc num. sqlite3Atoi64 (ws @ sg @ ds @ rest) (length (ws @ sg @ ds @ rest)) SQLITE_UTF8 = Some (rc, num) \<and>
    rc = (if rest \<noteq> [] \<and> hd rest \<noteq> 0 then 1 else if is_i64 (signed sg ds) then 0
          else if signed sg ds = 9223372036854775808 then 2 else 1) \<and>
    (is_i64 (signed sg ds) \<longrightarrow> num = signed sg ds) \<and>
    (signed sg ds = 9223372036854775808 \<longrightarrow> num = SMALLEST_INT64)"
proof -
  obtain k ds' where split: "ds = replicate k 48 @ ds'" "ds' = [] \<or> hd ds' \<noteq> 48"
    by (rule split_zeros)
  then have d: "list_all is_digit ds'" "dec ds = dec ds'"
    using ds by (auto simp: dec_zeros list_all_iff)
  note steps = Atoi64_steps [OF assms split]
  have "0 \<le> dec ds'" using dec_range [OF d(1)] by simp
  then have v: "is_i64 (signed sg ds) \<longleftrightarrow> dec ds' < 9223372036854775808 \<or> sg = [45] \<and> dec ds' = 9223372036854775808"
    "signed sg ds = 9223372036854775808 \<longleftrightarrow> dec ds' = 9223372036854775808 \<and> sg \<noteq> [45]"
    by (auto simp: signed_def is_i64_def d(2))
  consider "length ds' > 19" | "length ds' < 19" | "length ds' = 19" by linarith
  then show ?thesis
  proof cases
    case 1
    with dec_big [OF d(1) split(2)] v steps show ?thesis by auto
  next
    case 2
    with dec_small [OF d(1)] uint_word_of_dec [OF d(1)] v steps show ?thesis
      by (auto simp: signed_def d(2))
  next
    case 3
    obtain r where "compare2pow63 (ws @ sg @ ds @ rest) (length (ws @ sg @ replicate k 48)) 1 = Some r"
      "r = 0 \<longleftrightarrow> dec ds' = 9223372036854775808" "r < 0 \<longleftrightarrow> dec ds' < 9223372036854775808"
      using compare2pow63_post [OF d(1) 3, of "ws @ sg @ replicate k 48" rest] split(1) by auto
    with 3 uint_word_of_dec [OF d(1)] v steps show ?thesis
      by (auto simp: signed_def d(2) split: if_splits)
  qed
qed

section \<open>32-bit numbers\<close>

lemma int32_digits_post:
  "list_all is_digit ds \<Longrightarrow> \<not> is_digit t \<Longrightarrow> length pre = p + i \<Longrightarrow>
     int32_digits k (pre @ ds @ t # r) p i v =
       (if length ds < k \<or> length ds = k then Some (i + length ds, v * 10 ^ length ds + dec ds)
        else Some (i + k, v * 10 ^ k + dec (take k ds)))"
proof (induction k arbitrary: ds pre i v)
  case 0
  then show ?case by simp
next
  case (Suc k)
  show ?case
  proof (cases ds)
    case Nil
    with Suc.prems rd_at [of pre t r] show ?thesis by (auto simp: is_digit_def)
  next
    case (Cons d ds1)
    have "rd (pre @ d # ds1 @ t # r) (p + i) = Some d"
      using rd_at [of pre d "ds1 @ t # r"] Suc.prems(3) by simp
    then have step: "int32_digits (Suc k) (pre @ ds @ t # r) p i v =
        int32_digits k ((pre @ [d]) @ ds1 @ t # r) p (i + 1) (v * 10 + (uint d - 48))"
      using Cons Suc.prems by (simp add: is_digit_def)
    show ?thesis
      unfolding step using Suc.IH [of ds1 "pre @ [d]" "i + 1" "v * 10 + (uint d - 48)"] Suc.prems Cons
      by (simp add: algebra_simps min_def)
  qed
qed

lemma zeros_loop_post:
  "n < k \<Longrightarrow> c \<noteq> 48 \<Longrightarrow> zeros_loop k (pre @ replicate n 48 @ c # r) (length pre) = Some (length pre + n)"
proof (induction n arbitrary: pre k)
  case 0
  then show ?case by (cases k) (auto simp: rd_at)
next
  case (Suc n)
  then obtain k' where "k = Suc k'" by (cases k) auto
  with Suc.IH [of k' "pre @ [48]"] Suc.prems rd_at [of pre 48 "replicate n 48 @ c # r"] show ?case by simp
qed

lemma GetInt32_post:
  assumes "sg \<in> {[], [43], [45]}" and ds: "list_all is_digit ds" "ds \<noteq> []" and "\<not> is_digit t"
  shows "sqlite3GetInt32 (sg @ ds @ t # r) =
    Some (if - 2147483648 \<le> signed sg ds \<and> signed sg ds \<le> 2147483647 then Some (signed sg ds) else None)"
proof -
  obtain k ds' where split: "ds = replicate k 48 @ ds'" "ds' = [] \<or> hd ds' \<noteq> 48"
    by (rule split_zeros)
  then have d: "list_all is_digit ds'" "dec ds = dec ds'"
    using ds by (auto simp: dec_zeros list_all_iff)
  obtain c q where c: "ds' @ t # r = c # q" "c \<noteq> 48"
    using split(2) assms(4) by (cases ds'; cases "t = 48") (auto simp: is_digit_def)
  define z where "z = sg @ ds @ t # r"
  have 1: "rd z 0 = Some (hd (sg @ ds))"
    using assms(1) ds(2) by (cases ds) (auto simp: z_def)
  have hd: "is_digit (hd ds)" using ds by (cases ds) auto
  have 2: "(if hd (sg @ ds) = 45 then (True, 1) else if hd (sg @ ds) = 43 then (False, 1) else (False, 0)) = (sg = [45], length sg)"
    using assms(1) hd by (auto simp: is_digit_def)
  have 3: "zeros_loop (length z) z (length sg) = Some (length sg + k)"
    using zeros_loop_post [of k "length z" c sg q] c split(1) by (simp add: z_def)
  define i v where "i = (if length ds' \<le> 11 then length ds' else 11)" and
    "v = (if length ds' \<le> 11 then dec ds' else dec (take 11 ds'))"
  have 4: "int32_digits 11 z (length sg + k) 0 0 = Some (i, v)"
    using int32_digits_post [OF d(1) assms(4), of "sg @ replicate k 48" "length sg + k" 0 11 r 0] split(1)
    by (auto simp: z_def i_def v_def le_less)
  have z: "sqlite3GetInt32 z = Some (if i > 10 then None else if v - of_bool (sg = [45]) > 2147483647 then None
           else if sg = [45] then Some (- v) else Some v)"
    unfolding sqlite3GetInt32_def Let_def 1 by (simp add: 2 3 4 del: One_nat_def)
  show ?thesis
  proof (cases "length ds' > 10")
    case True
    obtain e es where e: "ds' = e # es" using True by (cases ds') auto
    have "(10 :: int) ^ 10 \<le> 10 ^ length es" using True e by (intro power_increasing) auto
    then have "2147483648 < dec ds'" using dec_lower [of e es] d(1) split(2) e by simp
    then show ?thesis using True z d(2) by (auto simp: z_def i_def signed_def)
  next
    case False
    then show ?thesis using z d(2) dec_range [OF d(1)] unfolding z_def i_def v_def signed_def by auto
  qed
qed

section \<open>Hexadecimal text\<close>

definition hex_digit :: "nat \<Rightarrow> u8" where
  "hex_digit n = (if n < 10 then of_nat (48 + n) else of_nat (55 + n))"

definition hex_byte :: "u8 \<Rightarrow> u8 list" where
  "hex_byte b = [hex_digit (unat b div 16), hex_digit (unat b mod 16)]"

lemma HexToInt_digit: "n < 16 \<Longrightarrow> sqlite3HexToInt (uint (hex_digit n)) = of_nat n"
proof -
  assume "n < 16"
  then have "n = 0 \<or> n = 1 \<or> n = 2 \<or> n = 3 \<or> n = 4 \<or> n = 5 \<or> n = 6 \<or> n = 7 \<or>
      n = 8 \<or> n = 9 \<or> n = 10 \<or> n = 11 \<or> n = 12 \<or> n = 13 \<or> n = 14 \<or> n = 15" by presburger
  then show ?thesis by (auto simp: sqlite3HexToInt_def hex_digit_def drop_bit_eq_div)
qed

lemma hex_join: "push_bit 4 (sqlite3HexToInt (uint (hex_digit (unat b div 16)))) OR
    sqlite3HexToInt (uint (hex_digit (unat b mod 16))) = b"
proof -
  have "unat b div 16 < 16" using unat_u8_less [of b] by simp
  then have 1: "sqlite3HexToInt (uint (hex_digit (unat b div 16))) = of_nat (unat b div 16)"
    and 2: "sqlite3HexToInt (uint (hex_digit (unat b mod 16))) = of_nat (unat b mod 16)"
    by (simp_all add: HexToInt_digit)
  have "of_nat (unat b div 16) = drop_bit 4 b" "of_nat (unat b mod 16) = take_bit 4 b"
    using unat_u8_less [of b]
    by (simp_all add: drop_bit_eq_div take_bit_eq_mod word_unat_eq_iff unat_of_nat unat_div unat_mod)
  then show ?thesis unfolding 1 2 by (simp add: u8_bitwise)
qed

lemma hexblob_loop_post:
  "hexblob_loop (pre @ concat (map hex_byte bs) @ r) (length pre) (length pre + 2 * length bs - 1) = Some (bs @ [0])"
proof (induction bs arbitrary: pre)
  case Nil
  have "\<not> length pre < length pre - 1" by arith
  then show ?case by (subst hexblob_loop.simps) simp
next
  case (Cons b bs)
  let ?a = "hex_digit (unat b div 16)" and ?c = "hex_digit (unat b mod 16)"
  let ?z = "pre @ concat (map hex_byte (b # bs)) @ r"
  have rds: "rd ?z (length pre) = Some ?a" "rd ?z (length pre + 1) = Some ?c"
    using rd_at [of pre ?a "?c # concat (map hex_byte bs) @ r"]
      rd_at [of "pre @ [?a]" ?c "concat (map hex_byte bs) @ r"] by (simp_all add: hex_byte_def)
  have "hexblob_loop ((pre @ hex_byte b) @ concat (map hex_byte bs) @ r) (length (pre @ hex_byte b))
      (length (pre @ hex_byte b) + 2 * length bs - 1) = Some (bs @ [0])"
    by (rule Cons.IH)
  then have rec: "hexblob_loop ?z (length pre + 2) (length pre + 2 * length (b # bs) - 1) = Some (bs @ [0])"
    by (simp add: hex_byte_def)
  show ?case
    using rds rec hex_join [of b] by (subst hexblob_loop.simps) simp
qed

lemma strlen_post: "0 \<notin> set s \<Longrightarrow> strlen_loop (s @ 0 # r) n = Some (n + length s)"
  by (induction s arbitrary: n) auto

section \<open>Properties\<close>

text \<open>
  Removing quotes undoes quoting: a string without NUL, put between two quote
  characters with every quote character inside doubled, comes back as it was, NUL
  terminated, with its length as the result.
\<close>

theorem Dequote_roundtrip:
  assumes "0 \<notin> set s" and "q \<in> {39, 34, 96}" and "t \<noteq> q"
  shows "\<exists>r'. sqlite3Dequote (q # quote_chars q s @ q # t # r) = Some (s @ 0 # r', int (length s))"
  by (rule Dequote_post [OF assms])

theorem Dequote_roundtrip_witness:
  "\<exists>r'. sqlite3Dequote [39, 97, 39, 39, 98, 39, 0] = Some ([97, 39, 98] @ 0 # r', 3)"
  using Dequote_roundtrip [of "[97, 39, 98]" 39 0 "[]"] by (simp add: quote_chars_def)

text \<open>
  \<open>sqlite3_stricmp\<close> of two NUL-terminated strings stays inside them and returns zero,
  a negative or a positive number as the lower-cased strings are equal, lexicographically
  ordered, or ordered the other way round.
\<close>

theorem stricmp_order:
  assumes "0 \<notin> set a" and "0 \<notin> set b"
  shows "\<exists>c. sqlite3_stricmp (a @ 0 # r) (b @ 0 # s) = Some c \<and>
     (c = 0 \<longleftrightarrow> map UpperToLower a = map UpperToLower b) \<and>
     (c < 0 \<longleftrightarrow> ord_class.lexordp (map UpperToLower a) (map UpperToLower b))"
  by (rule stricmp_post [OF assms])

theorem stricmp_order_witness:
  "\<exists>c. sqlite3_stricmp [83, 81, 76, 0] [115, 113, 108, 0] = Some c \<and> c = 0"
  using stricmp_order [of "[83, 81, 76]" "[115, 113, 108]" "[]" "[]"] by (simp add: UpperToLower_eq)

text \<open>
  C25: \<open>sqlite3Atoi64\<close> on white space, a sign and decimal digits returns 0 and the number if
  it fits in 64 bits, 2 exactly for \<open>2^63\<close>, and 1 for everything larger; text behind the
  digits makes it return 1. It never reads outside the text.
\<close>

theorem Atoi64_exact:
  assumes "list_all sqlite3Isspace ws" and "sg \<in> {[], [43], [45]}" and "list_all is_digit ds" and "ds \<noteq> []"
    and "rest = [] \<or> \<not> is_digit (hd rest)"
  shows "\<exists>rc num. sqlite3Atoi64 (ws @ sg @ ds @ rest) (length (ws @ sg @ ds @ rest)) SQLITE_UTF8 = Some (rc, num) \<and>
    rc = (if rest \<noteq> [] \<and> hd rest \<noteq> 0 then 1 else if is_i64 (signed sg ds) then 0
          else if signed sg ds = 9223372036854775808 then 2 else 1) \<and>
    (is_i64 (signed sg ds) \<longrightarrow> num = signed sg ds) \<and>
    (signed sg ds = 9223372036854775808 \<longrightarrow> num = SMALLEST_INT64)"
  by (rule Atoi64_post [OF assms])

theorem Atoi64_exact_witness:
  "\<exists>rc num. sqlite3Atoi64 [32, 45, 48, 52, 50] 5 SQLITE_UTF8 = Some (rc, num) \<and> rc = 0 \<and> num = - 42"
proof -
  have five: "length [32 :: u8, 45, 48, 52, 50] = 5" by simp
  have "\<exists>rc num. sqlite3Atoi64 [32, 45, 48, 52, 50] (length [32 :: u8, 45, 48, 52, 50]) SQLITE_UTF8 =
      Some (rc, num) \<and> rc = 0 \<and> num = - 42"
    using Atoi64_exact [of "[32]" "[45]" "[48, 52, 50]" "[]"]
    by (simp add: Isspace_iff is_digit_def signed_def is_i64_def)
  then show ?thesis unfolding five .
qed

text \<open>
  \<open>sqlite3GetInt32\<close> on a sign and decimal digits followed by another character succeeds
  exactly for the numbers between \<open>-2^31\<close> and \<open>2^31-1\<close>, and gives that number.
\<close>

theorem GetInt32_exact:
  assumes "sg \<in> {[], [43], [45]}" and "list_all is_digit ds" and "ds \<noteq> []" and "\<not> is_digit t"
  shows "sqlite3GetInt32 (sg @ ds @ t # r) =
    Some (if - 2147483648 \<le> signed sg ds \<and> signed sg ds \<le> 2147483647 then Some (signed sg ds) else None)"
  by (rule GetInt32_post [OF assms])

theorem GetInt32_exact_witness:
  "sqlite3GetInt32 [45, 50, 49, 52, 55, 52, 56, 51, 54, 52, 56, 0] = Some (Some (- 2147483648)) \<and>
   sqlite3GetInt32 [50, 49, 52, 55, 52, 56, 51, 54, 52, 56, 0] = Some None"
  using GetInt32_exact [of "[45]" "[50, 49, 52, 55, 52, 56, 51, 54, 52, 56]" 0 "[]"]
    GetInt32_exact [of "[]" "[50, 49, 52, 55, 52, 56, 51, 54, 52, 56]" 0 "[]"]
  by (simp add: is_digit_def signed_def)

text \<open>
  Decoding the hexadecimal digits of a byte string gives the byte string back, with a
  NUL behind it.
\<close>

theorem HexToBlob_roundtrip:
  "sqlite3HexToBlob True (concat (map hex_byte bs) @ r) (2 * length bs) = Some (Some (bs @ [0]))"
  using hexblob_loop_post [of "[]" bs r] by (simp add: sqlite3HexToBlob_def)

end
