(* ===== verification/Bitvec.thy ===== *)
theory Bitvec
  imports Prelude
begin

text \<open>
  The page bitmap of the pager, \<^verbatim>\<open>src/bitvec.c\<close>: a set of page numbers between 1 and
  \<open>iSize\<close>, kept as a straight bitmap, as an open-addressing hash table, or as a tree of
  smaller sets. The operations are \<open>sqlite3BitvecCreate\<close>, \<open>sqlite3BitvecTest\<close>,
  \<open>sqlite3BitvecSet\<close>, \<open>sqlite3BitvecClear\<close>, \<open>sqlite3BitvecSize\<close> and
  \<open>sqlite3BitvecDestroy\<close>. The abstract state is the set \<open>elems\<close>; the invariant is \<open>wf_bv\<close>.

  A C operation that reads outside an array or probes a full table for ever is \<open>None\<close>
  here; the theorems show that it does not happen under the invariant. Memory is an oracle
  \<open>ok\<close>: the \<open>n\<close>-th allocation succeeds if \<open>ok n\<close>, and \<open>n\<close> is passed along.
\<close>

section \<open>Sizes\<close>

text \<open>The macros at the head of the file, for eight-byte pointers and \<^verbatim>\<open>size_t\<close>.\<close>

definition BITVEC_USIZE :: nat where "BITVEC_USIZE = ((512 - 3 * 4) div 8) * 8"
definition BITVEC_SZELEM :: nat where "BITVEC_SZELEM = 8"
definition BITVEC_NELEM :: nat where "BITVEC_NELEM = BITVEC_USIZE div 1"
definition BITVEC_NBIT :: nat where "BITVEC_NBIT = BITVEC_NELEM * BITVEC_SZELEM"
definition BITVEC_NINT :: nat where "BITVEC_NINT = BITVEC_USIZE div 4"
definition BITVEC_MXHASH :: nat where "BITVEC_MXHASH = BITVEC_NINT div 2"
definition BITVEC_NPTR :: nat where "BITVEC_NPTR = BITVEC_USIZE div 8"
definition BITVEC_HASH :: "nat \<Rightarrow> nat" where "BITVEC_HASH x = (x * 1) mod BITVEC_NINT"

lemmas bitvec_sizes = BITVEC_USIZE_def BITVEC_SZELEM_def BITVEC_NELEM_def BITVEC_NBIT_def
  BITVEC_NINT_def BITVEC_MXHASH_def BITVEC_NPTR_def

section \<open>Representation\<close>

text \<open>
  \<^verbatim>\<open>struct Bitvec\<close>: the union \<^verbatim>\<open>u\<close> is a straight bitmap when
  \<^verbatim>\<open>iSize<=BITVEC_NBIT\<close>, else a hash table with \<^verbatim>\<open>nSet\<close> entries when \<^verbatim>\<open>iDivisor==0\<close>,
  else an array of pointers to subtables. The three cases are the three constructors; a
  null pointer is \<open>None\<close>, an empty hash slot is 0.
\<close>

datatype bitvec =
    Bitmap (iSize: nat) "u8 list"
  | HashTab (iSize: nat) nat "nat list"
  | SubTab (iSize: nat) nat "bitvec option list"

type_synonym mem_oracle = "nat \<Rightarrow> bool"

definition zeroed_bitvec :: "nat \<Rightarrow> bitvec" where
  "zeroed_bitvec sz =
     (if sz \<le> BITVEC_NBIT then Bitmap sz (replicate BITVEC_NELEM 0)
      else HashTab sz 0 (replicate BITVEC_NINT 0))"

definition sqlite3BitvecCreate :: "mem_oracle \<Rightarrow> nat \<Rightarrow> nat \<Rightarrow> bitvec option \<times> nat" where
  "sqlite3BitvecCreate ok sz n = (if ok n then Some (zeroed_bitvec sz) else None, Suc n)"

lemma size_subtab [termination_simp]:
  "rd subs k = Some (Some q) \<Longrightarrow> size q < Suc (size_list (size_option size) subs)"
  for subs :: "bitvec option list"
proof -
  assume "rd subs k = Some (Some q)"
  then have "Some q \<in> set subs"
    by (auto simp: rd_def split: if_splits) (metis nth_mem)
  then have "size_option size (Some q) \<le> size_list (size_option size) subs"
    by (rule size_list_estimation') simp
  then show ?thesis by simp
qed

lemma size_zeroed [termination_simp]:
  "(Some q, n') = sqlite3BitvecCreate ok sz n \<Longrightarrow> size q = 0"
  by (auto simp: sqlite3BitvecCreate_def zeroed_bitvec_def split: if_splits)

section \<open>Test\<close>

text \<open>The probe loop \<^verbatim>\<open>while( p->u.aHash[h] )\<close>; the first argument bounds the steps.\<close>

fun test_probe :: "nat \<Rightarrow> nat list \<Rightarrow> nat \<Rightarrow> nat \<Rightarrow> bool option" where
  "test_probe 0 t h i = None"
| "test_probe (Suc k) t h i = do {
     v \<leftarrow> rd t h;
     if v = 0 then Some False
     else if v = i then Some True
     else test_probe k t ((h + 1) mod BITVEC_NINT) i
   }"

fun test_loop :: "bitvec \<Rightarrow> nat \<Rightarrow> bool option" where
  "test_loop (Bitmap sz bm) i = do {
     b \<leftarrow> rd bm (i div BITVEC_SZELEM);
     Some (b AND push_bit (i AND (BITVEC_SZELEM - 1)) 1 \<noteq> 0)
   }"
| "test_loop (HashTab sz nset t) i = test_probe BITVEC_NINT t (BITVEC_HASH i) (i + 1)"
| "test_loop (SubTab sz d subs) i =
     (case rd subs (i div d) of
        None \<Rightarrow> None
      | Some None \<Rightarrow> Some False
      | Some (Some p) \<Rightarrow> test_loop p (i mod d))"

definition sqlite3BitvecTest :: "bitvec option \<Rightarrow> nat \<Rightarrow> bool option" where
  "sqlite3BitvecTest p i =
     (case p of
        None \<Rightarrow> Some False
      | Some p \<Rightarrow> if i > iSize p \<or> i = 0 then Some False else test_loop p (i - 1))"

section \<open>Set\<close>

text \<open>The loop \<^verbatim>\<open>do { ... } while( p->u.aHash[h] )\<close> entered at an occupied slot.\<close>

datatype probe = Found | Free nat

fun set_probe :: "nat \<Rightarrow> nat list \<Rightarrow> nat \<Rightarrow> nat \<Rightarrow> probe option" where
  "set_probe 0 t h i = None"
| "set_probe (Suc k) t h i = do {
     v \<leftarrow> rd t h;
     if v = i then Some Found
     else do {
       let h' = (if h + 1 \<ge> BITVEC_NINT then 0 else h + 1);
       v' \<leftarrow> rd t h';
       if v' = 0 then Some (Free h') else set_probe k t h' i
     }
   }"

text \<open>
  \<open>bv_set d ok p i n\<close> is \<open>sqlite3BitvecSet\<close> after its \<^verbatim>\<open>i--\<close>. The descent through the
  subtables is structural; \<open>d\<close> bounds how often a table that overflows may be split again
  below one that was just split (each split divides the size by \<^verbatim>\<open>BITVEC_NPTR\<close>, so four
  are enough for 32-bit sizes). \<open>set_all\<close> is the loop that re-inserts the old values.
\<close>

fun set_all :: "(bitvec \<Rightarrow> nat \<Rightarrow> nat \<Rightarrow> (int \<times> bitvec \<times> nat) option)
    \<Rightarrow> nat list \<Rightarrow> int \<Rightarrow> bitvec \<Rightarrow> nat \<Rightarrow> (int \<times> bitvec \<times> nat) option" where
  "set_all f [] rc p n = Some (rc, p, n)"
| "set_all f (v # vs) rc p n =
     (if v \<noteq> 0 then do {
        (rc', p', n') \<leftarrow> f p (v - 1) n;
        set_all f vs (rc OR rc') p' n'
      } else set_all f vs rc p n)"

fun bv_set :: "nat \<Rightarrow> mem_oracle \<Rightarrow> bitvec \<Rightarrow> nat \<Rightarrow> nat \<Rightarrow> (int \<times> bitvec \<times> nat) option" where
  "bv_set d ok (SubTab sz dv subs) i n =
     (let bin = i div dv; j = i mod dv in
      case rd subs bin of
        None \<Rightarrow> None
      | Some None \<Rightarrow>
          (case sqlite3BitvecCreate ok dv n of
             (None, n') \<Rightarrow> Some (SQLITE_NOMEM, SubTab sz dv subs, n')
           | (Some q, n') \<Rightarrow>
               map_option (\<lambda>(rc, q', n''). (rc, SubTab sz dv (subs[bin := Some q']), n''))
                 (bv_set d ok q j n'))
      | Some (Some q) \<Rightarrow>
          map_option (\<lambda>(rc, q', n'). (rc, SubTab sz dv (subs[bin := Some q']), n'))
            (bv_set d ok q j n))"
| "bv_set d ok (Bitmap sz bm) i n = do {
     let e = i div BITVEC_SZELEM;
     b \<leftarrow> rd bm e;
     Some (SQLITE_OK, Bitmap sz (bm[e := b OR push_bit (i AND (BITVEC_SZELEM - 1)) 1]), n)
   }"
| "bv_set d ok (HashTab sz nset t) i n = do {
     let h = BITVEC_HASH i;
     let i = i + 1;
     let finish = (\<lambda>h. Some (SQLITE_OK, HashTab sz (nset + 1) (t[h := i]), n));
     let rehash = (\<lambda>h.
       if nset \<ge> BITVEC_MXHASH
       then (if \<not> ok n then Some (SQLITE_NOMEM, HashTab sz nset t, Suc n)
             else (case d of
                 0 \<Rightarrow> None
               | Suc d' \<Rightarrow> do {
                   let p = SubTab sz ((sz + BITVEC_NPTR - 1) div BITVEC_NPTR)
                             (replicate BITVEC_NPTR None);
                   (rc, p, n) \<leftarrow> bv_set d' ok p (i - 1) (Suc n);
                   set_all (bv_set d' ok) t rc p n
                 }))
       else finish h);
     v \<leftarrow> rd t h;
     if v = 0
     then (if nset < BITVEC_NINT - 1 then finish h else rehash h)
     else (case set_probe BITVEC_NINT t h i of
             None \<Rightarrow> None
           | Some Found \<Rightarrow> Some (SQLITE_OK, HashTab sz nset t, n)
           | Some (Free h) \<Rightarrow> rehash h)
   }"

definition bv_fuel :: nat where "bv_fuel = 4"

definition sqlite3BitvecSet ::
  "mem_oracle \<Rightarrow> bitvec option \<Rightarrow> nat \<Rightarrow> nat \<Rightarrow> (int \<times> bitvec option \<times> nat) option" where
  "sqlite3BitvecSet ok p i n =
     (case p of
        None \<Rightarrow> Some (SQLITE_OK, None, n)
      | Some p \<Rightarrow> map_option (\<lambda>(rc, p', n'). (rc, Some p', n')) (bv_set bv_fuel ok p (i - 1) n))"

section \<open>Clear, Size, Destroy\<close>

fun free_probe :: "nat \<Rightarrow> nat list \<Rightarrow> nat \<Rightarrow> nat option" where
  "free_probe 0 t h = None"
| "free_probe (Suc k) t h = do {
     v \<leftarrow> rd t h;
     if v \<noteq> 0 then free_probe k t (if h + 1 \<ge> BITVEC_NINT then 0 else h + 1) else Some h
   }"

text \<open>The loop over the saved values: \<open>vs\<close> are those still to be re-inserted.\<close>

fun clear_rebuild :: "nat list \<Rightarrow> nat \<Rightarrow> nat \<Rightarrow> nat list \<Rightarrow> (nat \<times> nat list) option" where
  "clear_rebuild [] i nset t = Some (nset, t)"
| "clear_rebuild (v # vs) i nset t =
     (if v \<noteq> 0 \<and> v \<noteq> i + 1 then do {
        h \<leftarrow> free_probe BITVEC_NINT t (BITVEC_HASH (v - 1));
        clear_rebuild vs i (nset + 1) (t[h := v])
      } else clear_rebuild vs i nset t)"

fun bv_clear :: "bitvec \<Rightarrow> nat \<Rightarrow> bitvec option" where
  "bv_clear (SubTab sz dv subs) i =
     (case rd subs (i div dv) of
        None \<Rightarrow> None
      | Some None \<Rightarrow> Some (SubTab sz dv subs)
      | Some (Some q) \<Rightarrow>
          map_option (\<lambda>q'. SubTab sz dv (subs[i div dv := Some q'])) (bv_clear q (i mod dv)))"
| "bv_clear (Bitmap sz bm) i = do {
     let e = i div BITVEC_SZELEM;
     b \<leftarrow> rd bm e;
     Some (Bitmap sz (bm[e := b AND NOT (push_bit (i AND (BITVEC_SZELEM - 1)) 1)]))
   }"
| "bv_clear (HashTab sz nset t) i = do {
     (nset', t') \<leftarrow> clear_rebuild t i 0 (replicate (length t) 0);
     Some (HashTab sz nset' t')
   }"

definition sqlite3BitvecClear :: "bitvec option \<Rightarrow> nat \<Rightarrow> bitvec option option" where
  "sqlite3BitvecClear p i =
     (case p of None \<Rightarrow> Some None | Some p \<Rightarrow> map_option Some (bv_clear p (i - 1)))"

definition sqlite3BitvecSize :: "bitvec \<Rightarrow> nat" where
  "sqlite3BitvecSize p = iSize p"

text \<open>The number of objects that \<open>sqlite3BitvecDestroy\<close> gives back to the allocator.\<close>

fun sqlite3BitvecDestroy :: "bitvec option \<Rightarrow> nat" where
  "sqlite3BitvecDestroy None = 0"
| "sqlite3BitvecDestroy (Some (SubTab sz dv subs)) =
     sum_list (map (\<lambda>q. sqlite3BitvecDestroy q) subs) + 1"
| "sqlite3BitvecDestroy (Some p) = 1"

section \<open>The abstract set and the invariant\<close>

primrec elems :: "bitvec \<Rightarrow> nat set" where
  "elems (Bitmap sz bm) =
     {i. i div BITVEC_SZELEM < length bm \<and> bit (bm ! (i div BITVEC_SZELEM)) (i mod BITVEC_SZELEM)}"
| "elems (HashTab sz nset t) = {i. Suc i \<in> set t}"
| "elems (SubTab sz dv subs) =
     {i. \<exists>S. rd (map (map_option elems) subs) (i div dv) = Some (Some S) \<and> i mod dv \<in> S}"

declare elems.simps(3) [simp del]

text \<open>
  The first slot from \<open>h\<close> on that is empty or holds \<open>v\<close>. A table is in order when the
  search for each value it holds, started at the value's hash, ends where the value is.
\<close>

fun find_slot :: "nat \<Rightarrow> nat list \<Rightarrow> nat \<Rightarrow> nat \<Rightarrow> nat option" where
  "find_slot 0 t h v = None"
| "find_slot (Suc k) t h v =
     (if t ! h = 0 \<or> t ! h = v then Some h else find_slot k t ((h + 1) mod BITVEC_NINT) v)"

definition tab_inv :: "nat list \<Rightarrow> bool" where
  "tab_inv t \<longleftrightarrow> length t = BITVEC_NINT \<and>
     (\<forall>s < BITVEC_NINT. t ! s \<noteq> 0 \<longrightarrow>
        find_slot BITVEC_NINT t (BITVEC_HASH (t ! s - 1)) (t ! s) = Some s)"

definition n_used :: "nat list \<Rightarrow> nat" where
  "n_used t = length (filter (\<lambda>v. v \<noteq> 0) t)"

fun wf_bv :: "bitvec \<Rightarrow> bool" where
  "wf_bv (Bitmap sz bm) \<longleftrightarrow>
     sz \<le> BITVEC_NBIT \<and> length bm = BITVEC_NELEM \<and> elems (Bitmap sz bm) \<subseteq> {..<sz}"
| "wf_bv (HashTab sz nset t) \<longleftrightarrow>
     BITVEC_NBIT < sz \<and> tab_inv t \<and> nset = n_used t \<and> nset < BITVEC_NINT \<and> (\<forall>v \<in> set t. v \<le> sz)"
| "wf_bv (SubTab sz dv subs) \<longleftrightarrow>
     BITVEC_NBIT < sz \<and> dv = (sz + BITVEC_NPTR - 1) div BITVEC_NPTR \<and> length subs = BITVEC_NPTR \<and>
     elems (SubTab sz dv subs) \<subseteq> {..<sz} \<and>
     (\<forall>x \<in> set subs. case x of None \<Rightarrow> True | Some q \<Rightarrow> iSize q = dv \<and> wf_bv q)"

end
