(* ===== verification/Bitvec_Correct.thy ===== *)
theory Bitvec_Correct
  imports Bitvec
begin

text \<open>
  The correctness of the page bitmap of theory \<open>Bitvec\<close>: the three probe loops are one search
  \<open>find_slot\<close>; the set operation (which may split an overflowing hash table into subtables
  and re-insert its values), the clear operation (which rebuilds the hash table) and the
  test are the operations of a set of numbers, and every one of them keeps \<open>wf_bv\<close>.
\<close>

section \<open>Probing\<close>

lemma find_slot_Some:
  "find_slot k t h v = Some s \<Longrightarrow> h < BITVEC_NINT \<Longrightarrow> s < BITVEC_NINT \<and> (t ! s = 0 \<or> t ! s = v)"
  by (induction k t h v rule: find_slot.induct) (auto split: if_splits simp: bitvec_sizes)

lemma find_slot_None:
  "find_slot k t h v = None \<Longrightarrow> h < BITVEC_NINT \<Longrightarrow> j < k \<Longrightarrow> t ! ((h + j) mod BITVEC_NINT) \<noteq> 0"
proof (induction k arbitrary: h j)
  case 0
  then show ?case by simp
next
  case (Suc k)
  show ?case
  proof (cases j)
    case 0
    with Suc.prems show ?thesis by (auto split: if_splits)
  next
    case (Suc j')
    have "find_slot k t ((h + 1) mod BITVEC_NINT) v = None" and "j' < k"
      using Suc Suc.prems by (auto split: if_splits)
    then have "t ! (((h + 1) mod BITVEC_NINT + j') mod BITVEC_NINT) \<noteq> 0"
      using Suc.prems by (intro Suc.IH) (auto simp: bitvec_sizes)
    then show ?thesis
      using Suc by (simp add: mod_add_left_eq)
  qed
qed

lemma find_slot_total:
  assumes "h < BITVEC_NINT" and "z < BITVEC_NINT" and "t ! z = 0"
  shows "\<exists>s. find_slot BITVEC_NINT t h v = Some s"
proof (rule ccontr)
  assume "\<nexists>s. find_slot BITVEC_NINT t h v = Some s"
  then have "find_slot BITVEC_NINT t h v = None" by simp
  moreover define j where "j = (z + BITVEC_NINT - h) mod BITVEC_NINT"
  moreover have "j < BITVEC_NINT" using assms by (simp add: j_def)
  ultimately have "t ! ((h + j) mod BITVEC_NINT) \<noteq> 0"
    using find_slot_None assms(1) by blast
  moreover have "(h + j) mod BITVEC_NINT = z"
  proof -
    have "(h + j) mod BITVEC_NINT = (h + (z + BITVEC_NINT - h)) mod BITVEC_NINT"
      by (simp add: j_def mod_add_right_eq)
    then show ?thesis using assms by simp
  qed
  ultimately show False using assms by simp
qed

lemma find_slot_update_other:
  "find_slot k t h v = Some s \<Longrightarrow> t ! s = v \<Longrightarrow> v \<noteq> 0 \<Longrightarrow> t ! z = 0 \<Longrightarrow> w \<noteq> 0 \<Longrightarrow> w \<noteq> v \<Longrightarrow>
     find_slot k (t[z := w]) h v = Some s"
  by (induction k t h v rule: find_slot.induct)
    (auto split: if_splits simp: nth_list_update_cases)

lemma find_slot_update_self:
  "find_slot k t h v = Some z \<Longrightarrow> t ! z = 0 \<Longrightarrow> z < length t \<Longrightarrow> v \<noteq> 0 \<Longrightarrow>
     find_slot k (t[z := v]) h v = Some z"
proof (induction k arbitrary: h)
  case 0
  then show ?case by simp
next
  case (Suc k)
  then show ?case
    by (cases "h = z") (auto split: if_splits simp: nth_list_update)
qed

lemma tab_inv_slot:
  assumes "tab_inv t" and "v \<noteq> 0" and "find_slot BITVEC_NINT t (BITVEC_HASH (v - 1)) v = Some s"
  shows "t ! s = v \<longleftrightarrow> v \<in> set t"
proof
  have len: "length t = BITVEC_NINT" and "s < BITVEC_NINT"
    using assms find_slot_Some [of _ t "BITVEC_HASH (v - 1)" v s]
    by (auto simp: tab_inv_def BITVEC_HASH_def bitvec_sizes)
  then show "t ! s = v \<Longrightarrow> v \<in> set t" by auto
  assume "v \<in> set t"
  then obtain s' where "s' < BITVEC_NINT" "t ! s' = v"
    using len by (auto simp: in_set_conv_nth)
  with assms have "find_slot BITVEC_NINT t (BITVEC_HASH (v - 1)) v = Some s'"
    by (auto simp: tab_inv_def)
  with assms \<open>t ! s' = v\<close> show "t ! s = v" by simp
qed

lemma n_used_update: "z < length t \<Longrightarrow> t ! z = 0 \<Longrightarrow> v \<noteq> 0 \<Longrightarrow> n_used (t[z := v]) = Suc (n_used t)"
proof (induction t arbitrary: z)
  case Nil
  then show ?case by simp
next
  case (Cons a t)
  then show ?case by (cases z) (auto simp: n_used_def)
qed

lemma tab_inv_insert:
  assumes "tab_inv t" and "v \<noteq> 0" and "v \<notin> set t"
    and find: "find_slot BITVEC_NINT t (BITVEC_HASH (v - 1)) v = Some z"
  shows "tab_inv (t[z := v])" and "set (t[z := v]) - {0} = insert v (set t) - {0}"
    and "n_used (t[z := v]) = Suc (n_used t)" and "t ! z = 0" and "z < length t"
proof -
  have len: "length t = BITVEC_NINT" using assms by (simp add: tab_inv_def)
  have z: "z < BITVEC_NINT"
    using find_slot_Some [OF find] by (simp add: BITVEC_HASH_def bitvec_sizes)
  have t0: "t ! z = 0"
    using find_slot_Some [OF find] tab_inv_slot [OF assms(1,2) find] assms(3)
    by (simp add: BITVEC_HASH_def bitvec_sizes)
  show "tab_inv (t[z := v])"
    unfolding tab_inv_def
  proof (intro conjI allI impI)
    fix s
    assume s: "s < BITVEC_NINT" "t[z := v] ! s \<noteq> 0"
    show "find_slot BITVEC_NINT (t[z := v]) (BITVEC_HASH (t[z := v] ! s - 1)) (t[z := v] ! s) = Some s"
    proof (cases "s = z")
      case True
      with find t0 z len assms(2) show ?thesis by (simp add: find_slot_update_self)
    next
      case False
      then have "t ! s \<noteq> 0" using s by simp
      moreover from this have "find_slot BITVEC_NINT t (BITVEC_HASH (t ! s - 1)) (t ! s) = Some s"
        using assms(1) s by (simp add: tab_inv_def)
      moreover have "v \<noteq> t ! s" using assms(3) s len by (metis nth_mem)
      ultimately show ?thesis
        using False t0 assms(2) by (simp add: find_slot_update_other)
    qed
  qed (simp add: len)
  show "set (t[z := v]) - {0} = insert v (set t) - {0}"
  proof -
    have "set t - {0} \<subseteq> set (t[z := v])"
    proof
      fix x
      assume "x \<in> set t - {0}"
      then obtain s where "s < length t" "t ! s = x" "x \<noteq> 0" by (auto simp: in_set_conv_nth)
      with t0 show "x \<in> set (t[z := v])"
        by (metis length_list_update nth_list_update_neq nth_mem)
    qed
    moreover have "v \<in> set (t[z := v])" using z len by (simp add: set_update_memI)
    ultimately show ?thesis
      using set_update_subset_insert [of t z v] by auto
  qed
  show "n_used (t[z := v]) = Suc (n_used t)" "t ! z = 0" "z < length t"
    using n_used_update [of z t v] z len t0 assms(2) by simp_all
qed

lemma n_used_free: "n_used t < length t \<Longrightarrow> \<exists>z < length t. t ! z = 0"
proof (rule ccontr)
  assume "n_used t < length t" and "\<not> (\<exists>z < length t. t ! z = 0)"
  then have "filter (\<lambda>v. v \<noteq> 0) t = t"
    by (intro filter_True) (auto simp: in_set_conv_nth)
  with \<open>n_used t < length t\<close> show False by (simp add: n_used_def)
qed

text \<open>The three probe loops of the code are \<open>find_slot\<close>.\<close>

lemma test_probe_find:
  "length t = BITVEC_NINT \<Longrightarrow> h < BITVEC_NINT \<Longrightarrow> v \<noteq> 0 \<Longrightarrow>
     test_probe k t h v = map_option (\<lambda>s. t ! s = v) (find_slot k t h v)"
  by (induction k t h v rule: find_slot.induct)
    (auto simp: rd_nth bitvec_sizes)

lemma next_slot: "h < BITVEC_NINT \<Longrightarrow>
    (if h + 1 \<ge> BITVEC_NINT then 0 else h + 1) = (h + 1) mod BITVEC_NINT"
  by (cases "h + 1 = BITVEC_NINT") auto

lemma free_probe_find:
  "length t = BITVEC_NINT \<Longrightarrow> h < BITVEC_NINT \<Longrightarrow> v \<notin> set t \<Longrightarrow>
     free_probe k t h = find_slot k t h v"
proof (induction k arbitrary: h)
  case 0
  then show ?case by simp
next
  case (Suc k)
  have "t ! h \<noteq> v" using Suc.prems by (metis nth_mem)
  moreover have "(h + 1) mod BITVEC_NINT < BITVEC_NINT" by (simp add: bitvec_sizes)
  ultimately show ?case
    using Suc next_slot [of h] by (simp add: rd_nth)
qed

lemma set_probe_find:
  "find_slot k t h v = Some s \<Longrightarrow> length t = BITVEC_NINT \<Longrightarrow> h < BITVEC_NINT \<Longrightarrow> v \<noteq> 0 \<Longrightarrow> t ! h \<noteq> 0 \<Longrightarrow>
     set_probe k t h v = Some (if t ! s = v then Found else Free s)"
proof (induction k arbitrary: h)
  case 0
  then show ?case by simp
next
  case (Suc k)
  let ?h = "(h + 1) mod BITVEC_NINT"
  have h: "?h < BITVEC_NINT" by (simp add: bitvec_sizes)
  show ?case
  proof (cases "t ! h = v")
    case True
    with Suc.prems show ?thesis by (auto simp: rd_nth)
  next
    case False
    with Suc.prems have f: "find_slot k t ?h v = Some s" by auto
    show ?thesis
    proof (cases "t ! ?h = 0")
      case True
      with f have "s = ?h" by (cases k) auto
      with True False Suc.prems h next_slot [of h] show ?thesis
        by (simp add: rd_nth Let_def)
    next
      case ne: False
      with Suc.IH [OF f] Suc.prems False h next_slot [of h] show ?thesis
        by (simp add: rd_nth Let_def)
    qed
  qed
qed


section \<open>Set\<close>

lemma elems_SubTab_iff:
  "i \<in> elems (SubTab sz dv subs) \<longleftrightarrow>
     i div dv < length subs \<and> (\<exists>q. subs ! (i div dv) = Some q \<and> i mod dv \<in> elems q)"
  by (auto simp: elems.simps(3) rd_eq_Some_iff)

lemma elems_less_iSize: "wf_bv p \<Longrightarrow> elems p \<subseteq> {..<iSize p}"
  by (cases p) (auto simp: Suc_le_eq)

lemma and_7_nat: "i AND 7 = i mod (8 :: nat)"
proof -
  have "i AND 7 = take_bit 3 i" by (simp add: take_bit_eq_mask mask_eq_exp_minus_1)
  then show ?thesis by (simp add: take_bit_eq_mod)
qed

lemma elems_zeroed: "elems (zeroed_bitvec sz) = {}"
  by (auto simp: zeroed_bitvec_def)

lemma wf_zeroed: "wf_bv (zeroed_bitvec sz)" "iSize (zeroed_bitvec sz) = sz"
  by (auto simp: zeroed_bitvec_def tab_inv_def n_used_def bitvec_sizes)

text \<open>What one set operation promises, with and without memory.\<close>

definition set_post :: "mem_oracle \<Rightarrow> bitvec \<Rightarrow> nat set \<Rightarrow> nat \<Rightarrow> (int \<times> bitvec \<times> nat) option \<Rightarrow> bool" where
  "set_post ok p I n r \<longleftrightarrow>
     (\<exists>rc p' n'. r = Some (rc, p', n') \<and> wf_bv p' \<and> iSize p' = iSize p \<and> n \<le> n' \<and>
        (is_SubTab p \<longrightarrow> is_SubTab p') \<and>
        (if rc = SQLITE_OK then elems p' = I \<union> elems p
         else rc = SQLITE_NOMEM \<and> elems p' \<subseteq> I \<union> elems p \<and> (\<exists>m. n \<le> m \<and> m < n' \<and> \<not> ok m)))"

lemma set_postI:
  assumes "r = Some (rc, p', n')" "wf_bv p'" "iSize p' = iSize p" "n \<le> n'" "is_SubTab p \<Longrightarrow> is_SubTab p'"
    and "rc = SQLITE_OK \<Longrightarrow> elems p' = I \<union> elems p"
    and "rc \<noteq> SQLITE_OK \<Longrightarrow> rc = SQLITE_NOMEM \<and> elems p' \<subseteq> I \<union> elems p \<and> (\<exists>m. n \<le> m \<and> m < n' \<and> \<not> ok m)"
  shows "set_post ok p I n r"
  using assms unfolding set_post_def by auto

definition fits :: "nat \<Rightarrow> bitvec \<Rightarrow> bool" where
  "fits d p \<longleftrightarrow> (case p of SubTab sz dv subs \<Rightarrow> dv | _ \<Rightarrow> iSize p) \<le> BITVEC_NBIT * BITVEC_NPTR ^ d"

lemma set_post_Bitmap:
  assumes "wf_bv (Bitmap sz bm)" and "i < sz"
  shows "set_post ok (Bitmap sz bm) {i} n (bv_set d ok (Bitmap sz bm) i n)"
proof -
  let ?e = "i div BITVEC_SZELEM"
  define b where "b = bm ! ?e OR push_bit (i AND (BITVEC_SZELEM - 1)) 1"
  have e: "?e < length bm"
    using assms by (auto simp: bitvec_sizes)
  have low: "i AND (BITVEC_SZELEM - 1) = i mod BITVEC_SZELEM"
    by (simp add: bitvec_sizes and_7_nat)
  have bit: "bit b k \<longleftrightarrow> bit (bm ! ?e) k \<or> k = i mod BITVEC_SZELEM" for k
    unfolding low b_def by (auto simp: bit_simps bitvec_sizes)
  have "elems (Bitmap sz (bm[?e := b])) = insert i (elems (Bitmap sz bm))"
  proof (rule set_eqI)
    fix j
    show "j \<in> elems (Bitmap sz (bm[?e := b])) \<longleftrightarrow> j \<in> insert i (elems (Bitmap sz bm))"
    proof (cases "j div BITVEC_SZELEM = ?e")
      case True
      have "j = i \<longleftrightarrow> j mod BITVEC_SZELEM = i mod BITVEC_SZELEM"
        using True by (metis mod_div_decomp)
      with True e show ?thesis by (auto simp: bit)
    next
      case False
      then show ?thesis by auto
    qed
  qed
  then show ?thesis
    using assms e unfolding bv_set.simps Let_def b_def
    by (intro set_postI) (simp_all add: rd_nth del: push_bit_of_1, auto)
qed

lemma set_post_finish:
  assumes wf: "wf_bv (HashTab sz nset t)" and "i < sz" and "i \<notin> elems (HashTab sz nset t)"
    and "nset + 1 < BITVEC_NINT"
    and find: "find_slot BITVEC_NINT t (BITVEC_HASH i) (i + 1) = Some z"
  shows "set_post ok (HashTab sz nset t) {i} n (Some (SQLITE_OK, HashTab sz (nset + 1) (t[z := i + 1]), n))"
proof -
  have "tab_inv t" "i + 1 \<notin> set t"
    using assms by auto
  note ins = tab_inv_insert [OF this(1) _ this(2), of z]
  have set_eq: "set (t[z := i + 1]) - {0} = insert (i + 1) (set t) - {0}"
    using ins(2) find by simp
  have "Suc k \<in> set (t[z := i + 1]) \<longleftrightarrow> k = i \<or> Suc k \<in> set t" for k
    using set_eq by (auto simp: set_eq_iff)
  then have "elems (HashTab sz (nset + 1) (t[z := i + 1])) = {i} \<union> elems (HashTab sz nset t)"
    by auto
  moreover have "\<forall>v\<in>set (t[z := i + 1]). v \<le> sz"
    using wf assms(2) set_update_subset_insert [of t z "i + 1"] by fastforce
  ultimately show ?thesis
    using ins find assms(4) wf by (intro set_postI) auto
qed

lemma div_NPTR: "BITVEC_NBIT < sz \<Longrightarrow> i < sz \<Longrightarrow>
    0 < (sz + BITVEC_NPTR - 1) div BITVEC_NPTR \<and>
    i div ((sz + BITVEC_NPTR - 1) div BITVEC_NPTR) < BITVEC_NPTR"
proof -
  assume sz: "BITVEC_NBIT < sz" "i < sz"
  let ?d = "(sz + BITVEC_NPTR - 1) div BITVEC_NPTR"
  have "0 < ?d" using sz by (simp add: bitvec_sizes)
  moreover have "sz \<le> BITVEC_NPTR * ?d" by (simp add: bitvec_sizes)
  ultimately show ?thesis
    using sz by (simp add: div_less_iff_less_mult mult.commute)
qed

text \<open>Setting a bit in the subtable \<open>q\<close> (new or present) that is in charge of it.\<close>

lemma set_post_SubTab:
  assumes wf: "wf_bv (SubTab sz dv subs)" and i: "i < sz"
    and q: "subs ! (i div dv) = Some q \<or> subs ! (i div dv) = None \<and> elems q = {}"
    and post: "set_post ok q {i mod dv} n' r" and "iSize q = dv" and "n \<le> n'"
  shows "set_post ok (SubTab sz dv subs) {i} n
     (map_option (\<lambda>(rc, q', n''). (rc, SubTab sz dv (subs[i div dv := Some q']), n'')) r)"
proof -
  from post obtain rc q' n'' where r: "r = Some (rc, q', n'')" and q': "wf_bv q'" "iSize q' = dv" "n' \<le> n''"
    and ok: "if rc = SQLITE_OK then elems q' = {i mod dv} \<union> elems q
         else rc = SQLITE_NOMEM \<and> elems q' \<subseteq> {i mod dv} \<union> elems q \<and> (\<exists>m. n' \<le> m \<and> m < n'' \<and> \<not> ok m)"
    using assms(5) unfolding set_post_def by auto
  have bin: "i div dv < length subs"
    using div_NPTR [of sz i] wf i by auto
  let ?p = "SubTab sz dv (subs[i div dv := Some q'])"
  have elems_iff: "j \<in> elems ?p \<longleftrightarrow>
      (if j div dv = i div dv then j mod dv \<in> elems q' else j \<in> elems (SubTab sz dv subs))" for j
    using bin by (auto simp: elems_SubTab_iff)
  have old_iff: "j \<in> elems (SubTab sz dv subs) \<longleftrightarrow> j mod dv \<in> elems q" if "j div dv = i div dv" for j
    using q bin that by (auto simp: elems_SubTab_iff)
  have eq_iff: "j = i \<longleftrightarrow> j mod dv = i mod dv" if "j div dv = i div dv" for j
    using that by (metis mod_div_decomp)
  have sub: "elems ?p \<subseteq> {i} \<union> elems (SubTab sz dv subs)"
    using ok by (auto simp: elems_iff old_iff eq_iff split: if_splits)
  have "elems ?p = {i} \<union> elems (SubTab sz dv subs)" if "rc = SQLITE_OK"
    using ok that by (auto simp: elems_iff old_iff eq_iff split: if_splits)
  moreover have "wf_bv ?p"
    using wf q' i sub set_update_subset_insert [of subs "i div dv" "Some q'"]
    by auto
  ultimately show ?thesis
    using r q' ok sub assms(6)
    by (intro set_postI [where rc = rc and p' = "?p" and n' = n''])
      (auto simp del: wf_bv.simps split: if_splits intro: le_trans)
qed

lemma set_all_post:
  assumes f: "\<And>p i n. wf_bv p \<Longrightarrow> is_SubTab p \<Longrightarrow> iSize p = sz \<Longrightarrow> i < sz \<Longrightarrow> set_post ok p {i} n (f p i n)"
    and "set_post ok p0 I n0 (Some (rc, p, n))" and "is_SubTab p0" and "iSize p0 = sz"
    and "\<forall>v \<in> set vs. v \<le> sz"
  shows "set_post ok p0 (I \<union> {i. Suc i \<in> set vs}) n0 (set_all f vs rc p n)"
  using assms(2-)
proof (induction vs arbitrary: I rc p n)
  case Nil
  then show ?case by simp
next
  case (Cons v vs)
  show ?case
  proof (cases "v = 0")
    case True
    with Cons show ?thesis by simp
  next
    case False
    then obtain i where v: "v = Suc i" by (cases v) auto
    note p = Cons.prems(1) [unfolded set_post_def]
    have "set_post ok p {i} n (f p i n)"
      using p Cons.prems v by (intro f) auto
    then obtain rc' p' n' where r: "f p i n = Some (rc', p', n')"
      and post: "set_post ok p {i} n (Some (rc', p', n'))"
      by (auto simp: set_post_def)
    have step: "set_post ok p0 (I \<union> {i}) n0 (Some (rc OR rc', p', n'))"
    proof (rule set_postI)
      note q = post [unfolded set_post_def]
      show "wf_bv p'" "iSize p' = iSize p0" "n0 \<le> n'" "is_SubTab p0 \<Longrightarrow> is_SubTab p'"
        using p q by auto
      show "elems p' = I \<union> {i} \<union> elems p0" if "rc OR rc' = SQLITE_OK"
        using p q that by (auto split: if_splits)
      show "rc OR rc' = SQLITE_NOMEM \<and> elems p' \<subseteq> I \<union> {i} \<union> elems p0 \<and> (\<exists>m. n0 \<le> m \<and> m < n' \<and> \<not> ok m)"
        if "rc OR rc' \<noteq> SQLITE_OK"
        using p q that by (auto split: if_splits intro: le_trans less_le_trans)
    qed simp
    have "I \<union> {i. Suc i \<in> set (v # vs)} = (I \<union> {i}) \<union> {i. Suc i \<in> set vs}"
      using v by auto
    moreover have "set_post ok p0 ((I \<union> {i}) \<union> {i. Suc i \<in> set vs}) n0 (set_all f vs (rc OR rc') p' n')"
      using Cons.prems by (intro Cons.IH step) auto
    ultimately show ?thesis using r v by simp
  qed
qed

lemma div_NPTR_le: "BITVEC_NBIT < sz \<Longrightarrow> (sz + BITVEC_NPTR - 1) div BITVEC_NPTR \<le> sz"
  by (simp add: bitvec_sizes)

lemma set_post_rehash:
  assumes IH: "\<And>p i n. wf_bv p \<Longrightarrow> fits d' p \<Longrightarrow> i < iSize p \<Longrightarrow> set_post ok p {i} n (bv_set d' ok p i n)"
    and wf: "wf_bv (HashTab sz nset t)" and "fits (Suc d') (HashTab sz nset t)" and i: "i < sz"
    and r: "bv_set d' ok (SubTab sz ((sz + BITVEC_NPTR - 1) div BITVEC_NPTR) (replicate BITVEC_NPTR None)) i (Suc n) = r"
  shows "set_post ok (HashTab sz nset t) {i} n
     (Option.bind r (\<lambda>(rc, p, n). set_all (bv_set d' ok) t rc p n))"
proof -
  let ?p = "SubTab sz ((sz + BITVEC_NPTR - 1) div BITVEC_NPTR) (replicate BITVEC_NPTR None)"
  have empty: "elems ?p = {}"
    by (auto simp: elems_SubTab_iff)
  then have wfp: "wf_bv ?p" using wf by (simp add: set_replicate_conv_if)
  have fit: "fits d' p" if "wf_bv p" "is_SubTab p" "iSize p = sz" for p
  proof -
    have "(sz + BITVEC_NPTR - 1) div BITVEC_NPTR \<le> BITVEC_NBIT * BITVEC_NPTR ^ d'"
    proof -
      have "sz \<le> BITVEC_NPTR * (BITVEC_NBIT * BITVEC_NPTR ^ d')"
        using assms(3) by (simp add: fits_def ac_simps)
      moreover have "0 < BITVEC_NPTR" by (simp add: bitvec_sizes)
      ultimately have "sz + BITVEC_NPTR - 1 < Suc (BITVEC_NBIT * BITVEC_NPTR ^ d') * BITVEC_NPTR"
        by (simp add: ac_simps)
      then show ?thesis
        using \<open>0 < BITVEC_NPTR\<close> by (simp only: less_Suc_eq_le [symmetric] div_less_iff_less_mult)
    qed
    with that show ?thesis by (cases p) (auto simp: fits_def)
  qed
  have "set_post ok ?p {i} (Suc n) r"
    unfolding r [symmetric] by (intro IH wfp fit) (auto simp: i)
  then obtain rc p n' where r': "r = Some (rc, p, n')" and post: "set_post ok ?p {i} (Suc n) (Some (rc, p, n'))"
    by (auto simp: set_post_def)
  have "set_post ok ?p ({i} \<union> {i. Suc i \<in> set t}) (Suc n) (set_all (bv_set d' ok) t rc p n')"
    using wf by (intro set_all_post [where sz = sz] post IH fit) auto
  then obtain rc' p' n'' where new: "set_all (bv_set d' ok) t rc p n' = Some (rc', p', n'')"
      "wf_bv p'" "iSize p' = sz" "Suc n \<le> n''"
    and res: "if rc' = SQLITE_OK then elems p' = {i} \<union> {i. Suc i \<in> set t} \<union> {}
      else rc' = SQLITE_NOMEM \<and> elems p' \<subseteq> {i} \<union> {i. Suc i \<in> set t} \<union> {} \<and> (\<exists>m. Suc n \<le> m \<and> m < n'' \<and> \<not> ok m)"
    unfolding set_post_def empty by auto
  show ?thesis
    unfolding r' using new res
    by (intro set_postI [where rc = rc' and p' = p' and n' = n'']) (auto intro: Suc_leD split: if_splits)
qed

lemma set_post_HashTab:
  assumes IH: "\<And>d' p i n. d = Suc d' \<Longrightarrow> wf_bv p \<Longrightarrow> fits d' p \<Longrightarrow> i < iSize p \<Longrightarrow> set_post ok p {i} n (bv_set d' ok p i n)"
    and wf: "wf_bv (HashTab sz nset t)" and fit: "fits d (HashTab sz nset t)" and i: "i < sz"
  shows "set_post ok (HashTab sz nset t) {i} n (bv_set d ok (HashTab sz nset t) i n)"
proof -
  let ?p = "HashTab sz nset t"
  let ?rehash = "case d of 0 \<Rightarrow> None | Suc d' \<Rightarrow>
    Option.bind (bv_set d' ok (SubTab sz ((sz + BITVEC_NPTR - 1) div BITVEC_NPTR)
        (replicate BITVEC_NPTR None)) i (Suc n)) (\<lambda>(rc, p, n). set_all (bv_set d' ok) t rc p n)"
  have d: "d \<noteq> 0" using wf fit by (cases "d = 0") (auto simp: fits_def)
  have tab: "tab_inv t" and len: "length t = BITVEC_NINT" and h: "BITVEC_HASH i < BITVEC_NINT"
    using wf by (auto simp: tab_inv_def BITVEC_HASH_def bitvec_sizes)
  obtain s where s: "find_slot BITVEC_NINT t (BITVEC_HASH i) (i + 1) = Some s"
    using n_used_free [of t] wf len find_slot_total [OF h, of _ t "i + 1"] by auto
  have mem: "t ! s = i + 1 \<longleftrightarrow> i \<in> elems ?p"
    using tab_inv_slot [OF tab _, of "i + 1" s] s by simp
  have rehash: "set_post ok ?p {i} n ?rehash" if "ok n"
    using d set_post_rehash [OF IH wf _ i refl] fit by (cases d) auto
  have nomem: "set_post ok ?p {i} n (Some (SQLITE_NOMEM, ?p, Suc n))" if "\<not> ok n"
    using that wf by (intro set_postI) (auto simp del: wf_bv.simps)
  have finish: "set_post ok ?p {i} n (Some (SQLITE_OK, HashTab sz (nset + 1) (t[s := i + 1]), n))"
    if "nset + 1 < BITVEC_NINT" "t ! s \<noteq> i + 1"
    using that mem by (intro set_post_finish [OF wf i _ _ s]) auto
  have found: "set_post ok ?p {i} n (Some (SQLITE_OK, ?p, n))" if "t ! s = i + 1"
    using that wf mem by (intro set_postI) (auto simp del: wf_bv.simps)
  show ?thesis
  proof (cases "t ! BITVEC_HASH i = 0")
    case True
    then have "find_slot (Suc 123) t (BITVEC_HASH i) (i + 1) = Some (BITVEC_HASH i)"
      by (simp only: find_slot.simps simp_thms if_True)
    moreover have "Suc 123 = BITVEC_NINT" by (simp add: bitvec_sizes)
    ultimately have "s = BITVEC_HASH i" using s by (simp del: find_slot.simps)
    then show ?thesis
      using True len h rehash nomem finish
      by (simp add: Let_def rd_nth bitvec_sizes cong: nat.case_cong)
  next
    case False
    then show ?thesis
      using len h rehash nomem finish found set_probe_find [OF s len h _ False]
      by (simp add: Let_def rd_nth bitvec_sizes cong: nat.case_cong)
  qed
qed

lemma bv_set_post:
  "wf_bv p \<Longrightarrow> fits d p \<Longrightarrow> i < iSize p \<Longrightarrow> set_post ok p {i} n (bv_set d ok p i n)"
proof (induction d arbitrary: p i n rule: less_induct)
  case (less d)
  have hash: "set_post ok (HashTab sz nset t) {i} n (bv_set d ok (HashTab sz nset t) i n)"
    if "wf_bv (HashTab sz nset t)" "fits d (HashTab sz nset t)" "i < sz" for sz nset t i n
    using less.IH that by (intro set_post_HashTab) auto
  show ?case using less.prems
  proof (induction p arbitrary: i n)
    case (Bitmap sz bm)
    then show ?case by (intro set_post_Bitmap) auto
  next
    case (HashTab sz nset t)
    then show ?case by (intro hash) auto
  next
    case (SubTab sz dv subs)
    have bin: "i div dv < length subs" and dv: "0 < dv"
      using div_NPTR [of sz i] SubTab.prems by auto
    show ?case
    proof (cases "subs ! (i div dv)")
      case None
      show ?thesis
      proof (cases "ok n")
        case True
        have "wf_bv (zeroed_bitvec dv)" "fits d (zeroed_bitvec dv)"
          using SubTab.prems(2) by (simp_all add: wf_zeroed) (simp add: fits_def zeroed_bitvec_def)
        then have "set_post ok (zeroed_bitvec dv) {i mod dv} (Suc n) (bv_set d ok (zeroed_bitvec dv) (i mod dv) (Suc n))"
          using dv unfolding zeroed_bitvec_def
          by (simp del: bv_set.simps wf_bv.simps add: set_post_Bitmap hash split: if_split_asm)
        from set_post_SubTab [OF SubTab.prems(1) _ _ this, of n] show ?thesis
          using bin None True SubTab.prems(3)
          by (simp add: rd_nth sqlite3BitvecCreate_def Let_def elems_zeroed wf_zeroed)
      next
        case False
        then show ?thesis
          using bin None SubTab.prems(1)
          by (intro set_postI) (simp_all add: rd_nth sqlite3BitvecCreate_def Let_def del: elems.simps wf_bv.simps, auto)
      qed
    next
      case (Some q)
      then have q: "iSize q = dv" "wf_bv q"
        using SubTab.prems(1) bin by (auto split: option.splits dest: bspec [OF _ nth_mem])
      have "fits d q"
        using SubTab.prems(2) q div_NPTR_le [of dv] by (cases q) (auto simp: fits_def intro: le_trans)
      moreover have "Some q \<in> set subs" using bin Some by (metis nth_mem)
      ultimately have "set_post ok q {i mod dv} n (bv_set d ok q (i mod dv) n)"
        using SubTab.IH q dv by simp
      from set_post_SubTab [OF SubTab.prems(1) _ _ this, of n] show ?thesis
        using bin Some q SubTab.prems(3) by (simp add: rd_nth Let_def)
    qed
  qed
qed

section \<open>Test\<close>

lemma low_bits: "i AND (BITVEC_SZELEM - 1) = i mod BITVEC_SZELEM"
  by (simp add: bitvec_sizes and_7_nat)

lemma wf_slot:
  assumes "wf_bv (HashTab sz nset t)"
  obtains s where "find_slot BITVEC_NINT t (BITVEC_HASH i) (i + 1) = Some s"
    and "t ! s = i + 1 \<longleftrightarrow> i \<in> elems (HashTab sz nset t)"
proof -
  have tab: "tab_inv t" and h: "BITVEC_HASH i < BITVEC_NINT" and len: "length t = BITVEC_NINT"
    using assms by (auto simp: tab_inv_def BITVEC_HASH_def bitvec_sizes)
  obtain s where s: "find_slot BITVEC_NINT t (BITVEC_HASH i) (i + 1) = Some s"
    using n_used_free [of t] assms len find_slot_total [OF h, of _ t "i + 1"] by auto
  with tab_inv_slot [OF tab _, of "i + 1" s] that show ?thesis by simp
qed

lemma test_loop_eq: "wf_bv p \<Longrightarrow> i < iSize p \<Longrightarrow> test_loop p i = Some (i \<in> elems p)"
proof (induction p arbitrary: i)
  case (Bitmap sz bm)
  have "i div BITVEC_SZELEM < length bm" using Bitmap by (auto simp: bitvec_sizes)
  moreover have "b AND push_bit n 1 \<noteq> 0 \<longleftrightarrow> bit b n" if "n < 8" for b :: u8 and n
    using that by (simp add: and_exp_eq_0_iff_not_bit push_bit_eq_mult)
  ultimately show ?case
    unfolding test_loop.simps low_bits
    by (simp add: rd_nth del: push_bit_of_1) (simp add: bitvec_sizes)
next
  case (HashTab sz nset t)
  obtain s where "find_slot BITVEC_NINT t (BITVEC_HASH i) (i + 1) = Some s"
    and "t ! s = i + 1 \<longleftrightarrow> i \<in> elems (HashTab sz nset t)"
    using wf_slot [OF HashTab.prems(1), of i] .
  moreover have "length t = BITVEC_NINT" "BITVEC_HASH i < BITVEC_NINT"
    using HashTab.prems by (auto simp: tab_inv_def BITVEC_HASH_def bitvec_sizes)
  ultimately show ?case by (simp add: test_probe_find)
next
  case (SubTab sz dv subs)
  have bin: "i div dv < length subs" and dv: "0 < dv"
    using div_NPTR [of sz i] SubTab.prems by auto
  show ?case
  proof (cases "subs ! (i div dv)")
    case None
    then show ?thesis using bin by (simp add: rd_nth elems_SubTab_iff)
  next
    case (Some q)
    then have "iSize q = dv" "wf_bv q" "Some q \<in> set subs"
      using SubTab.prems(1) bin by (auto split: option.splits dest: bspec [OF _ nth_mem]) (metis nth_mem)
    then show ?thesis using bin Some SubTab.IH dv by (simp add: rd_nth elems_SubTab_iff)
  qed
qed

section \<open>Clear\<close>

lemma tab_distinct:
  assumes "tab_inv t"
  shows "distinct (filter (\<lambda>v. v \<noteq> 0) t)"
proof -
  have "s = s'" if "s < length t" "s' < length t" "t ! s = t ! s'" "t ! s \<noteq> 0" for s s'
    using assms that unfolding tab_inv_def by (metis option.inject)
  then have "inj_on (nth t) {s. s < length t \<and> t ! s \<noteq> 0}"
    by (auto intro: inj_onI)
  moreover have "filter (\<lambda>v. v \<noteq> 0) t = map (nth t) (filter (\<lambda>s. t ! s \<noteq> 0) [0..<length t])"
    by (subst map_nth [of t, symmetric], subst filter_map) (simp add: comp_def)
  ultimately show ?thesis
    by (simp add: distinct_map inj_on_subset)
qed

lemma clear_rebuild_post:
  "tab_inv t \<Longrightarrow> nset = n_used t \<Longrightarrow> n_used t + n_used vs < BITVEC_NINT \<Longrightarrow>
   distinct (filter (\<lambda>v. v \<noteq> 0) vs) \<Longrightarrow> set t \<inter> set vs \<subseteq> {0} \<Longrightarrow>
     \<exists>t'. clear_rebuild vs i nset t = Some (n_used t', t') \<and> tab_inv t' \<and>
       n_used t' \<le> n_used t + n_used vs \<and>
       set t' - {0} = (set t \<union> (set vs - {i + 1})) - {0}"
proof (induction vs i nset t rule: clear_rebuild.induct)
  case (1 i nset t)
  then show ?case by (auto simp: n_used_def)
next
  case (2 v vs i nset t)
  show ?case
  proof (cases "v \<noteq> 0 \<and> v \<noteq> i + 1")
    case True
    have len: "length t = BITVEC_NINT" using "2.prems" by (simp add: tab_inv_def)
    have notin: "v \<notin> set t" using True "2.prems"(5) by auto
    have h: "BITVEC_HASH (v - 1) < BITVEC_NINT" by (simp add: BITVEC_HASH_def bitvec_sizes)
    obtain s where s: "find_slot BITVEC_NINT t (BITVEC_HASH (v - 1)) v = Some s"
      using n_used_free [of t] find_slot_total [OF h, of _ t v] len "2.prems"(3) by auto
    note ins = tab_inv_insert [OF "2.prems"(1) conjunct1 [OF True] notin s]
    have used: "n_used (v # vs) = Suc (n_used vs)" using True by (simp add: n_used_def)
    have fp: "free_probe BITVEC_NINT t (BITVEC_HASH (v - 1)) = Some s"
      using free_probe_find [OF len h notin] s by simp
    have "\<exists>t'. clear_rebuild vs i (nset + 1) (t[s := v]) = Some (n_used t', t') \<and> tab_inv t' \<and>
       n_used t' \<le> n_used (t[s := v]) + n_used vs \<and>
       set t' - {0} = (set (t[s := v]) \<union> (set vs - {i + 1})) - {0}"
      using True
    proof (rule "2.IH"(1) [OF _ fp])
      show "set (t[s := v]) \<inter> set vs \<subseteq> {0}"
        using ins(2) "2.prems"(4,5) True by (auto simp: set_eq_iff)
    qed (use ins "2.prems" used True in auto)
    then obtain t' where t': "clear_rebuild vs i (nset + 1) (t[s := v]) = Some (n_used t', t')" "tab_inv t'"
       "n_used t' \<le> n_used (t[s := v]) + n_used vs"
       "set t' - {0} = (set (t[s := v]) \<union> (set vs - {i + 1})) - {0}" by blast
    have "set t' - {0} = (set (t[s := v]) - {0}) \<union> ((set vs - {i + 1}) - {0})"
      unfolding t'(4) by (rule Un_Diff)
    also have "\<dots> = (set t \<union> (set (v # vs) - {i + 1})) - {0}"
      unfolding ins(2) using True by auto
    finally have "set t' - {0} = (set t \<union> (set (v # vs) - {i + 1})) - {0}" .
    moreover have "clear_rebuild (v # vs) i nset t = clear_rebuild vs i (nset + 1) (t[s := v])"
      using True fp by simp
    moreover have "n_used t' \<le> n_used t + n_used (v # vs)"
      using t'(3) ins(3) used by simp
    ultimately show ?thesis
      using t'(1,2) by (intro exI [of _ t']) simp
  next
    case False
    then have le: "n_used vs \<le> n_used (v # vs)" and dist: "distinct (filter (\<lambda>v. v \<noteq> 0) vs)"
      using "2.prems"(4) by (auto simp: n_used_def split: if_splits)
    have "\<exists>t'. clear_rebuild vs i nset t = Some (n_used t', t') \<and> tab_inv t' \<and>
       n_used t' \<le> n_used t + n_used vs \<and>
       set t' - {0} = (set t \<union> (set vs - {i + 1})) - {0}"
      by (rule "2.IH"(2) [OF False "2.prems"(1,2) _ dist]) (use "2.prems"(3,5) le in auto)
    then obtain t' where t': "clear_rebuild vs i nset t = Some (n_used t', t')" "tab_inv t'"
       "n_used t' \<le> n_used t + n_used vs"
       "set t' - {0} = (set t \<union> (set vs - {i + 1})) - {0}" by blast
    have "set t' - {0} = (set t \<union> (set (v # vs) - {i + 1})) - {0}"
      unfolding t'(4) using False by auto
    moreover have "clear_rebuild (v # vs) i nset t = clear_rebuild vs i nset t"
      using False by auto
    moreover have "n_used t' \<le> n_used t + n_used (v # vs)"
      using t'(3) le by linarith
    ultimately show ?thesis
      using t'(1,2) by (intro exI [of _ t']) simp
  qed
qed

definition clear_post :: "bitvec \<Rightarrow> nat \<Rightarrow> bitvec option \<Rightarrow> bool" where
  "clear_post p i r \<longleftrightarrow>
     (\<exists>p'. r = Some p' \<and> wf_bv p' \<and> iSize p' = iSize p \<and> elems p' = elems p - {i})"

lemma clear_post_HashTab:
  assumes "wf_bv (HashTab sz nset t)"
  shows "clear_post (HashTab sz nset t) i (bv_clear (HashTab sz nset t) i)"
proof -
  have len: "length t = BITVEC_NINT" using assms by (simp add: tab_inv_def)
  have "\<exists>t'. clear_rebuild t i 0 (replicate (length t) 0) = Some (n_used t', t') \<and> tab_inv t' \<and>
       n_used t' \<le> n_used (replicate (length t) 0) + n_used t \<and>
       set t' - {0} = (set (replicate (length t) 0) \<union> (set t - {i + 1})) - {0}"
    using assms tab_distinct
    by (intro clear_rebuild_post) (auto simp: tab_inv_def n_used_def)
  then obtain t' where t': "clear_rebuild t i 0 (replicate (length t) 0) = Some (n_used t', t')"
      "tab_inv t'" "n_used t' \<le> n_used t" "set t' - {0} = set t - {i + 1} - {0}"
    by (auto simp: n_used_def len set_replicate_conv_if)
  have mem: "v \<in> set t' \<longleftrightarrow> v \<in> set t \<and> v \<noteq> i + 1" if "v \<noteq> 0" for v
    using t'(4) that by (auto simp: set_eq_iff)
  have "\<forall>v\<in>set t'. v \<le> sz"
    using assms mem by (metis le0 wf_bv.simps(2))
  then show ?thesis
    unfolding clear_post_def using t' assms mem by auto
qed

lemma bv_clear_post: "wf_bv p \<Longrightarrow> i < iSize p \<Longrightarrow> clear_post p i (bv_clear p i)"
proof (induction p arbitrary: i)
  case (Bitmap sz bm)
  let ?e = "i div BITVEC_SZELEM"
  define b where "b = bm ! ?e AND NOT (push_bit (i AND (BITVEC_SZELEM - 1)) 1)"
  have e: "?e < length bm"
    using Bitmap by (auto simp: bitvec_sizes)
  have bit: "bit b k \<longleftrightarrow> bit (bm ! ?e) k \<and> k \<noteq> i mod BITVEC_SZELEM" for k
    unfolding low_bits b_def by (auto simp: bit_simps bitvec_sizes dest: bit_u8_bound)
  have "elems (Bitmap sz (bm[?e := b])) = elems (Bitmap sz bm) - {i}"
  proof (rule set_eqI)
    fix j
    show "j \<in> elems (Bitmap sz (bm[?e := b])) \<longleftrightarrow> j \<in> elems (Bitmap sz bm) - {i}"
    proof (cases "j div BITVEC_SZELEM = ?e")
      case True
      have "j = i \<longleftrightarrow> j mod BITVEC_SZELEM = i mod BITVEC_SZELEM"
        using True by (metis mod_div_decomp)
      with True e show ?thesis by (auto simp: bit)
    next
      case False
      then show ?thesis by auto
    qed
  qed
  moreover have "bv_clear (Bitmap sz bm) i = Some (Bitmap sz (bm[?e := b]))"
    unfolding b_def using e by (simp add: rd_nth Let_def)
  ultimately show ?case
    unfolding clear_post_def using Bitmap.prems by (simp del: elems.simps) blast
next
  case (HashTab sz nset t)
  then show ?case by (intro clear_post_HashTab) auto
next
  case (SubTab sz dv subs)
  have bin: "i div dv < length subs" and dv: "0 < dv"
    using div_NPTR [of sz i] SubTab.prems by auto
  show ?case
  proof (cases "subs ! (i div dv)")
    case None
    then show ?thesis using bin SubTab.prems
      by (auto simp: rd_nth elems_SubTab_iff clear_post_def set_eq_iff)
  next
    case (Some q)
    then have q: "iSize q = dv" "wf_bv q" "Some q \<in> set subs"
      using SubTab.prems(1) bin by (auto split: option.splits dest: bspec [OF _ nth_mem]) (metis nth_mem)
    then obtain q' where q': "bv_clear q (i mod dv) = Some q'" "wf_bv q'" "iSize q' = dv"
      "elems q' = elems q - {i mod dv}"
      using SubTab.IH [of "Some q" q "i mod dv"] dv by (auto simp: clear_post_def)
    let ?p = "SubTab sz dv (subs[i div dv := Some q'])"
    have eq_iff: "j = i \<longleftrightarrow> j mod dv = i mod dv" if "j div dv = i div dv" for j
      using that by (metis mod_div_decomp)
    have mem: "j \<in> elems ?p \<longleftrightarrow> j \<in> elems (SubTab sz dv subs) \<and> j \<noteq> i" for j
    proof (cases "j div dv = i div dv")
      case True
      show ?thesis
        using q'(4) True bin Some eq_iff [OF True] by (simp add: elems_SubTab_iff)
    next
      case False
      then have "j \<noteq> i" by auto
      with False show ?thesis by (simp add: elems_SubTab_iff)
    qed
    have "wf_bv ?p"
      using SubTab.prems(1) q' mem set_update_subset_insert [of subs "i div dv" "Some q'"]
      by auto
    then show ?thesis
      using bin Some q' mem by (auto simp: rd_nth clear_post_def)
  qed
qed

section \<open>The interface operations\<close>

lemma bv_fuel_enough: "wf_bv p \<Longrightarrow> iSize p < 2 ^ 32 \<Longrightarrow> fits bv_fuel p"
  by (cases p) (auto simp: fits_def bv_fuel_def bitvec_sizes)

text \<open>The set of page numbers a bitmap stands for; a null pointer is the empty set.\<close>

definition bits :: "bitvec option \<Rightarrow> nat set" where
  "bits p = (case p of None \<Rightarrow> {} | Some p \<Rightarrow> Suc ` elems p)"

lemma bits_iff: "i \<in> bits (Some p) \<longleftrightarrow> 0 < i \<and> i - 1 \<in> elems p"
  by (cases i) (auto simp: bits_def)

lemma BitvecSet_post:
  assumes "wf_bv p" and "iSize p < 2 ^ 32" and "0 < i" and "i \<le> iSize p"
  shows "\<exists>rc p' n'. sqlite3BitvecSet ok (Some p) i n = Some (rc, Some p', n') \<and>
     wf_bv p' \<and> iSize p' = iSize p \<and> n \<le> n' \<and>
     (if rc = SQLITE_OK then bits (Some p') = insert i (bits (Some p))
      else rc = SQLITE_NOMEM \<and> bits (Some p') \<subseteq> insert i (bits (Some p)) \<and>
        (\<exists>m. n \<le> m \<and> m < n' \<and> \<not> ok m))"
proof -
  have "set_post ok p {i - 1} n (bv_set bv_fuel ok p (i - 1) n)"
    using assms by (intro bv_set_post bv_fuel_enough) auto
  then obtain rc p' n' where r: "bv_set bv_fuel ok p (i - 1) n = Some (rc, p', n')"
    and p': "wf_bv p'" "iSize p' = iSize p" "n \<le> n'"
    and ok: "if rc = SQLITE_OK then elems p' = {i - 1} \<union> elems p
       else rc = SQLITE_NOMEM \<and> elems p' \<subseteq> {i - 1} \<union> elems p \<and> (\<exists>m. n \<le> m \<and> m < n' \<and> \<not> ok m)"
    unfolding set_post_def by auto
  have "rc = SQLITE_OK \<Longrightarrow> bits (Some p') = insert i (bits (Some p))"
    "rc \<noteq> SQLITE_OK \<Longrightarrow> bits (Some p') \<subseteq> insert i (bits (Some p))"
    using ok assms(3) by (auto simp: bits_def)
  with r p' ok show ?thesis
    by (simp add: sqlite3BitvecSet_def)
qed

lemma BitvecTest_eq: "wf_bv p \<Longrightarrow> sqlite3BitvecTest (Some p) i = Some (i \<in> bits (Some p))"
  using test_loop_eq [of p "i - 1"] elems_less_iSize [of p]
  by (auto simp: sqlite3BitvecTest_def bits_iff)

lemma BitvecClear_post:
  assumes "wf_bv p" and "0 < i" and "i \<le> iSize p"
  shows "\<exists>p'. sqlite3BitvecClear (Some p) i = Some (Some p') \<and> wf_bv p' \<and> iSize p' = iSize p \<and>
     bits (Some p') = bits (Some p) - {i}"
proof -
  have "clear_post p (i - 1) (bv_clear p (i - 1))"
    using assms by (intro bv_clear_post) auto
  then obtain p' where p': "bv_clear p (i - 1) = Some p'" "wf_bv p'" "iSize p' = iSize p"
    "elems p' = elems p - {i - 1}"
    by (auto simp: clear_post_def)
  moreover obtain k where "i = Suc k" using assms(2) by (cases i) auto
  then have "bits (Some p') = bits (Some p) - {i}"
    using p'(4) by (auto simp: bits_def)
  ultimately show ?thesis
    by (intro exI [of _ p']) (simp add: sqlite3BitvecClear_def)
qed

section \<open>Properties\<close>

text \<open>
  C13: Setting page \<open>i\<close> of a well-formed bitmap always returns, keeps the bitmap well formed
  and of the same size, and adds exactly \<open>i\<close> to its set, whichever of the representations
  it goes through (bitmap, hash table, overflow of the hash table into a tree of
  subtables). The only other result is \<open>SQLITE_NOMEM\<close>, after an allocation that failed,
  and then no page has been added but \<open>i\<close>.
\<close>

theorem sqlite3BitvecSet_correct:
  assumes "wf_bv p" and "iSize p < 2 ^ 32" and "0 < i" and "i \<le> iSize p"
  shows "\<exists>rc p' n'. sqlite3BitvecSet ok (Some p) i n = Some (rc, Some p', n') \<and>
     wf_bv p' \<and> iSize p' = iSize p \<and> n \<le> n' \<and>
     (if rc = SQLITE_OK then bits (Some p') = insert i (bits (Some p))
      else rc = SQLITE_NOMEM \<and> bits (Some p') \<subseteq> insert i (bits (Some p)) \<and>
        (\<exists>m. n \<le> m \<and> m < n' \<and> \<not> ok m))"
  by (rule BitvecSet_post [OF assms])

theorem sqlite3BitvecSet_correct_witness:
  "\<exists>rc p' n'. sqlite3BitvecSet (\<lambda>_. True) (Some (zeroed_bitvec 5000)) 4711 0 = Some (rc, Some p', n') \<and>
     rc = SQLITE_OK \<and> bits (Some p') = {4711}"
  using sqlite3BitvecSet_correct [of "zeroed_bitvec 5000" 4711 "\<lambda>_. True" 0]
  by (auto simp: wf_zeroed bits_def elems_zeroed split: if_splits)

text \<open>
  C14: The test of page \<open>i\<close> always returns (no probe runs round the hash table for ever) and
  tells whether \<open>i\<close> is in the set, also when \<open>i\<close> is 0 or out of range.
\<close>

theorem sqlite3BitvecTest_correct:
  assumes "wf_bv p"
  shows "sqlite3BitvecTest (Some p) i = Some (i \<in> bits (Some p))"
  by (rule BitvecTest_eq [OF assms])

theorem sqlite3BitvecTest_correct_witness:
  "sqlite3BitvecTest (Some (zeroed_bitvec 5000)) 77 = Some False"
  using sqlite3BitvecTest_correct [OF wf_zeroed(1), of 5000 77] by (simp add: bits_def elems_zeroed)

text \<open>
  C15: Clearing page \<open>i\<close> always returns, keeps the bitmap well formed and of the same size,
  and removes exactly \<open>i\<close>; in the hash representation this holds although the table is
  rebuilt and every other value may move.
\<close>

theorem sqlite3BitvecClear_correct:
  assumes "wf_bv p" and "0 < i" and "i \<le> iSize p"
  shows "\<exists>p'. sqlite3BitvecClear (Some p) i = Some (Some p') \<and> wf_bv p' \<and> iSize p' = iSize p \<and>
     bits (Some p') = bits (Some p) - {i}"
  by (rule BitvecClear_post [OF assms])

theorem sqlite3BitvecClear_correct_witness:
  "\<exists>p'. sqlite3BitvecClear (Some (zeroed_bitvec 5000)) 3 = Some (Some p') \<and> bits (Some p') = {}"
  using sqlite3BitvecClear_correct [of "zeroed_bitvec 5000" 3]
  by (auto simp: wf_zeroed bits_def elems_zeroed)

end
