(* ===== verification/Prng.thy ===== *)
theory Prng
  imports Prelude "HOL-Library.Multiset"
begin

text \<open>
  The pseudo-random number generator, \<^verbatim>\<open>src/random.c\<close>: the RC4 state \<open>prng\<close>, one byte
  (\<open>randomByte\<close>), \<open>N\<close> bytes (\<open>sqlite3_randomness\<close>) and the routines that save, restore and
  reset the state. The 256 bytes that the operating system gives as a seed are the
  parameter \<open>k\<close>. The table stays a permutation of the 256 byte values.
\<close>

record prng =
  isInit :: bool
  pi :: u8
  pj :: u8
  ps :: "u8 list"

text \<open>\<^verbatim>\<open>t = s[a]; s[a] = s[b]; s[b] = t;\<close>\<close>

definition swap_s :: "u8 list \<Rightarrow> u8 \<Rightarrow> u8 \<Rightarrow> u8 list" where
  "swap_s s a b = (s[unat a := s ! unat b])[unat b := s ! unat a]"

text \<open>The key schedule: the loop over \<open>i\<close>, with \<open>n\<close> rounds to go.\<close>

fun prng_schedule :: "u8 list \<Rightarrow> nat \<Rightarrow> nat \<Rightarrow> u8 \<Rightarrow> u8 list \<Rightarrow> u8 \<times> u8 list" where
  "prng_schedule k 0 i j s = (j, s)"
| "prng_schedule k (Suc n) i j s =
     (let j = j + (s ! i + k ! i)
      in prng_schedule k n (Suc i) j (swap_s s j (of_nat i)))"

definition prng_init :: "u8 list \<Rightarrow> prng" where
  "prng_init k =
     (let s = map of_nat [0..<256]; (j, s) = prng_schedule k 256 0 0 s
      in \<lparr>isInit = True, pi = 0, pj = j, ps = s\<rparr>)"

definition randomByte :: "u8 list \<Rightarrow> prng \<Rightarrow> u8 \<times> prng" where
  "randomByte k p =
     (let p = (if \<not> isInit p then prng_init k else p);
          i = pi p + 1;
          t = ps p ! unat i;
          j = pj p + t;
          s = (ps p)[unat i := ps p ! unat j];
          s = s[unat j := t];
          t = t + s ! unat i
      in (s ! unat t, p\<lparr>pi := i, pj := j, ps := s\<rparr>))"

fun sqlite3_randomness :: "u8 list \<Rightarrow> nat \<Rightarrow> prng \<Rightarrow> u8 list \<times> prng" where
  "sqlite3_randomness k 0 p = ([], p)"
| "sqlite3_randomness k (Suc n) p =
     (let (b, p) = randomByte k p; (bs, p) = sqlite3_randomness k n p in (b # bs, p))"

text \<open>
  The saved copy lives beside the generator: the pair is \<open>(sqlite3Prng, sqlite3SavedPrng)\<close>.
\<close>

definition sqlite3PrngSaveState :: "prng \<times> prng \<Rightarrow> prng \<times> prng" where
  "sqlite3PrngSaveState = (\<lambda>(p, saved). (p, p))"

definition sqlite3PrngRestoreState :: "prng \<times> prng \<Rightarrow> prng \<times> prng" where
  "sqlite3PrngRestoreState = (\<lambda>(p, saved). (saved, saved))"

definition sqlite3PrngResetState :: "prng \<times> prng \<Rightarrow> prng \<times> prng" where
  "sqlite3PrngResetState = (\<lambda>(p, saved). (p\<lparr>isInit := False\<rparr>, saved))"

section \<open>The invariant\<close>

definition perm_table :: "u8 list \<Rightarrow> bool" where
  "perm_table s \<longleftrightarrow> mset s = mset (map of_nat [0..<256])"

definition prng_inv :: "prng \<Rightarrow> bool" where
  "prng_inv p \<longleftrightarrow> length (ps p) = 256 \<and> (isInit p \<longrightarrow> perm_table (ps p))"

lemma perm_table_length: "perm_table s \<Longrightarrow> length s = 256"
  unfolding perm_table_def by (metis length_map length_upt minus_nat.diff_0 size_mset)

lemma perm_table_swap:
  assumes "perm_table s"
  shows "perm_table (swap_s s a b)"
proof -
  have "unat a < length s" "unat b < length s"
    using perm_table_length [OF assms] unat_u8_less by simp_all
  then show ?thesis
    using assms mset_swap [of "unat a" s "unat b"]
    by (simp add: perm_table_def swap_s_def list_update_swap mset_swap)
qed

lemma perm_table_schedule:
  "perm_table s \<Longrightarrow> perm_table (snd (prng_schedule k n i j s))"
  by (induction k n i j s rule: prng_schedule.induct) (simp_all add: perm_table_swap Let_def)

lemma prng_inv_init: "prng_inv (prng_init k) \<and> isInit (prng_init k)"
proof -
  have "perm_table (map of_nat [0..<256])" by (simp add: perm_table_def)
  from perm_table_schedule [OF this, of k 256 0 0] show ?thesis
    by (auto simp: prng_init_def prng_inv_def perm_table_length split: prod.splits)
qed

lemma prng_inv_byte:
  assumes "prng_inv p"
  shows "prng_inv (snd (randomByte k p)) \<and> isInit (snd (randomByte k p))"
proof -
  define q where "q = (if \<not> isInit p then prng_init k else p)"
  have q: "perm_table (ps q)" "isInit q"
    using assms prng_inv_init [of k] by (auto simp: q_def prng_inv_def)
  have "swap_s (ps q) (pi q + 1) (pj q + ps q ! unat (pi q + 1)) =
      ps (snd (randomByte k p))"
    by (simp add: randomByte_def swap_s_def Let_def flip: q_def)
  moreover have "isInit (snd (randomByte k p))"
    using q by (simp add: randomByte_def Let_def flip: q_def)
  ultimately show ?thesis
    using perm_table_swap [OF q(1)] perm_table_length by (metis prng_inv_def)
qed

lemma prng_inv_randomness: "prng_inv p \<Longrightarrow> prng_inv (snd (sqlite3_randomness k n p))"
  by (induction n arbitrary: p) (simp_all add: split_def Let_def prng_inv_byte)

lemma length_randomness: "length (fst (sqlite3_randomness k n p)) = n"
  by (induction n arbitrary: p) (simp_all add: split_def Let_def)

section \<open>Properties\<close>

text \<open>
  C26: Drawing any number of random bytes keeps the RC4 table a permutation of the 256 byte
  values (so the generator never degenerates), whatever the seed, and \<open>n\<close> bytes are written.
\<close>

theorem prng_permutation:
  assumes "prng_inv p"
  shows "prng_inv (snd (sqlite3_randomness k n p)) \<and> length (fst (sqlite3_randomness k n p)) = n \<and>
    (0 < n \<longrightarrow> perm_table (ps (snd (sqlite3_randomness k n p))))"
proof -
  have "isInit p \<Longrightarrow> isInit (snd (sqlite3_randomness k n p))" for p n
    by (induction n arbitrary: p) (simp_all add: split_def Let_def randomByte_def)
  then have "0 < n \<Longrightarrow> isInit (snd (sqlite3_randomness k n p))"
    using prng_inv_byte [OF assms] by (cases n) (auto simp: split_def Let_def)
  then show ?thesis
    using prng_inv_randomness [OF assms, of k n] length_randomness by (auto simp: prng_inv_def)
qed

theorem prng_permutation_witness:
  "perm_table (ps (snd (sqlite3_randomness (replicate 256 7) 20
     \<lparr>isInit = False, pi = 0, pj = 0, ps = replicate 256 0\<rparr>)))"
  using prng_permutation
    [of "\<lparr>isInit = False, pi = 0, pj = 0, ps = replicate 256 0\<rparr>" "replicate 256 7" 20]
  by (simp add: prng_inv_def)

end
