(* ===== verification/Page_Set.thy ===== *)
theory Page_Set
  imports Prelude
begin

text \<open>
  The contract of a set of page numbers, \<open>page_set\<close>: what the pager and the self test rely
  on when they call \<open>sqlite3BitvecSet\<close>, \<open>sqlite3BitvecClear\<close>, \<open>sqlite3BitvecTest\<close> and
  \<open>sqlite3BitvecSize\<close>. A client that keeps a plain array of bits beside the set (\<open>mirrors\<close>)
  and applies each change to both finds them equal. \<open>enough\<close> says that no allocation fails.
\<close>

text \<open>\<^verbatim>\<open>SETBIT\<close>, \<^verbatim>\<open>CLEARBIT\<close> and \<^verbatim>\<open>TESTBIT\<close>; a byte outside the array is \<open>None\<close>.\<close>

definition SETBIT :: "u8 list \<Rightarrow> nat \<Rightarrow> u8 list option" where
  "SETBIT V i = do { b \<leftarrow> rd V (i div 8); Some (V[i div 8 := b OR push_bit (i AND 7) 1]) }"

definition CLEARBIT :: "u8 list \<Rightarrow> nat \<Rightarrow> u8 list option" where
  "CLEARBIT V i = do { b \<leftarrow> rd V (i div 8); Some (V[i div 8 := b AND NOT (push_bit (i AND 7) 1)]) }"

definition TESTBIT :: "u8 list \<Rightarrow> nat \<Rightarrow> bool option" where
  "TESTBIT V i = do { b \<leftarrow> rd V (i div 8); Some (b AND push_bit (i AND 7) 1 \<noteq> 0) }"

definition mirrors :: "u8 list \<Rightarrow> nat \<Rightarrow> nat set \<Rightarrow> bool" where
  "mirrors V sz A \<longleftrightarrow> sz div 8 < length V \<and>
     (\<forall>i. 0 < i \<and> i \<le> sz \<longrightarrow> bit (V ! (i div 8)) (i mod 8) = (i \<in> A))"

lemma and_7: "i AND 7 = i mod (8 :: nat)"
proof -
  have "i AND 7 = take_bit 3 i" by (simp add: take_bit_eq_mask mask_eq_exp_minus_1)
  then show ?thesis by (simp add: take_bit_eq_mod)
qed

lemma bit_set_u8: "k < 8 \<Longrightarrow> bit (b OR push_bit k 1) n \<longleftrightarrow> bit b n \<or> n = k" for b :: u8
  by (auto simp: bit_simps)

lemma bit_clear_u8: "bit (b AND NOT (push_bit k 1)) n \<longleftrightarrow> bit b n \<and> n \<noteq> k" for b :: u8
  by (auto simp: bit_simps dest: bit_u8_bound)

lemma same_byte: "i div 8 = j div 8 \<Longrightarrow> i mod 8 = j mod 8 \<longleftrightarrow> i = (j :: nat)"
  by (metis mod_div_decomp)

lemma mirrors_byte: "mirrors V sz A \<Longrightarrow> i \<le> sz \<Longrightarrow> i div 8 < length V"
  using div_le_mono [of i sz 8] by (simp add: mirrors_def)

lemma SETBIT_mirrors:
  assumes "mirrors V sz A" and "i \<le> sz"
  shows "\<exists>V'. SETBIT V i = Some V' \<and> mirrors V' sz (insert i A)"
proof -
  let ?V = "V[i div 8 := V ! (i div 8) OR push_bit (i mod 8) 1]"
  have i: "i div 8 < length V" using mirrors_byte assms .
  have "bit (?V ! (j div 8)) (j mod 8) \<longleftrightarrow> bit (V ! (j div 8)) (j mod 8) \<or> j = i" for j
  proof (cases "j div 8 = i div 8")
    case True
    then show ?thesis using i same_byte [OF True] by (simp add: bit_set_u8 del: push_bit_of_1)
  next
    case False
    then show ?thesis by auto
  qed
  then have "mirrors ?V sz (insert i A)"
    using assms unfolding mirrors_def by auto
  with i show ?thesis unfolding SETBIT_def and_7 by (simp add: rd_nth)
qed

lemma CLEARBIT_mirrors:
  assumes "mirrors V sz A" and "i \<le> sz"
  shows "\<exists>V'. CLEARBIT V i = Some V' \<and> mirrors V' sz (A - {i})"
proof -
  let ?V = "V[i div 8 := V ! (i div 8) AND NOT (push_bit (i mod 8) 1)]"
  have i: "i div 8 < length V" using mirrors_byte assms .
  have "bit (?V ! (j div 8)) (j mod 8) \<longleftrightarrow> bit (V ! (j div 8)) (j mod 8) \<and> j \<noteq> i" for j
  proof (cases "j div 8 = i div 8")
    case True
    then show ?thesis using i same_byte [OF True] by (simp add: bit_clear_u8 del: push_bit_of_1)
  next
    case False
    then show ?thesis by auto
  qed
  then have "mirrors ?V sz (A - {i})"
    using assms unfolding mirrors_def by auto
  with i show ?thesis unfolding CLEARBIT_def and_7 by (simp add: rd_nth)
qed

lemma TESTBIT_mirrors:
  assumes "mirrors V sz A" and "0 < i" and "i \<le> sz"
  shows "TESTBIT V i = Some (i \<in> A)"
proof -
  have "b AND push_bit n 1 \<noteq> 0 \<longleftrightarrow> bit b n" if "n < 8" for b :: u8 and n
    using that by (simp add: and_exp_eq_0_iff_not_bit push_bit_eq_mult)
  then show ?thesis
    using assms mirrors_byte [OF assms(1,3)]
    unfolding TESTBIT_def and_7 mirrors_def by (simp add: rd_nth del: push_bit_of_1)
qed

section \<open>The contract\<close>

locale page_set =
  fixes inv :: "'b \<Rightarrow> bool"
    and sizep :: "'b \<Rightarrow> nat"
    and pages :: "'b \<Rightarrow> nat set"
    and setp :: "'b \<Rightarrow> nat \<Rightarrow> nat \<Rightarrow> (int \<times> 'b \<times> nat) option"
    and clearp :: "'b \<Rightarrow> nat \<Rightarrow> 'b option"
    and testp :: "'b \<Rightarrow> nat \<Rightarrow> bool option"
    and enough :: bool
  assumes setp_law: "inv b \<Longrightarrow> 0 < i \<Longrightarrow> i \<le> sizep b \<Longrightarrow>
      \<exists>rc b' n'. setp b i n = Some (rc, b', n') \<and> inv b' \<and> sizep b' = sizep b \<and> n \<le> n' \<and>
        (rc = SQLITE_OK \<longrightarrow> pages b' = insert i (pages b)) \<and> (enough \<longrightarrow> rc = SQLITE_OK)"
    and clearp_law: "inv b \<Longrightarrow> 0 < i \<Longrightarrow> i \<le> sizep b \<Longrightarrow>
      \<exists>b'. clearp b i = Some b' \<and> inv b' \<and> sizep b' = sizep b \<and> pages b' = pages b - {i}"
    and testp_law: "inv b \<Longrightarrow> testp b i = Some (i \<in> pages b)"
    and pages_range: "inv b \<Longrightarrow> pages b \<subseteq> {1..sizep b}"
begin

lemma set_both:
  assumes "inv b" and "mirrors V (sizep b) (pages b)" and "0 < i" and "i \<le> sizep b"
  obtains V' rc b' n' where "SETBIT V i = Some V'" and "setp b i n = Some (rc, b', n')"
    and "inv b'" and "sizep b' = sizep b" and "n \<le> n'"
    and "rc = SQLITE_OK \<longrightarrow> mirrors V' (sizep b') (pages b')" and "enough \<longrightarrow> rc = SQLITE_OK"
  using setp_law [OF assms(1,3,4), of n] SETBIT_mirrors [OF assms(2,4)] by metis

lemma clear_both:
  assumes "inv b" and "mirrors V (sizep b) (pages b)" and "0 < i" and "i \<le> sizep b"
  obtains V' b' where "CLEARBIT V i = Some V'" and "clearp b i = Some b'"
    and "inv b'" and "sizep b' = sizep b" and "mirrors V' (sizep b') (pages b')"
  using clearp_law [OF assms(1,3,4)] CLEARBIT_mirrors [OF assms(2,4)] by metis

lemma compare_both:
  assumes "inv b" and "mirrors V (sizep b) (pages b)" and "0 < i" and "i \<le> sizep b"
  shows "TESTBIT V i = testp b i"
  using assms TESTBIT_mirrors testp_law by simp

lemma out_of_range: "inv b \<Longrightarrow> testp b 0 = Some False \<and> testp b (sizep b + 1) = Some False"
  using pages_range [of b] testp_law [of b] by auto

end

end
