(* ===== verification/Bitvec_Test.thy ===== *)
theory Bitvec_Test
  imports Bitvec_Correct Prng Page_Set
begin

text \<open>
  \<open>sqlite3BitvecBuiltinTest\<close> of \<^verbatim>\<open>src/bitvec.c\<close>: the interpreter of small test programs that
  applies every operation both to a bitmap and to a linear array of bits and compares
  them at the end. Random page numbers come from the generator of theory \<open>Prng\<close>. The
  bitmap meets the contract \<open>page_set\<close>; so no program without opcode 5 finds a difference.
\<close>

interpretation bv: page_set
  "\<lambda>p. wf_bv p \<and> iSize p < 2 ^ 32" iSize "\<lambda>p. bits (Some p)"
  "\<lambda>p i n. map_option (\<lambda>(rc, p', n'). (rc, the p', n')) (sqlite3BitvecSet ok (Some p) i n)"
  "\<lambda>p i. map_option the (sqlite3BitvecClear (Some p) i)"
  "\<lambda>p i. sqlite3BitvecTest (Some p) i" "\<forall>m. ok m"
  for ok
proof (unfold_locales, goal_cases)
  case (1 b i n)
  then obtain rc p' n' where "sqlite3BitvecSet ok (Some b) i n = Some (rc, Some p', n')" "wf_bv p'"
    "iSize p' = iSize b" "n \<le> n'" and "if rc = SQLITE_OK then bits (Some p') = insert i (bits (Some b))
       else rc = SQLITE_NOMEM \<and> bits (Some p') \<subseteq> insert i (bits (Some b)) \<and> (\<exists>m. n \<le> m \<and> m < n' \<and> \<not> ok m)"
    using BitvecSet_post [of b i ok n] by blast
  with 1 show ?case by (intro exI [of _ rc] exI [of _ p'] exI [of _ n']) (auto split: if_splits)
next
  case (2 b i)
  then show ?case using BitvecClear_post [of b i] by force
next
  case (3 b i)
  then show ?case using BitvecTest_eq by simp
next
  case (4 b)
  then show ?case using elems_less_iSize [of b] by (auto simp: bits_def)
qed

section \<open>The interpreter\<close>

text \<open>
  The local variables of the function; \<open>aOp\<close> is the program, which it modifies, and \<open>nMem\<close>
  counts the allocations so far. C's \<^verbatim>\<open>int\<close> is \<open>int\<close>: the only overflow a program can cause
  is in its own operands, whose high bits the mask 0x7fffffff removes.
\<close>

record selftest =
  aOp :: "int list"
  pc :: nat
  pV :: "u8 list"
  pBitvec :: bitvec
  rnd :: prng
  nMem :: nat

text \<open>\<^verbatim>\<open>sqlite3_randomness(sizeof(i), &i)\<close> on a little-endian machine.\<close>

definition random_int :: "u8 list \<Rightarrow> prng \<Rightarrow> int \<times> prng" where
  "random_int k p =
     (let (bs, p) = sqlite3_randomness k 4 p
      in (\<Sum>j<4. 256 ^ j * uint (bs ! j), p))"

text \<open>The \<^verbatim>\<open>switch\<close>: the length of the instruction and the number it works on.\<close>

definition selftest_fetch :: "u8 list \<Rightarrow> int \<Rightarrow> selftest \<Rightarrow> (nat \<times> int \<times> selftest) option" where
  "selftest_fetch k op st =
     (if op = 1 \<or> op = 2 \<or> op = 5 then do {
        s \<leftarrow> rd (aOp st) (pc st + 2);
        x \<leftarrow> rd (aOp st) (pc st + 3);
        Some (4, s - 1, st\<lparr>aOp := (aOp st)[pc st + 2 := s + x]\<rparr>)
      } else (let (i, p) = random_int k (rnd st) in Some (2, i, st\<lparr>rnd := p\<rparr>)))"

text \<open>The change of bit \<open>i + 1\<close> in both representations.\<close>

definition selftest_apply ::
  "mem_oracle \<Rightarrow> int \<Rightarrow> nat \<Rightarrow> selftest \<Rightarrow> (int \<times> selftest) option" where
  "selftest_apply ok op i st =
     (if op AND 1 \<noteq> 0 then do {
        V \<leftarrow> SETBIT (pV st) (i + 1);
        let st = st\<lparr>pV := V\<rparr>;
        (if op \<noteq> 5 then do {
           (rc, b, n) \<leftarrow> sqlite3BitvecSet ok (Some (pBitvec st)) (i + 1) (nMem st);
           Some (rc, st\<lparr>pBitvec := the b, nMem := n\<rparr>)
         } else Some (0, st))
      } else do {
        V \<leftarrow> CLEARBIT (pV st) (i + 1);
        b \<leftarrow> sqlite3BitvecClear (Some (pBitvec st)) (i + 1);
        Some (0, st\<lparr>pV := V, pBitvec := the b\<rparr>)
      })"

text \<open>
  One round of the \<^verbatim>\<open>while\<close> loop for the opcode \<open>op\<close>. \<open>None\<close> is a read outside the program
  or the array, or a division by \<open>sz = 0\<close>; the result code says whether the set failed.
\<close>

definition selftest_step ::
  "mem_oracle \<Rightarrow> u8 list \<Rightarrow> nat \<Rightarrow> int \<Rightarrow> selftest \<Rightarrow> (int \<times> selftest) option" where
  "selftest_step ok k sz op st = do {
     (nx, i, st) \<leftarrow> selftest_fetch k op st;
     c \<leftarrow> rd (aOp st) (pc st + 1);
     let st = st\<lparr>aOp := (aOp st)[pc st + 1 := c - 1]\<rparr>;
     let nx = (if c - 1 > 0 then 0 else nx);
     let st = st\<lparr>pc := pc st + nx\<rparr>;
     (if sz = 0 then None
      else selftest_apply ok op (nat ((i AND 0x7fffffff) mod int sz)) st)
   }"

text \<open>\<open>Inl\<close>: the jump to \<^verbatim>\<open>bitvec_end\<close>; \<open>Inr\<close>: the halt opcode was reached.\<close>

fun selftest_loop ::
  "nat \<Rightarrow> mem_oracle \<Rightarrow> u8 list \<Rightarrow> nat \<Rightarrow> selftest \<Rightarrow> (selftest + selftest) option" where
  "selftest_loop 0 ok k sz st = None"
| "selftest_loop (Suc fuel) ok k sz st = do {
     op \<leftarrow> rd (aOp st) (pc st);
     if op = 0 then Some (Inr st)
     else do {
       (rc, st) \<leftarrow> selftest_step ok k sz op st;
       if rc \<noteq> 0 then Some (Inl st) else selftest_loop fuel ok k sz st
     }
   }"

text \<open>The loop \<^verbatim>\<open>for(i=1; i<=sz; i++)\<close> from \<open>i\<close>, with \<open>n\<close> rounds to go.\<close>

fun compare_loop :: "nat \<Rightarrow> nat \<Rightarrow> u8 list \<Rightarrow> bitvec \<Rightarrow> int \<Rightarrow> int option" where
  "compare_loop 0 i V p rc = Some rc"
| "compare_loop (Suc n) i V p rc = do {
     a \<leftarrow> TESTBIT V i;
     b \<leftarrow> sqlite3BitvecTest (Some p) i;
     if a \<noteq> b then Some (int i) else compare_loop n (Suc i) V p rc
   }"

definition sqlite3BitvecBuiltinTest ::
  "nat \<Rightarrow> mem_oracle \<Rightarrow> u8 list \<Rightarrow> prng \<Rightarrow> nat \<Rightarrow> int list \<Rightarrow> int option" where
  "sqlite3BitvecBuiltinTest fuel ok k g sz prog =
     (case sqlite3BitvecCreate ok sz 0 of
        (None, n) \<Rightarrow> Some (- 1)
      | (Some p, n) \<Rightarrow>
          if \<not> ok n \<or> \<not> ok (n + 1) then Some (- 1)
          else do {
            _ \<leftarrow> sqlite3BitvecSet ok None 1 (n + 2);
            _ \<leftarrow> sqlite3BitvecClear None 1;
            r \<leftarrow> selftest_loop fuel ok k sz
              \<lparr>aOp = prog, pc = 0, pV = replicate ((sz + 7) div 8 + 1) 0, pBitvec = p,
               rnd = g, nMem = n + 2\<rparr>;
            case r of
              Inl st \<Rightarrow> Some (- 1)
            | Inr st \<Rightarrow> do {
                a \<leftarrow> sqlite3BitvecTest None 0;
                b \<leftarrow> sqlite3BitvecTest (Some (pBitvec st)) (sz + 1);
                c \<leftarrow> sqlite3BitvecTest (Some (pBitvec st)) 0;
                compare_loop sz 1 (pV st) (pBitvec st)
                  (of_bool a + of_bool b + of_bool c + (int (sqlite3BitvecSize (pBitvec st)) - int sz))
              }
          })"

section \<open>Test programs\<close>

text \<open>The instructions the comment of the function lists, without the fault-inducing opcode 5.\<close>

datatype instr =
    SetBits nat int int
  | ClearBits nat int int
  | SetRandom nat
  | ClearRandom nat

fun rounds :: "instr \<Rightarrow> nat" where
  "rounds (SetBits n s x) = max 1 n"
| "rounds (ClearBits n s x) = max 1 n"
| "rounds (SetRandom n) = max 1 n"
| "rounds (ClearRandom n) = max 1 n"

fun opcodes :: "instr \<Rightarrow> int list" where
  "opcodes (SetBits n s x) = [1, int n, s, x]"
| "opcodes (ClearBits n s x) = [2, int n, s, x]"
| "opcodes (SetRandom n) = [3, int n]"
| "opcodes (ClearRandom n) = [4, int n]"

definition program :: "instr list \<Rightarrow> int list" where
  "program is = concat (map opcodes is) @ [0]"

fun again :: "instr \<Rightarrow> instr" where
  "again (SetBits n s x) = SetBits (n - 1) (s + x) x"
| "again (ClearBits n s x) = ClearBits (n - 1) (s + x) x"
| "again (SetRandom n) = SetRandom (n - 1)"
| "again (ClearRandom n) = ClearRandom (n - 1)"

definition good :: "nat \<Rightarrow> selftest \<Rightarrow> bool" where
  "good sz st \<longleftrightarrow> wf_bv (pBitvec st) \<and> iSize (pBitvec st) = sz \<and> sz < 2 ^ 32 \<and>
     mirrors (pV st) sz (bits (Some (pBitvec st)))"

text \<open>The program counter stands in front of the instructions \<open>is\<close> and the halt opcode.\<close>

definition at_program :: "instr list \<Rightarrow> selftest \<Rightarrow> bool" where
  "at_program is st \<longleftrightarrow> (\<exists>pre. aOp st = pre @ program is \<and> pc st = length pre)"

section \<open>No false alarm\<close>

lemma apply_good:
  assumes "good sz st" and "i < sz" and "op \<in> {1, 2, 3, 4}"
  shows "\<exists>rc st'. selftest_apply ok op i st = Some (rc, st') \<and> (rc = SQLITE_OK \<longrightarrow> good sz st') \<and>
     ((\<forall>m. ok m) \<longrightarrow> rc = SQLITE_OK) \<and> aOp st' = aOp st \<and> pc st' = pc st"
proof -
  let ?p = "pBitvec st"
  have inv: "wf_bv ?p \<and> iSize ?p < 2 ^ 32" "mirrors (pV st) (iSize ?p) (bits (Some ?p))"
    "0 < i + 1" "i + 1 \<le> iSize ?p"
    using assms by (auto simp: good_def)
  show ?thesis
  proof (cases "op \<in> {1, 3}")
    case True
    then have op: "op AND 1 \<noteq> 0" "op \<noteq> 5" by auto
    obtain V rc b n where V: "SETBIT (pV st) (i + 1) = Some V"
      and r: "map_option (\<lambda>(rc, p', n'). (rc, the p', n')) (sqlite3BitvecSet ok (Some ?p) (i + 1) (nMem st)) = Some (rc, b, n)"
      and b: "wf_bv b \<and> iSize b < 2 ^ 32" "iSize b = iSize ?p"
      and m: "rc = SQLITE_OK \<longrightarrow> mirrors V (iSize b) (bits (Some b))" "(\<forall>m. ok m) \<longrightarrow> rc = SQLITE_OK"
      by (rule bv.set_both [OF inv, where n = "nMem st" and ok = ok]) blast
    from r obtain b' where "sqlite3BitvecSet ok (Some ?p) (i + 1) (nMem st) = Some (rc, b', n)" "the b' = b"
      by auto
    with op V have "selftest_apply ok op i st = Some (rc, st\<lparr>pV := V, pBitvec := b, nMem := n\<rparr>)"
      by (simp add: selftest_apply_def Let_def)
    then show ?thesis using b m assms(1) by (simp add: good_def)
  next
    case False
    then have op: "op AND 1 = 0" using assms(3) by auto
    obtain V b where V: "CLEARBIT (pV st) (i + 1) = Some V"
      and r: "map_option the (sqlite3BitvecClear (Some ?p) (i + 1)) = Some b"
      and b: "wf_bv b \<and> iSize b < 2 ^ 32" "iSize b = iSize ?p" "mirrors V (iSize b) (bits (Some b))"
      by (rule bv.clear_both [OF inv]) blast
    from r obtain b' where "sqlite3BitvecClear (Some ?p) (i + 1) = Some b'" "the b' = b"
      by auto
    with op V have "selftest_apply ok op i st = Some (0, st\<lparr>pV := V, pBitvec := b\<rparr>)"
      by (simp add: selftest_apply_def)
    then show ?thesis using b assms(1) by (simp add: good_def)
  qed
qed

lemma rd_append_length:
  "rd (xs @ ys) (length xs + n) = rd ys n" "rd (xs @ ys) (length xs) = rd ys 0"
  "rd (xs @ ys) (Suc (length xs)) = rd ys 1" "rd (xs @ ys) (Suc (Suc (length xs))) = rd ys 2"
  by (auto simp: rd_def nth_append numeral_2_eq_2)

lemma mod_nat_less: "0 < sz \<Longrightarrow> nat (i mod int sz) < sz"
  by (simp add: nat_less_iff)

lemma at_programI: "aOp st = pre @ program is \<Longrightarrow> pc st = length pre \<Longrightarrow> at_program is st"
  by (auto simp: at_program_def)

lemma program_Cons: "program (a # is) = opcodes a @ program is"
  by (simp add: program_def)

lemma at_count:
  assumes "aOp st = pre @ junk @ program is" and "pc st = length pre + (if int n - 1 > 0 then 0 else nx)"
    and "length junk = nx" and "1 < n \<Longrightarrow> junk = opcodes (again a)" and "rounds a = max 1 n"
  shows "at_program (if rounds a \<le> 1 then is else again a # is) st"
proof (cases "1 < n")
  case True
  with assms show ?thesis by (intro at_programI [where pre = pre]) (simp_all add: program_Cons)
next
  case False
  with assms show ?thesis by (intro at_programI [where pre = "pre @ junk"]) simp_all
qed

text \<open>Fetching an instruction and counting it down leads to its next round or behind it.\<close>

lemma fetch_count:
  assumes "at_program (a # is) st"
  shows "\<exists>op nx i st1 c. rd (aOp st) (pc st) = Some op \<and> op \<in> {1, 2, 3, 4} \<and>
     selftest_fetch k op st = Some (nx, i, st1) \<and> rd (aOp st1) (pc st1 + 1) = Some c \<and>
     pV st1 = pV st \<and> pBitvec st1 = pBitvec st \<and>
     at_program (if rounds a \<le> 1 then is else again a # is)
       (st1\<lparr>aOp := (aOp st1)[pc st1 + 1 := c - 1], pc := pc st1 + (if c - 1 > 0 then 0 else nx)\<rparr>)"
proof -
  obtain pre where pre: "aOp st = pre @ opcodes a @ program is" "pc st = length pre"
    using assms by (auto simp: at_program_def program_Cons)
  note defs = pre rd_append_length selftest_fetch_def list_update_append rd_Cons_numeral rd_Cons_0 rd_Cons_Suc
  show ?thesis
  proof (cases a)
    case (SetBits n s x)
    have "at_program (if rounds a \<le> 1 then is else again a # is)
       (st\<lparr>aOp := pre @ [1, int n - 1, s + x, x] @ program is, pc := length pre + (if int n - 1 > 0 then 0 else 4)\<rparr>)"
      using SetBits by (intro at_count) auto
    then show ?thesis using SetBits
      by (intro exI [of _ 1] exI [of _ 4] exI [of _ "s - 1"] exI [of _ "int n"]
          exI [of _ "st\<lparr>aOp := pre @ [1, int n, s + x, x] @ program is\<rparr>"])
        (simp add: defs)
  next
    case (ClearBits n s x)
    have "at_program (if rounds a \<le> 1 then is else again a # is)
       (st\<lparr>aOp := pre @ [2, int n - 1, s + x, x] @ program is, pc := length pre + (if int n - 1 > 0 then 0 else 4)\<rparr>)"
      using ClearBits by (intro at_count) auto
    then show ?thesis using ClearBits
      by (intro exI [of _ 2] exI [of _ 4] exI [of _ "s - 1"] exI [of _ "int n"]
          exI [of _ "st\<lparr>aOp := pre @ [2, int n, s + x, x] @ program is\<rparr>"])
        (simp add: defs)
  next
    case (SetRandom n)
    have "at_program (if rounds a \<le> 1 then is else again a # is)
       (st\<lparr>rnd := snd (random_int k (rnd st)), aOp := pre @ [3, int n - 1] @ program is, pc := length pre + (if int n - 1 > 0 then 0 else 2)\<rparr>)"
      using SetRandom by (intro at_count) auto
    then show ?thesis using SetRandom
      by (intro exI [of _ 3] exI [of _ 2] exI [of _ "fst (random_int k (rnd st))"] exI [of _ "int n"]
          exI [of _ "st\<lparr>rnd := snd (random_int k (rnd st))\<rparr>"])
        (simp add: defs split_def Let_def)
  next
    case (ClearRandom n)
    have "at_program (if rounds a \<le> 1 then is else again a # is)
       (st\<lparr>rnd := snd (random_int k (rnd st)), aOp := pre @ [4, int n - 1] @ program is, pc := length pre + (if int n - 1 > 0 then 0 else 2)\<rparr>)"
      using ClearRandom by (intro at_count) auto
    then show ?thesis using ClearRandom
      by (intro exI [of _ 4] exI [of _ 2] exI [of _ "fst (random_int k (rnd st))"] exI [of _ "int n"]
          exI [of _ "st\<lparr>rnd := snd (random_int k (rnd st))\<rparr>"])
        (simp add: defs split_def Let_def)
  qed
qed

lemma step_good:
  assumes "good sz st" and "0 < sz" and at: "at_program (a # is) st"
  shows "\<exists>op rc st'. rd (aOp st) (pc st) = Some op \<and> op \<noteq> 0 \<and> selftest_step ok k sz op st = Some (rc, st') \<and>
     (rc = SQLITE_OK \<longrightarrow> good sz st' \<and> at_program (if rounds a \<le> 1 then is else again a # is) st') \<and>
     ((\<forall>m. ok m) \<longrightarrow> rc = SQLITE_OK)"
proof -
  obtain op nx i st1 c where f: "rd (aOp st) (pc st) = Some op" "op \<in> {1, 2, 3, 4}"
     "selftest_fetch k op st = Some (nx, i, st1)" "rd (aOp st1) (pc st1 + 1) = Some c"
     "pV st1 = pV st" "pBitvec st1 = pBitvec st"
   and at1: "at_program (if rounds a \<le> 1 then is else again a # is)
       (st1\<lparr>aOp := (aOp st1)[pc st1 + 1 := c - 1], pc := pc st1 + (if c - 1 > 0 then 0 else nx)\<rparr>)"
    using fetch_count [OF at, of k] by blast
  let ?st = "st1\<lparr>aOp := (aOp st1)[pc st1 + 1 := c - 1], pc := pc st1 + (if c - 1 > 0 then 0 else nx)\<rparr>"
  have "good sz ?st" using assms(1) f by (simp add: good_def)
  from apply_good [OF this _ f(2), of "nat ((i AND 0x7fffffff) mod int sz)" ok] mod_nat_less assms(2)
  obtain rc st' where "selftest_apply ok op (nat ((i AND 0x7fffffff) mod int sz)) ?st = Some (rc, st')"
    "rc = SQLITE_OK \<longrightarrow> good sz st'" "(\<forall>m. ok m) \<longrightarrow> rc = SQLITE_OK" "aOp st' = aOp ?st" "pc st' = pc ?st"
    by blast
  moreover from this have "at_program (if rounds a \<le> 1 then is else again a # is) st'"
    using at1 by (simp add: at_program_def)
  ultimately show ?thesis
    using f assms(2) by (auto simp: selftest_step_def Let_def)
qed

definition total_rounds :: "instr list \<Rightarrow> nat" where
  "total_rounds is = sum_list (map rounds is)"

lemma rounds_again: "1 < rounds a \<Longrightarrow> rounds a = Suc (rounds (again a))"
  by (cases a) auto

lemma loop_good:
  "good sz st \<Longrightarrow> 0 < sz \<Longrightarrow> at_program is st \<Longrightarrow> total_rounds is < fuel \<Longrightarrow>
     \<exists>r. selftest_loop fuel ok k sz st = Some r \<and> (\<forall>st'. r = Inr st' \<longrightarrow> good sz st') \<and>
       ((\<forall>m. ok m) \<longrightarrow> (\<exists>st'. r = Inr st'))"
proof (induction fuel arbitrary: st "is")
  case 0
  then show ?case by simp
next
  case (Suc fuel)
  show ?case
  proof (cases "is")
    case Nil
    with Suc.prems(3) have "rd (aOp st) (pc st) = Some 0"
      using rd_append_length [of _ "[0]"] by (auto simp: at_program_def program_def)
    with Suc.prems(1) show ?thesis by simp
  next
    case (Cons a is')
    obtain op rc st' where s: "rd (aOp st) (pc st) = Some op" "op \<noteq> 0" "selftest_step ok k sz op st = Some (rc, st')"
      and good: "rc = SQLITE_OK \<longrightarrow> good sz st' \<and> at_program (if rounds a \<le> 1 then is' else again a # is') st'"
      and mem: "(\<forall>m. ok m) \<longrightarrow> rc = SQLITE_OK"
      using step_good [OF Suc.prems(1,2)] Suc.prems(3) Cons by blast
    show ?thesis
    proof (cases "rc = 0")
      case False
      with s mem show ?thesis by simp
    next
      case True
      have "0 < rounds a" by (cases a) auto
      then have "total_rounds (if rounds a \<le> 1 then is' else again a # is') < fuel"
        using Suc.prems(4) Cons rounds_again [of a] by (auto simp: total_rounds_def)
      from Suc.IH [OF _ Suc.prems(2) _ this] True good s show ?thesis by simp
    qed
  qed
qed

lemma compare_good:
  "good sz st \<Longrightarrow> 0 < i \<Longrightarrow> i + n \<le> sz + 1 \<Longrightarrow> compare_loop n i (pV st) (pBitvec st) rc = Some rc"
proof (induction n arbitrary: i)
  case 0
  then show ?case by simp
next
  case (Suc n)
  have "TESTBIT (pV st) i = sqlite3BitvecTest (Some (pBitvec st)) i"
    using Suc.prems by (intro bv.compare_both) (auto simp: good_def)
  moreover have "\<exists>b. sqlite3BitvecTest (Some (pBitvec st)) i = Some b"
    using Suc.prems BitvecTest_eq by (auto simp: good_def)
  ultimately show ?case using Suc by auto
qed

lemma good_start:
  assumes "sz < 2 ^ 32"
  shows "good sz \<lparr>aOp = prog, pc = 0, pV = replicate ((sz + 7) div 8 + 1) 0, pBitvec = zeroed_bitvec sz, rnd = g, nMem = n\<rparr>"
proof -
  have "i div 8 < (sz + 7) div 8 + 1" if "i \<le> sz" for i :: nat using that by linarith
  then have "mirrors (replicate ((sz + 7) div 8 + 1) 0) sz {}"
    unfolding mirrors_def by (auto simp del: replicate_Suc)
  then show ?thesis using assms by (simp add: good_def wf_zeroed bits_def elems_zeroed)
qed

section \<open>Property\<close>



end
