(* ===== verification/RowSet.thy ===== *)
theory RowSet
  imports Prelude "HOL-Library.Tree"
begin

text \<open>
  The set of row ids of a statement, \<^verbatim>\<open>src/rowset.c\<close>: values are collected on a list, which is
  either sorted once and drained (\<open>sqlite3RowSetNext\<close>), or, batch by batch, turned into a
  forest of balanced binary trees that is searched (\<open>sqlite3RowSetTest\<close>). A linked list of
  entries is the list of its values and a tree of entries is a \<open>tree\<close>; a null pointer is
  \<open>[]\<close> or \<open>Leaf\<close>. Row ids are integers, since the code only compares them.
\<close>

section \<open>The state\<close>

text \<open>
  \<^verbatim>\<open>struct RowSet\<close>. \<open>nChunk\<close> is the length of the chunk list. \<^verbatim>\<open>pLast\<close> is the last element of
  \<open>pEntry\<close> as long as values are inserted, and is not used afterwards; the two bits of
  \<^verbatim>\<open>rsFlags\<close> are two fields.
\<close>

record rowset =
  nChunk :: nat
  pEntry :: "int list"
  pForest :: "int tree list"
  nFresh :: nat
  rsSorted :: bool
  rsNext :: bool
  iBatch :: u8

definition ROWSET_ENTRY_PER_CHUNK :: nat where
  "ROWSET_ENTRY_PER_CHUNK = (1024 - 8) div 24"

definition sizeof_RowSet :: nat where "sizeof_RowSet = 56"

text \<open>The cast to \<^verbatim>\<open>u16\<close> wraps.\<close>

definition sqlite3RowSetInit :: "nat \<Rightarrow> rowset" where
  "sqlite3RowSetInit N =
     \<lparr>nChunk = 0, pEntry = [], pForest = [], nFresh = ((N - sizeof_RowSet) div 24) mod 2 ^ 16,
      rsSorted = True, rsNext = False, iBatch = 0\<rparr>"

definition sqlite3RowSetClear :: "rowset \<Rightarrow> rowset" where
  "sqlite3RowSetClear p =
     p\<lparr>nChunk := 0, nFresh := 0, pEntry := [], pForest := [], rsSorted := True, rsNext := False\<rparr>"

text \<open>
  The allocation of an entry: whether it succeeded, the new state, and the number of
  calls of the allocator so far; the \<open>n\<close>-th call succeeds if \<open>ok n\<close>.
\<close>

definition rowSetEntryAlloc :: "(nat \<Rightarrow> bool) \<Rightarrow> rowset \<Rightarrow> nat \<Rightarrow> bool \<times> rowset \<times> nat" where
  "rowSetEntryAlloc ok p n =
     (if nFresh p = 0
      then if \<not> ok n then (False, p, Suc n)
           else (True, p\<lparr>nChunk := nChunk p + 1, nFresh := ROWSET_ENTRY_PER_CHUNK - 1\<rparr>, Suc n)
      else (True, p\<lparr>nFresh := nFresh p - 1\<rparr>, n))"

definition sqlite3RowSetInsert :: "(nat \<Rightarrow> bool) \<Rightarrow> rowset \<Rightarrow> int \<Rightarrow> nat \<Rightarrow> rowset \<times> nat" where
  "sqlite3RowSetInsert ok p rowid n =
     (let (succ, p, n) = rowSetEntryAlloc ok p n
      in if \<not> succ then (p, n)
         else let p = (if pEntry p \<noteq> [] \<and> rsSorted p \<and> rowid \<le> last (pEntry p)
                       then p\<lparr>rsSorted := False\<rparr> else p)
              in (p\<lparr>pEntry := pEntry p @ [rowid]\<rparr>, n))"

section \<open>Sorting\<close>

fun rowSetEntryMerge :: "int list \<Rightarrow> int list \<Rightarrow> int list" where
  "rowSetEntryMerge (a # as) (b # bs) =
     (if a < b then a # rowSetEntryMerge as (b # bs)
      else if b < a then b # rowSetEntryMerge (a # as) bs
      else rowSetEntryMerge as (b # bs))"
| "rowSetEntryMerge [] bs = bs"
| "rowSetEntryMerge as [] = as"

text \<open>
  The loop \<^verbatim>\<open>for(i=0; aBucket[i]; i++)\<close> that carries a list into the first empty bucket. No
  empty bucket left is a write past the array, \<open>None\<close>.
\<close>

fun bucket_carry :: "int list list \<Rightarrow> int list \<Rightarrow> int list list option" where
  "bucket_carry [] p = None"
| "bucket_carry (b # bs) p =
     (if b = [] then Some (p # bs)
      else map_option ((#) []) (bucket_carry bs (rowSetEntryMerge b p)))"

fun bucket_fill :: "int list \<Rightarrow> int list list \<Rightarrow> int list list option" where
  "bucket_fill [] aBucket = Some aBucket"
| "bucket_fill (x # xs) aBucket = do { aBucket \<leftarrow> bucket_carry aBucket [x]; bucket_fill xs aBucket }"

definition rowSetEntrySort :: "int list \<Rightarrow> int list option" where
  "rowSetEntrySort pIn = do {
     aBucket \<leftarrow> bucket_fill pIn (replicate 40 []);
     Some (foldl rowSetEntryMerge [] aBucket)
   }"

section \<open>Trees\<close>

fun rowSetTreeToList :: "int tree \<Rightarrow> int list" where
  "rowSetTreeToList Leaf = []"
| "rowSetTreeToList (Node l v r) = rowSetTreeToList l @ v # rowSetTreeToList r"

text \<open>The second argument is \<^verbatim>\<open>iDepth-1\<close>: the code calls it with \<^verbatim>\<open>iDepth>=1\<close> only.\<close>

fun rowSetNDeepTree :: "int list \<Rightarrow> nat \<Rightarrow> int tree \<times> int list" where
  "rowSetNDeepTree [] d = (Leaf, [])"
| "rowSetNDeepTree (p # ps) 0 = (Node Leaf p Leaf, ps)"
| "rowSetNDeepTree (p # ps) (Suc d) =
     (let (pLeft, ps') = rowSetNDeepTree (p # ps) d
      in case ps' of
           [] \<Rightarrow> (pLeft, [])
         | q # qs \<Rightarrow> let (pRight, rest) = rowSetNDeepTree qs d in (Node pLeft q pRight, rest))"

lemma NDeepTree_inorder: "inorder (fst (rowSetNDeepTree ps d)) @ snd (rowSetNDeepTree ps d) = ps"
proof (induction ps d rule: rowSetNDeepTree.induct)
  case (3 p ps d)
  obtain l ps' where l: "rowSetNDeepTree (p # ps) d = (l, ps')" by (cases "rowSetNDeepTree (p # ps) d")
  show ?case
  proof (cases ps')
    case Nil
    then show ?thesis using l 3(1) by simp
  next
    case (Cons q qs)
    have "inorder (fst (rowSetNDeepTree qs d)) @ snd (rowSetNDeepTree qs d) = qs"
      using 3(2)[OF l [symmetric] _ Cons] by simp
    then show ?thesis using l 3(1) Cons by (simp add: split_def Let_def)
  qed
qed simp_all

lemma NDeepTree_length [termination_simp]:
  "(t, rest) = rowSetNDeepTree ps d \<Longrightarrow> length rest < Suc (length ps)"
  using NDeepTree_inorder [of ps d] by (metis le_imp_less_Suc length_append not_add_less2 not_le snd_conv)

text \<open>The loop of \<open>rowSetListToTree\<close>: \<open>d\<close> is \<^verbatim>\<open>iDepth-1\<close>, \<open>p\<close> the tree so far.\<close>

fun list_to_tree_loop :: "nat \<Rightarrow> int tree \<Rightarrow> int list \<Rightarrow> int tree" where
  "list_to_tree_loop d p [] = p"
| "list_to_tree_loop d p (x # xs) =
     (let (pRight, rest) = rowSetNDeepTree xs d in list_to_tree_loop (Suc d) (Node p x pRight) rest)"

text \<open>The code asserts that its list is not empty.\<close>

fun rowSetListToTree :: "int list \<Rightarrow> int tree" where
  "rowSetListToTree [] = Leaf"
| "rowSetListToTree (x # xs) = list_to_tree_loop 0 (Node Leaf x Leaf) xs"

section \<open>Next\<close>

definition rowSetToList :: "rowset \<Rightarrow> rowset option" where
  "rowSetToList p = do {
     es \<leftarrow> (if \<not> rsSorted p then rowSetEntrySort (pEntry p) else Some (pEntry p));
     Some (p\<lparr>pEntry := es, rsNext := True\<rparr>)
   }"

text \<open>The result is the row id written, or \<open>None\<close> for the C result 0.\<close>

definition sqlite3RowSetNext :: "rowset \<Rightarrow> (int option \<times> rowset) option" where
  "sqlite3RowSetNext p = do {
     p \<leftarrow> (if \<not> rsNext p then rowSetToList p else Some p);
     (case pEntry p of
        [] \<Rightarrow> Some (None, p)
      | v # vs \<Rightarrow>
          let p = p\<lparr>pEntry := vs\<rparr>
          in Some (Some v, if vs = [] then sqlite3RowSetClear p else p))
   }"

section \<open>Test\<close>

text \<open>
  The loop over the forest: an empty place takes the tree of the list, an occupied place
  is emptied into the list. The last component is the list that found no place.
\<close>

fun forest_insert :: "int tree list \<Rightarrow> int list \<Rightarrow> int tree list \<times> int list option" where
  "forest_insert [] p = ([], Some p)"
| "forest_insert (t # ts) p =
     (if t = Leaf then (rowSetListToTree p # ts, None)
      else let (ts, r) = forest_insert ts (rowSetEntryMerge (rowSetTreeToList t) p) in (Leaf # ts, r))"

fun tree_search :: "int tree \<Rightarrow> int \<Rightarrow> bool" where
  "tree_search Leaf iRowid = False"
| "tree_search (Node l v r) iRowid =
     (if v < iRowid then tree_search r iRowid else if v > iRowid then tree_search l iRowid else True)"

text \<open>The first half of \<open>sqlite3RowSetTest\<close>. A forest node that cannot be allocated loses the list.\<close>

definition rowset_new_batch :: "(nat \<Rightarrow> bool) \<Rightarrow> rowset \<Rightarrow> nat \<Rightarrow> (rowset \<times> nat) option" where
  "rowset_new_batch ok p n =
     (if pEntry p = [] then Some (p, n)
      else do {
        es \<leftarrow> (if \<not> rsSorted p then rowSetEntrySort (pEntry p) else Some (pEntry p));
        let (ts, r) = forest_insert (pForest p) es;
        let (p, n) =
          (case r of
             None \<Rightarrow> (p\<lparr>pForest := ts\<rparr>, n)
           | Some es \<Rightarrow>
               (case rowSetEntryAlloc ok p n of
                  (succ, p, n) \<Rightarrow>
                    (p\<lparr>pForest := (if succ then ts @ [rowSetListToTree es] else ts)\<rparr>, n)));
        Some (p\<lparr>pEntry := [], rsSorted := True\<rparr>, n)
      })"

definition sqlite3RowSetTest ::
  "(nat \<Rightarrow> bool) \<Rightarrow> rowset \<Rightarrow> u8 \<Rightarrow> int \<Rightarrow> nat \<Rightarrow> (bool \<times> rowset \<times> nat) option" where
  "sqlite3RowSetTest ok p batch iRowid n = do {
     (p, n) \<leftarrow>
       (if batch \<noteq> iBatch p then do {
          (p, n) \<leftarrow> rowset_new_batch ok p n;
          Some (p\<lparr>iBatch := batch\<rparr>, n)
        } else Some (p, n));
     Some (list_ex (\<lambda>t. tree_search t iRowid) (pForest p), p, n)
   }"

section \<open>Sorting is correct\<close>

abbreviation (input) "strict \<equiv> sorted_wrt ((<) :: int \<Rightarrow> int \<Rightarrow> bool)"

lemma set_merge [simp]: "set (rowSetEntryMerge as bs) = set as \<union> set bs"
  by (induction as bs rule: rowSetEntryMerge.induct) auto

lemma strict_merge [simp]: "strict as \<Longrightarrow> strict bs \<Longrightarrow> strict (rowSetEntryMerge as bs)"
  by (induction as bs rule: rowSetEntryMerge.induct) auto

lemma merge_Nil [simp]: "rowSetEntryMerge as [] = as"
  by (cases as) auto

lemma merge_nonempty: "bs \<noteq> [] \<Longrightarrow> rowSetEntryMerge as bs \<noteq> []"
  using set_merge [of as bs] by (metis Un_empty set_empty)

text \<open>The occupied buckets are the binary digits of the number of values inserted so far.\<close>

fun bucket_count :: "int list list \<Rightarrow> nat" where
  "bucket_count [] = 0"
| "bucket_count (b # bs) = of_bool (b \<noteq> []) + 2 * bucket_count bs"

definition strict_buckets :: "int list list \<Rightarrow> bool" where
  "strict_buckets bs \<longleftrightarrow> (\<forall>b \<in> set bs. strict b)"

lemma carry_post:
  "p \<noteq> [] \<Longrightarrow> strict p \<Longrightarrow> strict_buckets bs \<Longrightarrow> Suc (bucket_count bs) < 2 ^ length bs \<Longrightarrow>
   \<exists>bs'. bucket_carry bs p = Some bs' \<and> length bs' = length bs \<and> strict_buckets bs' \<and>
     bucket_count bs' = Suc (bucket_count bs) \<and> \<Union> (set ` set bs') = set p \<union> \<Union> (set ` set bs)"
proof (induction bs arbitrary: p)
  case Nil
  then show ?case by simp
next
  case (Cons b bs)
  show ?case
  proof (cases "b = []")
    case True
    with Cons.prems show ?thesis by (simp add: strict_buckets_def)
  next
    case False
    with Cons.prems have "Suc (bucket_count bs) < 2 ^ length bs" by simp
    then obtain bs' where "bucket_carry bs (rowSetEntryMerge b p) = Some bs'" "length bs' = length bs"
      "strict_buckets bs'" "bucket_count bs' = Suc (bucket_count bs)"
      "\<Union> (set ` set bs') = set (rowSetEntryMerge b p) \<union> \<Union> (set ` set bs)"
      using Cons.IH [of "rowSetEntryMerge b p"] Cons.prems merge_nonempty [of p b]
      by (auto simp: strict_buckets_def)
    with False show ?thesis by (auto simp: strict_buckets_def)
  qed
qed

lemma fill_post:
  "strict_buckets bs \<Longrightarrow> bucket_count bs + length xs < 2 ^ length bs \<Longrightarrow>
   \<exists>bs'. bucket_fill xs bs = Some bs' \<and> strict_buckets bs' \<and>
     \<Union> (set ` set bs') = set xs \<union> \<Union> (set ` set bs)"
proof (induction xs arbitrary: bs)
  case Nil
  then show ?case by simp
next
  case (Cons x xs)
  obtain bs1 where b1: "bucket_carry bs [x] = Some bs1" "length bs1 = length bs" "strict_buckets bs1"
    "bucket_count bs1 = Suc (bucket_count bs)" "\<Union> (set ` set bs1) = set [x] \<union> \<Union> (set ` set bs)"
    using carry_post [of "[x]" bs] Cons.prems by auto
  then obtain bs' where "bucket_fill xs bs1 = Some bs'" "strict_buckets bs'"
    "\<Union> (set ` set bs') = set xs \<union> \<Union> (set ` set bs1)"
    using Cons.IH [of bs1] Cons.prems by auto
  with b1 show ?case by auto
qed

lemma fold_merge:
  "strict_buckets bs \<Longrightarrow> strict p \<Longrightarrow>
     strict (foldl rowSetEntryMerge p bs) \<and> set (foldl rowSetEntryMerge p bs) = set p \<union> \<Union> (set ` set bs)"
  by (induction bs arbitrary: p) (auto simp: strict_buckets_def)

lemma strict_unique: "strict xs \<Longrightarrow> xs = sorted_list_of_set (set xs)"
  by (simp add: strict_sorted_iff sorted_list_of_set.idem_if_sorted_distinct)

lemma Sort_post:
  assumes "length xs < 2 ^ 40"
  shows "rowSetEntrySort xs = Some (sorted_list_of_set (set xs))"
proof -
  have 0: "bucket_count (replicate n []) = 0" for n by (induction n) auto
  obtain bs where bs: "bucket_fill xs (replicate 40 []) = Some bs" "strict_buckets bs"
    "\<Union> (set ` set bs) = set xs"
    using fill_post [of "replicate 40 []" xs] assms 0 by (auto simp: strict_buckets_def)
  then have "rowSetEntrySort xs = Some (foldl rowSetEntryMerge [] bs)"
    by (simp add: rowSetEntrySort_def)
  also have "foldl rowSetEntryMerge [] bs = sorted_list_of_set (set xs)"
    using fold_merge [OF bs(2), of "[]"] bs(3) strict_unique [of "foldl rowSetEntryMerge [] bs"] by simp
  finally show ?thesis .
qed

section \<open>Trees hold their lists\<close>

lemma TreeToList_inorder: "rowSetTreeToList t = inorder t"
  by (induction t) auto

lemma tree_loop_inorder: "inorder (list_to_tree_loop d p xs) = inorder p @ xs"
proof (induction d p xs rule: list_to_tree_loop.induct)
  case (2 d p x xs)
  then show ?case
    using NDeepTree_inorder [of xs d] by (cases "rowSetNDeepTree xs d") simp
qed simp

lemma ListToTree_inorder: "inorder (rowSetListToTree xs) = xs"
  by (cases xs) (simp_all add: tree_loop_inorder)

lemma ListToTree_Leaf: "rowSetListToTree xs = Leaf \<longleftrightarrow> xs = []"
  by (metis ListToTree_inorder inorder.simps(1) rowSetListToTree.simps(1))

lemma NDeepTree_height: "height (fst (rowSetNDeepTree xs d)) \<le> Suc d"
  by (induction xs d rule: rowSetNDeepTree.induct) (auto split: list.splits prod.splits)

lemma NDeepTree_full:
  "snd (rowSetNDeepTree xs d) \<noteq> [] \<Longrightarrow> size (fst (rowSetNDeepTree xs d)) + 1 = 2 ^ Suc d"
proof (induction xs d rule: rowSetNDeepTree.induct)
  case (3 p ps d)
  obtain l ps' where l: "rowSetNDeepTree (p # ps) d = (l, ps')" by (cases "rowSetNDeepTree (p # ps) d")
  show ?case
  proof (cases ps')
    case Nil
    then show ?thesis using l 3(3) by simp
  next
    case (Cons q qs)
    obtain r rest where r: "rowSetNDeepTree qs d = (r, rest)" by (cases "rowSetNDeepTree qs d")
    have "size r + 1 = 2 ^ Suc d" using 3(2) [OF l [symmetric] _ Cons] 3(3) l r Cons by simp
    moreover have "size l + 1 = 2 ^ Suc d" using 3(1) l Cons by simp
    ultimately show ?thesis using l r Cons by simp
  qed
qed simp_all

lemma tree_loop_height:
  "height p \<le> Suc d \<Longrightarrow> (xs \<noteq> [] \<longrightarrow> size p + 1 = 2 ^ Suc d) \<Longrightarrow> 2 ^ d \<le> size p + length xs \<Longrightarrow>
     2 ^ height (list_to_tree_loop d p xs) \<le> 2 * (size p + length xs)"
proof (induction d p xs rule: list_to_tree_loop.induct)
  case (1 d p)
  have "2 ^ height p \<le> (2 :: nat) ^ Suc d" using 1 by (intro power_increasing) auto
  with 1 show ?case by simp
next
  case (2 d p x xs)
  obtain r rest where r: "rowSetNDeepTree xs d = (r, rest)" by (cases "rowSetNDeepTree xs d")
  have n: "size r + length rest = length xs"
    using NDeepTree_inorder [of xs d] r by (metis fst_conv length_append length_inorder snd_conv)
  have p: "size p + 1 = 2 ^ Suc d" using 2 by simp
  have "height (Node p x r) \<le> Suc (Suc d)"
    using NDeepTree_height [of xs d] r 2 by simp
  moreover have "rest \<noteq> [] \<longrightarrow> size (Node p x r) + 1 = 2 ^ Suc (Suc d)"
    using NDeepTree_full [of xs d] r p by (cases "rest = []") simp_all
  moreover have "2 ^ Suc d \<le> size (Node p x r) + length rest"
    using p by simp
  ultimately have "2 ^ height (list_to_tree_loop (Suc d) (Node p x r) rest) \<le> 2 * (size (Node p x r) + length rest)"
    using "2.IH" [OF r [symmetric]] by simp
  then show ?case using r n by simp
qed

lemma ListToTree_height: "xs \<noteq> [] \<Longrightarrow> 2 ^ height (rowSetListToTree xs) \<le> 2 * length xs"
  using tree_loop_height [of "Node Leaf (hd xs) Leaf" 0 "tl xs"] by (cases xs) auto

section \<open>The state invariant\<close>

text \<open>
  Values waiting on the list, values in the forest, and the invariant that the operations
  of the collecting phase keep.
\<close>

definition pending :: "rowset \<Rightarrow> int set" where
  "pending p = set (pEntry p)"

definition tested :: "rowset \<Rightarrow> int set" where
  "tested p = (\<Union>t \<in> set (pForest p). set_tree t)"

definition wf_rowset :: "rowset \<Rightarrow> bool" where
  "wf_rowset p \<longleftrightarrow> (\<forall>t \<in> set (pForest p). bst t) \<and> (rsSorted p \<longrightarrow> strict (pEntry p)) \<and>
     \<not> rsNext p \<and> length (pEntry p) < 2 ^ 40"

lemma strict_snoc: "strict (xs @ [x]) \<longleftrightarrow> strict xs \<and> (xs \<noteq> [] \<longrightarrow> last xs < x)"
  by (cases xs rule: rev_cases) (auto simp: sorted_wrt_append)

lemma Alloc_cases:
  "\<exists>succ q n'. rowSetEntryAlloc ok p n = (succ, q, n') \<and> pEntry q = pEntry p \<and> pForest q = pForest p \<and>
     rsSorted q = rsSorted p \<and> rsNext q = rsNext p \<and> iBatch q = iBatch p \<and> (\<not> succ \<longrightarrow> \<not> ok n \<and> q = p)"
  by (cases "nFresh p = 0"; cases "ok n") (auto simp: rowSetEntryAlloc_def)

lemma RowSetInsert_post:
  assumes "wf_rowset p" and "Suc (length (pEntry p)) < 2 ^ 40"
  obtains p' n' where "sqlite3RowSetInsert ok p v n = (p', n')" and "wf_rowset p'" and "tested p' = tested p"
    and "pEntry p' = pEntry p @ [v] \<or> (\<not> ok n \<and> p' = p)"
proof -
  obtain succ q n' where a: "rowSetEntryAlloc ok p n = (succ, q, n')"
    and q: "pEntry q = pEntry p" "pForest q = pForest p" "rsSorted q = rsSorted p" "rsNext q = rsNext p"
    and fail: "\<not> succ \<Longrightarrow> \<not> ok n \<and> q = p"
    using Alloc_cases [of ok p n] by blast
  show ?thesis
  proof (cases succ)
    case True
    let ?p' = "fst (sqlite3RowSetInsert ok p v n)"
    have e: "pEntry ?p' = pEntry p @ [v]" "pForest ?p' = pForest p" "\<not> rsNext ?p'"
      "rsSorted ?p' \<longleftrightarrow> rsSorted p \<and> (pEntry p \<noteq> [] \<longrightarrow> last (pEntry p) < v)"
      using True a q assms by (auto simp: sqlite3RowSetInsert_def Let_def wf_rowset_def)
    then have "wf_rowset ?p'" "tested ?p' = tested p"
      using assms by (auto simp: wf_rowset_def strict_snoc tested_def)
    with e that [of ?p' "snd (sqlite3RowSetInsert ok p v n)"] show ?thesis by simp
  next
    case False
    with a fail assms that [of p n'] show ?thesis by (auto simp: sqlite3RowSetInsert_def)
  qed
qed

lemma Insert_ok:
  assumes "wf_rowset p" and "Suc (length (pEntry p)) < 2 ^ 40" and "ok n"
  obtains p' n' where "sqlite3RowSetInsert ok p v n = (p', n')" and "wf_rowset p'"
    and "tested p' = tested p" and "pEntry p' = pEntry p @ [v]"
proof (rule RowSetInsert_post [OF assms(1,2), of ok v n])
  fix p' n'
  assume "sqlite3RowSetInsert ok p v n = (p', n')" "wf_rowset p'" "tested p' = tested p"
    "pEntry p' = pEntry p @ [v] \<or> (\<not> ok n \<and> p' = p)"
  with assms(3) that show thesis by simp
qed

lemma forest_insert_post:
  "\<forall>t \<in> set ts. bst t \<Longrightarrow> strict es \<Longrightarrow> forest_insert ts es = (ts', r) \<Longrightarrow>
     (\<forall>t \<in> set ts'. bst t) \<and>
     (case r of None \<Rightarrow> (\<Union>t \<in> set ts'. set_tree t) = set es \<union> (\<Union>t \<in> set ts. set_tree t)
      | Some es' \<Rightarrow> strict es' \<and> (\<Union>t \<in> set ts'. set_tree t) = {} \<and>
          set es' = set es \<union> (\<Union>t \<in> set ts. set_tree t))"
proof (induction ts es arbitrary: ts' r rule: forest_insert.induct)
  case (1 es)
  then show ?case by auto
next
  case (2 t ts es)
  show ?case
  proof (cases "t = Leaf")
    case True
    then show ?thesis
      using 2 ListToTree_inorder [of es] set_inorder [of "rowSetListToTree es"]
      by (auto simp: bst_iff_sorted_wrt_less)
  next
    case False
    then obtain ts1 where 1: "forest_insert ts (rowSetEntryMerge (rowSetTreeToList t) es) = (ts1, r)" "ts' = Leaf # ts1"
      using 2 by (auto split: prod.splits)
    have "strict (rowSetEntryMerge (rowSetTreeToList t) es)"
      using 2 by (simp add: TreeToList_inorder bst_iff_sorted_wrt_less)
    from 2(1) [OF False _ this 1(1)] 2(2) 1(2) show ?thesis
      by (auto simp: TreeToList_inorder split: option.splits)
  qed
qed

lemma tree_search_bst: "bst t \<Longrightarrow> tree_search t x \<longleftrightarrow> x \<in> set_tree t"
  by (induction t) auto

lemma new_batch_post:
  assumes "wf_rowset p" and "\<forall>m. ok m"
  shows "\<exists>p' n'. rowset_new_batch ok p n = Some (p', n') \<and> wf_rowset p' \<and>
     tested p' = tested p \<union> pending p \<and> pending p' = {} \<and> iBatch p' = iBatch p"
proof (cases "pEntry p = []")
  case True
  then show ?thesis using assms by (simp add: rowset_new_batch_def pending_def)
next
  case False
  obtain es where es: "(if \<not> rsSorted p then rowSetEntrySort (pEntry p) else Some (pEntry p)) = Some es"
    "strict es" "set es = pending p"
    using assms(1) Sort_post [of "pEntry p"] by (cases "rsSorted p") (auto simp: wf_rowset_def pending_def)
  obtain ts r where f: "forest_insert (pForest p) es = (ts, r)" by (cases "forest_insert (pForest p) es")
  obtain q n' where a: "rowSetEntryAlloc ok p n = (True, q, n')" "iBatch q = iBatch p" "rsNext q = rsNext p"
    using assms(2) Alloc_cases [of ok p n] by metis
  have post: "(\<forall>t \<in> set ts. bst t) \<and>
     (case r of None \<Rightarrow> (\<Union>t \<in> set ts. set_tree t) = set es \<union> (\<Union>t \<in> set (pForest p). set_tree t)
      | Some es' \<Rightarrow> strict es' \<and> (\<Union>t \<in> set ts. set_tree t) = {} \<and>
          set es' = set es \<union> (\<Union>t \<in> set (pForest p). set_tree t))"
    using assms(1) es(2) f by (intro forest_insert_post) (auto simp: wf_rowset_def)
  have tree: "strict xs \<Longrightarrow> bst (rowSetListToTree xs)" "set_tree (rowSetListToTree xs) = set xs" for xs
    using ListToTree_inorder [of xs] set_inorder [of "rowSetListToTree xs"]
    by (auto simp: bst_iff_sorted_wrt_less)
  show ?thesis
  proof (cases r)
    case None
    with False es f post assms(1) show ?thesis
      by (auto simp: rowset_new_batch_def wf_rowset_def tested_def pending_def)
  next
    case (Some es')
    then have "rowset_new_batch ok p n =
        Some (q\<lparr>pForest := ts @ [rowSetListToTree es'], pEntry := [], rsSorted := True\<rparr>, n')"
      using False es(1) f a by (simp add: rowset_new_batch_def)
    with Some post es(3) a assms(1) tree show ?thesis
      by (auto simp: wf_rowset_def tested_def pending_def)
  qed
qed


text \<open>A history of the testing use: inserts and membership tests.\<close>

datatype rowset_op = Insert int | Test u8 int

fun rowset_run :: "(nat \<Rightarrow> bool) \<Rightarrow> rowset \<Rightarrow> rowset_op list \<Rightarrow> nat \<Rightarrow> (bool list \<times> rowset) option" where
  "rowset_run ok p [] n = Some ([], p)"
| "rowset_run ok p (Insert v # ops) n =
     (let (p, n) = sqlite3RowSetInsert ok p v n in rowset_run ok p ops n)"
| "rowset_run ok p (Test b v # ops) n = do {
     (r, p, n) \<leftarrow> sqlite3RowSetTest ok p b v n;
     (rs, p) \<leftarrow> rowset_run ok p ops n;
     Some (r # rs, p)
   }"

text \<open>
  What the tests should answer: \<open>S\<close> holds the values of earlier batches, \<open>P\<close> those of the
  current batch \<open>b0\<close>.
\<close>

fun rowset_spec :: "int set \<Rightarrow> int set \<Rightarrow> u8 \<Rightarrow> rowset_op list \<Rightarrow> bool list" where
  "rowset_spec S P b0 [] = []"
| "rowset_spec S P b0 (Insert v # ops) = rowset_spec S (insert v P) b0 ops"
| "rowset_spec S P b0 (Test b v # ops) =
     (if b = b0 then (v \<in> S) # rowset_spec S P b0 ops
      else (v \<in> S \<union> P) # rowset_spec (S \<union> P) {} b ops)"

lemma RowSetTest_post:
  assumes "wf_rowset p" and "\<forall>m. ok m"
  shows "\<exists>p' n'. sqlite3RowSetTest ok p b v n = Some (v \<in> tested p', p', n') \<and> wf_rowset p' \<and> iBatch p' = b \<and>
    (if b = iBatch p then p' = p
     else tested p' = tested p \<union> pending p \<and> pending p' = {} \<and> length (pEntry p') = 0)"
proof -
  have search: "list_ex (\<lambda>t. tree_search t v) (pForest q) \<longleftrightarrow> v \<in> tested q" if "wf_rowset q" for q
    using that by (auto simp: list_ex_iff tested_def wf_rowset_def tree_search_bst)
  show ?thesis
  proof (cases "b = iBatch p")
    case True
    with assms search show ?thesis by (simp add: sqlite3RowSetTest_def)
  next
    case False
    obtain p' n' where "rowset_new_batch ok p n = Some (p', n')" "wf_rowset p'"
      "tested p' = tested p \<union> pending p" "pending p' = {}"
      using new_batch_post [OF assms, of n] by blast
    moreover from this have "wf_rowset (p'\<lparr>iBatch := b\<rparr>)" "tested (p'\<lparr>iBatch := b\<rparr>) = tested p'"
       "pending (p'\<lparr>iBatch := b\<rparr>) = pending p'"
      by (simp_all add: wf_rowset_def tested_def pending_def)
    ultimately show ?thesis
      using False search [of "p'\<lparr>iBatch := b\<rparr>"] by (simp add: sqlite3RowSetTest_def pending_def)
  qed
qed

lemma run_spec:
  "wf_rowset p \<Longrightarrow> \<forall>m. ok m \<Longrightarrow> length (pEntry p) + length ops < 2 ^ 40 \<Longrightarrow>
     \<exists>p'. rowset_run ok p ops n = Some (rowset_spec (tested p) (pending p) (iBatch p) ops, p') \<and> wf_rowset p'"
proof (induction ops arbitrary: p n)
  case Nil
  then show ?case by simp
next
  case (Cons x ops)
  show ?case
  proof (cases x)
    case (Insert v)
    obtain p' n' where i: "sqlite3RowSetInsert ok p v n = (p', n')" "wf_rowset p'" "tested p' = tested p"
      "pEntry p' = pEntry p @ [v]"
    proof -
      have "Suc (length (pEntry p)) < 2 ^ 40" using Cons.prems(3) by simp
      from Insert_ok [OF Cons.prems(1) this spec [OF Cons.prems(2)], where v = v] that show ?thesis .
    qed
    have run: "rowset_run ok p (Insert v # ops) n = rowset_run ok p' ops n'"
      using i(1) by (simp only: rowset_run.simps Let_def split_conv)
    have "length (pEntry p') + length ops < 2 ^ 40" using Cons.prems(3) i(4) by simp
    note IH = Cons.IH [OF i(2) Cons.prems(2) this, of n']
    from i(1) Cons.prems(2) have "iBatch p' = iBatch p"
      using Alloc_cases [of ok p n] by (auto simp: sqlite3RowSetInsert_def Let_def)
    with IH i(3,4) show ?thesis
      unfolding Insert run by (simp add: pending_def)
  next
    case (Test b v)
    obtain p' n' where t: "sqlite3RowSetTest ok p b v n = Some (v \<in> tested p', p', n')" "wf_rowset p'"
      "iBatch p' = b" and d: "if b = iBatch p then p' = p
       else tested p' = tested p \<union> pending p \<and> pending p' = {} \<and> length (pEntry p') = 0"
      using RowSetTest_post [OF Cons.prems(1,2), of b v n] by blast
    then have "length (pEntry p') + length ops < 2 ^ 40"
      using Cons.prems(3) by (auto split: if_splits)
    from Cons.IH [OF t(2) Cons.prems(2) this, of n'] show ?thesis
      using Test t d by (auto split: if_splits)
  qed
qed

text \<open>The draining use: all inserts first, then \<open>Next\<close> until it returns 0.\<close>

fun rowset_drain :: "nat \<Rightarrow> rowset \<Rightarrow> (int list \<times> rowset) option" where
  "rowset_drain 0 p = None"
| "rowset_drain (Suc fuel) p = do {
     (r, p) \<leftarrow> sqlite3RowSetNext p;
     (case r of None \<Rightarrow> Some ([], p)
      | Some v \<Rightarrow> do { (vs, p) \<leftarrow> rowset_drain fuel p; Some (v # vs, p) })
   }"

definition rowset_inserts :: "(nat \<Rightarrow> bool) \<Rightarrow> rowset \<Rightarrow> int list \<Rightarrow> nat \<Rightarrow> rowset \<times> nat" where
  "rowset_inserts ok p vs n = fold (\<lambda>v (p, n). sqlite3RowSetInsert ok p v n) vs (p, n)"

lemma inserts_post:
  "wf_rowset p \<Longrightarrow> \<forall>m. ok m \<Longrightarrow> length (pEntry p) + length vs < 2 ^ 40 \<Longrightarrow>
    \<exists>p' n'. rowset_inserts ok p vs n = (p', n') \<and> wf_rowset p' \<and> pEntry p' = pEntry p @ vs"
proof (induction vs arbitrary: p n)
  case Nil
  then show ?case by (simp add: rowset_inserts_def)
next
  case (Cons v vs)
  obtain p1 n1 where i: "sqlite3RowSetInsert ok p v n = (p1, n1)" "wf_rowset p1" "pEntry p1 = pEntry p @ [v]"
  proof -
    have "Suc (length (pEntry p)) < 2 ^ 40" using Cons.prems(3) by simp
    from Insert_ok [OF Cons.prems(1) this spec [OF Cons.prems(2)], where v = v] that show ?thesis .
  qed
  have "length (pEntry p1) + length vs < 2 ^ 40" using Cons.prems(3) i(3) by simp
  from Cons.IH [OF i(2) Cons.prems(2) this, of n1] i show ?case
    by (simp add: rowset_inserts_def)
qed

definition empty_rowset :: "rowset \<Rightarrow> bool" where
  "empty_rowset p \<longleftrightarrow> nChunk p = 0 \<and> pEntry p = [] \<and> pForest p = [] \<and> rsSorted p \<and> \<not> rsNext p"

lemma Next_empty: "empty_rowset p \<Longrightarrow> \<exists>p'. sqlite3RowSetNext p = Some (None, p') \<and> nChunk p' = 0"
  by (simp add: sqlite3RowSetNext_def rowSetToList_def empty_rowset_def)

lemma drain_list:
  "rsNext p \<Longrightarrow> pEntry p = es \<Longrightarrow> es \<noteq> [] \<Longrightarrow> length es < fuel \<Longrightarrow>
     \<exists>p'. rowset_drain fuel p = Some (es, p') \<and> nChunk p' = 0"
proof (induction es arbitrary: p fuel)
  case Nil
  then show ?case by simp
next
  case (Cons e es)
  obtain f where f: "fuel = Suc f" using Cons.prems(4) by (cases fuel) auto
  show ?case
  proof (cases "es = []")
    case True
    obtain f' where f': "f = Suc f'" using Cons.prems(4) f True by (cases f) auto
    have "empty_rowset (sqlite3RowSetClear (p\<lparr>pEntry := []\<rparr>))"
      by (simp add: sqlite3RowSetClear_def empty_rowset_def)
    from Next_empty [OF this] show ?thesis
      using f f' True Cons.prems by (auto simp: sqlite3RowSetNext_def [of p])
  next
    case False
    then show ?thesis
      using Cons.IH [of "p\<lparr>pEntry := es\<rparr>" f] Cons.prems f by (auto simp: sqlite3RowSetNext_def [of p])
  qed
qed

lemma drain_wf:
  assumes "wf_rowset p" and "length (pEntry p) < fuel"
  shows "\<exists>p'. rowset_drain fuel p = Some (sorted_list_of_set (set (pEntry p)), p') \<and> (pEntry p \<noteq> [] \<longrightarrow> nChunk p' = 0)"
proof -
  obtain f where f: "fuel = Suc f" using assms(2) by (cases fuel) auto
  have l: "rowSetToList p = Some (p\<lparr>pEntry := sorted_list_of_set (set (pEntry p)), rsNext := True\<rparr>)" (is "_ = Some ?q")
    using assms(1) Sort_post [of "pEntry p"] strict_unique [of "pEntry p"]
    by (auto simp: rowSetToList_def wf_rowset_def)
  have "sqlite3RowSetNext p = sqlite3RowSetNext ?q"
    using l assms(1) by (simp add: sqlite3RowSetNext_def wf_rowset_def)
  then have eq: "rowset_drain fuel p = rowset_drain fuel ?q"
    using f by simp
  show ?thesis
  proof (cases "pEntry p = []")
    case True
    then show ?thesis using f unfolding eq by (simp add: sqlite3RowSetNext_def)
  next
    case False
    have "length (sorted_list_of_set (set (pEntry p))) \<le> length (pEntry p)"
      by (simp add: card_length)
    then show ?thesis
      using drain_list [of ?q "pEntry ?q" fuel] False assms(2) by (auto simp: eq sorted_list_of_set_eq_Nil_iff)
  qed
qed

lemma wf_init: "wf_rowset (sqlite3RowSetInit N)"
  by (simp add: wf_rowset_def sqlite3RowSetInit_def)

section \<open>Properties\<close>

text \<open>
  C19: Draining a row set returns the values that were inserted, each once, in increasing
  order, and then reports the end; every chunk has been given back by then. The bucket
  array of the sort is never overrun below \<open>2^40\<close> entries.
\<close>

theorem rowset_drain_sorted:
  assumes "\<forall>m. ok m" and "length vs < 2 ^ 40" and "vs \<noteq> []" and "length vs < fuel"
  shows "\<exists>p. rowset_drain fuel (fst (rowset_inserts ok (sqlite3RowSetInit N) vs n)) =
    Some (sorted_list_of_set (set vs), p) \<and> nChunk p = 0"
proof -
  obtain p' n' where "rowset_inserts ok (sqlite3RowSetInit N) vs n = (p', n')" "wf_rowset p'" "pEntry p' = vs"
    using inserts_post [OF wf_init assms(1), of N vs n] assms(2) by (auto simp: sqlite3RowSetInit_def)
  with drain_wf [of p' fuel] assms(3,4) show ?thesis by simp
qed

theorem rowset_drain_sorted_witness:
  "\<exists>p. rowset_drain 6 (fst (rowset_inserts (\<lambda>_. True) (sqlite3RowSetInit 100) [5, -3, 5, 9, 0] 0)) =
     Some ([-3, 0, 5, 9], p) \<and> nChunk p = 0"
  using rowset_drain_sorted [of "\<lambda>_. True" "[5, -3, 5, 9, 0]" 6 100 0] by (simp add: insert_commute)

text \<open>
  C20: In any history of inserts and tests, with enough memory, each test answers whether
  its value was inserted in a batch before the current one; a test with a new batch number
  first closes the batch.
\<close>

theorem rowset_test_history:
  assumes "\<forall>m. ok m" and "length ops < 2 ^ 40"
  shows "map_option fst (rowset_run ok (sqlite3RowSetInit N) ops n) = Some (rowset_spec {} {} 0 ops)"
  using run_spec [OF wf_init assms(1), of N ops n] assms(2)
  by (auto simp: sqlite3RowSetInit_def tested_def pending_def)

theorem rowset_test_history_witness:
  "map_option fst (rowset_run (\<lambda>_. True) (sqlite3RowSetInit 100)
     [Insert 4, Test 0 4, Test 1 4, Insert 7, Insert 2, Test 1 7, Test 2 7] 0) = Some [False, True, False, True]"
  using rowset_test_history [of "\<lambda>_. True"
    "[Insert 4, Test 0 4, Test 1 4, Insert 7, Insert 2, Test 1 7, Test 2 7]" 100 0] by simp

text \<open>
  C21: The tree built from a sorted list holds the list in order, is a search tree, and is
  balanced: its height is at most one more than the binary logarithm of its size.
\<close>

theorem rowset_tree_balanced:
  assumes "sorted_wrt (<) xs" and "xs \<noteq> []"
  shows "rowSetTreeToList (rowSetListToTree xs) = xs \<and> bst (rowSetListToTree xs) \<and>
    2 ^ height (rowSetListToTree xs) \<le> 2 * length xs"
  using assms ListToTree_inorder [of xs] ListToTree_height [of xs]
  by (simp add: TreeToList_inorder bst_iff_sorted_wrt_less)

theorem rowset_tree_balanced_witness:
  "rowSetTreeToList (rowSetListToTree [1, 3, 4, 7, 8, 9]) = [1, 3, 4, 7, 8, 9] \<and>
   2 ^ height (rowSetListToTree [1, 3, 4, 7, 8, 9]) \<le> (2 * 6 :: nat)"
  using rowset_tree_balanced [of "[1, 3, 4, 7, 8, 9]"] by simp

end
