(* ===== verification/Keyed_Map.thy ===== *)
theory Keyed_Map
  imports Prelude
begin

text \<open>
  The contract of a table with keys, \<open>keyed_map\<close>: what the schema code relies on when it
  calls \<open>sqlite3HashFind\<close> and \<open>sqlite3HashInsert\<close>. Keys that \<open>norm\<close> maps to the same value
  are the same key; inserting nothing removes the key; a failed insertion changes nothing
  and hands the data back.
\<close>

locale keyed_map =
  fixes inv :: "'h \<Rightarrow> bool"
    and key_ok :: "'k \<Rightarrow> bool"
    and norm :: "'k \<Rightarrow> 'n"
    and content :: "'h \<Rightarrow> 'n \<rightharpoonup> 'd"
    and find :: "'h \<Rightarrow> 'k \<Rightarrow> 'd option option"
    and insert_key :: "'h \<Rightarrow> 'k \<Rightarrow> 'd option \<Rightarrow> ('d option \<times> 'h) option"
  assumes find_law: "inv h \<Longrightarrow> key_ok k \<Longrightarrow> find h k = Some (content h (norm k))"
    and insert_law: "inv h \<Longrightarrow> key_ok k \<Longrightarrow>
      \<exists>r h'. insert_key h k d = Some (r, h') \<and> inv h' \<and>
        (r = content h (norm k) \<and> content h' = (content h)(norm k := d) \<or>
         content h (norm k) = None \<and> d \<noteq> None \<and> r = d \<and> content h' = content h)"
begin

lemma find_other:
  assumes "inv h" and "key_ok k" and "key_ok k'" and "norm k' \<noteq> norm k" and "insert_key h k d = Some (r, h')"
  shows "find h' k' = find h k'"
proof -
  obtain r1 h1 where "insert_key h k d = Some (r1, h1)" "inv h1"
    "r1 = content h (norm k) \<and> content h1 = (content h)(norm k := d) \<or>
         content h (norm k) = None \<and> d \<noteq> None \<and> r1 = d \<and> content h1 = content h"
    using insert_law [OF assms(1,2), of d] by blast
  with assms show ?thesis by (auto simp: find_law)
qed

lemma find_same:
  assumes "inv h" and "key_ok k" and "key_ok k'" and "norm k' = norm k" and "insert_key h k d = Some (r, h')"
    and "r = None \<or> d = None"
  shows "find h' k' = Some d"
proof -
  obtain r1 h1 where "insert_key h k d = Some (r1, h1)" "inv h1"
    "r1 = content h (norm k) \<and> content h1 = (content h)(norm k := d) \<or>
         content h (norm k) = None \<and> d \<noteq> None \<and> r1 = d \<and> content h1 = content h"
    using insert_law [OF assms(1,2), of d] by blast
  with assms show ?thesis by (auto simp: find_law)
qed

end

end
