(* ===== verification/Hash.thy ===== *)
theory Hash
  imports Strings Keyed_Map "HOL-Library.Multiset"
begin

text \<open>
  The generic hash table, \<^verbatim>\<open>src/hash.c\<close>: all elements are on one doubly linked list, and a
  bucket is a run of neighbours on that list, given by its first element and its length.
  An element is identified by the number of the allocation that made it; the list is a
  list of elements in link order. Key bytes and length are one byte list.
\<close>

section \<open>The state\<close>

record 'd helem =
  eid :: nat
  data :: 'd
  pKey :: "u8 list"

text \<open>
  \<^verbatim>\<open>struct Hash\<close>: \<open>ht\<close> is the array of \<open>(count, chain)\<close> or nothing, and its length is
  \<^verbatim>\<open>htsize\<close>. \<open>fresh\<close> is the identity of the next element.
\<close>

record 'd hash =
  ht :: "(nat \<times> nat option) list option"
  hcount :: nat
  first :: "'d helem list"
  fresh :: nat

definition htsize :: "'d hash \<Rightarrow> nat" where
  "htsize pH = (case ht pH of None \<Rightarrow> 0 | Some t \<Rightarrow> length t)"

definition sqlite3HashInit :: "'d hash" where
  "sqlite3HashInit = \<lparr>ht = None, hcount = 0, first = [], fresh = 0\<rparr>"

definition sqlite3HashClear :: "'d hash \<Rightarrow> 'd hash" where
  "sqlite3HashClear pH = pH\<lparr>first := [], ht := None, hcount := 0\<rparr>"

text \<open>The loop over the key bytes, in 32-bit arithmetic.\<close>

definition strHash :: "u8 list \<Rightarrow> u32" where
  "strHash z = foldl (\<lambda>h c. (push_bit 3 h XOR h) XOR ucast (UpperToLower c)) 0 z"

definition bucket_of :: "nat \<Rightarrow> u8 list \<Rightarrow> nat" where
  "bucket_of n z = unat (strHash z) mod n"

section \<open>Operations\<close>

text \<open>Linking \<open>new\<close> in front of the element \<open>id\<close> of the list.\<close>

definition link_before :: "nat \<Rightarrow> 'd helem \<Rightarrow> 'd helem list \<Rightarrow> 'd helem list" where
  "link_before i new es =
     takeWhile (\<lambda>e. eid e \<noteq> i) es @ new # dropWhile (\<lambda>e. eid e \<noteq> i) es"

text \<open>The bucket is given by its index, or by \<open>None\<close> for a null pointer.\<close>

definition insertElement :: "'d hash \<Rightarrow> nat option \<Rightarrow> 'd helem \<Rightarrow> 'd hash option" where
  "insertElement pH pEntry new =
     (case pEntry of
        None \<Rightarrow> Some (pH\<lparr>first := new # first pH\<rparr>)
      | Some h \<Rightarrow> do {
          t \<leftarrow> ht pH;
          (cnt, chain) \<leftarrow> rd t h;
          let pHead = (if cnt \<noteq> 0 then chain else None);
          let pH = pH\<lparr>ht := Some (t[h := (cnt + 1, Some (eid new))])\<rparr>;
          Some (pH\<lparr>first := (case pHead of None \<Rightarrow> new # first pH | Some i \<Rightarrow> link_before i new (first pH))\<rparr>)
        })"

definition SQLITE_MALLOC_SOFT_LIMIT :: nat where "SQLITE_MALLOC_SOFT_LIMIT = 1024"
definition sizeof_ht :: nat where "sizeof_ht = 16"

fun rehash_loop :: "'d helem list \<Rightarrow> nat \<Rightarrow> 'd hash \<Rightarrow> 'd hash option" where
  "rehash_loop [] n pH = Some pH"
| "rehash_loop (e # es) n pH = do {
     pH \<leftarrow> insertElement pH (Some (bucket_of n (pKey e))) e;
     rehash_loop es n pH
   }"

text \<open>
  \<open>alloc n\<close> is what the allocator gives for \<open>n\<close> bytes: nothing, or a block that
  \<^verbatim>\<open>sqlite3MallocSize\<close> reports as \<open>sz\<close> bytes larger than that.
\<close>

definition rehash :: "(nat \<Rightarrow> nat option) \<Rightarrow> 'd hash \<Rightarrow> nat \<Rightarrow> (bool \<times> 'd hash) option" where
  "rehash alloc pH new_size =
     (let new_size = (if new_size * sizeof_ht > SQLITE_MALLOC_SOFT_LIMIT
                      then SQLITE_MALLOC_SOFT_LIMIT div sizeof_ht else new_size)
      in if new_size = htsize pH then Some (False, pH)
         else case alloc (new_size * sizeof_ht) of
                None \<Rightarrow> Some (False, pH)
              | Some sz \<Rightarrow>
                  let n = (new_size * sizeof_ht + sz) div sizeof_ht
                  in map_option (\<lambda>pH'. (True, pH'))
                       (rehash_loop (first pH) n (pH\<lparr>ht := Some (replicate n (0, None)), first := []\<rparr>)))"

text \<open>The loop over at most \<open>n\<close> elements of the list from \<open>elem\<close> on.\<close>

fun find_loop :: "nat \<Rightarrow> 'd helem list \<Rightarrow> u8 list \<Rightarrow> 'd helem option option" where
  "find_loop 0 es key = Some None"
| "find_loop (Suc n) [] key = Some None"
| "find_loop (Suc n) (e # es) key = do {
     m \<leftarrow> (if length (pKey e) = length key then map_option (\<lambda>c. c = 0) (sqlite3_strnicmp (pKey e) key (length key))
           else Some False);
     (if m then Some (Some e) else find_loop n es key)
   }"

definition findElementGivenHash :: "'d hash \<Rightarrow> u8 list \<Rightarrow> nat \<Rightarrow> 'd helem option option" where
  "findElementGivenHash pH key h =
     (case ht pH of
        Some t \<Rightarrow> do {
          (cnt, chain) \<leftarrow> rd t h;
          find_loop cnt (case chain of None \<Rightarrow> [] | Some i \<Rightarrow> dropWhile (\<lambda>e. eid e \<noteq> i) (first pH)) key
        }
      | None \<Rightarrow> find_loop (hcount pH) (first pH) key)"

text \<open>The element behind \<open>e\<close> on the list.\<close>

definition next_elem :: "'d helem list \<Rightarrow> 'd helem \<Rightarrow> nat option" where
  "next_elem es e =
     (case tl (dropWhile (\<lambda>e'. eid e' \<noteq> eid e) es) of [] \<Rightarrow> None | e' # _ \<Rightarrow> Some (eid e'))"

definition removeElementGivenHash :: "'d hash \<Rightarrow> 'd helem \<Rightarrow> nat \<Rightarrow> 'd hash option" where
  "removeElementGivenHash pH e h = do {
     pH \<leftarrow> (case ht pH of
              None \<Rightarrow> Some (pH\<lparr>first := filter (\<lambda>e'. eid e' \<noteq> eid e) (first pH)\<rparr>)
            | Some t \<Rightarrow> do {
                (cnt, chain) \<leftarrow> rd t h;
                let chain = (if chain = Some (eid e) then next_elem (first pH) e else chain);
                Some (pH\<lparr>first := filter (\<lambda>e'. eid e' \<noteq> eid e) (first pH), ht := Some (t[h := (cnt - 1, chain)])\<rparr>)
              });
     let pH = pH\<lparr>hcount := hcount pH - 1\<rparr>;
     Some (if hcount pH = 0 then sqlite3HashClear pH else pH)
   }"

definition sqlite3HashFind :: "'d hash \<Rightarrow> u8 list \<Rightarrow> 'd option option" where
  "sqlite3HashFind pH key = do {
     let h = (if ht pH \<noteq> None then bucket_of (htsize pH) key else 0);
     e \<leftarrow> findElementGivenHash pH key h;
     Some (map_option data e)
   }"

text \<open>The last part of \<open>sqlite3HashInsert\<close>, for a key that is not in the table.\<close>

definition hash_add ::
  "(nat \<Rightarrow> nat option) \<Rightarrow> 'd hash \<Rightarrow> u8 list \<Rightarrow> 'd \<Rightarrow> nat \<Rightarrow> 'd hash option" where
  "hash_add alloc pH key d h = do {
     let new = \<lparr>eid = fresh pH, data = d, pKey = key\<rparr>;
     let pH = pH\<lparr>fresh := fresh pH + 1, hcount := hcount pH + 1\<rparr>;
     (h, pH) \<leftarrow>
       (if hcount pH \<ge> 10 \<and> hcount pH > 2 * htsize pH
        then do {
          (resized, pH) \<leftarrow> rehash alloc pH (hcount pH * 2);
          Some (if resized then bucket_of (htsize pH) key else h, pH)
        } else Some (h, pH));
     insertElement pH (if ht pH \<noteq> None then Some h else None) new
   }"

text \<open>\<open>ok\<close> tells whether the element can be allocated. A data pointer that is null is \<open>None\<close>.\<close>

definition sqlite3HashInsert ::
  "bool \<Rightarrow> (nat \<Rightarrow> nat option) \<Rightarrow> 'd hash \<Rightarrow> u8 list \<Rightarrow> 'd option \<Rightarrow> ('d option \<times> 'd hash) option" where
  "sqlite3HashInsert ok alloc pH key d = do {
     let h = (if htsize pH \<noteq> 0 then bucket_of (htsize pH) key else 0);
     elem \<leftarrow> findElementGivenHash pH key h;
     (case elem of
        Some e \<Rightarrow>
          (case d of
             None \<Rightarrow> map_option (\<lambda>pH. (Some (data e), pH)) (removeElementGivenHash pH e h)
           | Some d \<Rightarrow>
               Some (Some (data e),
                 pH\<lparr>first := map (\<lambda>e'. if eid e' = eid e then e'\<lparr>data := d, pKey := key\<rparr> else e') (first pH)\<rparr>))
      | None \<Rightarrow>
          (case d of
             None \<Rightarrow> Some (None, pH)
           | Some d \<Rightarrow>
               if \<not> ok then Some (Some d, pH)
               else map_option (\<lambda>pH. (None, pH)) (hash_add alloc pH key d h)))
   }"

section \<open>Keys\<close>

definition norm_key :: "u8 list \<Rightarrow> u8 list" where "norm_key = map UpperToLower"

definition key_ok :: "u8 list \<Rightarrow> bool" where "key_ok k \<longleftrightarrow> 0 \<notin> set k"

abbreviation (input) "nkey e \<equiv> norm_key (pKey e)"

lemma strHash_norm: "strHash (norm_key z) = strHash z"
proof -
  have "foldl (\<lambda>h c. (push_bit 3 h XOR h) XOR ucast (UpperToLower c)) a (map UpperToLower z) =
      foldl (\<lambda>h c. (push_bit 3 h XOR h) XOR ucast (UpperToLower c)) a z" for a :: u32
    by (induction z arbitrary: a) (simp_all add: UpperToLower_idem)
  then show ?thesis by (simp add: strHash_def norm_key_def)
qed

lemma bucket_norm: "norm_key a = norm_key b \<Longrightarrow> bucket_of n a = bucket_of n b"
  by (metis bucket_of_def strHash_norm)

lemma find_loop_eq:
  "\<forall>e \<in> set es. key_ok (pKey e) \<Longrightarrow> find_loop n es key = Some (List.find (\<lambda>e. nkey e = norm_key key) (take n es))"
proof (induction n es key rule: find_loop.induct)
  case (3 n e es key)
  have len: "length (pKey e) = length key" if "nkey e = norm_key key"
    using arg_cong [OF that, of length] by (simp add: norm_key_def)
  show ?case
  proof (cases "length (pKey e) = length key")
    case True
    then obtain c where "sqlite3_strnicmp (pKey e) key (length key) = Some c" "c = 0 \<longleftrightarrow> nkey e = norm_key key"
      using strnicmp_0_iff [of "pKey e" "length key" key "[]" "[]"] 3(2)
      by (auto simp: key_ok_def norm_key_def)
    with True 3 show ?thesis by auto
  next
    case False
    with 3 len show ?thesis by auto
  qed
qed simp_all

section \<open>Buckets are runs of neighbours\<close>

type_synonym 'd blocks = "(nat \<times> 'd helem list) list"

definition block_ok :: "(nat \<times> nat option) list \<Rightarrow> nat \<times> 'd helem list \<Rightarrow> bool" where
  "block_ok t = (\<lambda>(h, b). b \<noteq> [] \<and> h < length t \<and> t ! h = (length b, Some (eid (hd b))) \<and>
     (\<forall>e \<in> set b. bucket_of (length t) (pKey e) = h))"

definition blocks_ok :: "(nat \<times> nat option) list \<Rightarrow> 'd helem list \<Rightarrow> 'd blocks \<Rightarrow> bool" where
  "blocks_ok t es bs \<longleftrightarrow> es = concat (map snd bs) \<and> distinct (map fst bs) \<and> (\<forall>x \<in> set bs. block_ok t x) \<and>
     (\<forall>h < length t. h \<notin> fst ` set bs \<longrightarrow> fst (t ! h) = 0)"

definition grouped :: "(nat \<times> nat option) list \<Rightarrow> 'd helem list \<Rightarrow> bool" where
  "grouped t es \<longleftrightarrow> t \<noteq> [] \<and> (\<exists>bs. blocks_ok t es bs)"

lemma grouped_empty: "0 < n \<Longrightarrow> grouped (replicate n (0, None)) []"
  by (auto simp: grouped_def blocks_ok_def intro!: exI [of _ "[]"])

lemma blocks_mem:
  assumes "\<forall>x \<in> set bs. block_ok t x" and "e \<in> set (concat (map snd bs))"
  shows "bucket_of (length t) (pKey e) \<in> fst ` set bs"
proof -
  obtain h b where "(h, b) \<in> set bs" "e \<in> set b" using assms(2) by auto
  moreover from this assms(1) have "bucket_of (length t) (pKey e) = h" by (auto simp: block_ok_def)
  ultimately show ?thesis by (metis fst_conv imageI)
qed

text \<open>The elements with hash \<open>h\<close>: either none, or the run that the bucket points to.\<close>

lemma grouped_cases:
  assumes "grouped t es" and "h < length t"
  obtains (none) bs where "blocks_ok t es bs" and "h \<notin> fst ` set bs" and "fst (t ! h) = 0"
      and "\<forall>e \<in> set es. bucket_of (length t) (pKey e) \<noteq> h"
  | (run) bs1 b bs2 where "blocks_ok t es (bs1 @ (h, b) # bs2)" and "block_ok t (h, b)"
      and "es = concat (map snd bs1) @ b @ concat (map snd bs2)"
      and "\<forall>e \<in> set (concat (map snd bs1)) \<union> set (concat (map snd bs2)). bucket_of (length t) (pKey e) \<noteq> h"
proof -
  obtain bs where bs: "blocks_ok t es bs" using assms by (auto simp: grouped_def)
  show ?thesis
  proof (cases "h \<in> fst ` set bs")
    case False
    have "\<forall>e \<in> set es. bucket_of (length t) (pKey e) \<noteq> h"
      using bs False blocks_mem [of bs t] unfolding blocks_ok_def by metis
    with False show ?thesis
      using bs assms(2) none [of bs] by (simp add: blocks_ok_def)
  next
    case True
    then obtain b where "(h, b) \<in> set bs" by auto
    then obtain bs1 bs2 where split: "bs = bs1 @ (h, b) # bs2" by (meson split_list)
    show ?thesis
    proof (rule run)
      show "blocks_ok t es (bs1 @ (h, b) # bs2)" using bs split by simp
      show "es = concat (map snd bs1) @ b @ concat (map snd bs2)"
        using bs split by (simp add: blocks_ok_def)
      show "block_ok t (h, b)" using bs split by (simp add: blocks_ok_def)
      have "h \<notin> fst ` set bs1" "h \<notin> fst ` set bs2" "\<forall>x \<in> set bs1. block_ok t x" "\<forall>x \<in> set bs2. block_ok t x"
        using bs split by (auto simp: blocks_ok_def)
      then show "\<forall>e \<in> set (concat (map snd bs1)) \<union> set (concat (map snd bs2)). bucket_of (length t) (pKey e) \<noteq> h"
        using blocks_mem [of bs1 t] blocks_mem [of bs2 t] by (metis Un_iff)
    qed
  qed
qed

lemma dropWhile_id:
  "distinct (map eid (us @ e # vs)) \<Longrightarrow> dropWhile (\<lambda>e'. eid e' \<noteq> eid e) (us @ e # vs) = e # vs"
  by (induction us) auto

lemma takeWhile_id:
  "distinct (map eid (us @ e # vs)) \<Longrightarrow> takeWhile (\<lambda>e'. eid e' \<noteq> eid e) (us @ e # vs) = us"
  by (induction us) auto

lemma filter_id:
  fixes us vs :: "'d helem list"
  shows "distinct (map eid (us @ e # vs)) \<Longrightarrow> filter (\<lambda>e'. eid e' \<noteq> eid e) (us @ e # vs) = us @ vs"
proof -
  assume d: "distinct (map eid (us @ e # vs))"
  have "filter (\<lambda>e'. eid e' \<noteq> eid e) xs = xs" if "eid e \<notin> eid ` set xs" for xs :: "'d helem list"
    using that by (metis (mono_tags, lifting) filter_True image_eqI)
  with d show ?thesis by simp
qed

lemma find_block:
  fixes us b vs :: "'d helem list"
  assumes "\<forall>e \<in> set us \<union> set vs. bucket_of n (pKey e) \<noteq> bucket_of n key"
  shows "List.find (\<lambda>e. nkey e = norm_key key) (us @ b @ vs) = List.find (\<lambda>e. nkey e = norm_key key) b"
proof -
  have none: "List.find (\<lambda>e. nkey e = norm_key key) xs = None" if "\<forall>e \<in> set xs. bucket_of n (pKey e) \<noteq> bucket_of n key" for xs :: "'d helem list"
    unfolding find_None_iff using that bucket_norm by metis
  have app: "List.find P (xs @ ys) = (case List.find P xs of None \<Rightarrow> List.find P ys | Some x \<Rightarrow> Some x)" for P and xs ys :: "'d helem list"
    by (induction xs) auto
  show ?thesis using assms none [of us] none [of vs] by (auto simp: app split: option.splits)
qed

lemma find_grouped:
  assumes "grouped t es" and "distinct (map eid es)" and "\<forall>e \<in> set es. key_ok (pKey e)"
    and "ht pH = Some t" and "first pH = es"
  shows "findElementGivenHash pH key (bucket_of (length t) key) = Some (List.find (\<lambda>e. nkey e = norm_key key) es)"
proof -
  have h: "bucket_of (length t) key < length t"
    using assms(1) by (simp add: grouped_def bucket_of_def)
  from assms(1) this show ?thesis
  proof (cases rule: grouped_cases)
    case none
    then have "List.find (\<lambda>e. nkey e = norm_key key) es = None"
      unfolding find_None_iff using bucket_norm by metis
    with none h assms(4,5) show ?thesis
      by (cases "t ! bucket_of (length t) key") (simp add: findElementGivenHash_def rd_nth)
  next
    case (run bs1 b bs2)
    define us vs where uv: "us = concat (map snd bs1)" "vs = concat (map snd bs2)"
    note run = run(3,2,4) [folded uv]
    then obtain e b' where b: "b = e # b'" by (cases b) (auto simp: block_ok_def)
    have "dropWhile (\<lambda>e'. eid e' \<noteq> eid e) es = b @ vs"
      using dropWhile_id [of us e "b' @ vs"] assms(2) run(1) b by simp
    then have "findElementGivenHash pH key (bucket_of (length t) key) = find_loop (length b) (b @ vs) key"
      using run(2) h assms(4,5) b by (simp add: findElementGivenHash_def rd_nth block_ok_def)
    also have "\<dots> = Some (List.find (\<lambda>e. nkey e = norm_key key) b)"
      using assms(3) run(1) by (subst find_loop_eq) auto
    finally show ?thesis using find_block [OF run(3)] run(1) by simp
  qed
qed

section \<open>Linking and unlinking keep the runs\<close>

lemma blocks_update:
  assumes "\<forall>x \<in> set bs. block_ok t x" and "h \<notin> fst ` set bs"
  shows "\<forall>x \<in> set bs. block_ok (t[h := y]) x"
proof
  fix x
  assume x: "x \<in> set bs"
  then have "fst x \<noteq> h" using assms(2) by auto
  with x assms(1) show "block_ok (t[h := y]) x" by (cases x) (auto simp: block_ok_def)
qed

text \<open>Replacing the run of one bucket.\<close>

lemma blocks_replace:
  assumes "blocks_ok t es (bs1 @ (h, b) # bs2)" and "h < length t" and "block_ok (t[h := y]) (h, b')"
  shows "blocks_ok (t[h := y]) (concat (map snd bs1) @ b' @ concat (map snd bs2)) (bs1 @ (h, b') # bs2)"
  using assms blocks_update [of bs1 t h y] blocks_update [of bs2 t h y]
  by (auto simp: blocks_ok_def)

lemma blocks_drop:
  assumes "blocks_ok t es (bs1 @ (h, b) # bs2)" and "h < length t" and "fst y = 0"
  shows "blocks_ok (t[h := y]) (concat (map snd bs1) @ concat (map snd bs2)) (bs1 @ bs2)"
  using assms blocks_update [of bs1 t h y] blocks_update [of bs2 t h y]
  by (auto simp: blocks_ok_def nth_list_update_cases)

lemma blocks_add:
  assumes "blocks_ok t es bs" and "h < length t" and "h \<notin> fst ` set bs" and "block_ok (t[h := y]) (h, b)"
  shows "blocks_ok (t[h := y]) (b @ es) ((h, b) # bs)"
  using assms blocks_update [of bs t h y] by (simp add: blocks_ok_def)

lemma insert_grouped:
  fixes new :: "'d helem"
  assumes "grouped t es" and "distinct (map eid es)" and "h = bucket_of (length t) (pKey new)"
    and "ht pH = Some t" and "first pH = es"
  shows "\<exists>t' es'. insertElement pH (Some h) new = Some (pH\<lparr>ht := Some t', first := es'\<rparr>) \<and>
    length t' = length t \<and> grouped t' es' \<and> mset es' = add_mset new (mset es)"
proof -
  have h: "h < length t" using assms(1,3) by (simp add: grouped_def bucket_of_def)
  from assms(1) h show ?thesis
  proof (cases rule: grouped_cases)
    case (none bs)
    let ?t = "t[h := (1, Some (eid new))]"
    have "blocks_ok ?t (new # es) ((h, [new]) # bs)"
      using blocks_add [OF none(1) h none(2), of "(1, Some (eid new))" "[new]"] h assms(3) by (simp add: block_ok_def)
    then have "grouped ?t (new # es)" using assms(1) by (auto simp: grouped_def)
    moreover have "insertElement pH (Some h) new = Some (pH\<lparr>ht := Some ?t, first := new # es\<rparr>)"
      using none h assms(4,5) by (cases "t ! h") (simp add: insertElement_def rd_nth Let_def)
    ultimately show ?thesis by (intro exI [of _ ?t] exI [of _ "new # es"]) simp
  next
    case (run bs1 b bs2)
    let ?t = "t[h := (Suc (length b), Some (eid new))]"
    let ?us = "concat (map snd bs1)" and ?vs = "concat (map snd bs2)"
    obtain e b' where b: "b = e # b'" using run(2) by (cases b) (auto simp: block_ok_def)
    have "blocks_ok ?t (?us @ (new # b) @ ?vs) (bs1 @ (h, new # b) # bs2)"
      using run(2) h assms(3) by (intro blocks_replace [OF run(1)]) (auto simp: block_ok_def)
    then have "grouped ?t (?us @ (new # b) @ ?vs)" using assms(1) by (auto simp: grouped_def)
    moreover have "link_before (eid e) new es = ?us @ (new # b) @ ?vs"
      using dropWhile_id [of ?us e "b' @ ?vs"] takeWhile_id [of ?us e "b' @ ?vs"] assms(2) run(3) b
      by (simp add: link_before_def)
    then have "insertElement pH (Some h) new = Some (pH\<lparr>ht := Some ?t, first := ?us @ (new # b) @ ?vs\<rparr>)"
      using run(2) b h assms(4,5) by (simp add: insertElement_def rd_nth Let_def block_ok_def)
    ultimately show ?thesis using run(3) by (intro exI [of _ ?t] exI [of _ "?us @ (new # b) @ ?vs"]) simp
  qed
qed

lemma rehash_loop_post:
  fixes es :: "'d helem list"
  assumes "grouped t gs" and "distinct (map eid (gs @ es))" and "ht pH = Some t" and "first pH = gs" and "length t = n"
  shows "\<exists>t' es'. rehash_loop es n pH = Some (pH\<lparr>ht := Some t', first := es'\<rparr>) \<and>
    length t' = n \<and> grouped t' es' \<and> mset es' = mset es + mset gs"
  using assms
proof (induction es arbitrary: t gs pH)
  case Nil
  then show ?case by (intro exI [of _ t] exI [of _ gs]) auto
next
  case (Cons e es)
  obtain t1 gs1 where 1: "insertElement pH (Some (bucket_of n (pKey e))) e = Some (pH\<lparr>ht := Some t1, first := gs1\<rparr>)"
    "length t1 = n" "grouped t1 gs1" "mset gs1 = add_mset e (mset gs)"
    using insert_grouped [OF Cons.prems(1) _ refl Cons.prems(3,4), of e] Cons.prems by auto
  have "mset (map eid (gs1 @ es)) = mset (map eid (gs @ e # es))"
    using 1(4) by (simp add: mset_map)
  then have "distinct (map eid (gs1 @ es))"
    using Cons.prems(2) mset_eq_imp_distinct_iff by blast
  from Cons.IH [OF 1(3) this, of "pH\<lparr>ht := Some t1, first := gs1\<rparr>"] 1 show ?case by auto
qed

lemma remove_grouped:
  fixes e :: "'d helem"
  assumes "grouped t es" and "distinct (map eid es)" and "e \<in> set es" and h: "h = bucket_of (length t) (pKey e)"
  shows "\<exists>cnt chain. rd t h = Some (cnt, chain) \<and>
    grouped (t[h := (cnt - 1, if chain = Some (eid e) then next_elem es e else chain)])
      (filter (\<lambda>e'. eid e' \<noteq> eid e) es)"
proof -
  have hlt: "h < length t" using assms(1,4) by (simp add: grouped_def bucket_of_def)
  from assms(1) hlt show ?thesis
  proof (cases rule: grouped_cases)
    case none
    with assms(3,4) show ?thesis by blast
  next
    case (run bs1 b bs2)
    let ?us = "concat (map snd bs1)" and ?vs = "concat (map snd bs2)"
    have "e \<in> set b" using run(3,4) assms(3) h by auto
    then obtain u v where b: "b = u @ e # v" by (meson split_list)
    have es: "es = (?us @ u) @ e # (v @ ?vs)" using run(3) b by simp
    have fil: "filter (\<lambda>e'. eid e' \<noteq> eid e) es = ?us @ (u @ v) @ ?vs"
      using filter_id [of "?us @ u" e "v @ ?vs"] assms(2) es by simp
    have nxt: "next_elem es e = (case v @ ?vs of [] \<Rightarrow> None | e' # _ \<Rightarrow> Some (eid e'))"
      using dropWhile_id [of "?us @ u" e "v @ ?vs"] assms(2) es by (simp add: next_elem_def)
    have th: "t ! h = (length b, Some (eid (hd b)))" using run(2) by (simp add: block_ok_def)
    define chain where "chain = (if Some (eid (hd b)) = Some (eid e) then next_elem es e else Some (eid (hd b)))"
    let ?t = "t[h := (length b - 1, chain)]"
    have head: "chain = Some (eid (hd (u @ v)))" if "u @ v \<noteq> []"
    proof (cases u)
      case Nil
      with that b nxt show ?thesis by (cases v) (auto simp: chain_def)
    next
      case (Cons x u')
      then have "eid x \<noteq> eid e" using assms(2) es by auto
      with Cons b show ?thesis by (simp add: chain_def)
    qed
    have "grouped ?t (filter (\<lambda>e'. eid e' \<noteq> eid e) es)"
    proof (cases "u @ v = []")
      case True
      have "blocks_ok ?t (?us @ ?vs) (bs1 @ bs2)"
        using b True by (intro blocks_drop [OF run(1) hlt]) simp
      with True fil assms(1) show ?thesis by (auto simp: grouped_def)
    next
      case False
      have "blocks_ok ?t (?us @ (u @ v) @ ?vs) (bs1 @ (h, u @ v) # bs2)"
        using run(2) hlt b False head by (intro blocks_replace [OF run(1)]) (auto simp: block_ok_def)
      with fil assms(1) show ?thesis by (auto simp: grouped_def)
    qed
    then show ?thesis
      using hlt th by (auto simp: rd_nth chain_def)
  qed
qed

section \<open>The invariant and the content\<close>

definition shape :: "'d hash \<Rightarrow> bool" where
  "shape pH \<longleftrightarrow> (case ht pH of None \<Rightarrow> True | Some t \<Rightarrow> grouped t (first pH))"

definition elems_ok :: "'d hash \<Rightarrow> bool" where
  "elems_ok pH \<longleftrightarrow> distinct (map eid (first pH)) \<and> distinct (map (\<lambda>e. nkey e) (first pH)) \<and>
     (\<forall>e \<in> set (first pH). eid e < fresh pH \<and> key_ok (pKey e)) \<and> hcount pH = length (first pH)"

definition hash_inv :: "'d hash \<Rightarrow> bool" where
  "hash_inv pH \<longleftrightarrow> shape pH \<and> elems_ok pH"

definition lookup :: "'d helem list \<Rightarrow> u8 list \<Rightarrow> 'd option" where
  "lookup es k = map_option data (List.find (\<lambda>e. nkey e = k) es)"

definition hash_map :: "'d hash \<Rightarrow> u8 list \<rightharpoonup> 'd" where
  "hash_map pH = lookup (first pH)"

lemma lookup_iff:
  "distinct (map (\<lambda>e. nkey e) es) \<Longrightarrow> lookup es k = Some d \<longleftrightarrow> (\<exists>e \<in> set es. nkey e = k \<and> data e = d)"
  by (induction es) (auto simp: lookup_def image_iff)

lemma lookup_eqI:
  assumes "\<And>k d. lookup es k = Some d \<longleftrightarrow> m k = Some d"
  shows "lookup es = m"
proof
  fix k
  show "lookup es k = m k" using assms by (metis not_None_eq)
qed

lemma htsize_0_iff: "shape pH \<Longrightarrow> htsize pH = 0 \<longleftrightarrow> ht pH = None"
  by (auto simp: shape_def htsize_def grouped_def split: option.splits)

lemma shape_fields [simp]: "shape (pH\<lparr>hcount := n\<rparr>) = shape pH" "shape (pH\<lparr>fresh := n\<rparr>) = shape pH"
  by (cases "ht pH"; simp add: shape_def)+

lemma find_inv:
  assumes "hash_inv pH"
  shows "findElementGivenHash pH key (if ht pH \<noteq> None then bucket_of (htsize pH) key else 0) =
    Some (List.find (\<lambda>e. nkey e = norm_key key) (first pH))"
proof (cases "ht pH")
  case None
  then show ?thesis
    using assms by (simp add: findElementGivenHash_def find_loop_eq hash_inv_def elems_ok_def)
next
  case (Some t)
  then show ?thesis
    using assms find_grouped [of t "first pH" pH key]
    by (simp add: hash_inv_def elems_ok_def shape_def htsize_def)
qed

lemma grouped_map:
  assumes "grouped t es" and "\<And>e. e \<in> set es \<Longrightarrow> eid (f e) = eid e \<and> bucket_of (length t) (pKey (f e)) = bucket_of (length t) (pKey e)"
  shows "grouped t (map f es)"
proof -
  obtain bs where bs: "blocks_ok t es bs" using assms(1) by (auto simp: grouped_def)
  let ?g = "\<lambda>(h, b). (h, map f b)"
  have sub: "set b \<subseteq> set es" if "(h, b) \<in> set bs" for h b
    using bs that by (auto simp: blocks_ok_def)
  have "block_ok t (?g x)" if "x \<in> set bs" for x
  proof -
    obtain h b where x: "x = (h, b)" by (cases x)
    with that bs have ok: "block_ok t (h, b)" "set b \<subseteq> set es" using sub by (auto simp: blocks_ok_def)
    then have "hd b \<in> set es" by (cases b) (auto simp: block_ok_def)
    with ok assms(2) x show ?thesis by (auto simp: block_ok_def hd_map)
  qed
  moreover have "fst ` set (map ?g bs) = fst ` set bs" "map fst (map ?g bs) = map fst bs"
    "concat (map snd (map ?g bs)) = map f (concat (map snd bs))"
    by (force simp: map_concat comp_def split_def)+
  ultimately have "blocks_ok t (map f es) (map ?g bs)"
    using bs unfolding blocks_ok_def by (auto simp del: map_map)
  then show ?thesis using assms(1) by (auto simp: grouped_def)
qed

section \<open>Insertion\<close>

lemma find_Some:
  "List.find P xs = Some x \<Longrightarrow> x \<in> set xs \<and> P x"
  by (induction xs) (auto split: if_splits)

lemma remove_post:
  fixes pH :: "'d hash"
  assumes inv: "hash_inv pH" and e: "e \<in> set (first pH)" and key: "nkey e = norm_key key"
    and h: "h = (if ht pH \<noteq> None then bucket_of (htsize pH) key else 0)"
  shows "\<exists>pH'. removeElementGivenHash pH e h = Some pH' \<and> hash_inv pH' \<and>
    hash_map pH' = (hash_map pH)(norm_key key := None)"
proof -
  let ?es = "filter (\<lambda>e'. eid e' \<noteq> eid e) (first pH)"
  have dist: "distinct (map eid (first pH))" "distinct (map (\<lambda>e. nkey e) (first pH))"
    using inv by (auto simp: hash_inv_def elems_ok_def)
  obtain us vs where split: "first pH = us @ e # vs" using e by (meson split_list)
  have es: "?es = us @ vs" using filter_id [of us e vs] dist(1) split by simp
  have len: "hcount pH - 1 = length ?es"
    using inv split es by (simp add: hash_inv_def elems_ok_def)
  have ne: "nkey x \<noteq> norm_key key" if "x \<in> set us \<union> set vs" for x
    using dist(2) that unfolding split key [symmetric] by (auto simp: image_iff)
  have map: "lookup ?es = (lookup (first pH))(norm_key key := None)"
  proof (rule lookup_eqI)
    fix k d
    have "distinct (map (\<lambda>e. nkey e) ?es)" using dist(2) split es by simp
    then have "lookup ?es k = Some d \<longleftrightarrow> (\<exists>x \<in> set us \<union> set vs. nkey x = k \<and> data x = d)"
      unfolding es by (simp add: lookup_iff)
    moreover have "lookup (first pH) k = Some d \<longleftrightarrow> (\<exists>x \<in> set us \<union> {e} \<union> set vs. nkey x = k \<and> data x = d)"
      using lookup_iff [OF dist(2), of k d] split by simp
    ultimately show "lookup ?es k = Some d \<longleftrightarrow> ((lookup (first pH))(norm_key key := None)) k = Some d"
      using ne key by (cases "k = norm_key key") auto
  qed
  define pH1 where "pH1 = (case ht pH of None \<Rightarrow> pH\<lparr>first := ?es\<rparr>
      | Some t \<Rightarrow> (let (cnt, chain) = t ! h in
          pH\<lparr>first := ?es, ht := Some (t[h := (cnt - 1, if chain = Some (eid e) then next_elem (first pH) e else chain)])\<rparr>))"
  have f1: "first pH1 = ?es" "hcount pH1 = hcount pH" "fresh pH1 = fresh pH"
    by (auto simp: pH1_def split: option.splits prod.splits)
  have both: "removeElementGivenHash pH e h =
      Some (let pH = pH1\<lparr>hcount := hcount pH1 - 1\<rparr> in if hcount pH = 0 then sqlite3HashClear pH else pH) \<and>
    shape pH1"
  proof (cases "ht pH")
    case None
    then show ?thesis by (simp add: removeElementGivenHash_def pH1_def shape_def Let_def)
  next
    case (Some t)
    have g: "grouped t (first pH)" and h': "h = bucket_of (length t) (pKey e)"
      using inv Some h bucket_norm [OF key] by (auto simp: hash_inv_def shape_def htsize_def)
    obtain cnt chain where c: "rd t h = Some (cnt, chain)"
      and g': "grouped (t[h := (cnt - 1, if chain = Some (eid e) then next_elem (first pH) e else chain)]) ?es"
      using remove_grouped [OF g dist(1) e h'] by blast
    then have "t ! h = (cnt, chain)" by (simp add: rd_eq_Some_iff)
    with c g' Some show ?thesis
      by (simp add: removeElementGivenHash_def pH1_def shape_def Let_def)
  qed
  note step = conjunct1 [OF both] and shape = conjunct2 [OF both]
  have ok: "distinct (map eid ?es)" "distinct (map (\<lambda>e. nkey e) ?es)" "\<forall>e \<in> set ?es. eid e < fresh pH \<and> key_ok (pKey e)"
    using inv dist split es by (auto simp: hash_inv_def elems_ok_def)
  show ?thesis
  proof (cases "hcount pH - 1 = 0")
    case True
    then have "?es = []" using len by simp
    with map have "lookup [] = (lookup (first pH))(norm_key key := None)" by simp
    with True show ?thesis
      unfolding step by (simp add: f1 sqlite3HashClear_def hash_inv_def shape_def elems_ok_def hash_map_def)
  next
    case False
    with map ok len shape show ?thesis
      unfolding step by (simp add: f1 hash_inv_def elems_ok_def hash_map_def)
  qed
qed

lemma replace_post:
  fixes pH :: "'d hash" and key :: "u8 list" and d :: 'd
  assumes inv: "hash_inv pH" and e: "e \<in> set (first pH)" and key: "nkey e = norm_key key" and ok: "key_ok key"
  defines "f \<equiv> \<lambda>e'. if eid e' = eid e then e'\<lparr>data := d, pKey := key\<rparr> else e'"
  shows "hash_inv (pH\<lparr>first := map f (first pH)\<rparr>) \<and>
    hash_map (pH\<lparr>first := map f (first pH)\<rparr>) = (hash_map pH)(norm_key key := Some d)"
proof -
  have dist: "distinct (map eid (first pH))" "distinct (map (\<lambda>e. nkey e) (first pH))"
    using inv by (auto simp: hash_inv_def elems_ok_def)
  have same: "e' = e" if "e' \<in> set (first pH)" "eid e' = eid e" for e'
    using dist(1) e that by (metis distinct_map inj_onD)
  have same_key: "e' = e" if "e' \<in> set (first pH)" "nkey e' = norm_key key" for e'
    using dist(2) e that key by (metis (mono_tags, lifting) distinct_map inj_onD)
  have f: "eid (f x) = eid x" "x \<in> set (first pH) \<Longrightarrow> nkey (f x) = nkey x" for x
    using same [of x] key by (auto simp: f_def)
  have "map eid (map f (first pH)) = map eid (first pH)" "map (\<lambda>e. nkey e) (map f (first pH)) = map (\<lambda>e. nkey e) (first pH)"
    using f by auto
  then have dist': "distinct (map eid (map f (first pH)))" "distinct (map (\<lambda>e. nkey e) (map f (first pH)))"
    using dist by metis+
  have "eid (f x) < fresh pH \<and> key_ok (pKey (f x))" if "x \<in> set (first pH)" for x
    using inv ok that e by (simp add: f_def hash_inv_def elems_ok_def)
  with inv dist' have elems: "elems_ok (pH\<lparr>first := map f (first pH)\<rparr>)"
    by (simp add: hash_inv_def elems_ok_def del: map_map)
  have "shape (pH\<lparr>first := map f (first pH)\<rparr>)"
  proof (cases "ht pH")
    case None
    then show ?thesis by (simp add: shape_def)
  next
    case (Some t)
    have "grouped t (map f (first pH))"
    proof (rule grouped_map)
      show "grouped t (first pH)" using inv Some by (simp add: hash_inv_def shape_def)
      show "eid (f x) = eid x \<and> bucket_of (length t) (pKey (f x)) = bucket_of (length t) (pKey x)"
        if "x \<in> set (first pH)" for x
        using f(1) bucket_norm [OF f(2) [OF that]] by simp
    qed
    with Some show ?thesis by (simp add: shape_def)
  qed
  moreover have "lookup (map f (first pH)) = (lookup (first pH))(norm_key key := Some d)"
  proof (rule lookup_eqI)
    fix k d'
    have "lookup (map f (first pH)) k = Some d' \<longleftrightarrow> (\<exists>x \<in> set (first pH). nkey (f x) = k \<and> data (f x) = d')"
      using lookup_iff [OF dist'(2), of k d'] by auto
    also have "\<dots> \<longleftrightarrow> ((lookup (first pH))(norm_key key := Some d)) k = Some d'"
    proof (cases "k = norm_key key")
      case True
      have "data (f e) = d" by (simp add: f_def)
      moreover have "nkey (f e) = k" using f(2) [OF e] key True by simp
      moreover have "x = e" if "x \<in> set (first pH)" "nkey (f x) = k" for x
        using same_key [OF that(1)] f(2) [OF that(1)] that(2) True by simp
      ultimately have "(\<exists>x \<in> set (first pH). nkey (f x) = k \<and> data (f x) = d') \<longleftrightarrow> d = d'"
        using e by blast
      with True show ?thesis by simp
    next
      case False
      then have "f x = x" if "nkey x = k" "x \<in> set (first pH)" for x
        using same [of x] key that by (auto simp: f_def)
      then have "nkey (f x) = k \<and> data (f x) = d' \<longleftrightarrow> nkey x = k \<and> data x = d'" if "x \<in> set (first pH)" for x
        using f(2) [OF that] that by (cases "nkey x = k") auto
      then have "(\<exists>x \<in> set (first pH). nkey (f x) = k \<and> data (f x) = d') \<longleftrightarrow> lookup (first pH) k = Some d'"
        using lookup_iff [OF dist(2), of k d'] by simp
      with False show ?thesis by simp
    qed
    finally show "lookup (map f (first pH)) k = Some d' \<longleftrightarrow> ((lookup (first pH))(norm_key key := Some d)) k = Some d'" .
  qed
  ultimately show ?thesis using elems by (simp add: hash_inv_def hash_map_def)
qed

lemma rehash_post:
  assumes "shape pH" and "distinct (map eid (first pH))" and "0 < n"
  shows "\<exists>resized t es. rehash alloc pH n = Some (resized, pH\<lparr>ht := t, first := es\<rparr>) \<and>
    shape (pH\<lparr>ht := t, first := es\<rparr>) \<and> mset es = mset (first pH) \<and> (\<not> resized \<longrightarrow> t = ht pH \<and> es = first pH) \<and>
    (resized \<longrightarrow> t \<noteq> None)"
proof -
  define m where "m = (if n * sizeof_ht > SQLITE_MALLOC_SOFT_LIMIT then SQLITE_MALLOC_SOFT_LIMIT div sizeof_ht else n)"
  have m: "0 < m" using assms(3) by (simp add: m_def SQLITE_MALLOC_SOFT_LIMIT_def sizeof_ht_def)
  have same: "pH\<lparr>ht := ht pH, first := first pH\<rparr> = pH" by simp
  show ?thesis
  proof (cases "m = htsize pH \<or> alloc (m * sizeof_ht) = None")
    case True
    then have "rehash alloc pH n = Some (False, pH)"
      by (auto simp: rehash_def Let_def simp flip: m_def)
    with assms(1) show ?thesis
      by (intro exI [of _ False] exI [of _ "ht pH"] exI [of _ "first pH"]) (simp add: same)
  next
    case False
    then obtain sz where sz: "alloc (m * sizeof_ht) = Some sz" by auto
    define k where "k = (m * sizeof_ht + sz) div sizeof_ht"
    have "0 < k" using m by (auto simp: k_def sizeof_ht_def div_greater_zero_iff)
    obtain t es where r: "rehash_loop (first pH) k (pH\<lparr>ht := Some (replicate k (0, None)), first := []\<rparr>) =
        Some (pH\<lparr>ht := Some t, first := es\<rparr>)" "grouped t es" "mset es = mset (first pH)"
      using rehash_loop_post [OF grouped_empty [OF \<open>0 < k\<close>], of "first pH"
          "pH\<lparr>ht := Some (replicate k (0, None)), first := []\<rparr>" k] assms(2) by auto
    then have "rehash alloc pH n = Some (True, pH\<lparr>ht := Some t, first := es\<rparr>)"
      using False sz by (auto simp: rehash_def Let_def simp flip: m_def k_def)
    with r show ?thesis
      by (intro exI [of _ True] exI [of _ "Some t"] exI [of _ es]) (simp add: shape_def)
  qed
qed

lemma lookup_insert:
  assumes "mset es' = add_mset new (mset es)" and "distinct (map (\<lambda>e. nkey e) es)" and "nkey new = k"
    and "k \<notin> (\<lambda>e. nkey e) ` set es"
  shows "distinct (map (\<lambda>e. nkey e) es')" and "lookup es' = (lookup es)(k := Some (data new))"
proof -
  have set: "set es' = insert new (set es)" using arg_cong [OF assms(1), of set_mset] by simp
  have "mset (map (\<lambda>e. nkey e) es') = mset (map (\<lambda>e. nkey e) (new # es))"
    using assms(1) by simp
  then show d: "distinct (map (\<lambda>e. nkey e) es')"
    using mset_eq_imp_distinct_iff [of "map (\<lambda>e. nkey e) es'" "map (\<lambda>e. nkey e) (new # es)"] assms(2-4) by simp
  show "lookup es' = (lookup es)(k := Some (data new))"
  proof (rule lookup_eqI)
    fix k' d
    show "lookup es' k' = Some d \<longleftrightarrow> ((lookup es)(k := Some (data new))) k' = Some d"
      using assms(3,4) set by (auto simp: lookup_iff [OF d] lookup_iff [OF assms(2)] image_iff)
  qed
qed

lemma add_post:
  fixes pH :: "'d hash" and d :: 'd
  assumes inv: "hash_inv pH" and ok: "key_ok key"
    and none: "List.find (\<lambda>e. nkey e = norm_key key) (first pH) = None"
    and h: "h = (if ht pH \<noteq> None then bucket_of (htsize pH) key else 0)"
  defines "new \<equiv> \<lparr>eid = fresh pH, data = d, pKey = key\<rparr>" and "pH1 \<equiv> pH\<lparr>fresh := fresh pH + 1, hcount := hcount pH + 1\<rparr>"
  shows "\<exists>pH'. hash_add alloc pH key d h = Some pH' \<and> hash_inv pH' \<and>
    hash_map pH' = (hash_map pH)(norm_key key := Some d)"
proof -
  have old: "distinct (map eid (first pH))" "distinct (map (\<lambda>e. nkey e) (first pH))" "hcount pH = length (first pH)"
    "\<forall>e \<in> set (first pH). eid e < fresh pH \<and> key_ok (pKey e)" "shape pH"
    using inv by (auto simp: hash_inv_def elems_ok_def)
  have sh1: "shape pH1" using old(5) by (simp add: pH1_def)
  define r where "r = (if hcount pH1 \<ge> 10 \<and> hcount pH1 > 2 * htsize pH1
          then do {
            (resized, pH) \<leftarrow> rehash alloc pH1 (hcount pH1 * 2);
            Some (if resized then bucket_of (htsize pH) key else h, pH)
          } else Some (h, pH1))"
  have "\<exists>h2 t es. r = Some (h2, pH1\<lparr>ht := t, first := es\<rparr>) \<and> shape (pH1\<lparr>ht := t, first := es\<rparr>) \<and>
     mset es = mset (first pH) \<and> (\<forall>t'. t = Some t' \<longrightarrow> h2 = bucket_of (length t') key)"
  proof (cases "hcount pH1 \<ge> 10 \<and> hcount pH1 > 2 * htsize pH1")
    case True
    have "distinct (map eid (first pH1))" "0 < hcount pH1 * 2" using old(1) by (simp_all add: pH1_def)
    from rehash_post [OF sh1 this] obtain resized t es where
      re: "rehash alloc pH1 (hcount pH1 * 2) = Some (resized, pH1\<lparr>ht := t, first := es\<rparr>)"
        "shape (pH1\<lparr>ht := t, first := es\<rparr>)" "mset es = mset (first pH1)"
        "\<not> resized \<longrightarrow> t = ht pH1 \<and> es = first pH1" "resized \<longrightarrow> t \<noteq> None"
      by blast
    have "r = Some (if resized then bucket_of (htsize (pH1\<lparr>ht := t, first := es\<rparr>)) key else h, pH1\<lparr>ht := t, first := es\<rparr>)"
      unfolding r_def using True re(1) by simp
    moreover have "first pH1 = first pH" "ht pH1 = ht pH" by (simp_all add: pH1_def)
    ultimately have "r = Some (if resized then bucket_of (htsize (pH1\<lparr>ht := t, first := es\<rparr>)) key else h, pH1\<lparr>ht := t, first := es\<rparr>)"
      "mset es = mset (first pH)" "\<not> resized \<longrightarrow> t = ht pH" using re(3-5) by simp_all
    moreover have "(if resized then bucket_of (htsize (pH1\<lparr>ht := t, first := es\<rparr>)) key else h) = bucket_of (length t') key"
      if "t = Some t'" for t'
      using that calculation(3) h by (auto simp: htsize_def)
    ultimately show ?thesis using re(2) by blast
  next
    case False
    then have "r = Some (h, pH1)" by (auto simp: r_def)
    moreover have "pH1 = pH1\<lparr>ht := ht pH, first := first pH\<rparr>" by (simp add: pH1_def)
    ultimately show ?thesis
      using sh1 h by (intro exI [of _ h] exI [of _ "ht pH"] exI [of _ "first pH"]) (simp add: htsize_def)
  qed
  then obtain h2 t es where r: "r = Some (h2, pH1\<lparr>ht := t, first := es\<rparr>)" "shape (pH1\<lparr>ht := t, first := es\<rparr>)"
    "mset es = mset (first pH)" "\<forall>t'. t = Some t' \<longrightarrow> h2 = bucket_of (length t') key"
    by blast
  let ?pH2 = "pH1\<lparr>ht := t, first := es\<rparr>"
  have "mset (map eid es) = mset (map eid (first pH))" using r(3) by simp
  then have ids: "distinct (map eid es)" using old(1) mset_eq_imp_distinct_iff by blast
  have "mset (map (\<lambda>e. nkey e) es) = mset (map (\<lambda>e. nkey e) (first pH))" using r(3) by simp
  then have keys: "distinct (map (\<lambda>e. nkey e) es)" using old(2) mset_eq_imp_distinct_iff by blast
  have set: "set es = set (first pH)" using r(3) mset_eq_setD by blast
  have notin: "norm_key key \<notin> (\<lambda>e. nkey e) ` set es"
    using none by (auto simp: find_None_iff set)
  have look: "lookup es = lookup (first pH)"
    by (rule lookup_eqI) (simp add: lookup_iff [OF keys] lookup_iff [OF old(2)] set)
  have "\<exists>t' es'. insertElement ?pH2 (if ht ?pH2 \<noteq> None then Some h2 else None) new =
      Some (?pH2\<lparr>ht := t', first := es'\<rparr>) \<and> shape (?pH2\<lparr>ht := t', first := es'\<rparr>) \<and>
      mset es' = add_mset new (mset es)"
  proof (cases t)
    case None
    then show ?thesis
      by (intro exI [of _ None] exI [of _ "new # es"]) (simp add: insertElement_def shape_def)
  next
    case (Some t1)
    have "grouped t1 es" using r(2) Some by (simp add: shape_def)
    from insert_grouped [OF this ids, of h2 new ?pH2] r(4) Some
    obtain t' es' where "insertElement ?pH2 (Some h2) new = Some (?pH2\<lparr>ht := Some t', first := es'\<rparr>)"
      "grouped t' es'" "mset es' = add_mset new (mset es)"
      by (auto simp: new_def)
    then show ?thesis
      using Some by (intro exI [of _ "Some t'"] exI [of _ es']) (simp add: shape_def)
  qed
  then obtain t' es' where ins: "insertElement ?pH2 (if ht ?pH2 \<noteq> None then Some h2 else None) new =
      Some (?pH2\<lparr>ht := t', first := es'\<rparr>)" "shape (?pH2\<lparr>ht := t', first := es'\<rparr>)" "mset es' = add_mset new (mset es)"
    by blast
  have key: "nkey new = norm_key key" by (simp add: new_def)
  note look' = lookup_insert [OF ins(3) keys key notin]
  have set': "set es' = insert new (set es)" using arg_cong [OF ins(3), of set_mset] by simp
  have "mset (map eid es') = mset (map eid (new # es))" using ins(3) by simp
  moreover have "distinct (map eid (new # es))" using ids old(4) by (auto simp: new_def set)
  ultimately have ids': "distinct (map eid es')" using mset_eq_imp_distinct_iff by blast
  have len: "length es' = Suc (length (first pH))"
    using arg_cong [OF ins(3), of size] arg_cong [OF r(3), of size] by simp
  have "\<forall>e \<in> set es'. eid e < fresh pH + 1 \<and> key_ok (pKey e)"
    using set' set old(4) ok by (auto simp: new_def)
  then have "elems_ok (?pH2\<lparr>ht := t', first := es'\<rparr>)"
    using ids' look'(1) len old(3) by (simp add: elems_ok_def pH1_def)
  moreover have "hash_map (?pH2\<lparr>ht := t', first := es'\<rparr>) = (hash_map pH)(norm_key key := Some d)"
    using look'(2) look by (simp add: hash_map_def new_def)
  moreover have "hash_add alloc pH key d h = Some (?pH2\<lparr>ht := t', first := es'\<rparr>)"
    unfolding hash_add_def Let_def new_def [symmetric] pH1_def [symmetric] r_def [symmetric]
    using r(1) ins(1) by simp
  ultimately show ?thesis using ins(2) by (simp add: hash_inv_def)
qed

lemma HashFind_post:
  "hash_inv pH \<Longrightarrow> sqlite3HashFind pH key = Some (hash_map pH (norm_key key))"
  unfolding sqlite3HashFind_def Let_def by (simp only: find_inv bind.bind_lunit) (simp add: hash_map_def lookup_def)

lemma HashInsert_post:
  fixes pH :: "'d hash"
  assumes inv: "hash_inv pH" and ok: "key_ok key"
  shows "\<exists>r pH'. sqlite3HashInsert mem alloc pH key d = Some (r, pH') \<and> hash_inv pH' \<and>
     (r = hash_map pH (norm_key key) \<and> hash_map pH' = (hash_map pH)(norm_key key := d) \<or>
      \<not> mem \<and> hash_map pH (norm_key key) = None \<and> d \<noteq> None \<and> r = d \<and> pH' = pH)"
proof -
  have sh: "shape pH" using inv by (simp add: hash_inv_def)
  define h where "h = (if ht pH \<noteq> None then bucket_of (htsize pH) key else 0)"
  have h: "(if htsize pH \<noteq> 0 then bucket_of (htsize pH) key else 0) = h"
    using htsize_0_iff [OF sh] by (simp add: h_def)
  note find = find_inv [OF inv, of key, folded h_def]
  show ?thesis
  proof (cases "List.find (\<lambda>e. nkey e = norm_key key) (first pH)")
    case (Some e)
    from find_Some [OF this] have e: "e \<in> set (first pH)" "nkey e = norm_key key" by auto
    have old: "hash_map pH (norm_key key) = Some (data e)" using Some by (simp add: hash_map_def lookup_def)
    show ?thesis
    proof (cases d)
      case None
      obtain pH' where "removeElementGivenHash pH e h = Some pH'" "hash_inv pH'"
        "hash_map pH' = (hash_map pH)(norm_key key := None)"
        using remove_post [OF inv e h_def] by blast
      with Some None find old show ?thesis unfolding sqlite3HashInsert_def h Let_def by simp
    next
      case d: (Some d')
      from replace_post [OF inv e ok, of d'] Some d find old show ?thesis
        unfolding sqlite3HashInsert_def h Let_def by simp
    qed
  next
    case None
    then have old: "hash_map pH (norm_key key) = None" by (simp add: hash_map_def lookup_def)
    show ?thesis
    proof (cases d)
      case d: None
      then show ?thesis using None find old inv unfolding sqlite3HashInsert_def h Let_def by auto
    next
      case d: (Some d')
      show ?thesis
      proof (cases mem)
        case False
        with None d find old inv show ?thesis unfolding sqlite3HashInsert_def h Let_def by simp
      next
        case True
        obtain pH' where "hash_add alloc pH key d' h = Some pH'" "hash_inv pH'"
          "hash_map pH' = (hash_map pH)(norm_key key := Some d')"
          using add_post [OF inv ok None h_def, of alloc d'] by blast
        with True None d find old show ?thesis unfolding sqlite3HashInsert_def h Let_def by simp
      qed
    qed
  qed
qed

lemma Init_inv: "hash_inv sqlite3HashInit" "hash_map sqlite3HashInit = Map.empty"
  by (auto simp: hash_inv_def shape_def elems_ok_def sqlite3HashInit_def hash_map_def lookup_def)

lemma Clear_inv: "hash_inv pH \<Longrightarrow> hash_inv (sqlite3HashClear pH) \<and> hash_map (sqlite3HashClear pH) = Map.empty"
  by (auto simp: hash_inv_def shape_def elems_ok_def sqlite3HashClear_def hash_map_def lookup_def)

interpretation hash: keyed_map hash_inv key_ok norm_key hash_map sqlite3HashFind
  "sqlite3HashInsert mem alloc" for mem alloc
proof (unfold_locales, goal_cases)
  case (1 h k)
  then show ?case by (simp add: HashFind_post)
next
  case (2 h k d)
  then show ?case using HashInsert_post [of h k mem alloc d] by blast
qed

section \<open>Properties\<close>

text \<open>
  C17: Insertion into the hash table updates a map from case-folded keys to data: it returns
  the old data of the key, removes the key when the new data is null, and keeps the table
  well formed, whether or not it grows the bucket array on the way. Only when the element
  cannot be allocated does it return the new data and change nothing.
\<close>

theorem sqlite3HashInsert_correct:
  assumes "hash_inv pH" and "key_ok key"
  shows "\<exists>r pH'. sqlite3HashInsert mem alloc pH key d = Some (r, pH') \<and> hash_inv pH' \<and>
     (r = hash_map pH (norm_key key) \<and> hash_map pH' = (hash_map pH)(norm_key key := d) \<or>
      \<not> mem \<and> hash_map pH (norm_key key) = None \<and> d \<noteq> None \<and> r = d \<and> pH' = pH)"
  by (rule HashInsert_post [OF assms])

theorem sqlite3HashInsert_correct_witness:
  "\<exists>pH'. sqlite3HashInsert True (\<lambda>n. Some 8) (sqlite3HashInit :: nat hash) [97] (Some 5) = Some (None, pH') \<and>
     hash_map pH' [97] = Some 5"
  using sqlite3HashInsert_correct [OF Init_inv(1), of "[97]" True "\<lambda>n. Some 8" "Some 5"]
  by (auto simp: key_ok_def Init_inv norm_key_def UpperToLower_eq)

text \<open>
  C18: A look-up finds exactly what the map of the table holds for the case-folded key, in
  a table without buckets as well as through the bucket of the key.
\<close>

theorem sqlite3HashFind_correct:
  assumes "hash_inv pH"
  shows "sqlite3HashFind pH key = Some (hash_map pH (norm_key key))"
  by (rule HashFind_post [OF assms])

theorem sqlite3HashFind_correct_witness:
  "sqlite3HashFind (sqlite3HashInit :: nat hash) [65, 66] = Some None"
  using sqlite3HashFind_correct [OF Init_inv(1), of "[65, 66]"] by (simp add: Init_inv)

end
