(* ===== verification/Utf.thy ===== *)
theory Utf
  imports Strings
begin

text \<open>
  Text encodings, \<^verbatim>\<open>src/utf.c\<close>: the macros that read and write one character in UTF-8 and
  UTF-16, the translation of a string value between the encodings
  (\<open>sqlite3VdbeMemTranslate\<close>, \<open>sqlite3VdbeMemHandleBom\<close>), the routines that count characters
  and bytes, and the self test \<open>sqlite3UtfSelfTest\<close>, whose assertions are proved here for all
  code points. A pointer into a buffer is the list of the bytes from there to its end.
\<close>

section \<open>One character\<close>

definition sqlite3Utf8Trans1 :: "u8 list" where
  "sqlite3Utf8Trans1 = [
     0x00, 0x01, 0x02, 0x03, 0x04, 0x05, 0x06, 0x07,
     0x08, 0x09, 0x0a, 0x0b, 0x0c, 0x0d, 0x0e, 0x0f,
     0x10, 0x11, 0x12, 0x13, 0x14, 0x15, 0x16, 0x17,
     0x18, 0x19, 0x1a, 0x1b, 0x1c, 0x1d, 0x1e, 0x1f,
     0x00, 0x01, 0x02, 0x03, 0x04, 0x05, 0x06, 0x07,
     0x08, 0x09, 0x0a, 0x0b, 0x0c, 0x0d, 0x0e, 0x0f,
     0x00, 0x01, 0x02, 0x03, 0x04, 0x05, 0x06, 0x07,
     0x00, 0x01, 0x02, 0x03, 0x00, 0x01, 0x00, 0x00]"

text \<open>The \<^verbatim>\<open>WRITE\<close> macros give the bytes they append.\<close>

definition WRITE_UTF8 :: "u32 \<Rightarrow> u8 list" where
  "WRITE_UTF8 c =
     (if c < 0x00080 then [ucast (c AND 0xFF)]
      else if c < 0x00800 then [0xC0 + ucast (drop_bit 6 c AND 0x1F), 0x80 + ucast (c AND 0x3F)]
      else if c < 0x10000 then
        [0xE0 + ucast (drop_bit 12 c AND 0x0F), 0x80 + ucast (drop_bit 6 c AND 0x3F), 0x80 + ucast (c AND 0x3F)]
      else
        [0xF0 + ucast (drop_bit 18 c AND 0x07), 0x80 + ucast (drop_bit 12 c AND 0x3F),
         0x80 + ucast (drop_bit 6 c AND 0x3F), 0x80 + ucast (c AND 0x3F)])"

definition WRITE_UTF16LE :: "u32 \<Rightarrow> u8 list" where
  "WRITE_UTF16LE c =
     (if c \<le> 0xFFFF then [ucast (c AND 0x00FF), ucast (drop_bit 8 c AND 0x00FF)]
      else
        [ucast ((drop_bit 10 c AND 0x003F) + (drop_bit 10 (c - 0x10000) AND 0x00C0)),
         ucast (0x00D8 + (drop_bit 18 (c - 0x10000) AND 0x03)),
         ucast (c AND 0x00FF),
         ucast (0x00DC + (drop_bit 8 c AND 0x03))])"

definition WRITE_UTF16BE :: "u32 \<Rightarrow> u8 list" where
  "WRITE_UTF16BE c =
     (if c \<le> 0xFFFF then [ucast (drop_bit 8 c AND 0x00FF), ucast (c AND 0x00FF)]
      else
        [ucast (0x00D8 + (drop_bit 18 (c - 0x10000) AND 0x03)),
         ucast ((drop_bit 10 c AND 0x003F) + (drop_bit 10 (c - 0x10000) AND 0x00C0)),
         ucast (0x00DC + (drop_bit 8 c AND 0x03)),
         ucast (c AND 0x00FF)])"

text \<open>
  The \<^verbatim>\<open>READ\<close> macros give the character and the rest of the input. For UTF-16, \<open>more\<close> is the
  macro argument \<^verbatim>\<open>TERM\<close> as a condition on the rest.
\<close>

definition surrogate_pair :: "u32 \<Rightarrow> u32 \<Rightarrow> u32" where
  "surrogate_pair c c2 =
     (c2 AND 0x03FF) + push_bit 10 (c AND 0x003F) + push_bit 10 ((c AND 0x03C0) + 0x0040)"

fun READ_UTF16LE :: "(u8 list \<Rightarrow> bool) \<Rightarrow> u8 list \<Rightarrow> (u32 \<times> u8 list) option" where
  "READ_UTF16LE more (a # b # z) =
     (let c = ucast a + push_bit 8 (ucast b)
      in if c \<ge> 0xD800 \<and> c < 0xE000 \<and> more z
         then (case z of
                 a2 # b2 # z \<Rightarrow> Some (surrogate_pair c (ucast a2 + push_bit 8 (ucast b2)), z)
               | _ \<Rightarrow> None)
         else Some (c, z))"
| "READ_UTF16LE more _ = None"

fun READ_UTF16BE :: "(u8 list \<Rightarrow> bool) \<Rightarrow> u8 list \<Rightarrow> (u32 \<times> u8 list) option" where
  "READ_UTF16BE more (a # b # z) =
     (let c = push_bit 8 (ucast a) + ucast b
      in if c \<ge> 0xD800 \<and> c < 0xE000 \<and> more z
         then (case z of
                 a2 # b2 # z \<Rightarrow> Some (surrogate_pair c (push_bit 8 (ucast a2) + ucast b2), z)
               | _ \<Rightarrow> None)
         else Some (c, z))"
| "READ_UTF16BE more _ = None"

text \<open>The loop over continuation bytes, up to the end of the input.\<close>

fun utf8_cont :: "u8 list \<Rightarrow> u32 \<Rightarrow> u32 \<times> u8 list" where
  "utf8_cont [] c = (c, [])"
| "utf8_cont (b # z) c =
     (if b AND 0xc0 = 0x80 then utf8_cont z (push_bit 6 c + (0x3f AND ucast b)) else (c, b # z))"

definition utf8_check :: "u32 \<Rightarrow> u32" where
  "utf8_check c =
     (if c < 0x80 \<or> c AND 0xFFFFF800 = 0xD800 \<or> c AND 0xFFFFFFFE = 0xFFFE then 0xFFFD else c)"

fun READ_UTF8 :: "u8 list \<Rightarrow> (u32 \<times> u8 list) option" where
  "READ_UTF8 [] = None"
| "READ_UTF8 (b # z) =
     (if b \<ge> 0xc0
      then let (c, z) = utf8_cont z (ucast (sqlite3Utf8Trans1 ! unat (b - 0xc0))) in Some (utf8_check c, z)
      else Some (ucast b, z))"

text \<open>The routine relies on a terminator: without one it reads past the end.\<close>

fun utf8_cont0 :: "u8 list \<Rightarrow> u32 \<Rightarrow> (u32 \<times> u8 list) option" where
  "utf8_cont0 [] c = None"
| "utf8_cont0 (b # z) c =
     (if b AND 0xc0 = 0x80 then utf8_cont0 z (push_bit 6 c + (0x3f AND ucast b)) else Some (c, b # z))"

fun sqlite3Utf8Read :: "u8 list \<Rightarrow> (u32 \<times> u8 list) option" where
  "sqlite3Utf8Read [] = None"
| "sqlite3Utf8Read (b # z) =
     (if b \<ge> 0xc0
      then map_option (\<lambda>(c, z). (utf8_check c, z)) (utf8_cont0 z (ucast (sqlite3Utf8Trans1 ! unat (b - 0xc0))))
      else Some (ucast b, z))"

section \<open>String values\<close>

text \<open>
  The fields of \<^verbatim>\<open>Mem\<close> that the translation uses; \<open>mz\<close> is the buffer, of which the first \<open>mn\<close>
  bytes are the text, and \<open>own\<close> says that it is the cell's own (\<^verbatim>\<open>z==zMalloc\<close>).
\<close>

record mem =
  enc :: nat
  flags :: u16
  mn :: nat
  mz :: "u8 list"
  own :: bool

definition MEM_Null :: u16 where "MEM_Null = 0x0001"
definition MEM_Term :: u16 where "MEM_Term = 0x0200"
definition MEM_Dyn :: u16 where "MEM_Dyn = 0x0400"
definition MEM_Static :: u16 where "MEM_Static = 0x0800"
definition MEM_Ephem :: u16 where "MEM_Ephem = 0x1000"

text \<open>
  \<open>ok\<close> tells whether an allocation succeeds; without memory the cell becomes a NULL. The copy of the bytes
  ends in two zero bytes.
\<close>

definition sqlite3VdbeMemMakeWriteable :: "bool \<Rightarrow> mem \<Rightarrow> int \<times> mem" where
  "sqlite3VdbeMemMakeWriteable ok m =
     (if own m then (SQLITE_OK, m)
      else if \<not> ok then (SQLITE_NOMEM, m\<lparr>flags := MEM_Null, mz := [], own := True\<rparr>)
      else (SQLITE_OK, m\<lparr>flags := (flags m AND NOT (MEM_Ephem OR MEM_Static)) OR MEM_Term,
                         mz := take (mn m) (mz m) @ [0, 0], own := True\<rparr>))"

text \<open>The byte swap up to \<^verbatim>\<open>zTerm = &zIn[n&~1]\<close>.\<close>

fun swap_bytes :: "u8 list \<Rightarrow> u8 list" where
  "swap_bytes (a # b # z) = b # a # swap_bytes z"
| "swap_bytes z = z"

lemma utf8_cont_length [termination_simp]: "(c', z') = utf8_cont z c \<Longrightarrow> length z' \<le> length z"
  by (induction z c rule: utf8_cont.induct) (auto split: if_splits)

lemma READ_UTF8_length: "READ_UTF8 z = Some (c, z') \<Longrightarrow> length z' < length z"
proof (cases z)
  case (Cons b y)
  assume *: "READ_UTF8 z = Some (c, z')"
  show ?thesis
  proof (cases "b \<ge> 0xc0")
    case True
    then obtain c0 where "utf8_cont y (ucast (sqlite3Utf8Trans1 ! unat (b - 0xc0))) = (c0, z')"
      using * Cons by (auto split: prod.splits)
    then have "length z' \<le> length y" by (metis utf8_cont_length)
    then show ?thesis using Cons by simp
  next
    case False
    then show ?thesis using * Cons by simp
  qed
qed simp

lemma READ_UTF16_length:
  "READ_UTF16LE tm z = Some (c, z') \<Longrightarrow> length z' < length z"
  "READ_UTF16BE tm z = Some (c, z') \<Longrightarrow> length z' < length z"
  by (cases "(tm, z)" rule: READ_UTF16LE.cases; fastforce simp: Let_def split: if_splits list.splits)
    (cases "(tm, z)" rule: READ_UTF16BE.cases; fastforce simp: Let_def split: if_splits list.splits)

text \<open>The loops \<^verbatim>\<open>while( zIn<zTerm ) { READ; WRITE; }\<close>; the first argument bounds the rounds.\<close>

fun translate_loop ::
  "nat \<Rightarrow> (u8 list \<Rightarrow> (u32 \<times> u8 list) option) \<Rightarrow> (u32 \<Rightarrow> u8 list) \<Rightarrow> u8 list \<Rightarrow> u8 list option" where
  "translate_loop k rdc wrc [] = Some []"
| "translate_loop 0 rdc wrc z = None"
| "translate_loop (Suc k) rdc wrc z = do {
     (c, z) \<leftarrow> rdc z;
     out \<leftarrow> translate_loop k rdc wrc z;
     Some (wrc c @ out)
   }"

text \<open>
  \<open>ok\<close> tells whether the one allocation (or making the buffer writeable) succeeds. The
  output buffer has \<open>len\<close> bytes; output that does not fit is \<open>None\<close>.
\<close>

definition sqlite3VdbeMemTranslate :: "bool \<Rightarrow> mem \<Rightarrow> nat \<Rightarrow> (int \<times> mem) option" where
  "sqlite3VdbeMemTranslate ok m desired =
     (if enc m \<noteq> SQLITE_UTF8 \<and> desired \<noteq> SQLITE_UTF8
      then let (rc, m) = sqlite3VdbeMemMakeWriteable ok m
           in if rc \<noteq> SQLITE_OK then Some (SQLITE_NOMEM, m)
              else let n = mn m - mn m mod 2
                   in Some (SQLITE_OK, m\<lparr>mz := swap_bytes (take n (mz m)) @ drop n (mz m), enc := desired\<rparr>)
      else do {
        let m = (if desired = SQLITE_UTF8 then m\<lparr>mn := mn m - mn m mod 2\<rparr> else m);
        let len = (if desired = SQLITE_UTF8 then mn m * 2 + 1 else mn m * 2 + 2);
        (if \<not> ok then Some (SQLITE_NOMEM, m)
         else do {
           let z = take (mn m) (mz m);
           out \<leftarrow>
             (if enc m = SQLITE_UTF8
              then if desired = SQLITE_UTF16LE then translate_loop (length z) READ_UTF8 WRITE_UTF16LE z
                   else translate_loop (length z) READ_UTF8 WRITE_UTF16BE z
              else if enc m = SQLITE_UTF16LE then translate_loop (length z) (READ_UTF16LE (\<lambda>z. z \<noteq> [])) WRITE_UTF8 z
              else translate_loop (length z) (READ_UTF16BE (\<lambda>z. z \<noteq> [])) WRITE_UTF8 z);
           let buf = out @ (if enc m = SQLITE_UTF8 then [0, 0] else [0]);
           (if length buf \<le> len
            then Some (SQLITE_OK,
              m\<lparr>mn := length out, mz := buf, own := True, enc := desired,
                flags := (flags m AND NOT (MEM_Static OR MEM_Dyn OR MEM_Ephem)) OR (MEM_Term OR MEM_Dyn)\<rparr>)
            else None)
         })
      })"

definition sqlite3VdbeMemHandleBom :: "bool \<Rightarrow> mem \<Rightarrow> (int \<times> mem) option" where
  "sqlite3VdbeMemHandleBom ok m = do {
     bom \<leftarrow>
       (if mn m > 1 then do {
          b1 \<leftarrow> rd (mz m) 0; b2 \<leftarrow> rd (mz m) 1;
          Some (if b1 = 0xFF \<and> b2 = 0xFE then SQLITE_UTF16LE
                else if b1 = 0xFE \<and> b2 = 0xFF then SQLITE_UTF16BE else 0)
        } else Some 0);
     (if bom \<noteq> 0
      then let (rc, m) = sqlite3VdbeMemMakeWriteable ok m
           in if rc \<noteq> SQLITE_OK then Some (rc, m)
              else let n = mn m - 2
                in Some (SQLITE_OK, m\<lparr>mn := n, mz := ((take n (drop 2 (mz m)) @ drop n (mz m))[n := 0])[n + 1 := 0],
                     flags := flags m OR MEM_Term, enc := bom\<rparr>)
      else Some (SQLITE_OK, m))
   }"

section \<open>Counting\<close>

fun skip_cont :: "u8 list \<Rightarrow> u8 list option" where
  "skip_cont [] = None"
| "skip_cont (b # z) = (if b AND 0xc0 = 0x80 then skip_cont z else Some (b # z))"

fun SQLITE_SKIP_UTF8 :: "u8 list \<Rightarrow> u8 list option" where
  "SQLITE_SKIP_UTF8 [] = None"
| "SQLITE_SKIP_UTF8 (b # z) = (if b \<ge> 0xc0 then skip_cont z else Some z)"

text \<open>
  \<open>nByte\<close> is \<open>None\<close> for a negative argument; \<open>n\<close> is the length of the whole buffer, so that
  the offset of \<open>z\<close> is \<open>n - length z\<close>. The first argument bounds the rounds.
\<close>

fun charlen_loop :: "nat \<Rightarrow> nat \<Rightarrow> nat option \<Rightarrow> u8 list \<Rightarrow> nat \<Rightarrow> nat option" where
  "charlen_loop 0 n nByte z r = None"
| "charlen_loop (Suc k) n nByte z r = do {
     b \<leftarrow> rd z 0;
     (if b \<noteq> 0 \<and> (case nByte of None \<Rightarrow> True | Some m \<Rightarrow> n - length z < m)
      then do { z \<leftarrow> SQLITE_SKIP_UTF8 z; charlen_loop k n nByte z (r + 1) }
      else Some r)
   }"

definition sqlite3Utf8CharLen :: "u8 list \<Rightarrow> nat option \<Rightarrow> nat option" where
  "sqlite3Utf8CharLen z nByte = charlen_loop (length z + 1) (length z) nByte z 0"

fun utf16_skip :: "(u8 list \<Rightarrow> (u32 \<times> u8 list) option) \<Rightarrow> nat \<Rightarrow> u8 list \<Rightarrow> u8 list option" where
  "utf16_skip rdc 0 z = Some z"
| "utf16_skip rdc (Suc n) z = do { (c, z) \<leftarrow> rdc z; utf16_skip rdc n z }"

text \<open>The first argument tells whether the machine is big-endian.\<close>

definition sqlite3Utf16ByteLen :: "bool \<Rightarrow> u8 list \<Rightarrow> nat \<Rightarrow> nat option" where
  "sqlite3Utf16ByteLen be z nChar =
     map_option (\<lambda>z'. length z - length z')
       (utf16_skip ((if be then READ_UTF16BE else READ_UTF16LE) (\<lambda>_. True)) nChar z)"

section \<open>The self test\<close>

text \<open>One round of each of the three loops of \<^verbatim>\<open>sqlite3UtfSelfTest\<close>: its assertions hold.\<close>

definition selftest_utf8 :: "u32 \<Rightarrow> bool" where
  "selftest_utf8 i =
     (let z = WRITE_UTF8 i; n = length z;
          t = (if i \<ge> 0xD800 \<and> i \<le> 0xDFFF then 0xFFFD else i);
          t = (if i AND 0xFFFFFFFE = 0xFFFE then 0xFFFD else t)
      in n > 0 \<and> n \<le> 4 \<and>
         (case sqlite3Utf8Read (z @ [0]) of None \<Rightarrow> False | Some (c, z') \<Rightarrow> c = t \<and> n + 1 - length z' = n))"

definition selftest_utf16 ::
  "(u32 \<Rightarrow> u8 list) \<Rightarrow> ((u8 list \<Rightarrow> bool) \<Rightarrow> u8 list \<Rightarrow> (u32 \<times> u8 list) option) \<Rightarrow> u32 \<Rightarrow> bool" where
  "selftest_utf16 wrc rdc i =
     (if i \<ge> 0xD800 \<and> i < 0xE000 then True
      else let z = wrc i; n = length z
           in n > 0 \<and> n \<le> 4 \<and>
              (case rdc (\<lambda>_. True) (z @ [0]) of None \<Rightarrow> False | Some (c, z') \<Rightarrow> c = i \<and> n + 1 - length z' = n))"

definition sqlite3UtfSelfTest :: bool where
  "sqlite3UtfSelfTest \<longleftrightarrow>
     list_all (\<lambda>i. selftest_utf8 (of_nat i)) [0..<0x00110000] \<and>
     list_all (\<lambda>i. selftest_utf16 WRITE_UTF16LE READ_UTF16LE (of_nat i)) [0..<0x00110000] \<and>
     list_all (\<lambda>i. selftest_utf16 WRITE_UTF16BE READ_UTF16BE (of_nat i)) [0..<0x00110000]"

section \<open>Reading what was written\<close>

lemmas disj_plus = disjunctive_add_eq_or [where 'a = "'b :: len word"]

lemma low6: "c AND 0x3F = take_bit 6 (c :: u32)"
  by (simp add: take_bit_eq_mask mask_eq_exp_minus_1)

lemma push_drop_low6: "push_bit 6 (drop_bit 6 c) + (c AND 0x3F) = (c :: u32)"
  by (simp add: low6 bits_ident)

lemma cont_byte: "(0x80 + ucast (y AND 0x3F) :: u8) = 0x80 OR ucast (y AND (0x3F :: u32))"
  by (rule disj_plus) (simp add: u8_bitwise)

lemma utf8_cont_byte:
  "(0x80 + ucast (y AND (0x3F :: u32)) :: u8) AND 0xc0 = 0x80"
  "(0x3f AND ucast (0x80 + ucast (y AND 0x3F) :: u8)) = (y AND (0x3F :: u32))"
  unfolding cont_byte
  by (simp_all add: u8_bitwise u32_bitwise)

lemma utf8_cont_step [simp]:
  "utf8_cont ((0x80 + ucast (y AND 0x3F)) # z) c = utf8_cont z (push_bit 6 c + (y AND 0x3F))"
  "utf8_cont0 ((0x80 + ucast (y AND 0x3F)) # z) c = utf8_cont0 z (push_bit 6 c + (y AND 0x3F))"
  by (simp_all add: utf8_cont_byte)

lemma drop_bit_and_id:
  "drop_bit k (c :: u32) = 0 \<Longrightarrow> k \<le> 32 \<Longrightarrow> m + j = k \<Longrightarrow> drop_bit m c AND mask j = drop_bit m c"
  by (simp add: take_bit_eq_mask [symmetric] take_bit_word_eq_self_iff add.commute)

lemma trans1_table:
  "list_all (\<lambda>i. (i < 32 \<longrightarrow> sqlite3Utf8Trans1 ! i = of_nat i) \<and>
     (32 \<le> i \<longrightarrow> i < 48 \<longrightarrow> sqlite3Utf8Trans1 ! i = of_nat (i - 32)) \<and>
     (48 \<le> i \<longrightarrow> i < 56 \<longrightarrow> sqlite3Utf8Trans1 ! i = of_nat (i - 48))) [0..<56]"
  by code_simp

lemma lead_byte:
  assumes "unat (x :: u8) < n" and "unat p + n \<le> 256" "0xc0 \<le> p"
  shows "p + x \<ge> 0xc0" and "unat (p + x - 0xc0) = unat p + unat x - 0xc0"
proof -
  have u: "unat (p + x) = unat p + unat x"
    using assms by (subst unat_add_lem [THEN iffD1]) auto
  show "p + x \<ge> 0xc0" using assms(3) u by (simp add: word_le_nat_alt)
  then show "unat (p + x - 0xc0) = unat p + unat x - 0xc0"
    by (simp add: unat_sub u)
qed

lemma lead_small: "unat (ucast (y AND mask j :: u32) :: u8) < 2 ^ j" if "j < 8"
proof -
  have "unat (ucast (y AND mask j :: u32) :: u8) \<le> unat (y AND mask j :: u32)"
    by (simp add: unsigned_ucast_eq)
  also have "\<dots> < 2 ^ j"
    by (simp add: take_bit_eq_mask [symmetric] unsigned_take_bit_eq)
  finally show ?thesis .
qed

lemma lead_ucast: "ucast (ucast (y AND mask j :: u32) :: u8) = (y AND mask j :: u32)" if "j < 8"
  using that by (auto simp: bit_eq_iff bit_simps)

lemma lead_trans:
  "ucast (sqlite3Utf8Trans1 ! unat (0xC0 + ucast (y AND mask 5 :: u32) - 0xC0 :: u8)) = (y AND mask 5 :: u32)"
  "ucast (sqlite3Utf8Trans1 ! unat (0xE0 + ucast (y AND mask 4 :: u32) - 0xC0 :: u8)) = (y AND mask 4 :: u32)"
  "ucast (sqlite3Utf8Trans1 ! unat (0xF0 + ucast (y AND mask 3 :: u32) - 0xC0 :: u8)) = (y AND mask 3 :: u32)"
  and lead_ge:
  "(0xC0 :: u8) \<le> 0xC0 + ucast (y AND mask 5 :: u32)"
  "(0xC0 :: u8) \<le> 0xE0 + ucast (y AND mask 4 :: u32)"
  "(0xC0 :: u8) \<le> 0xF0 + ucast (y AND mask 3 :: u32)"
proof -
  have t: "i < 32 \<Longrightarrow> sqlite3Utf8Trans1 ! i = of_nat i"
    "32 \<le> i \<Longrightarrow> i < 48 \<Longrightarrow> sqlite3Utf8Trans1 ! i = of_nat (i - 32)"
    "48 \<le> i \<Longrightarrow> i < 56 \<Longrightarrow> sqlite3Utf8Trans1 ! i = of_nat (i - 48)" for i
    using trans1_table by (auto simp: list_all_iff)
  note s = lead_small [of 5 y, simplified] lead_small [of 4 y, simplified] lead_small [of 3 y, simplified]
  let ?x5 = "ucast (y AND mask 5) :: u8" and ?x4 = "ucast (y AND mask 4) :: u8" and ?x3 = "ucast (y AND mask 3) :: u8"
  have l5: "0xC0 \<le> 0xC0 + ?x5" "unat (0xC0 + ?x5 - 0xC0) = unat (0xC0 :: u8) + unat ?x5 - 0xC0"
    by (rule lead_byte [OF s(1)]; simp)+
  have l4: "0xC0 \<le> 0xE0 + ?x4" "unat (0xE0 + ?x4 - 0xC0) = unat (0xE0 :: u8) + unat ?x4 - 0xC0"
    by (rule lead_byte [OF s(2)]; simp)+
  have l3: "0xC0 \<le> 0xF0 + ?x3" "unat (0xF0 + ?x3 - 0xC0) = unat (0xF0 :: u8) + unat ?x3 - 0xC0"
    by (rule lead_byte [OF s(3)]; simp)+
  show "0xC0 \<le> 0xC0 + ?x5" "0xC0 \<le> 0xE0 + ?x4" "0xC0 \<le> 0xF0 + ?x3" by (fact l5 l4 l3)+
  show "ucast (sqlite3Utf8Trans1 ! unat (0xC0 + ?x5 - 0xC0)) = (y AND mask 5 :: u32)"
    unfolding l5(2) using s(1) by (simp add: t lead_ucast)
  show "ucast (sqlite3Utf8Trans1 ! unat (0xE0 + ?x4 - 0xC0)) = (y AND mask 4 :: u32)"
    unfolding l4(2) using s(2) by (simp add: t lead_ucast)
  show "ucast (sqlite3Utf8Trans1 ! unat (0xF0 + ?x3 - 0xC0)) = (y AND mask 3 :: u32)"
    unfolding l3(2) using s(3) by (simp add: t lead_ucast)
qed


lemma less_drop: "c < 0x800 \<Longrightarrow> drop_bit 11 (c :: u32) = 0" "c < 0x10000 \<Longrightarrow> drop_bit 16 (c :: u32) = 0"
  "c < 0x200000 \<Longrightarrow> drop_bit 21 (c :: u32) = 0"
  using word_less_exp_iff_drop_bit [of 11 c] word_less_exp_iff_drop_bit [of 16 c] word_less_exp_iff_drop_bit [of 21 c]
  by simp_all

definition no_cont :: "u8 list \<Rightarrow> bool" where
  "no_cont z = (case z of [] \<Rightarrow> True | b # _ \<Rightarrow> b AND 0xc0 \<noteq> 0x80)"

lemma no_cont [simp]: "no_cont z \<Longrightarrow> utf8_cont z c = (c, z)"
  "no_cont z \<Longrightarrow> z \<noteq> [] \<Longrightarrow> utf8_cont0 z c = Some (c, z)"
  by (auto simp: no_cont_def split: list.splits)

lemmas masks = mask_eq_exp_minus_1 [where 'a = u32 and n = 5, simplified, symmetric]
  mask_eq_exp_minus_1 [where 'a = u32 and n = 4, simplified, symmetric] mask_eq_exp_minus_1 [where 'a = u32 and n = 3, simplified, symmetric]

lemma read_write_lead:
  assumes "0x80 \<le> c" "c < 0x200000" and "no_cont z"
  obtains b y c0 where "WRITE_UTF8 c = b # y" "b \<ge> 0xc0" "ucast (sqlite3Utf8Trans1 ! unat (b - 0xc0)) = c0"
    "utf8_cont (y @ z) c0 = (c, z)" "z \<noteq> [] \<Longrightarrow> utf8_cont0 (y @ z) c0 = Some (c, z)"
proof (cases "c < 0x800")
  case True
  have "drop_bit 6 c AND mask 5 = drop_bit 6 c" by (rule drop_bit_and_id [OF less_drop(1) [OF True]]) auto
  moreover have "WRITE_UTF8 c = (0xC0 + ucast (drop_bit 6 c AND mask 5)) # [0x80 + ucast (c AND 0x3F)]"
    using assms(1) True by (simp add: WRITE_UTF8_def masks)
  ultimately show thesis
    using that lead_ge(1) [of "drop_bit 6 c"] lead_trans(1) [of "drop_bit 6 c"] assms(3)
    by (metis append_Cons append_Nil utf8_cont_step push_drop_low6 no_cont)
next
  case False
  show thesis
  proof (cases "c < 0x10000")
    case True
    have "drop_bit 12 c AND mask 4 = drop_bit 12 c" by (rule drop_bit_and_id [OF less_drop(2) [OF True]]) auto
    moreover have "WRITE_UTF8 c = (0xE0 + ucast (drop_bit 12 c AND mask 4)) # [0x80 + ucast (drop_bit 6 c AND 0x3F), 0x80 + ucast (c AND 0x3F)]"
      using assms(1) True False by (simp add: WRITE_UTF8_def masks)
    moreover have "drop_bit 12 c = drop_bit 6 (drop_bit 6 c)" by simp
    ultimately show thesis
      using that lead_ge(2) [of "drop_bit 12 c"] lead_trans(2) [of "drop_bit 12 c"] assms(3)
      by (metis append_Cons append_Nil utf8_cont_step push_drop_low6 no_cont)
  next
    case big: False
    have "drop_bit 18 c AND mask 3 = drop_bit 18 c" by (rule drop_bit_and_id [OF less_drop(3) [OF assms(2)]]) auto
    moreover have "WRITE_UTF8 c = (0xF0 + ucast (drop_bit 18 c AND mask 3)) # [0x80 + ucast (drop_bit 12 c AND 0x3F), 0x80 + ucast (drop_bit 6 c AND 0x3F), 0x80 + ucast (c AND 0x3F)]"
      using assms(1) False big by (simp add: WRITE_UTF8_def masks)
    moreover have "drop_bit 12 c = drop_bit 6 (drop_bit 6 c)" "drop_bit 18 c = drop_bit 6 (drop_bit 12 c)" by simp_all
    ultimately show thesis
      using that lead_ge(3) [of "drop_bit 18 c"] lead_trans(3) [of "drop_bit 18 c"] assms(3)
      by (metis append_Cons append_Nil utf8_cont_step push_drop_low6 no_cont)
  qed
qed

lemma small_no_lead: "c < 0x80 \<Longrightarrow> WRITE_UTF8 c = [ucast c] \<and> \<not> (0xc0 :: u8) \<le> ucast c \<and> ucast (ucast c :: u8) = (c :: u32)"
proof -
  assume c: "c < 0x80"
  then have l: "unat c < 128" by (simp add: word_less_nat_alt)
  have m: "c AND 0xFF = take_bit 8 c"
    by (simp add: take_bit_eq_mask mask_eq_exp_minus_1)
  have d: "drop_bit 7 c = 0" using c word_less_exp_iff_drop_bit [of 7 c] by simp
  have t: "take_bit 7 c = c" using d by (simp add: take_bit_word_eq_self_iff)
  have hi: "bit c n = False" if "7 \<le> n" for n
    using that t by (metis bit_take_bit_iff not_le)
  have uu: "ucast (ucast c :: u8) = c"
  proof (rule bit_word_eqI)
    fix n
    show "bit (ucast (ucast c :: u8) :: u32) n = bit c n" if "n < LENGTH(32)"
      using hi [of n] that by (cases "n < 7") (simp_all add: bit_simps)
  qed
  have lt: "bit c n \<Longrightarrow> n < 8" for n using hi [of n] by (cases "7 \<le> n") auto
  have t8: "take_bit 8 c = c" using lt by (auto simp: bit_eq_iff bit_simps)
  have u: "unat (ucast c :: u8) = unat c mod 256"
    by (simp add: unsigned_ucast_eq take_bit_eq_mod)
  show ?thesis using c l u uu
    by (simp add: WRITE_UTF8_def word_le_nat_alt m t8)
qed

lemma utf8_read_write:
  assumes "c < 0x200000" and "no_cont z"
  shows "READ_UTF8 (WRITE_UTF8 c @ z) = Some (if c < 0x80 then c else utf8_check c, z)"
    and "z \<noteq> [] \<Longrightarrow> sqlite3Utf8Read (WRITE_UTF8 c @ z) = Some (if c < 0x80 then c else utf8_check c, z)"
proof -
  show "READ_UTF8 (WRITE_UTF8 c @ z) = Some (if c < 0x80 then c else utf8_check c, z)"
  proof (cases "c < 0x80")
    case True
    then show ?thesis using small_no_lead [OF True] by simp
  next
    case False
    then obtain b y c0 where "WRITE_UTF8 c = b # y" "b \<ge> 0xc0" "ucast (sqlite3Utf8Trans1 ! unat (b - 0xc0)) = c0"
      "utf8_cont (y @ z) c0 = (c, z)"
      using read_write_lead [of c z] assms by (metis not_le)
    then show ?thesis using False by simp
  qed
  show "sqlite3Utf8Read (WRITE_UTF8 c @ z) = Some (if c < 0x80 then c else utf8_check c, z)" if z: "z \<noteq> []"
  proof (cases "c < 0x80")
    case True
    then show ?thesis using small_no_lead [OF True] by simp
  next
    case False
    then obtain b y c0 where "WRITE_UTF8 c = b # y" "b \<ge> 0xc0" "ucast (sqlite3Utf8Trans1 ! unat (b - 0xc0)) = c0"
      "utf8_cont0 (y @ z) c0 = Some (c, z)"
      using read_write_lead [of c z] assms z by (metis not_le)
    then show ?thesis using False by simp
  qed
qed

definition is_surrogate :: "u32 \<Rightarrow> bool" where
  "is_surrogate c \<longleftrightarrow> 0xD800 \<le> c \<and> c < 0xE000"

lemma bmp_bytes:
  assumes "c \<le> (0xFFFF :: u32)"
  shows "ucast (ucast (c AND 0xFF) :: u8) + push_bit 8 (ucast (ucast (drop_bit 8 c AND 0xFF) :: u8)) = c"
proof -
  have "drop_bit 16 c = 0"
    using word_less_exp_iff_drop_bit [of 16 c] assms
    by (simp add: word_le_nat_alt word_less_nat_alt)
  then have "take_bit 16 c = c" by (simp add: take_bit_word_eq_self_iff)
  then have hi: "\<not> bit c n" if "16 \<le> n" for n using that by (metis bit_take_bit_iff not_le)
  have "ucast (ucast (c AND 0xFF) :: u8) + push_bit 8 (ucast (ucast (drop_bit 8 c AND 0xFF) :: u8))
      = ucast (ucast (c AND 0xFF) :: u8) OR push_bit 8 (ucast (ucast (drop_bit 8 c AND 0xFF) :: u8) :: u32)"
    by (rule disj_plus) (simp add: u32_bitwise)
  also have "\<dots> = c"
    using hi by (simp add: u32_bitwise)
  finally show ?thesis .
qed

lemma pair_units:
  fixes c d :: u32
  assumes c: "c = d + 0x10000" and d: "d < 0x100000"
  defines "u1 \<equiv> ucast (ucast ((drop_bit 10 c AND 0x003F) + (drop_bit 10 (c - 0x10000) AND 0x00C0)) :: u8)
              + push_bit 8 (ucast (ucast (0x00D8 + (drop_bit 18 (c - 0x10000) AND 0x03)) :: u8)) :: u32"
    and "u2 \<equiv> ucast (ucast (c AND 0x00FF) :: u8) + push_bit 8 (ucast (ucast (0x00DC + (drop_bit 8 c AND 0x03)) :: u8)) :: u32"
  shows "is_surrogate u1" "surrogate_pair u1 u2 = c"
proof -
  have "drop_bit 20 d = 0" using word_less_exp_iff_drop_bit [of 20 d] d by simp
  then have "take_bit 20 d = d" by (simp add: take_bit_word_eq_self_iff)
  then have hi: "\<not> bit d n" if "20 \<le> n" for n using that by (metis bit_take_bit_iff not_le)
  have t: "take_bit 16 c = take_bit 16 d"
  proof -
    have "unat d < 0x100000" using d by (simp add: word_less_nat_alt)
    then have "unat (d + 0x10000) = unat d + 0x10000"
      by (subst unat_add_lem [THEN iffD1]) auto
    then show ?thesis
      by (simp only: c word_unat_eq_iff unsigned_take_bit_eq) (simp add: take_bit_eq_mod)
  qed
  have lo: "bit c n = bit d n" if "n < 16" for n
    using that t by (metis bit_take_bit_iff)
  have cd: "c - 0x10000 = d" by (simp add: c)
  have a: "(drop_bit 10 c AND 0x003F) + (drop_bit 10 d AND 0x00C0) = drop_bit 10 d AND 0xFF"
    by (subst disj_plus) (simp_all add: u32_bitwise lo)
  have b: "0x00D8 + (drop_bit 18 d AND 0x03) = 0xD8 OR (drop_bit 18 d AND 0x03)"
    "0x00DC + (drop_bit 8 c AND 0x03) = 0xDC OR (drop_bit 8 d AND 0x03)"
    by (subst disj_plus; simp add: u32_bitwise lo)+
  have u1: "u1 = 0xD800 OR (drop_bit 10 d AND 0x3FF)"
    unfolding u1_def cd a b by (subst disj_plus) (simp_all add: u32_bitwise)
  have u2: "u2 = 0xDC00 OR (d AND 0x3FF)"
    unfolding u2_def b by (subst disj_plus) (simp_all add: u32_bitwise lo)
  have "u1 = 0xD800 + take_bit 10 (drop_bit 10 d)"
    unfolding u1 by (subst disj_plus) (simp_all add: u32_bitwise)
  moreover have "unat (take_bit 10 (drop_bit 10 d)) < 0x400"
    by (simp only: unsigned_take_bit_eq) (simp add: take_bit_eq_mod)
  ultimately have "unat u1 = 0xD800 + unat (take_bit 10 (drop_bit 10 d))"
    by (simp only:) (subst unat_add_lem [THEN iffD1]; simp)
  with \<open>unat (take_bit 10 (drop_bit 10 d)) < 0x400\<close> show "is_surrogate u1"
    by (simp add: is_surrogate_def word_le_nat_alt word_less_nat_alt)
  have p: "push_bit 10 (x + 0x40 :: u32) = push_bit 10 x + 0x10000" for x
    by (simp add: push_bit_eq_mult algebra_simps)
  have u2': "u2 AND 0x03FF = d AND 0x3FF" unfolding u2 by (simp add: u32_bitwise)
  have ulo: "push_bit 10 (u1 AND 0x003F) = d AND 0xFC00" unfolding u1 by (simp add: u32_bitwise)
  have uhi: "push_bit 10 (u1 AND 0x03C0) = d AND 0xF0000" unfolding u1 by (simp add: u32_bitwise)
  have "(d AND 0x3FF) + (d AND 0xFC00) = d AND 0xFFFF"
    by (subst disj_plus) (simp_all add: u32_bitwise)
  moreover have "(d AND 0xFFFF) + (d AND 0xF0000) = d AND 0xFFFFF"
    by (subst disj_plus) (simp_all add: u32_bitwise)
  moreover have "d AND 0xFFFFF = d"
    using \<open>take_bit 20 d = d\<close> by (simp add: take_bit_eq_mask mask_eq_exp_minus_1)
  ultimately have "(u2 AND 0x03FF) + push_bit 10 (u1 AND 0x003F) + push_bit 10 (u1 AND 0x03C0) = d"
    by (simp only: u2' ulo uhi)
  then show "surrogate_pair u1 u2 = c"
    by (simp add: surrogate_pair_def p c add.assoc)
qed

lemma utf16_read_write:
  assumes "c < 0x110000" and "\<not> is_surrogate c"
    and tm: "\<And>a b z. tm (a # b # z)"
  shows "READ_UTF16LE tm (WRITE_UTF16LE c @ z) = Some (c, z)"
    and "READ_UTF16BE tm (WRITE_UTF16BE c @ z) = Some (c, z)"
proof -
  define d where "d = c - 0x10000"
  have c: "c = d + 0x10000" by (simp add: d_def)
  have d: "d < 0x100000" if "\<not> c \<le> 0xFFFF"
  proof -
    have "unat d = unat c - 0x10000" using that by (simp add: d_def unat_sub word_le_nat_alt)
    then show ?thesis using assms(1) that by (simp add: word_less_nat_alt word_le_nat_alt)
  qed
  note p = pair_units [OF c d]
  show "READ_UTF16LE tm (WRITE_UTF16LE c @ z) = Some (c, z)"
  proof (cases "c \<le> 0xFFFF")
    case True
    then show ?thesis using assms(2) bmp_bytes [OF True] by (auto simp: WRITE_UTF16LE_def is_surrogate_def)
  next
    case False
    then show ?thesis
      using p(1) p(2) by (simp only: WRITE_UTF16LE_def if_False append.simps READ_UTF16LE.simps Let_def is_surrogate_def tm simp_thms if_True list.case)
  qed
  show "READ_UTF16BE tm (WRITE_UTF16BE c @ z) = Some (c, z)"
  proof (cases "c \<le> 0xFFFF")
    case True
    then show ?thesis using assms(2) bmp_bytes [OF True] by (auto simp: WRITE_UTF16BE_def is_surrogate_def add.commute)
  next
    case False
    then show ?thesis
      using p(1) p(2) by (simp only: WRITE_UTF16BE_def if_False append.simps READ_UTF16BE.simps Let_def is_surrogate_def tm simp_thms if_True list.case add.commute [where b = "push_bit 8 _"])
  qed
qed

definition valid_cp :: "u32 \<Rightarrow> bool" where
  "valid_cp c \<longleftrightarrow> c < 0x110000 \<and> \<not> is_surrogate c \<and> c \<noteq> 0xFFFE \<and> c \<noteq> 0xFFFF"

lemma unat_clear_low: "unat (push_bit n (drop_bit n (c :: 'a :: len word))) = unat c div 2 ^ n * 2 ^ n"
proof -
  have "unat (push_bit n (drop_bit n c)) = take_bit LENGTH('a) (unat c div 2 ^ n * 2 ^ n)"
    by (simp only: unsigned_push_bit_eq unat_drop_bit_eq) (simp add: drop_bit_eq_div push_bit_eq_mult)
  moreover have "unat c div 2 ^ n * 2 ^ n < 2 ^ LENGTH('a)"
    by (rule le_less_trans [OF div_times_less_eq_dividend unsigned_less])
  ultimately show ?thesis by (simp add: take_bit_eq_mod)
qed

lemma div_times_eq_iff: "0 < k \<Longrightarrow> x div k * k = m * k \<longleftrightarrow> m * k \<le> x \<and> x < Suc m * k" for x :: nat
  by (metis div_less_iff_less_mult le_antisym less_Suc_eq_le less_eq_div_iff_mult_less_eq mult_right_cancel
      nat_less_le order_refl lessI neq0_conv)

lemma is_surrogate_mask: "c AND 0xFFFFF800 = 0xD800 \<longleftrightarrow> is_surrogate c"
proof -
  have "c AND 0xFFFFF800 = push_bit 11 (drop_bit 11 c)"
    by (simp add: u32_bitwise)
  then have "unat (c AND 0xFFFFF800) = unat c div 2048 * 2048"
    by (simp only: unat_clear_low) simp
  then show ?thesis
    using div_times_eq_iff [of 2048 "unat c" 27]
    by (simp add: is_surrogate_def word_unat_eq_iff word_le_nat_alt word_less_nat_alt)
qed

lemma nonchar_mask: "c AND 0xFFFFFFFE = 0xFFFE \<longleftrightarrow> c = 0xFFFE \<or> (c :: u32) = 0xFFFF"
proof -
  have "c AND 0xFFFFFFFE = push_bit 1 (drop_bit 1 c)"
    by (simp add: u32_bitwise del: push_bit_Suc One_nat_def) simp
  then have "unat (c AND 0xFFFFFFFE) = unat c div 2 * 2"
    by (simp only: unat_clear_low) simp
  then show ?thesis
    by (simp add: word_unat_eq_iff) presburger
qed

lemma u8_top_bits: "b AND 0xc0 = 0x80 \<longleftrightarrow> 0x80 \<le> b \<and> b < (0xc0 :: u8)"
proof -
  have "b AND 0xc0 = push_bit 6 (drop_bit 6 b)"
    by (simp add: u8_bitwise)
  then have "unat (b AND 0xc0) = unat b div 64 * 64"
    by (simp only: unat_clear_low) simp
  then show ?thesis
    using div_times_eq_iff [of 64 "unat b" 2]
    by (simp add: word_unat_eq_iff word_le_nat_alt word_less_nat_alt)
qed

lemma utf8_check_eq:
  "0x80 \<le> c \<Longrightarrow> utf8_check c = (if is_surrogate c \<or> c = 0xFFFE \<or> c = 0xFFFF then 0xFFFD else c)"
  by (auto simp: utf8_check_def is_surrogate_mask nonchar_mask)

lemma utf8_read_valid:
  assumes "valid_cp c" "no_cont z"
  shows "READ_UTF8 (WRITE_UTF8 c @ z) = Some (c, z)"
proof -
  have "c < 0x200000" using assms(1) by (auto simp: valid_cp_def word_less_nat_alt)
  then show ?thesis
    using utf8_read_write(1) [OF _ assms(2), of c] utf8_check_eq [of c] assms(1)
    by (auto simp: valid_cp_def not_less split: if_splits)
qed

lemma no_cont_simps [simp]: "no_cont []" "no_cont (0 # z)"
  by (simp_all add: no_cont_def)

lemma no_cont_write [simp]:
  assumes "c < 0x200000"
  shows "no_cont (WRITE_UTF8 c @ z)"
proof (cases "c < 0x80")
  case True
  note s = small_no_lead [OF True]
  have "unat (ucast c :: u8) = unat c mod 256" by (simp add: unsigned_ucast_eq take_bit_eq_mod)
  then have "unat (ucast c :: u8) < 0x80" using True by (simp add: word_less_nat_alt)
  then show ?thesis using s by (simp add: no_cont_def u8_top_bits word_le_nat_alt)
next
  case False
  then obtain b y where "WRITE_UTF8 c = b # y" "b \<ge> 0xc0"
    using read_write_lead [of c "[]"] assms by (metis no_cont_simps(1) not_le)
  then show ?thesis by (simp add: no_cont_def u8_top_bits not_less)
qed

section \<open>The contract of an encoding\<close>

text \<open>
  What the translation loop relies on: a reader that makes progress on every whole buffer, a writer,
  and that the reader undoes the writer before text that starts on a character boundary.
\<close>

locale char_codec =
  fixes rdc :: "u8 list \<Rightarrow> (u32 \<times> u8 list) option"
    and wrc :: "u32 \<Rightarrow> u8 list"
    and whole :: "u8 list \<Rightarrow> bool"
    and boundary :: "u8 list \<Rightarrow> bool"
  assumes read_some: "z \<noteq> [] \<Longrightarrow> whole z \<Longrightarrow> \<exists>c z'. rdc z = Some (c, z') \<and> whole z' \<and> length z' < length z"
    and read_write: "valid_cp c \<Longrightarrow> boundary z \<Longrightarrow> rdc (wrc c @ z) = Some (c, z)"
    and boundary_write: "valid_cp c \<Longrightarrow> boundary (wrc c @ z)"
    and boundary_Nil: "boundary []"
    and write_nonempty: "wrc c \<noteq> []"
begin

lemma loop_total:
  assumes "\<And>z c z'. whole z \<Longrightarrow> rdc z = Some (c, z') \<Longrightarrow> length (w c) + 2 * length z' \<le> 2 * length z"
  shows "whole z \<Longrightarrow> length z \<le> k \<Longrightarrow>
    \<exists>out. translate_loop k rdc w z = Some out \<and> length out \<le> 2 * length z"
proof (induction k arbitrary: z)
  case (Suc k)
  show ?case
  proof (cases "z = []")
    case False
    then obtain b y where z: "z = b # y" by (cases z) auto
    from read_some [OF False Suc.prems(1)] obtain c z' where
      c: "rdc z = Some (c, z')" "whole z'" "length z' < length z" by auto
    obtain out where "translate_loop k rdc w z' = Some out" "length out \<le> 2 * length z'"
      using Suc.IH [OF c(2)] c(3) Suc.prems(2) by auto
    then show ?thesis using c(1) z assms [OF Suc.prems(1) c(1)] by simp
  qed simp
qed simp

lemma boundary_text: "list_all valid_cp cs \<Longrightarrow> boundary (concat (map wrc cs))"
  by (cases cs) (simp_all add: boundary_Nil boundary_write)

lemma loop_text:
  "list_all valid_cp cs \<Longrightarrow> length (concat (map wrc cs)) \<le> k \<Longrightarrow>
    translate_loop k rdc w (concat (map wrc cs)) = Some (concat (map w cs))"
proof (induction cs arbitrary: k)
  case (Cons c cs)
  obtain b y where b: "wrc c @ concat (map wrc cs) = b # y"
    using write_nonempty [of c] by (cases "wrc c") auto
  have "length (wrc c) > 0" using write_nonempty by simp
  then obtain k' where k: "k = Suc k'" "length (concat (map wrc cs)) \<le> k'"
    using Cons.prems(2) by (cases k) (auto simp del: length_greater_0_conv)
  have "rdc (b # y) = Some (c, concat (map wrc cs))"
    using read_write [of c "concat (map wrc cs)"] boundary_text [of cs] Cons.prems(1) b by simp
  then show ?case using Cons.IH [OF _ k(2)] Cons.prems(1) k(1) b by simp
qed (cases k; simp)

end

lemma valid_cp_less: "valid_cp c \<Longrightarrow> c < 0x200000"
  by (auto simp: valid_cp_def word_less_nat_alt)

lemma WRITE_nonempty: "WRITE_UTF8 c \<noteq> []" "WRITE_UTF16LE c \<noteq> []" "WRITE_UTF16BE c \<noteq> []"
  by (simp_all add: WRITE_UTF8_def WRITE_UTF16LE_def WRITE_UTF16BE_def)

interpretation utf8: char_codec READ_UTF8 WRITE_UTF8 "\<lambda>_. True" no_cont
proof
  show "\<exists>c z'. READ_UTF8 z = Some (c, z') \<and> True \<and> length z' < length z" if "z \<noteq> []" for z
  proof -
    have "READ_UTF8 z \<noteq> None"
      using \<open>z \<noteq> []\<close> by (cases z) (auto split: prod.splits)
    then obtain c z' where "READ_UTF8 z = Some (c, z')" by auto
    then show ?thesis using READ_UTF8_length by blast
  qed
qed (simp_all add: utf8_read_valid valid_cp_less WRITE_nonempty)

lemma READ_UTF16_whole:
  assumes "z \<noteq> []" "even (length z)"
  shows "\<exists>c z'. READ_UTF16LE (\<lambda>z. z \<noteq> []) z = Some (c, z') \<and> even (length z') \<and> length z' < length z"
    and "\<exists>c z'. READ_UTF16BE (\<lambda>z. z \<noteq> []) z = Some (c, z') \<and> even (length z') \<and> length z' < length z"
proof -
  obtain a b y where z: "z = a # b # y" using assms by (cases z rule: swap_bytes.cases) auto
  have "y = [] \<or> (\<exists>a2 b2 y2. y = a2 # b2 # y2)" using assms z by (cases y rule: swap_bytes.cases) auto
  then show "\<exists>c z'. READ_UTF16LE (\<lambda>z. z \<noteq> []) z = Some (c, z') \<and> even (length z') \<and> length z' < length z"
    "\<exists>c z'. READ_UTF16BE (\<lambda>z. z \<noteq> []) z = Some (c, z') \<and> even (length z') \<and> length z' < length z"
    using assms z by (auto simp: Let_def)
qed

interpretation utf16le: char_codec "READ_UTF16LE (\<lambda>z. z \<noteq> [])" WRITE_UTF16LE "\<lambda>z. even (length z)" "\<lambda>_. True"
  by unfold_locales (use READ_UTF16_whole in \<open>auto simp: utf16_read_write valid_cp_def WRITE_nonempty\<close>)

interpretation utf16be: char_codec "READ_UTF16BE (\<lambda>z. z \<noteq> [])" WRITE_UTF16BE "\<lambda>z. even (length z)" "\<lambda>_. True"
  by unfold_locales (use READ_UTF16_whole in \<open>auto simp: utf16_read_write valid_cp_def WRITE_nonempty\<close>)


section \<open>The translation\<close>

lemma utf8_check_le: "c \<le> 0xFFFF \<Longrightarrow> utf8_check c \<le> 0xFFFF"
  by (simp add: utf8_check_def)

lemma READ_UTF8_one:
  assumes "READ_UTF8 z = Some (c, z')" "length z = Suc (length z')"
  shows "c \<le> 0xFFFF"
proof -
  have small: "(ucast (b :: u8) :: u32) \<le> 0xFFFF" for b
  proof -
    have "unat (ucast b :: u32) = unat b" 
      using unat_u8_less [of b] by (simp add: unsigned_ucast_eq take_bit_eq_mod)
    then show ?thesis using unat_u8_less [of b] by (simp add: word_le_nat_alt)
  qed
  obtain b y where z: "z = b # y" using assms(2) by (cases z) auto
  show ?thesis
  proof (cases "b \<ge> 0xc0")
    case True
    define c0 :: u32 where "c0 = ucast (sqlite3Utf8Trans1 ! unat (b - 0xc0))"
    obtain c1 where c1: "utf8_cont y c0 = (c1, z')" "c = utf8_check c1"
      using assms(1) z True by (auto simp: c0_def split: prod.splits)
    have "c1 = c0"
    proof (cases y)
      case Nil
      then show ?thesis using c1 by simp
    next
      case (Cons a w)
      have "length z' \<le> length w" if "utf8_cont w x = (c1, z')" for x
        using utf8_cont_length [OF that [symmetric]] .
      then show ?thesis using c1(1) Cons assms(2) z by (auto split: if_splits)
    qed
    then show ?thesis using c1(2) small c0_def utf8_check_le by simp
  next
    case False
    then show ?thesis using assms z small by auto
  qed
qed

lemma WRITE_lengths:
  "length (WRITE_UTF8 c) \<le> 4" "c \<le> 0xFFFF \<Longrightarrow> length (WRITE_UTF8 c) \<le> 3"
  "length (WRITE_UTF16LE c) = (if c \<le> 0xFFFF then 2 else 4)" "length (WRITE_UTF16BE c) = (if c \<le> 0xFFFF then 2 else 4)"
  by (auto simp: WRITE_UTF8_def WRITE_UTF16LE_def WRITE_UTF16BE_def word_less_nat_alt word_le_nat_alt)

lemma utf8_to_utf16_bound:
  assumes "READ_UTF8 z = Some (c, z')"
  shows "length (WRITE_UTF16LE c) + 2 * length z' \<le> 2 * length z"
    and "length (WRITE_UTF16BE c) + 2 * length z' \<le> 2 * length z"
  using READ_UTF8_length [OF assms] READ_UTF8_one [OF assms]
  by (cases "length z = Suc (length z')"; simp add: WRITE_lengths)+

lemma utf16_to_utf8_bound:
  "READ_UTF16LE tm z = Some (c, z') \<Longrightarrow> length (WRITE_UTF8 c) + 2 * length z' \<le> 2 * length z"
  "READ_UTF16BE tm z = Some (c, z') \<Longrightarrow> length (WRITE_UTF8 c) + 2 * length z' \<le> 2 * length z"
proof -
  have "length z' + 2 \<le> length z" if "READ_UTF16LE tm z = Some (c, z')"
    using that by (cases "(tm, z)" rule: READ_UTF16LE.cases) (fastforce simp: Let_def split: if_splits list.splits)+
  moreover have "length z' + 2 \<le> length z" if "READ_UTF16BE tm z = Some (c, z')"
    using that by (cases "(tm, z)" rule: READ_UTF16BE.cases) (fastforce simp: Let_def split: if_splits list.splits)+
  ultimately show "READ_UTF16LE tm z = Some (c, z') \<Longrightarrow> length (WRITE_UTF8 c) + 2 * length z' \<le> 2 * length z"
    "READ_UTF16BE tm z = Some (c, z') \<Longrightarrow> length (WRITE_UTF8 c) + 2 * length z' \<le> 2 * length z"
    using WRITE_lengths(1) [of c] by fastforce+
qed

lemma length_swap_bytes [simp]: "length (swap_bytes z) = length z"
  by (induction z rule: swap_bytes.induct) auto

definition text_encoding :: "nat \<Rightarrow> bool" where
  "text_encoding e \<longleftrightarrow> e = SQLITE_UTF8 \<or> e = SQLITE_UTF16LE \<or> e = SQLITE_UTF16BE"

lemmas encodings = SQLITE_UTF8_def SQLITE_UTF16LE_def SQLITE_UTF16BE_def

lemma translate_total:
  "\<exists>out. translate_loop (length z) READ_UTF8 WRITE_UTF16LE z = Some out \<and> length out \<le> 2 * length z"
  "\<exists>out. translate_loop (length z) READ_UTF8 WRITE_UTF16BE z = Some out \<and> length out \<le> 2 * length z"
  "even (length z) \<Longrightarrow> \<exists>out. translate_loop (length z) (READ_UTF16LE (\<lambda>z. z \<noteq> [])) WRITE_UTF8 z = Some out \<and> length out \<le> 2 * length z"
  "even (length z) \<Longrightarrow> \<exists>out. translate_loop (length z) (READ_UTF16BE (\<lambda>z. z \<noteq> [])) WRITE_UTF8 z = Some out \<and> length out \<le> 2 * length z"
  by (rule utf8.loop_total utf16le.loop_total utf16be.loop_total; simp add: utf8_to_utf16_bound utf16_to_utf8_bound)+

lemma even_part: "even (n - n mod 2)" for n :: nat
  by presburger

lemma encoding_cases:
  assumes "text_encoding e" "text_encoding d" "d \<noteq> e"
  obtains (swap) "e \<noteq> SQLITE_UTF8" "d \<noteq> SQLITE_UTF8" | (to16le) "e = SQLITE_UTF8" "d = SQLITE_UTF16LE"
    | (to16be) "e = SQLITE_UTF8" "d = SQLITE_UTF16BE" | (from16le) "e = SQLITE_UTF16LE" "d = SQLITE_UTF8"
    | (from16be) "e = SQLITE_UTF16BE" "d = SQLITE_UTF8"
  using assms unfolding text_encoding_def by blast

lemma MemTranslate_in_bounds_post:
  assumes "mn m \<le> length (mz m)" and "text_encoding (enc m)" and "text_encoding desired" and "desired \<noteq> enc m"
  shows "\<exists>rc m'. sqlite3VdbeMemTranslate ok m desired = Some (rc, m') \<and>
    (rc = SQLITE_OK \<or> \<not> ok \<and> rc = SQLITE_NOMEM) \<and>
    (rc = SQLITE_OK \<longrightarrow> enc m' = desired \<and> mn m' \<le> 2 * mn m \<and> mn m' \<le> length (mz m'))"
proof -
  let ?z8 = "take (mn m) (mz m)" and ?z = "take (mn m - mn m mod 2) (mz m)"
  have len: "length ?z8 = mn m" "length ?z = mn m - mn m mod 2" using assms(1) by auto
  note t = translate_total(1,2) [of ?z8] translate_total(3,4) [of ?z, unfolded len, OF even_part]
  show ?thesis
    using assms(2-4)
  proof (cases rule: encoding_cases)
    case swap
    then show ?thesis using assms(1) by (auto simp: sqlite3VdbeMemTranslate_def sqlite3VdbeMemMakeWriteable_def Let_def)
  next
    case to16le
    obtain out where "translate_loop (length ?z8) READ_UTF8 WRITE_UTF16LE ?z8 = Some out" "length out \<le> 2 * mn m"
      using t(1) len(1) by auto
    then show ?thesis using to16le len by (auto simp: sqlite3VdbeMemTranslate_def encodings Let_def)
  next
    case to16be
    obtain out where "translate_loop (length ?z8) READ_UTF8 WRITE_UTF16BE ?z8 = Some out" "length out \<le> 2 * mn m"
      using t(2) len(1) by auto
    then show ?thesis using to16be len by (auto simp: sqlite3VdbeMemTranslate_def encodings Let_def)
  next
    case from16le
    obtain out where "translate_loop (length ?z) (READ_UTF16LE (\<lambda>z. z \<noteq> [])) WRITE_UTF8 ?z = Some out"
      "length out \<le> 2 * (mn m - mn m mod 2)"
      using t(3) len(2) by auto
    then show ?thesis using from16le len by (auto simp: sqlite3VdbeMemTranslate_def encodings Let_def)
  next
    case from16be
    obtain out where "translate_loop (length ?z) (READ_UTF16BE (\<lambda>z. z \<noteq> [])) WRITE_UTF8 ?z = Some out"
      "length out \<le> 2 * (mn m - mn m mod 2)"
      using t(4) len(2) by auto
    then show ?thesis using from16be len by (auto simp: sqlite3VdbeMemTranslate_def encodings Let_def)
  qed
qed

definition encode_text :: "nat \<Rightarrow> u32 list \<Rightarrow> u8 list" where
  "encode_text e cs = concat (map (if e = SQLITE_UTF8 then WRITE_UTF8
     else if e = SQLITE_UTF16LE then WRITE_UTF16LE else WRITE_UTF16BE) cs)"

lemma even_encode_text: "e \<noteq> SQLITE_UTF8 \<Longrightarrow> even (length (encode_text e cs))"
  by (induction cs) (auto simp: encode_text_def WRITE_lengths)

lemma swap_bytes_append: "even (length x) \<Longrightarrow> swap_bytes (x @ y) = swap_bytes x @ swap_bytes y"
  by (induction x rule: swap_bytes.induct) auto

lemma swap_write:
  "swap_bytes (WRITE_UTF16LE c) = WRITE_UTF16BE c" "swap_bytes (WRITE_UTF16BE c) = WRITE_UTF16LE c"
  by (simp_all add: WRITE_UTF16LE_def WRITE_UTF16BE_def)

lemma swap_encode_text:
  assumes "text_encoding e" "text_encoding d" "d \<noteq> e" "e \<noteq> SQLITE_UTF8" "d \<noteq> SQLITE_UTF8"
  shows "swap_bytes (encode_text e cs) = encode_text d cs"
  using assms
  by (induction cs) (auto simp: encode_text_def text_encoding_def swap_bytes_append swap_write WRITE_lengths)

definition mem_text :: "mem \<Rightarrow> u8 list" where
  "mem_text m = take (mn m) (mz m)"

lemma MemTranslate_text_post:
  assumes "mn m \<le> length (mz m)" and "text_encoding (enc m)" and "text_encoding d" and "d \<noteq> enc m"
    and "list_all valid_cp cs" and "mem_text m = encode_text (enc m) cs"
  shows "\<exists>m'. sqlite3VdbeMemTranslate True m d = Some (SQLITE_OK, m') \<and>
    enc m' = d \<and> mem_text m' = encode_text d cs \<and> mn m' \<le> length (mz m')"
proof -
  have n: "length (mem_text m) = mn m" using assms(1) by (simp add: mem_text_def)
  have ev: "mn m mod 2 = 0" if "enc m \<noteq> SQLITE_UTF8"
    using even_encode_text [OF that, of cs] n assms(6) by (simp add: even_iff_mod_2_eq_zero)
  note t = utf8.loop_text [OF assms(5)] utf16le.loop_text [OF assms(5)] utf16be.loop_text [OF assms(5)]
  note mm = min_absorb2 [OF assms(1)]
  have ne: "SQLITE_UTF16LE \<noteq> SQLITE_UTF8" "SQLITE_UTF16BE \<noteq> SQLITE_UTF8" "SQLITE_UTF16BE \<noteq> SQLITE_UTF16LE"
    by (simp_all add: encodings)
  obtain rc m' where b: "sqlite3VdbeMemTranslate True m d = Some (rc, m')" "rc = SQLITE_OK" "enc m' = d" "mn m' \<le> length (mz m')"
    using MemTranslate_in_bounds_post [OF assms(1-4), of True] by auto
  have "mem_text m' = encode_text d cs"
    using assms(2-4)
  proof (cases rule: encoding_cases)
    case swap
    then show ?thesis
      using b(1) ev swap_encode_text [OF assms(2-4)] assms(6) assms(1) n
        length_swap_bytes [of "encode_text (enc m) cs"]
      by (auto simp: sqlite3VdbeMemTranslate_def sqlite3VdbeMemMakeWriteable_def mem_text_def Let_def split: if_splits)
  next
    case to16le
    then show ?thesis using b(1) assms(6) n t(1) [OF order_refl, of WRITE_UTF16LE] ne mm
      by (auto simp: sqlite3VdbeMemTranslate_def mem_text_def encode_text_def Let_def split: if_splits)
  next
    case to16be
    then show ?thesis using b(1) assms(6) n t(1) [OF order_refl, of WRITE_UTF16BE] ne mm
      by (auto simp: sqlite3VdbeMemTranslate_def mem_text_def encode_text_def Let_def split: if_splits)
  next
    case from16le
    then show ?thesis using b(1) assms(6) n t(2) [OF order_refl, of WRITE_UTF8] ne ev mm
      by (auto simp: sqlite3VdbeMemTranslate_def mem_text_def encode_text_def Let_def split: if_splits)
  next
    case from16be
    then show ?thesis using b(1) assms(6) n t(3) [OF order_refl, of WRITE_UTF8] ne ev mm
      by (auto simp: sqlite3VdbeMemTranslate_def mem_text_def encode_text_def Let_def split: if_splits)
  qed
  then show ?thesis using b by blast
qed

lemma HandleBom_strips:
  assumes "mn m \<le> length (mz m)" and "mem_text m = bom @ t"
    and "bom = [0xFF, 0xFE] \<and> e = SQLITE_UTF16LE \<or> bom = [0xFE, 0xFF] \<and> e = SQLITE_UTF16BE"
  shows "\<exists>m'. sqlite3VdbeMemHandleBom True m = Some (SQLITE_OK, m') \<and> enc m' = e \<and> mem_text m' = t"
proof -
  obtain b1 b2 q where z: "mz m = b1 # b2 # q" "bom = [b1, b2]" and n: "mn m = length t + 2" "take (length t) q = t"
  proof -
    have n: "mn m = length t + 2"
      using arg_cong [OF assms(2), of length] assms(1,3) by (auto simp: mem_text_def)
    then obtain b1 b2 q where "mz m = b1 # b2 # q"
      using assms(1) by (cases "mz m" rule: swap_bytes.cases) auto
    then show thesis using that n assms(2,3) by (auto simp: mem_text_def)
  qed
  have "length t \<le> length q" using assms(1) z n by simp
  then show ?thesis
    using z n assms(3)
    by (elim disjE conjE; simp add: sqlite3VdbeMemHandleBom_def sqlite3VdbeMemMakeWriteable_def mem_text_def encodings Let_def)
qed

lemma selftest_utf8: "i < 0x110000 \<Longrightarrow> selftest_utf8 i"
proof -
  assume i: "i < 0x110000"
  then have l: "i < 0x200000" by (simp add: word_less_nat_alt)
  have "i \<ge> 0xD800 \<and> i \<le> 0xDFFF \<longleftrightarrow> is_surrogate i"
    by (auto simp: is_surrogate_def word_less_nat_alt word_le_nat_alt)
  moreover have "i < 0x80 \<Longrightarrow> \<not> is_surrogate i \<and> i \<noteq> 0xFFFE \<and> i \<noteq> 0xFFFF"
    by (auto simp: is_surrogate_def word_less_nat_alt word_le_nat_alt)
  ultimately show ?thesis
    using WRITE_nonempty(1) [of i] WRITE_lengths(1) [of i] utf8_read_write(2) [OF l no_cont_simps(2) [of "[]"]] utf8_check_eq [of i]
    by (auto simp: selftest_utf8_def Let_def nonchar_mask not_less split: if_splits)
qed

lemma selftest_utf16:
  assumes "i < 0x110000"
  shows "selftest_utf16 WRITE_UTF16LE READ_UTF16LE i" "selftest_utf16 WRITE_UTF16BE READ_UTF16BE i"
  using utf16_read_write [OF assms, of "\<lambda>_. True" "[0]"] WRITE_nonempty [of i] WRITE_lengths [of i]
  by (auto simp: selftest_utf16_def Let_def is_surrogate_def)

section \<open>Counting characters\<close>

lemma skip_cont_utf8_cont0: "skip_cont z = map_option snd (utf8_cont0 z c)"
  by (induction z c rule: utf8_cont0.induct) auto

lemma skip_write:
  assumes "c < 0x200000" "no_cont z" "z \<noteq> []"
  shows "SQLITE_SKIP_UTF8 (WRITE_UTF8 c @ z) = Some z"
proof (cases "c < 0x80")
  case True
  then show ?thesis using small_no_lead by simp
next
  case False
  obtain b y c0 where "WRITE_UTF8 c = b # y" "b \<ge> 0xc0" "utf8_cont0 (y @ z) c0 = Some (c, z)"
    using read_write_lead [of c z] assms False by (metis not_le)
  then show ?thesis using skip_cont_utf8_cont0 [of "y @ z" c0] by simp
qed

lemma WRITE_UTF8_hd: "c \<noteq> 0 \<Longrightarrow> c < 0x200000 \<Longrightarrow> \<exists>b y. WRITE_UTF8 c = b # y \<and> b \<noteq> 0"
proof (cases "c < 0x80")
  case True
  assume "c \<noteq> 0"
  then show ?thesis using small_no_lead [OF True] by (metis unsigned_0)
next
  case False
  assume "c < 0x200000"
  then obtain b y where "WRITE_UTF8 c = b # y" "b \<ge> 0xc0"
    using read_write_lead [of c "[]"] False by (metis no_cont_simps(1) not_le)
  then show ?thesis by auto
qed

lemma charlen_text:
  assumes "\<And>c. c \<in> set cs \<Longrightarrow> c \<noteq> 0 \<and> c < 0x200000"
  shows "length cs < k \<Longrightarrow> charlen_loop k n None (encode_text SQLITE_UTF8 cs @ 0 # q) r = Some (r + length cs)"
  using assms
proof (induction cs arbitrary: k r)
  case Nil
  then show ?case by (cases k) (simp_all add: encode_text_def)
next
  case (Cons c cs)
  obtain k' where k: "k = Suc k'" "length cs < k'" using Cons.prems(1) by (cases k) auto
  obtain b y where b: "WRITE_UTF8 c = b # y" "b \<noteq> 0" using WRITE_UTF8_hd Cons.prems(2) by fastforce
  let ?z = "encode_text SQLITE_UTF8 cs @ 0 # q"
  have nc: "no_cont ?z"
  proof (cases cs)
    case (Cons d ds)
    then show ?thesis using Cons.prems(2) [of d] by (simp add: encode_text_def)
  qed (simp add: encode_text_def)
  have "SQLITE_SKIP_UTF8 (WRITE_UTF8 c @ ?z) = Some ?z"
    using skip_write [OF _ nc] Cons.prems(2) [of c] by simp
  then show ?case
    using Cons.IH [OF k(2)] Cons.prems(2) b k(1) by (simp add: encode_text_def)
qed

lemma length_concat_ge: "(\<And>c. w c \<noteq> []) \<Longrightarrow> length cs \<le> length (concat (map w cs))"
proof (induction cs)
  case (Cons c cs)
  then obtain b y where "w c = b # y" by (meson neq_Nil_conv)
  then show ?case using Cons.IH [OF Cons.prems] by simp
qed simp

lemma length_encode_text: "length cs \<le> length (encode_text e cs)"
  unfolding encode_text_def by (rule length_concat_ge) (simp add: WRITE_nonempty)

lemma Utf8CharLen_post:
  assumes "\<And>c. c \<in> set cs \<Longrightarrow> c \<noteq> 0 \<and> c < 0x200000"
  shows "sqlite3Utf8CharLen (encode_text SQLITE_UTF8 cs @ 0 # q) None = Some (length cs)"
  using charlen_text [OF assms, of cs "length (encode_text SQLITE_UTF8 cs @ 0 # q) + 1" _ q 0]
    length_encode_text [of cs SQLITE_UTF8]
  by (simp add: sqlite3Utf8CharLen_def)

lemma utf16_skip_text:
  assumes "e \<noteq> SQLITE_UTF8" "text_encoding e" "list_all (\<lambda>c. c < 0x110000 \<and> \<not> is_surrogate c) cs"
  shows "n \<le> length cs \<Longrightarrow>
    utf16_skip ((if e = SQLITE_UTF16BE then READ_UTF16BE else READ_UTF16LE) (\<lambda>_. True)) n (encode_text e cs @ q)
      = Some (encode_text e (drop n cs) @ q)"
  using assms(3)
proof (induction cs arbitrary: n)
  case (Cons c cs)
  show ?case
  proof (cases n)
    case (Suc n')
    note rw = utf16_read_write [of c "\<lambda>_. True" "encode_text e cs @ q"]
    show ?thesis
      using Suc Cons.IH [of n'] Cons.prems rw assms(1,2)
      by (auto simp: encode_text_def text_encoding_def encodings)
  qed simp
qed (simp add: encode_text_def)

lemma Utf16ByteLen_post:
  assumes "e \<noteq> SQLITE_UTF8" "text_encoding e" "list_all (\<lambda>c. c < 0x110000 \<and> \<not> is_surrogate c) cs" "n \<le> length cs"
  shows "sqlite3Utf16ByteLen (e = SQLITE_UTF16BE) (encode_text e cs @ q) n = Some (length (encode_text e (take n cs)))"
proof -
  have "encode_text e cs = encode_text e (take n cs) @ encode_text e (drop n cs)"
    by (simp add: encode_text_def flip: concat_append map_append)
  then show ?thesis
    using utf16_skip_text [OF assms, of q] by (simp add: sqlite3Utf16ByteLen_def)
qed

text \<open>
  C27: Translating a string value between any two of the three encodings gives the text of the
  same code points, whatever they are (surrogates and the two non-characters excepted).
\<close>

theorem MemTranslate_text:
  assumes "mn m \<le> length (mz m)" and "text_encoding (enc m)" and "text_encoding d" and "d \<noteq> enc m"
    and "list_all valid_cp cs" and "mem_text m = encode_text (enc m) cs"
  shows "\<exists>m'. sqlite3VdbeMemTranslate True m d = Some (SQLITE_OK, m') \<and>
    enc m' = d \<and> mem_text m' = encode_text d cs \<and> mn m' \<le> length (mz m')"
  by (rule MemTranslate_text_post [OF assms])

theorem MemTranslate_text_witness:
  defines "m \<equiv> \<lparr>enc = SQLITE_UTF8, flags = 0, mn = 7, mz = [0xF0, 0x9F, 0x98, 0x80, 0xE2, 0x82, 0xAC, 0], own = False\<rparr>"
  shows "\<exists>m'. sqlite3VdbeMemTranslate True m SQLITE_UTF16LE = Some (SQLITE_OK, m') \<and>
    enc m' = SQLITE_UTF16LE \<and> mem_text m' = [0x3D, 0xD8, 0x00, 0xDE, 0xAC, 0x20] \<and> mn m' \<le> length (mz m')"
proof -
  have a: "list_all valid_cp [0x1F600, 0x20AC]" by code_simp
  have b: "mem_text m = encode_text SQLITE_UTF8 [0x1F600, 0x20AC]" unfolding m_def by code_simp
  have c: "encode_text SQLITE_UTF16LE [0x1F600, 0x20AC] = [0x3D, 0xD8, 0x00, 0xDE, 0xAC, 0x20]" by code_simp
  show ?thesis
    using MemTranslate_text [of m SQLITE_UTF16LE, OF _ _ _ _ a] b unfolding c
    by (auto simp: m_def text_encoding_def encodings)
qed

text \<open>
  C28: The translation stays inside the buffer it allocates for every input, well-formed or not, and
  the only failure is that of the allocation.
\<close>

theorem MemTranslate_in_bounds:
  assumes "mn m \<le> length (mz m)" and "text_encoding (enc m)" and "text_encoding d" and "d \<noteq> enc m"
  shows "\<exists>rc m'. sqlite3VdbeMemTranslate ok m d = Some (rc, m') \<and>
    (rc = SQLITE_OK \<or> \<not> ok \<and> rc = SQLITE_NOMEM) \<and>
    (rc = SQLITE_OK \<longrightarrow> enc m' = d \<and> mn m' \<le> 2 * mn m \<and> mn m' \<le> length (mz m'))"
  by (rule MemTranslate_in_bounds_post [OF assms])

theorem MemTranslate_in_bounds_witness:
  defines "m \<equiv> \<lparr>enc = SQLITE_UTF8, flags = 0, mn = 5, mz = [0xFF, 0xBF, 0xBF, 0xC0, 0xF8], own = False\<rparr>"
  shows "\<exists>rc m'. sqlite3VdbeMemTranslate True m SQLITE_UTF16LE = Some (rc, m') \<and> rc = SQLITE_OK \<and> mn m' \<le> 10"
  using MemTranslate_in_bounds [of m SQLITE_UTF16LE True]
  by (auto simp: m_def text_encoding_def encodings)

text \<open>
  C29: Every assertion of the self test of the character macros holds, for all code points.
\<close>

theorem UtfSelfTest_passes: "sqlite3UtfSelfTest"
proof -
  have "(of_nat i :: u32) < 0x110000" if "i < 0x110000" for i
    using that by (simp add: word_less_nat_alt unat_of_nat)
  then show ?thesis
    by (auto simp: sqlite3UtfSelfTest_def list_all_iff selftest_utf8 selftest_utf16)
qed

text \<open>
  The counting routines: the length in characters of a terminated UTF-8 text is the number of its
  code points, and the length in bytes of the first \<open>n\<close> characters of a UTF-16 text is that of the text of the
  first \<open>n\<close> code points.
\<close>

theorem character_counts:
  assumes "list_all (\<lambda>c. c < 0x110000 \<and> \<not> is_surrogate c) cs" and "n \<le> length cs"
  shows "(0 \<notin> set cs \<longrightarrow> sqlite3Utf8CharLen (encode_text SQLITE_UTF8 cs @ 0 # q) None = Some (length cs)) \<and>
    sqlite3Utf16ByteLen False (encode_text SQLITE_UTF16LE cs @ q) n = Some (length (encode_text SQLITE_UTF16LE (take n cs))) \<and>
    sqlite3Utf16ByteLen True (encode_text SQLITE_UTF16BE cs @ q) n = Some (length (encode_text SQLITE_UTF16BE (take n cs)))"
proof -
  have "sqlite3Utf8CharLen (encode_text SQLITE_UTF8 cs @ 0 # q) None = Some (length cs)" if "0 \<notin> set cs"
    using that assms(1) by (intro Utf8CharLen_post) (auto simp: list_all_iff word_less_nat_alt)
  then show ?thesis
    using Utf16ByteLen_post [of SQLITE_UTF16LE cs n q] Utf16ByteLen_post [of SQLITE_UTF16BE cs n q] assms
    by (auto simp: text_encoding_def encodings)
qed

theorem character_counts_witness:
  "sqlite3Utf8CharLen (encode_text SQLITE_UTF8 [0x41, 0x1F600] @ [0]) None = Some 2 \<and>
   sqlite3Utf16ByteLen False (encode_text SQLITE_UTF16LE [0x41, 0x1F600]) 2 = Some 6"
proof -
  have a: "list_all (\<lambda>c. c < 0x110000 \<and> \<not> is_surrogate c) [0x41, 0x1F600]" by code_simp
  have b: "length (encode_text SQLITE_UTF16LE (take 2 [0x41, 0x1F600])) = 6" by code_simp
  show ?thesis
    using character_counts [OF a, of 2 "[]"] b by simp
qed

end
