(* ===== verification/Serial.thy ===== *)
theory Serial
  imports Varint Utf
begin

text \<open>
  The serial types of the record format, \<^verbatim>\<open>src/vdbeaux.c\<close>: how a value of a memory cell is written
  into a record and read back. A cell is the C struct \<^verbatim>\<open>Mem\<close> with the fields these routines use;
  the members \<^verbatim>\<open>i\<close> and \<^verbatim>\<open>nZero\<close> of its union are two fields here, since no cell uses both. A
  \<^verbatim>\<open>double\<close> is its IEEE bit pattern, as it is in a record.
\<close>

section \<open>Memory cells\<close>

record cell = mem +
  ival :: u64
  nZero :: nat
  rval :: u64

definition MEM_Str :: u16 where "MEM_Str = 0x0002"
definition MEM_Int :: u16 where "MEM_Int = 0x0004"
definition MEM_Real :: u16 where "MEM_Real = 0x0008"
definition MEM_Blob :: u16 where "MEM_Blob = 0x0010"
definition MEM_Zero :: u16 where "MEM_Zero = 0x4000"

definition has :: "cell \<Rightarrow> u16 \<Rightarrow> bool" where
  "has m f \<longleftrightarrow> flags m AND f \<noteq> 0"

definition sqlite3IsNaN :: "u64 \<Rightarrow> bool" where
  "sqlite3IsNaN x \<longleftrightarrow> drop_bit 52 x AND 0x7FF = 0x7FF \<and> x AND 0xFFFFFFFFFFFFF \<noteq> 0"

section \<open>Serial types\<close>

definition MAX_6BYTE :: int where
  "MAX_6BYTE = 0x00008000 * 2 ^ 32 - 1"

definition sqlite3VdbeSerialType :: "cell \<Rightarrow> nat \<Rightarrow> u32" where
  "sqlite3VdbeSerialType m file_format =
     (if has m MEM_Null then 0
      else if has m MEM_Int then
        (let i = sint (ival m)
         in if i < - MAX_6BYTE then 6
            else let u = (if i < 0 then - i else i)
                 in if u \<le> 127 then (if (i = 0 \<or> i = 1) \<and> file_format \<ge> 4 then 8 + of_int u else 1)
                    else if u \<le> 32767 then 2
                    else if u \<le> 8388607 then 3
                    else if u \<le> 2147483647 then 4
                    else if u \<le> MAX_6BYTE then 5
                    else 6)
      else if has m MEM_Real then 7
      else let n = mn m + (if has m MEM_Zero then nZero m else 0)
           in of_nat (n * 2 + 12 + (if has m MEM_Str then 1 else 0)))"

definition sqlite3VdbeSerialTypeLen :: "u32 \<Rightarrow> u32" where
  "sqlite3VdbeSerialTypeLen t =
     (if t \<ge> 12 then (t - 12) div 2 else [0, 1, 2, 3, 4, 6, 8, 8, 0, 0, 0, 0] ! unat t)"

text \<open>The loop \<^verbatim>\<open>while( i-- )\<close>, which fills the buffer from the back.\<close>

fun put_be :: "nat \<Rightarrow> u64 \<Rightarrow> u8 list \<Rightarrow> u8 list" where
  "put_be 0 v acc = acc"
| "put_be (Suc i) v acc = put_be i (drop_bit 8 v) (ucast (v AND 0xFF) # acc)"

text \<open>The bytes written; \<open>None\<close> if they do not fit, or if \<open>z\<close> is shorter than \<open>n\<close>.\<close>

definition sqlite3VdbeSerialPut :: "nat \<Rightarrow> cell \<Rightarrow> nat \<Rightarrow> u8 list option" where
  "sqlite3VdbeSerialPut nBuf m file_format =
     (let t = sqlite3VdbeSerialType m file_format
      in if t \<le> 7 \<and> t > 0
         then let v = (if t = 7 then rval m else ival m);
                  len = unat (sqlite3VdbeSerialTypeLen t)
              in if len \<le> nBuf then Some (put_be len v []) else None
         else if t \<ge> 12
         then if mn m \<le> nBuf \<and> mn m \<le> length (mz m)
              then if has m MEM_Zero
                   then let len = min (mn m + nZero m) nBuf
                        in Some (take (mn m) (mz m) @ replicate (len - mn m) 0)
                   else Some (take (mn m) (mz m))
              else None
         else Some [])"

definition sqlite3VdbeSerialGet :: "u8 list \<Rightarrow> u32 \<Rightarrow> cell \<Rightarrow> (nat \<times> cell) option" where
  "sqlite3VdbeSerialGet buf t m =
     (if t = 10 \<or> t = 11 \<or> t = 0 then Some (0, m\<lparr>flags := MEM_Null\<rparr>)
      else if t = 1 then do {
        b0 \<leftarrow> rd buf 0;
        Some (1, m\<lparr>ival := scast b0, flags := MEM_Int\<rparr>) }
      else if t = 2 then do {
        b0 \<leftarrow> rd buf 0; b1 \<leftarrow> rd buf 1;
        Some (2, m\<lparr>ival := scast (push_bit 8 (scast b0) OR ucast b1 :: u32), flags := MEM_Int\<rparr>) }
      else if t = 3 then do {
        b0 \<leftarrow> rd buf 0; b1 \<leftarrow> rd buf 1; b2 \<leftarrow> rd buf 2;
        Some (3, m\<lparr>ival := scast (push_bit 16 (scast b0) OR push_bit 8 (ucast b1) OR ucast b2 :: u32),
                   flags := MEM_Int\<rparr>) }
      else if t = 4 then do {
        b0 \<leftarrow> rd buf 0; b1 \<leftarrow> rd buf 1; b2 \<leftarrow> rd buf 2; b3 \<leftarrow> rd buf 3;
        Some (4, m\<lparr>ival := scast (push_bit 24 (ucast b0) OR push_bit 16 (ucast b1) OR push_bit 8 (ucast b2)
                                  OR ucast b3 :: u32),
                   flags := MEM_Int\<rparr>) }
      else if t = 5 then do {
        b0 \<leftarrow> rd buf 0; b1 \<leftarrow> rd buf 1; b2 \<leftarrow> rd buf 2; b3 \<leftarrow> rd buf 3; b4 \<leftarrow> rd buf 4; b5 \<leftarrow> rd buf 5;
        let x = (scast (push_bit 8 (scast b0) OR ucast b1 :: u32) :: u64);
        let y = (push_bit 24 (ucast b2) OR push_bit 16 (ucast b3) OR push_bit 8 (ucast b4) OR ucast b5 :: u32);
        Some (6, m\<lparr>ival := push_bit 32 x OR ucast y, flags := MEM_Int\<rparr>) }
      else if t = 6 \<or> t = 7 then do {
        b0 \<leftarrow> rd buf 0; b1 \<leftarrow> rd buf 1; b2 \<leftarrow> rd buf 2; b3 \<leftarrow> rd buf 3;
        b4 \<leftarrow> rd buf 4; b5 \<leftarrow> rd buf 5; b6 \<leftarrow> rd buf 6; b7 \<leftarrow> rd buf 7;
        let x = (scast (push_bit 24 (ucast b0) OR push_bit 16 (ucast b1) OR push_bit 8 (ucast b2) OR ucast b3 :: u32) :: u64);
        let y = (push_bit 24 (ucast b4) OR push_bit 16 (ucast b5) OR push_bit 8 (ucast b6) OR ucast b7 :: u32);
        let x = push_bit 32 x OR ucast y;
        (if t = 6 then Some (8, m\<lparr>ival := x, flags := MEM_Int\<rparr>)
         else Some (8, m\<lparr>rval := x, flags := (if sqlite3IsNaN x then MEM_Null else MEM_Real)\<rparr>)) }
      else if t = 8 \<or> t = 9 then Some (0, m\<lparr>ival := ucast (t - 8), flags := MEM_Int\<rparr>)
      else
        let len = unat ((t - 12) div 2)
        in Some (len, m\<lparr>mz := buf, mn := len, own := False,
                       flags := (if t AND 1 \<noteq> 0 then MEM_Str OR MEM_Ephem else MEM_Blob OR MEM_Ephem)\<rparr>))"

section \<open>What a cell stands for\<close>

datatype sqlval = VNull | VInt int | VReal u64 | VText "u8 list" | VBlob "u8 list"

text \<open>A not-a-number is stored as NULL.\<close>

definition cell_bytes :: "cell \<Rightarrow> u8 list" where
  "cell_bytes m = take (mn m) (mz m) @ (if has m MEM_Zero then replicate (nZero m) 0 else [])"

definition cell_value :: "cell \<Rightarrow> sqlval" where
  "cell_value m =
     (if has m MEM_Null then VNull
      else if has m MEM_Int then VInt (sint (ival m))
      else if has m MEM_Real then (if sqlite3IsNaN (rval m) then VNull else VReal (rval m))
      else if has m MEM_Str then VText (cell_bytes m) else VBlob (cell_bytes m))"

definition cell_ok :: "cell \<Rightarrow> bool" where
  "cell_ok m \<longleftrightarrow> mn m \<le> length (mz m) \<and> mn m + (if has m MEM_Zero then nZero m else 0) \<le> 1000000000"

section \<open>Round trip\<close>

lemma flag_values: "MEM_Null = 1" "MEM_Int = 4" "MEM_Str OR MEM_Ephem = 0x1002" "MEM_Blob OR MEM_Ephem = 0x1010" "MEM_Real = 8"
  "MEM_Str = 2" "MEM_Blob = 16" "MEM_Zero = 0x4000"
  by (simp_all add: MEM_Null_def MEM_Int_def MEM_Str_def MEM_Ephem_def MEM_Blob_def MEM_Real_def MEM_Zero_def)

lemma sext_bits:
  assumes "- (2 ^ k) \<le> sint v" "sint v < 2 ^ k" "k < n" "n < 64"
  shows "bit (v :: u64) n = bit v k"
proof -
  have "signed_take_bit k (sint v) = sint v"
    using assms(1,2) by (simp add: signed_take_bit_int_eq_self_iff)
  then have "bit (sint v) n = bit (sint v) (min n k)"
    by (metis bit_signed_take_bit_iff possible_bit_int min.commute)
  then show ?thesis using assms(3,4) by (simp add: bit_sint_iff min_def)
qed

definition serial_data :: "cell \<Rightarrow> nat \<Rightarrow> u8 list" where
  "serial_data m ff =
     (let t = sqlite3VdbeSerialType m ff
      in if t = 0 \<or> t = 8 \<or> t = 9 then []
         else if t < 12 then put_be (unat (sqlite3VdbeSerialTypeLen t)) (if t = 7 then rval m else ival m) []
         else cell_bytes m)"

lemma serialTypeLen_simps [simp]:
  "sqlite3VdbeSerialTypeLen 0 = 0" "sqlite3VdbeSerialTypeLen 1 = 1" "sqlite3VdbeSerialTypeLen 2 = 2"
  "sqlite3VdbeSerialTypeLen 3 = 3" "sqlite3VdbeSerialTypeLen 4 = 4" "sqlite3VdbeSerialTypeLen 5 = 6"
  "sqlite3VdbeSerialTypeLen 6 = 8" "sqlite3VdbeSerialTypeLen 7 = 8" "sqlite3VdbeSerialTypeLen 8 = 0"
  "sqlite3VdbeSerialTypeLen 9 = 0"
  by (simp_all add: sqlite3VdbeSerialTypeLen_def word_le_nat_alt)

lemma bytes_type:
  assumes "cell_ok m" "\<not> has m MEM_Null" "\<not> has m MEM_Int" "\<not> has m MEM_Real"
  shows "sqlite3VdbeSerialType m ff = of_nat (length (cell_bytes m) * 2 + 12 + (if has m MEM_Str then 1 else 0))"
    and "unat (sqlite3VdbeSerialType m ff) = length (cell_bytes m) * 2 + 12 + (if has m MEM_Str then 1 else 0)"
    and "length (cell_bytes m) \<le> 1000000000"
proof -
  have n: "length (cell_bytes m) = mn m + (if has m MEM_Zero then nZero m else 0)"
    using assms(1) by (simp add: cell_ok_def cell_bytes_def)
  then show le: "length (cell_bytes m) \<le> 1000000000"
    using assms(1) by (auto simp: cell_ok_def)
  show t: "sqlite3VdbeSerialType m ff = of_nat (length (cell_bytes m) * 2 + 12 + (if has m MEM_Str then 1 else 0))"
    using assms(2-) by (simp add: sqlite3VdbeSerialType_def n Let_def)
  show "unat (sqlite3VdbeSerialType m ff) = length (cell_bytes m) * 2 + 12 + (if has m MEM_Str then 1 else 0)"
    unfolding t using le by (subst unat_of_nat) simp
qed

lemma bytes_type_big:
  assumes "unat (t :: u32) = n * 2 + 12 + (if s then 1 else 0)"
  shows "t \<ge> 12" "\<not> t < 12" "t \<notin> {0,1,2,3,4,5,6,7,8,9,10,11}" "unat ((t - 12) div 2) = n" "t AND 1 \<noteq> 0 \<longleftrightarrow> s" "sqlite3VdbeSerialTypeLen t = (t - 12) div 2"
proof -
  show ge: "t \<ge> 12" using assms by (simp add: word_le_nat_alt)
  then show "\<not> t < 12" by simp
  show "t \<notin> {0,1,2,3,4,5,6,7,8,9,10,11}" using assms by (auto split: if_splits)
  have "unat (t - 12) = n * 2 + (if s then 1 else 0)" using assms ge by (simp add: unat_sub)
  then show "unat ((t - 12) div 2) = n" by (simp add: unat_div)
  have "t AND 1 \<noteq> 0 \<longleftrightarrow> odd (unat t)"
    by (simp add: and_one_eq odd_iff_mod_2_eq_one word_unat_eq_iff unat_mod)
  then show "t AND 1 \<noteq> 0 \<longleftrightarrow> s" using assms by simp
  show "sqlite3VdbeSerialTypeLen t = (t - 12) div 2" using ge by (simp add: sqlite3VdbeSerialTypeLen_def)
qed

lemma put_be_length [simp]: "length (put_be n v acc) = n + length acc"
  by (induction n v acc rule: put_be.induct) auto

lemma put_be_numeral: "put_be (numeral k) v acc = put_be (pred_numeral k) (drop_bit 8 v) (ucast (v AND 0xFF) # acc)"
  by (simp only: numeral_eq_Suc put_be.simps)

lemma get_int:
  assumes "- (2 ^ k) \<le> sint v" "sint v < 2 ^ k"
    and "(t, k) \<in> {(1, 7), (2, 15), (3, 23), (4, 31), (5, 47), (6, 63)}"
  shows "sqlite3VdbeSerialGet (put_be (unat (sqlite3VdbeSerialTypeLen t)) v [] @ q) t m0 =
    Some (unat (sqlite3VdbeSerialTypeLen t), m0\<lparr>ival := v, flags := MEM_Int\<rparr>)"
proof -
  note s = sext_bits [OF assms(1,2)]
  consider "t = 1" "k = 7" | "t = 2" "k = 15" | "t = 3" "k = 23" | "t = 4" "k = 31" | "t = 5" "k = 47" | "t = 6" "k = 63"
    using assms(3) by auto
  then show ?thesis
    by cases (use s in \<open>simp add: sqlite3VdbeSerialGet_def put_be_numeral Let_def, simp add: u64_bitwise\<close>)+
qed

lemma get_real:
  "sqlite3VdbeSerialGet (put_be 8 v [] @ q) 7 m0 =
    Some (8, m0\<lparr>rval := v, flags := (if sqlite3IsNaN v then MEM_Null else MEM_Real)\<rparr>)"
proof -
  have x: "push_bit 32 (scast (push_bit 24 (ucast (ucast (drop_bit 56 v AND 0xFF) :: u8)) OR
      push_bit 16 (ucast (ucast (drop_bit 48 v AND 0xFF) :: u8)) OR
      push_bit 8 (ucast (ucast (drop_bit 40 v AND 0xFF) :: u8)) OR ucast (ucast (drop_bit 32 v AND 0xFF) :: u8) :: u32)) OR
    ucast (push_bit 24 (ucast (ucast (drop_bit 24 v AND 0xFF) :: u8)) OR
      push_bit 16 (ucast (ucast (drop_bit 16 v AND 0xFF) :: u8)) OR
      push_bit 8 (ucast (ucast (drop_bit 8 v AND 0xFF) :: u8)) OR ucast (ucast (v AND 0xFF) :: u8) :: u32) = v"
    by (simp add: u64_bitwise)
  show ?thesis by (simp add: sqlite3VdbeSerialGet_def put_be_numeral Let_def x)
qed

lemma int_type:
  assumes "\<not> has m MEM_Null" "has m MEM_Int"
  obtains k t where "sqlite3VdbeSerialType m ff = t" "- (2 ^ k) \<le> sint (ival m)" "sint (ival m) < 2 ^ k"
    "(t, k) \<in> {(1, 7), (2, 15), (3, 23), (4, 31), (5, 47), (6, 63)}"
  | "sqlite3VdbeSerialType m ff = 8" "ival m = 0" | "sqlite3VdbeSerialType m ff = 9" "ival m = 1"
proof -
  let ?i = "sint (ival m)"
  have r: "- (2 ^ 63) \<le> ?i" "?i < 2 ^ 63"
    using sint_ge [of "ival m"] sint_lt [of "ival m"] by simp_all
  have c: "ival m = of_int ?i" by simp
  have "sqlite3VdbeSerialType m ff = 8 \<and> ?i = 0 \<or> sqlite3VdbeSerialType m ff = 9 \<and> ?i = 1 \<or>
    sqlite3VdbeSerialType m ff = 1 \<and> - 128 \<le> ?i \<and> ?i < 128 \<or> sqlite3VdbeSerialType m ff = 2 \<and> - 32768 \<le> ?i \<and> ?i < 32768 \<or>
    sqlite3VdbeSerialType m ff = 3 \<and> - 8388608 \<le> ?i \<and> ?i < 8388608 \<or>
    sqlite3VdbeSerialType m ff = 4 \<and> - 2147483648 \<le> ?i \<and> ?i < 2147483648 \<or>
    sqlite3VdbeSerialType m ff = 5 \<and> - 140737488355328 \<le> ?i \<and> ?i < 140737488355328 \<or> sqlite3VdbeSerialType m ff = 6"
  proof (cases "(?i = 0 \<or> ?i = 1) \<and> ff \<ge> 4")
    case True
    obtain i where i: "?i = i" by blast
    show ?thesis using assms True unfolding sqlite3VdbeSerialType_def MAX_6BYTE_def Let_def i by auto
  next
    case False
    then show ?thesis using assms unfolding sqlite3VdbeSerialType_def MAX_6BYTE_def Let_def
      by (simp only: if_False simp_thms if_True False) (auto split: if_splits)
  qed
  then show thesis
    using that(1) [of _ 7] that(1) [of _ 15] that(1) [of _ 23] that(1) [of _ 31] that(1) [of _ 47] that(1) [of _ 63] that(2,3) r c
    by (elim disjE conjE) simp_all
qed

lemma serial_data_int:
  assumes "\<not> has m MEM_Null" "has m MEM_Int"
  shows "sqlite3VdbeSerialGet (serial_data m ff @ q) (sqlite3VdbeSerialType m ff) m0 =
      Some (length (serial_data m ff), m0\<lparr>ival := ival m, flags := MEM_Int\<rparr>)"
    and "length (serial_data m ff) = unat (sqlite3VdbeSerialTypeLen (sqlite3VdbeSerialType m ff))"
    and "sqlite3VdbeSerialPut n m ff = (if length (serial_data m ff) \<le> n then Some (serial_data m ff) else None)"
proof -
  consider (a) k t where "sqlite3VdbeSerialType m ff = t" "- (2 ^ k) \<le> sint (ival m)" "sint (ival m) < 2 ^ k"
    "(t, k) \<in> {(1, 7), (2, 15), (3, 23), (4, 31), (5, 47), (6, 63)}"
  | (b) "sqlite3VdbeSerialType m ff = 8" "ival m = 0" | (c) "sqlite3VdbeSerialType m ff = 9" "ival m = 1"
    using int_type [OF assms] by metis
  note cs = this
  show "sqlite3VdbeSerialGet (serial_data m ff @ q) (sqlite3VdbeSerialType m ff) m0 =
      Some (length (serial_data m ff), m0\<lparr>ival := ival m, flags := MEM_Int\<rparr>)"
    using cs
  proof cases
    case a
    then have "t \<noteq> 0" "t \<noteq> 8" "t \<noteq> 9" "t < 12" "t \<noteq> 7" by (auto simp: word_less_nat_alt)
    then show ?thesis using get_int [OF a(2-4)] a(1) by (simp add: serial_data_def)
  qed (simp_all add: serial_data_def sqlite3VdbeSerialGet_def)
  show "length (serial_data m ff) = unat (sqlite3VdbeSerialTypeLen (sqlite3VdbeSerialType m ff))"
    using cs by cases (auto simp: serial_data_def word_less_nat_alt)
  show "sqlite3VdbeSerialPut n m ff = (if length (serial_data m ff) \<le> n then Some (serial_data m ff) else None)"
    using cs by cases (auto simp: serial_data_def sqlite3VdbeSerialPut_def word_less_nat_alt word_le_nat_alt Let_def)
qed

lemma serial_data_real:
  assumes "\<not> has m MEM_Null" "\<not> has m MEM_Int" "has m MEM_Real"
  shows "sqlite3VdbeSerialGet (serial_data m ff @ q) (sqlite3VdbeSerialType m ff) m0 =
      Some (length (serial_data m ff), m0\<lparr>rval := rval m, flags := (if sqlite3IsNaN (rval m) then MEM_Null else MEM_Real)\<rparr>)"
    and "length (serial_data m ff) = unat (sqlite3VdbeSerialTypeLen (sqlite3VdbeSerialType m ff))"
    and "sqlite3VdbeSerialPut n m ff = (if length (serial_data m ff) \<le> n then Some (serial_data m ff) else None)"
proof -
  have t: "sqlite3VdbeSerialType m ff = 7" using assms by (simp add: sqlite3VdbeSerialType_def)
  then have d: "serial_data m ff = put_be 8 (rval m) []" by (simp add: serial_data_def word_less_nat_alt)
  show "sqlite3VdbeSerialGet (serial_data m ff @ q) (sqlite3VdbeSerialType m ff) m0 =
      Some (length (serial_data m ff), m0\<lparr>rval := rval m, flags := (if sqlite3IsNaN (rval m) then MEM_Null else MEM_Real)\<rparr>)"
    by (simp add: d t get_real)
  show "length (serial_data m ff) = unat (sqlite3VdbeSerialTypeLen (sqlite3VdbeSerialType m ff))"
    by (simp add: d t)
  show "sqlite3VdbeSerialPut n m ff = (if length (serial_data m ff) \<le> n then Some (serial_data m ff) else None)"
    by (simp add: d sqlite3VdbeSerialPut_def t word_less_nat_alt word_le_nat_alt Let_def)
qed

lemma serial_data_bytes:
  assumes "cell_ok m" "\<not> has m MEM_Null" "\<not> has m MEM_Int" "\<not> has m MEM_Real"
  shows "sqlite3VdbeSerialGet (serial_data m ff @ q) (sqlite3VdbeSerialType m ff) m0 =
      Some (length (serial_data m ff), m0\<lparr>mz := cell_bytes m @ q, mn := length (cell_bytes m), own := False,
        flags := (if has m MEM_Str then MEM_Str OR MEM_Ephem else MEM_Blob OR MEM_Ephem)\<rparr>)"
    and "length (serial_data m ff) = unat (sqlite3VdbeSerialTypeLen (sqlite3VdbeSerialType m ff))"
    and "serial_data m ff = cell_bytes m"
    and "length (serial_data m ff) \<le> n \<Longrightarrow> sqlite3VdbeSerialPut n m ff = Some (serial_data m ff)"
    and "has m MEM_Zero \<Longrightarrow> mn m \<le> n \<Longrightarrow> sqlite3VdbeSerialPut n m ff = Some (take n (serial_data m ff))"
proof -
  let ?t = "sqlite3VdbeSerialType m ff"
  note b = bytes_type_big [OF bytes_type(2) [OF assms, of ff]]
  show d: "serial_data m ff = cell_bytes m" using b(2,3) by (auto simp: serial_data_def Let_def)
  show "length (serial_data m ff) = unat (sqlite3VdbeSerialTypeLen ?t)" using b(4,6) d by simp
  show "sqlite3VdbeSerialGet (serial_data m ff @ q) ?t m0 =
      Some (length (serial_data m ff), m0\<lparr>mz := cell_bytes m @ q, mn := length (cell_bytes m), own := False,
        flags := (if has m MEM_Str then MEM_Str OR MEM_Ephem else MEM_Blob OR MEM_Ephem)\<rparr>)"
    using b(3-5) d by (simp add: sqlite3VdbeSerialGet_def Let_def)
  have n7: "\<not> ?t \<le> 7" using b(1) by (simp add: word_le_nat_alt)
  show "sqlite3VdbeSerialPut n m ff = Some (serial_data m ff)" if "length (serial_data m ff) \<le> n"
    using that assms(1) b(1) n7 d by (auto simp: sqlite3VdbeSerialPut_def Let_def cell_bytes_def cell_ok_def)
  show "sqlite3VdbeSerialPut n m ff = Some (take n (serial_data m ff))" if "has m MEM_Zero" "mn m \<le> n"
    using that assms(1) b(1) n7 d by (auto simp: sqlite3VdbeSerialPut_def Let_def cell_bytes_def cell_ok_def min_def)
qed

lemma serial_data_null:
  assumes "has m MEM_Null"
  shows "sqlite3VdbeSerialType m ff = 0" "serial_data m ff = []"
    "sqlite3VdbeSerialGet q 0 m0 = Some (0, m0\<lparr>flags := MEM_Null\<rparr>)" "sqlite3VdbeSerialPut n m ff = Some []"
proof -
  show "sqlite3VdbeSerialType m ff = 0" using assms by (simp add: sqlite3VdbeSerialType_def)
  then show "serial_data m ff = []" "sqlite3VdbeSerialPut n m ff = Some []"
    by (simp_all add: serial_data_def sqlite3VdbeSerialPut_def word_le_nat_alt)
  show "sqlite3VdbeSerialGet q 0 m0 = Some (0, m0\<lparr>flags := MEM_Null\<rparr>)" by (simp add: sqlite3VdbeSerialGet_def)
qed

text \<open>The summary the record format is built on.\<close>

lemma cell_kind:
  obtains (Null) "has m MEM_Null" | (Int) "\<not> has m MEM_Null" "has m MEM_Int"
    | (Real) "\<not> has m MEM_Null" "\<not> has m MEM_Int" "has m MEM_Real"
    | (Bytes) "\<not> has m MEM_Null" "\<not> has m MEM_Int" "\<not> has m MEM_Real"
  by blast

lemma serial_get_data:
  assumes "cell_ok m"
  shows "\<exists>m'. sqlite3VdbeSerialGet (serial_data m ff @ q) (sqlite3VdbeSerialType m ff) m0 = Some (length (serial_data m ff), m') \<and>
    cell_value m' = cell_value m \<and> enc m' = enc m0"
proof -
  have f: "has (m0\<lparr>flags := MEM_Null\<rparr>) MEM_Null" for m0 by (simp add: has_def flag_values)
  show ?thesis
  proof (cases rule: cell_kind [of m])
    case Null
    then show ?thesis using serial_data_null [OF Null] by (simp add: cell_value_def has_def flag_values)
  next
    case Int
    then show ?thesis using serial_data_int(1) [OF Int] by (simp add: cell_value_def has_def flag_values)
  next
    case Real
    then show ?thesis using serial_data_real(1) [OF Real] by (simp add: cell_value_def has_def flag_values)
  next
    case Bytes
    define m' where "m' = m0\<lparr>mz := cell_bytes m @ q, mn := length (cell_bytes m), own := False,
        flags := (if has m MEM_Str then MEM_Str OR MEM_Ephem else MEM_Blob OR MEM_Ephem)\<rparr>"
    have f: "has m' MEM_Null = False" "has m' MEM_Int = False" "has m' MEM_Real = False"
      "has m' MEM_Zero = False" "has m' MEM_Str = has m MEM_Str"
      by (simp_all add: m'_def has_def [of "_\<lparr>flags := _\<rparr>"] has_def [of "_\<lparr>mz := _\<rparr>"] flag_values MEM_Ephem_def)
    have "cell_bytes m' = cell_bytes m" unfolding cell_bytes_def [of m'] f by (simp add: m'_def)
    then have "cell_value m' = cell_value m" using Bytes f by (simp add: cell_value_def)
    then show ?thesis using serial_data_bytes(1) [OF assms Bytes, of ff q m0] by (simp add: m'_def)
  qed
qed

lemma serial_data_length:
  assumes "cell_ok m"
  shows "length (serial_data m ff) = unat (sqlite3VdbeSerialTypeLen (sqlite3VdbeSerialType m ff))"
proof (cases rule: cell_kind [of m])
  case Null
  then show ?thesis by (simp add: serial_data_null)
next
  case Int
  then show ?thesis by (rule serial_data_int(2))
next
  case Real
  then show ?thesis by (rule serial_data_real(2))
next
  case Bytes
  with assms show ?thesis by (rule serial_data_bytes(2))
qed

lemma serial_put_data:
  assumes "cell_ok m" and "length (serial_data m ff) \<le> n"
  shows "sqlite3VdbeSerialPut n m ff = Some (serial_data m ff)"
proof (cases rule: cell_kind [of m])
  case Null
  then show ?thesis by (simp add: serial_data_null)
next
  case Int
  then show ?thesis using serial_data_int(3) assms(2) by simp
next
  case Real
  then show ?thesis using serial_data_real(3) assms(2) by simp
next
  case Bytes
  with assms show ?thesis by (intro serial_data_bytes(4))
qed
end
