(* ===== verification/MemCompare.thy ===== *)
theory MemCompare
  imports Serial
begin

text \<open>
  The order of values, \<open>sqlite3MemCompare\<close> of \<^verbatim>\<open>src/vdbemem.c\<close>: NULL, then numbers, then text
  under a collating sequence, then blobs. Doubles are IEEE bit patterns; their comparison
  and the conversion of an integer to a double are the operations of the language.
\<close>

section \<open>Doubles\<close>

text \<open>The position of a number on the real axis; the two zeros coincide.\<close>

definition real_key :: "u64 \<Rightarrow> int" where
  "real_key x = (if bit x 63 then - uint (take_bit 63 x) else uint (take_bit 63 x))"

definition real_less :: "u64 \<Rightarrow> u64 \<Rightarrow> bool" where
  "real_less a b \<longleftrightarrow> \<not> sqlite3IsNaN a \<and> \<not> sqlite3IsNaN b \<and> real_key a < real_key b"

text \<open>
  The position of the highest bit, and rounding to 53 significant bits, half to even. A carry out of the
  significand moves into the exponent by the addition.
\<close>

fun ilog2 :: "nat \<Rightarrow> nat" where
  "ilog2 n = (if n < 2 then 0 else Suc (ilog2 (n div 2)))"

declare ilog2.simps [simp del]

definition round_shift :: "nat \<Rightarrow> nat \<Rightarrow> nat" where
  "round_shift m s =
     (let q = m div 2 ^ s; r = m mod 2 ^ s
      in if 2 * r > 2 ^ s \<or> 2 * r = 2 ^ s \<and> odd q then q + 1 else q)"

definition nat_to_real :: "nat \<Rightarrow> nat" where
  "nat_to_real m =
     (if m = 0 then 0
      else let e = ilog2 m
           in (e + 1022) * 2 ^ 52 + (if e \<le> 52 then m * 2 ^ (52 - e) else round_shift m (e - 52)))"

definition int_to_real :: "int \<Rightarrow> u64" where
  "int_to_real i =
     (if i < 0 then push_bit 63 1 OR of_nat (nat_to_real (nat (- i))) else of_nat (nat_to_real (nat i)))"

section \<open>Comparison\<close>

text \<open>\<open>memcmp\<close> of the C library; only the sign of its result is specified, and used.\<close>

fun bytes_cmp :: "u8 list \<Rightarrow> u8 list \<Rightarrow> int" where
  "bytes_cmp (a # x) (b # y) = (if a < b then -1 else if a > b then 1 else bytes_cmp x y)"
| "bytes_cmp x y = 0"

definition memcmp :: "u8 list \<Rightarrow> u8 list \<Rightarrow> nat \<Rightarrow> int option" where
  "memcmp a b n = (if n \<le> length a \<and> n \<le> length b then Some (bytes_cmp (take n a) (take n b)) else None)"

record collseq =
  cenc :: nat
  xCmp :: "u8 list \<Rightarrow> u8 list \<Rightarrow> int"

text \<open>
  The text of a cell in the encoding of a collating sequence; \<open>ok\<close> tells for which cells the
  translation gets its memory, and without it the text is empty.
\<close>

definition valueText :: "(cell \<Rightarrow> bool) \<Rightarrow> cell \<Rightarrow> nat \<Rightarrow> u8 list option" where
  "valueText ok c e = do {
     (rc, m) \<leftarrow> sqlite3VdbeMemTranslate (ok c) (mem.truncate c) e;
     Some (if rc = SQLITE_OK then take (mn m) (mz m) else [])
   }"

definition flag :: "cell \<Rightarrow> u16 \<Rightarrow> int" where
  "flag m f = uint (flags m AND f)"

definition sqlite3MemCompare :: "(cell \<Rightarrow> bool) \<Rightarrow> cell \<Rightarrow> cell \<Rightarrow> collseq option \<Rightarrow> int option" where
  "sqlite3MemCompare ok m1 m2 pColl =
     (if has m1 MEM_Null \<or> has m2 MEM_Null then Some (flag m2 MEM_Null - flag m1 MEM_Null)
      else if has m1 (MEM_Int OR MEM_Real) \<or> has m2 (MEM_Int OR MEM_Real) then
        (if \<not> has m1 (MEM_Int OR MEM_Real) then Some 1
         else if \<not> has m2 (MEM_Int OR MEM_Real) then Some (-1)
         else if flags m1 AND flags m2 AND MEM_Int = 0 then
           (let r1 = (if \<not> has m1 MEM_Real then int_to_real (sint (ival m1)) else rval m1);
                r2 = (if \<not> has m2 MEM_Real then int_to_real (sint (ival m2)) else rval m2)
            in Some (if real_less r1 r2 then -1 else if real_less r2 r1 then 1 else 0))
         else Some (if sint (ival m1) < sint (ival m2) then -1 else if sint (ival m1) > sint (ival m2) then 1 else 0))
      else do {
        decided \<leftarrow>
          (if has m1 MEM_Str \<or> has m2 MEM_Str then
             (if \<not> has m1 MEM_Str then Some (Some 1)
              else if \<not> has m2 MEM_Str then Some (Some (-1))
              else case pColl of
                None \<Rightarrow> Some None
              | Some c \<Rightarrow>
                  (if enc m1 = cenc c
                   then Some (Some (xCmp c (take (mn m1) (mz m1)) (take (mn m2) (mz m2))))
                   else do {
                     v1 \<leftarrow> valueText ok m1 (cenc c);
                     v2 \<leftarrow> valueText ok m2 (cenc c);
                     Some (Some (xCmp c v1 v2))
                   }))
           else Some None);
        (case decided of
           Some rc \<Rightarrow> Some rc
         | None \<Rightarrow> do {
             rc \<leftarrow> memcmp (mz m1) (mz m2) (if mn m1 > mn m2 then mn m2 else mn m1);
             Some (if rc = 0 then int (mn m1) - int (mn m2) else rc)
           })
      })"

text \<open>
  The order on values that this computes, for strings in the encoding of the collating sequence.
\<close>

definition ocmp :: "'a :: linorder \<Rightarrow> 'a \<Rightarrow> int" where
  "ocmp a b = (if a < b then -1 else if b < a then 1 else 0)"

fun lex_bytes :: "u8 list \<Rightarrow> u8 list \<Rightarrow> int" where
  "lex_bytes [] [] = 0"
| "lex_bytes [] (b # y) = -1"
| "lex_bytes (a # x) [] = 1"
| "lex_bytes (a # x) (b # y) = (if a < b then -1 else if a > b then 1 else lex_bytes x y)"

fun value_cmp :: "(u8 list \<Rightarrow> u8 list \<Rightarrow> int) option \<Rightarrow> sqlval \<Rightarrow> sqlval \<Rightarrow> int" where
  "value_cmp k VNull VNull = 0"
| "value_cmp k VNull b = -1"
| "value_cmp k a VNull = 1"
| "value_cmp k (VInt i) (VInt j) = ocmp i j"
| "value_cmp k (VInt i) (VReal y) = ocmp (real_key (int_to_real i)) (real_key y)"
| "value_cmp k (VReal x) (VInt j) = ocmp (real_key x) (real_key (int_to_real j))"
| "value_cmp k (VReal x) (VReal y) = ocmp (real_key x) (real_key y)"
| "value_cmp k (VInt i) b = -1"
| "value_cmp k (VReal x) b = -1"
| "value_cmp k a (VInt j) = 1"
| "value_cmp k a (VReal y) = 1"
| "value_cmp k (VText x) (VText y) = (case k of None \<Rightarrow> lex_bytes x y | Some f \<Rightarrow> f x y)"
| "value_cmp k (VText x) (VBlob y) = -1"
| "value_cmp k (VBlob x) (VText y) = 1"
| "value_cmp k (VBlob x) (VBlob y) = lex_bytes x y"

text \<open>A cell holds one kind of value; a string and a blob may both be flagged, a zero tail has been expanded.\<close>

definition cell_single :: "cell \<Rightarrow> bool" where
  "cell_single m \<longleftrightarrow> (\<not> has m MEM_Null \<and> \<not> has m (MEM_Int OR MEM_Real) \<longrightarrow> mn m \<le> length (mz m)) \<and> \<not> has m MEM_Zero \<and>
     (has m MEM_Null \<longrightarrow> \<not> has m (MEM_Int OR MEM_Real OR MEM_Str OR MEM_Blob)) \<and>
     \<not> (has m MEM_Int \<and> has m MEM_Real) \<and> (has m MEM_Real \<longrightarrow> \<not> sqlite3IsNaN (rval m))"

section \<open>Conversion to a double is monotone\<close>

lemma ilog2_bounds: "0 < n \<Longrightarrow> 2 ^ ilog2 n \<le> n \<and> n < 2 ^ Suc (ilog2 n)"
proof (induction n rule: ilog2.induct)
  case (1 n)
  show ?case
  proof (cases "n < 2")
    case True
    then show ?thesis using 1 by (simp add: ilog2.simps)
  next
    case False
    then have "2 ^ ilog2 (n div 2) \<le> n div 2 \<and> n div 2 < 2 ^ Suc (ilog2 (n div 2))"
      using 1 by simp
    then show ?thesis using False by (subst (1 2) ilog2.simps) auto
  qed
qed

lemma ilog2_mono: "0 < m \<Longrightarrow> m \<le> n \<Longrightarrow> ilog2 m \<le> ilog2 n"
proof (rule ccontr)
  assume "0 < m" "m \<le> n" "\<not> ilog2 m \<le> ilog2 n"
  then have "(2 :: nat) ^ Suc (ilog2 n) \<le> 2 ^ ilog2 m" by (intro power_increasing) auto
  then show False using ilog2_bounds [of m] ilog2_bounds [of n] \<open>0 < m\<close> \<open>m \<le> n\<close> by linarith
qed

lemma round_shift_mono: "m \<le> n \<Longrightarrow> round_shift m s \<le> round_shift n s"
proof -
  assume le: "m \<le> n"
  let ?k = "2 ^ s :: nat"
  have d: "m div ?k \<le> n div ?k" using le by (rule div_le_mono)
  show ?thesis
  proof (cases "m div ?k = n div ?k")
    case True
    then have "m mod ?k \<le> n mod ?k" using le by (metis add_le_cancel_left div_mult_mod_eq)
    then show ?thesis using True by (auto simp: round_shift_def Let_def)
  next
    case False
    then have "m div ?k + 1 \<le> n div ?k" using d by simp
    then show ?thesis by (auto simp: round_shift_def Let_def)
  qed
qed

lemma round_shift_le: "m < 2 ^ (k + s) \<Longrightarrow> round_shift m s \<le> 2 ^ k"
proof -
  assume "m < 2 ^ (k + s)"
  then have "m div 2 ^ s < 2 ^ k" by (simp add: less_mult_imp_div_less power_add)
  then show ?thesis by (auto simp: round_shift_def Let_def)
qed

lemma round_shift_ge: "2 ^ (k + s) \<le> m \<Longrightarrow> 2 ^ k \<le> round_shift m s"
proof -
  assume "2 ^ (k + s) \<le> m"
  then have "2 ^ k \<le> m div 2 ^ s" by (simp add: less_eq_div_iff_mult_less_eq power_add)
  then show ?thesis by (auto simp: round_shift_def Let_def)
qed

definition significand :: "nat \<Rightarrow> nat" where
  "significand m = (if ilog2 m \<le> 52 then m * 2 ^ (52 - ilog2 m) else round_shift m (ilog2 m - 52))"

lemma significand_bounds:
  assumes "0 < m"
  shows "2 ^ 52 \<le> significand m" "significand m \<le> 2 ^ 53"
proof -
  let ?e = "ilog2 m"
  note b = ilog2_bounds [OF assms]
  show "2 ^ 52 \<le> significand m"
  proof (cases "?e \<le> 52")
    case True
    have "(2 :: nat) ^ 52 = 2 ^ ?e * 2 ^ (52 - ?e)" using True by (simp flip: power_add)
    also have "\<dots> \<le> m * 2 ^ (52 - ?e)" using b by simp
    finally show ?thesis using True by (simp add: significand_def)
  next
    case False
    then have "(2 :: nat) ^ (52 + (?e - 52)) \<le> m" using b by simp
    from round_shift_ge [OF this] show ?thesis using False by (simp add: significand_def)
  qed
  show "significand m \<le> 2 ^ 53"
  proof (cases "?e \<le> 52")
    case True
    have "m * 2 ^ (52 - ?e) \<le> 2 ^ Suc ?e * 2 ^ (52 - ?e)" using b by (intro mult_right_mono) auto
    also have "\<dots> = (2 :: nat) ^ 53" using True by (simp flip: power_add power_Suc)
    finally show ?thesis using True by (simp add: significand_def)
  next
    case False
    then have "m < (2 :: nat) ^ (53 + (?e - 52))" using b by simp
    then show ?thesis using False round_shift_le [of m 53] by (simp add: significand_def)
  qed
qed

lemma nat_to_real_eq: "0 < m \<Longrightarrow> nat_to_real m = (ilog2 m + 1022) * 2 ^ 52 + significand m"
  by (simp add: nat_to_real_def significand_def Let_def)

lemma nat_to_real_mono: "m \<le> n \<Longrightarrow> nat_to_real m \<le> nat_to_real n"
proof (cases "m = 0")
  case False
  assume le: "m \<le> n"
  then have p: "0 < m" "0 < n" using False by auto
  show ?thesis
  proof (cases "ilog2 m = ilog2 n")
    case True
    then have "significand m \<le> significand n" using le by (auto simp: significand_def intro: round_shift_mono)
    then show ?thesis using p True by (simp add: nat_to_real_eq)
  next
    case False
    then have "ilog2 m + 1 \<le> ilog2 n" using ilog2_mono [OF p(1) le] by simp
    then have "(ilog2 m + 1) * 2 ^ 52 \<le> ilog2 n * 2 ^ 52" by (rule mult_right_mono) simp
    then show ?thesis using p significand_bounds(2) [OF p(1)] significand_bounds(1) [OF p(2)]
      by (simp add: nat_to_real_eq algebra_simps)
  qed
qed (simp add: nat_to_real_def)

lemma nat_to_real_strict: "m < n \<Longrightarrow> n \<le> 2 ^ 53 \<Longrightarrow> nat_to_real m < nat_to_real n"
proof -
  assume lt: "m < n" and n: "n \<le> 2 ^ 53"
  then have p: "0 < n" by simp
  show ?thesis
  proof (cases "m = 0")
    case True
    then show ?thesis using p significand_bounds(1) [OF p] by (simp add: nat_to_real_eq) (simp add: nat_to_real_def)
  next
    case False
    then have p': "0 < m" by simp
    have e: "ilog2 m \<le> 52"
    proof (rule ccontr)
      assume "\<not> ilog2 m \<le> 52"
      then have "(2 :: nat) ^ 53 \<le> 2 ^ ilog2 m" by (intro power_increasing) auto
      then show False using ilog2_bounds [OF p'] lt n by linarith
    qed
    show ?thesis
    proof (cases "ilog2 m = ilog2 n")
      case True
      then show ?thesis using lt e p p' by (simp add: nat_to_real_eq significand_def)
    next
      case False
      then have ge: "ilog2 m + 1 \<le> ilog2 n" using ilog2_mono [OF p'] lt by (metis Suc_eq_plus1 Suc_leI le_neq_implies_less less_imp_le)
      have "significand m < 2 ^ 53"
      proof -
        have "m * 2 ^ (52 - ilog2 m) < 2 ^ Suc (ilog2 m) * 2 ^ (52 - ilog2 m)"
          using ilog2_bounds [OF p'] by (intro mult_strict_right_mono) auto
        also have "\<dots> = (2 :: nat) ^ 53" using e by (simp flip: power_add power_Suc)
        finally show ?thesis using e by (simp add: significand_def)
      qed
      moreover have "(ilog2 m + 1) * 2 ^ 52 \<le> ilog2 n * 2 ^ 52" using ge by (rule mult_right_mono) simp
      ultimately show ?thesis using p p' significand_bounds(1) [OF p]
        by (simp add: nat_to_real_eq algebra_simps)
    qed
  qed
qed

lemma nat_to_real_exponent:
  assumes "m \<le> 2 ^ 63"
  shows "nat_to_real m \<le> 1087 * 2 ^ 52"
proof (cases "m = 0")
  case False
  then have p: "0 < m" by simp
  have "ilog2 m \<le> 63"
  proof (rule ccontr)
    assume "\<not> ilog2 m \<le> 63"
    then have "(2 :: nat) ^ 64 \<le> 2 ^ ilog2 m" by (intro power_increasing) auto
    also have "\<dots> \<le> 2 ^ 63" using ilog2_bounds [OF p] assms by linarith
    finally show False by simp
  qed
  then have "(ilog2 m + 1022) * 2 ^ 52 \<le> 1085 * (2 :: nat) ^ 52" by (intro mult_right_mono) auto
  then show ?thesis using significand_bounds(2) [OF p] p by (simp add: nat_to_real_eq)
qed (simp add: nat_to_real_def)

lemma nat_to_real_less: "m \<le> 2 ^ 63 \<Longrightarrow> nat_to_real m < 2 ^ 63"
  using nat_to_real_exponent [of m] by simp

lemma real_key_int:
  assumes "- (2 ^ 63) \<le> i" "i < 2 ^ 63"
  shows "real_key (int_to_real i) = (if i < 0 then - int (nat_to_real (nat (- i))) else int (nat_to_real (nat i)))"
proof -
  have k: "real_key (of_nat n) = int n" "real_key (push_bit 63 1 OR of_nat n) = - int n" if "n < 2 ^ 63" for n
  proof -
    have t: "take_bit 63 (of_nat n :: u64) = of_nat n"
      using that by (simp add: word_unat_eq_iff unsigned_take_bit_eq unat_of_nat take_bit_eq_mod [where 'a = nat])
    have b: "\<not> bit (of_nat n :: u64) 63" using t by (metis bit_take_bit_iff less_irrefl)
    have u: "uint (of_nat n :: u64) = int n" using that by (simp add: uint_nat unat_of_nat)
    show "real_key (of_nat n) = int n" using t b u by (simp add: real_key_def)
    have "take_bit 63 (push_bit 63 1 OR of_nat n :: u64) = of_nat n"
      using t by (simp add: take_bit_or take_bit_push_bit)
    moreover have "bit (push_bit 63 1 OR of_nat n :: u64) 63" by (simp add: bit_simps)
    ultimately show "real_key (push_bit 63 1 OR of_nat n) = - int n" using u by (simp add: real_key_def)
  qed
  have "nat (- i) \<le> 2 ^ 63" "nat i \<le> 2 ^ 63" using assms by auto
  then show ?thesis using k nat_to_real_less by (simp add: int_to_real_def)
qed

lemma int_to_real_mono:
  assumes "- (2 ^ 63) \<le> i" "i \<le> j" "j < 2 ^ 63"
  shows "real_key (int_to_real i) \<le> real_key (int_to_real j)"
proof -
  have "nat_to_real (nat i) \<le> nat_to_real (nat j)" "nat_to_real (nat (- j)) \<le> nat_to_real (nat (- i))"
    using assms by (auto intro!: nat_to_real_mono)
  then show ?thesis using assms by (simp add: real_key_int)
qed

lemma int_to_real_strict:
  assumes "- (2 ^ 53) \<le> i" "i < j" "j \<le> 2 ^ 53"
  shows "real_key (int_to_real i) < real_key (int_to_real j)"
proof -
  have r: "- (2 ^ 63) \<le> i" "i < 2 ^ 63" "- (2 ^ 63) \<le> j" "j < 2 ^ 63" using assms by auto
  consider "0 \<le> i" | "i < 0" "0 \<le> j" | "j < 0" by linarith
  then show ?thesis
  proof cases
    case 1
    then have "nat_to_real (nat i) < nat_to_real (nat j)" using assms by (intro nat_to_real_strict) auto
    then show ?thesis using 1 assms r by (simp add: real_key_int)
  next
    case 2
    have "0 < nat_to_real (nat (- i))"
      using nat_to_real_strict [of 0 "nat (- i)"] 2 assms by (auto simp: nat_to_real_def [of 0])
    then show ?thesis using 2 r by (simp add: real_key_int)
  next
    case 3
    then have "nat_to_real (nat (- j)) < nat_to_real (nat (- i))" using assms by (intro nat_to_real_strict) auto
    then show ?thesis using 3 assms r by (simp add: real_key_int)
  qed
qed

section \<open>The comparison is that of the values\<close>

lemma and_4_iff: "(x :: u16) AND 4 = 0 \<longleftrightarrow> \<not> bit x 2"
proof -
  have "(4 :: u16) = 2 ^ 2" by simp
  then have b: "bit (4 :: u16) n \<longleftrightarrow> n = 2" for n
    by (simp only: bit_exp_iff) auto
  show ?thesis unfolding bit_eq_iff [of "x AND 4"] bit_and_iff b by (auto dest: spec [of _ 2])
qed

lemma has_or: "has m (f OR g) \<longleftrightarrow> has m f \<or> has m g"
  by (auto simp: has_def bit.conj_disj_distrib or_eq_0_iff)

lemma bytes_cmp_lex:
  assumes "k = min (length x) (length y)"
  shows "sgn (if bytes_cmp (take k x) (take k y) = 0 then int (length x) - int (length y) else bytes_cmp (take k x) (take k y)) = lex_bytes x y"
  using assms
proof (induction x y arbitrary: k rule: lex_bytes.induct)
  case (4 a x b y)
  obtain k' where k: "k = Suc k'" "k' = min (length x) (length y)" using "4.prems" by auto
  show ?case using "4.IH" [OF _ _ k(2)] k(1) by auto
qed (auto)

lemma null_flag: "flag m MEM_Null = (if has m MEM_Null then 1 else 0)"
  by (auto simp: flag_def has_def flag_values and_one_eq mod_2_eq_odd)

definition text_encoded :: "cell \<Rightarrow> collseq option \<Rightarrow> bool" where
  "text_encoded m pColl \<longleftrightarrow> (has m MEM_Str \<longrightarrow> (case pColl of None \<Rightarrow> True | Some c \<Rightarrow> enc m = cenc c))"

lemma sgn_ocmp: "sgn (ocmp a b) = ocmp a b" "ocmp a b = 0 \<longleftrightarrow> a = b"
  by (auto simp: ocmp_def)

lemma sgn_lex_bytes: "sgn (lex_bytes x y) = lex_bytes x y"
  by (induction x y rule: lex_bytes.induct) auto

lemma real_less_key: "\<not> sqlite3IsNaN a \<Longrightarrow> \<not> sqlite3IsNaN b \<Longrightarrow>
    (if real_less a b then -1 else if real_less b a then 1 else 0) = ocmp (real_key a) (real_key b)"
  by (simp add: real_less_def ocmp_def)

lemma int_to_real_not_nan: "\<not> sqlite3IsNaN (int_to_real (sint (i :: u64)))"
proof -
  have small: "drop_bit 52 (of_nat n :: u64) AND 0x7FF \<noteq> 0x7FF" if "n \<le> 1087 * 2 ^ 52" for n
  proof -
    have m: "(0x7FF :: u64) = mask 11" by (simp add: mask_eq_exp_minus_1)
    have "unat (of_nat n :: u64) = n" using that by (simp add: unat_of_nat)
    then have "unat (drop_bit 52 (of_nat n :: u64)) = n div 2 ^ 52"
      by (simp only: unat_drop_bit_eq) (simp add: drop_bit_eq_div)
    also have "\<dots> \<le> (1087 * 2 ^ 52) div 2 ^ 52" using that by (rule div_le_mono)
    finally have "unat (drop_bit 52 (of_nat n :: u64)) \<le> 1087" by simp
    moreover have "unat (drop_bit 52 (of_nat n :: u64) AND mask 11) = unat (drop_bit 52 (of_nat n :: u64)) mod 2 ^ 11"
      by (simp only: take_bit_eq_mask [symmetric] unsigned_take_bit_eq) (simp add: take_bit_eq_mod)
    ultimately have "unat (drop_bit 52 (of_nat n :: u64) AND mask 11) \<noteq> 2047" by simp
    then show ?thesis by (auto simp flip: m)
  qed
  have sign: "drop_bit 52 (push_bit 63 1 OR y) AND 0x7FF = drop_bit 52 y AND (0x7FF :: u64)" for y
    by (simp add: u64_bitwise)
  have "nat (- sint i) \<le> 2 ^ 63" "nat (sint i) \<le> 2 ^ 63"
    using sint_ge [of i] sint_lt [of i] by auto
  then show ?thesis using small nat_to_real_exponent sign
    by (auto simp: sqlite3IsNaN_def int_to_real_def)
qed

lemma memcmp_values:
  assumes "mn m1 \<le> length (mz m1)" "mn m2 \<le> length (mz m2)"
  shows "\<exists>rc. memcmp (mz m1) (mz m2) (if mn m1 > mn m2 then mn m2 else mn m1) = Some rc \<and>
    sgn (if rc = 0 then int (mn m1) - int (mn m2) else rc) = lex_bytes (take (mn m1) (mz m1)) (take (mn m2) (mz m2))"
proof -
  let ?k = "if mn m1 > mn m2 then mn m2 else mn m1"
  have k: "?k = min (length (take (mn m1) (mz m1))) (length (take (mn m2) (mz m2)))" using assms by auto
  have t: "take ?k (mz m1) = take ?k (take (mn m1) (mz m1))" "take ?k (mz m2) = take ?k (take (mn m2) (mz m2))"
    by (auto simp: min_def)
  have l: "length (take (mn m1) (mz m1)) = mn m1" "length (take (mn m2) (mz m2)) = mn m2" using assms by auto
  show ?thesis
    using bytes_cmp_lex [OF k] assms unfolding l t [symmetric] by (auto simp: memcmp_def)
qed

lemma MemCompare_value_post:
  assumes "cell_single m1" "cell_single m2" "text_encoded m1 pColl"
  shows "\<exists>rc. sqlite3MemCompare ok m1 m2 pColl = Some rc \<and>
    sgn rc = sgn (value_cmp (map_option xCmp pColl) (cell_value m1) (cell_value m2))"
proof -
  have z: "cell_bytes m1 = take (mn m1) (mz m1)" "cell_bytes m2 = take (mn m2) (mz m2)"
    using assms by (auto simp: cell_single_def cell_bytes_def)
  have ii: "flags m1 AND flags m2 AND MEM_Int \<noteq> 0 \<longleftrightarrow> has m1 MEM_Int \<and> has m2 MEM_Int"
    by (simp add: has_def flag_values and_4_iff bit_and_iff flip: and.assoc)
  have n: "has m1 MEM_Real \<Longrightarrow> \<not> sqlite3IsNaN (rval m1)" "has m2 MEM_Real \<Longrightarrow> \<not> sqlite3IsNaN (rval m2)"
    "\<not> (has m1 MEM_Int \<and> has m1 MEM_Real)" "\<not> (has m2 MEM_Int \<and> has m2 MEM_Real)"
    using assms by (auto simp: cell_single_def)
  note rk = real_less_key [OF _ int_to_real_not_nan] real_less_key [OF int_to_real_not_nan] real_less_key
  consider (Null) "has m1 MEM_Null \<or> has m2 MEM_Null"
    | (Num) "\<not> has m1 MEM_Null" "\<not> has m2 MEM_Null" "has m1 (MEM_Int OR MEM_Real) \<or> has m2 (MEM_Int OR MEM_Real)"
    | (Bytes) "\<not> has m1 MEM_Null" "\<not> has m2 MEM_Null" "\<not> has m1 (MEM_Int OR MEM_Real)" "\<not> has m2 (MEM_Int OR MEM_Real)"
    by blast
  then show ?thesis
  proof cases
    case Null
    then show ?thesis
      by (cases "cell_value m1"; cases "cell_value m2")
        (auto simp: sqlite3MemCompare_def null_flag cell_value_def n split: if_splits)
  next
    case Num
    note v = sqlite3MemCompare_def cell_value_def n has_or
    consider (a) "has m1 MEM_Int" "has m2 MEM_Int" | (b) "has m1 MEM_Int" "has m2 MEM_Real" | (c) "has m1 MEM_Real" "has m2 MEM_Int"
      | (d) "has m1 MEM_Real" "has m2 MEM_Real" | (e) "\<not> has m1 (MEM_Int OR MEM_Real)" "has m2 (MEM_Int OR MEM_Real)"
      | (f) "has m1 (MEM_Int OR MEM_Real)" "\<not> has m2 (MEM_Int OR MEM_Real)"
      using Num(3) by (auto simp: has_or)
    then show ?thesis
    proof cases
      case a
      then show ?thesis using Num ii by (auto simp: v ocmp_def)
    next
      case b
      then have "\<not> has m1 MEM_Real" "\<not> has m2 MEM_Int" using n by auto
      then show ?thesis using Num b ii by (simp add: v rk)
    next
      case c
      then have "\<not> has m1 MEM_Int" "\<not> has m2 MEM_Real" using n by auto
      then show ?thesis using Num c ii by (simp add: v rk)
    next
      case d
      then have "\<not> has m1 MEM_Int" "\<not> has m2 MEM_Int" using n by auto
      then show ?thesis using Num d ii by (simp add: v rk)
    next
      case e
      then show ?thesis using Num n by (auto simp: v)
    next
      case f
      then show ?thesis using Num n by (auto simp: v)
    qed
  next
    case Bytes
    then obtain rc where rc: "memcmp (mz m1) (mz m2) (if mn m1 > mn m2 then mn m2 else mn m1) = Some rc"
      "sgn (if rc = 0 then int (mn m1) - int (mn m2) else rc) = lex_bytes (cell_bytes m1) (cell_bytes m2)"
      using memcmp_values [of m1 m2] assms z by (auto simp: cell_single_def)
    show ?thesis
    proof (cases "has m1 MEM_Str \<and> has m2 MEM_Str \<and> pColl \<noteq> None")
      case True
      then show ?thesis using Bytes assms(3) z
        by (auto simp: sqlite3MemCompare_def cell_value_def has_or text_encoded_def)
    next
      case False
      then show ?thesis using Bytes rc
        by (auto simp: sqlite3MemCompare_def cell_value_def has_or sgn_lex_bytes)
    qed
  qed
qed

section \<open>The order\<close>

text \<open>Integers that a double holds exactly.\<close>

fun exact_value :: "sqlval \<Rightarrow> bool" where
  "exact_value (VInt i) = (\<bar>i\<bar> \<le> 2 ^ 53)"
| "exact_value _ = True"

fun value_class :: "sqlval \<Rightarrow> nat" where
  "value_class VNull = 0"
| "value_class (VInt i) = 1"
| "value_class (VReal x) = 1"
| "value_class (VText x) = 2"
| "value_class (VBlob x) = 3"

fun number_key :: "sqlval \<Rightarrow> int" where
  "number_key (VInt i) = real_key (int_to_real i)"
| "number_key (VReal x) = real_key x"
| "number_key _ = 0"

fun value_bytes :: "sqlval \<Rightarrow> u8 list" where
  "value_bytes (VText x) = x"
| "value_bytes (VBlob x) = x"
| "value_bytes _ = []"

lemma ocmp_le_0: "ocmp a b \<le> 0 \<longleftrightarrow> a \<le> b"
  by (auto simp: ocmp_def)

lemma ocmp_exact:
  assumes "\<bar>i\<bar> \<le> 2 ^ 53" "\<bar>j\<bar> \<le> 2 ^ 53"
  shows "ocmp i j = ocmp (real_key (int_to_real i)) (real_key (int_to_real j))"
proof -
  have "- (2 ^ 53) \<le> i" "i \<le> 2 ^ 53" "- (2 ^ 53) \<le> j" "j \<le> 2 ^ 53" using assms by (simp_all add: abs_le_iff)
  then show ?thesis
    using int_to_real_strict [of i j] int_to_real_strict [of j i]
    by (cases i j rule: linorder_cases) (auto simp: ocmp_def)
qed

lemma lex_bytes_trans: "lex_bytes x y \<le> 0 \<Longrightarrow> lex_bytes y z \<le> 0 \<Longrightarrow> lex_bytes x z \<le> 0"
proof (induction x y arbitrary: z rule: lex_bytes.induct)
  case (4 a x b y)
  then show ?case by (cases z) (auto split: if_splits)
next
  case (2 b y)
  then show ?case by (cases z) auto
next
  case 1
  then show ?case by (cases z) auto
qed auto

lemma lex_bytes_antisym: "lex_bytes y x = - lex_bytes x y"
  by (induction x y rule: lex_bytes.induct) auto

definition text_cmp :: "(u8 list \<Rightarrow> u8 list \<Rightarrow> int) option \<Rightarrow> u8 list \<Rightarrow> u8 list \<Rightarrow> int" where
  "text_cmp k = (case k of None \<Rightarrow> lex_bytes | Some f \<Rightarrow> f)"

lemma value_cmp_le_0:
  assumes "exact_value a" "exact_value b"
  shows "value_cmp k a b \<le> 0 \<longleftrightarrow> value_class a < value_class b \<or> value_class a = value_class b \<and>
    (value_class a \<le> 1 \<and> number_key a \<le> number_key b \<or>
     value_class a = 2 \<and> text_cmp k (value_bytes a) (value_bytes b) \<le> 0 \<or>
     value_class a = 3 \<and> lex_bytes (value_bytes a) (value_bytes b) \<le> 0)"
proof (cases "\<exists>i j. a = VInt i \<and> b = VInt j")
  case True
  then obtain i j where "a = VInt i" "b = VInt j" by blast
  then show ?thesis using ocmp_exact [of i j] assms by (simp add: ocmp_le_0)
next
  case False
  then show ?thesis
    by (cases a; cases b) (simp_all add: ocmp_le_0 text_cmp_def split: option.split)
qed

lemma value_cmp_antisym:
  assumes "\<And>x y f. k = Some f \<Longrightarrow> sgn (f y x) = - sgn (f x y)"
  shows "sgn (value_cmp k b a) = - sgn (value_cmp k a b)"
proof -
  have l: "sgn (lex_bytes y x) = - sgn (lex_bytes x y)" for x y
    by (simp only: lex_bytes_antisym [of y x] sgn_minus)
  have t: "sgn (text_cmp k y x) = - sgn (text_cmp k x y)" for x y
  proof (cases k)
    case None
    then show ?thesis unfolding text_cmp_def by (simp only: option.case l [of y x])
  next
    case (Some f)
    then show ?thesis unfolding text_cmp_def by (simp only: option.case assms [OF Some, of y x])
  qed
  have tt: "value_cmp k (VText x) (VText y) = text_cmp k x y" for x y
    by (simp add: text_cmp_def split: option.split)
  consider (T) x y where "a = VText x" "b = VText y" | (B) x y where "a = VBlob x" "b = VBlob y"
    | (O) "\<not> (\<exists>x y. a = VText x \<and> b = VText y)" "\<not> (\<exists>x y. a = VBlob x \<and> b = VBlob y)"
    by blast
  then show ?thesis
  proof cases
    case (T x y)
    show ?thesis unfolding T tt by (rule t)
  next
    case (B x y)
    then show ?thesis using l [of y x] by simp
  next
    case O
    then show ?thesis by (cases a; cases b) (simp_all add: ocmp_def)
  qed
qed

lemma value_cmp_trans:
  assumes "\<And>x y z f. k = Some f \<Longrightarrow> f x y \<le> 0 \<Longrightarrow> f y z \<le> 0 \<Longrightarrow> f x z \<le> 0"
    and "exact_value a" "exact_value b" "exact_value c"
    and "value_cmp k a b \<le> 0" "value_cmp k b c \<le> 0"
  shows "value_cmp k a c \<le> 0"
proof -
  have t: "text_cmp k x y \<le> 0 \<Longrightarrow> text_cmp k y z \<le> 0 \<Longrightarrow> text_cmp k x z \<le> 0" for x y z
    using assms(1) lex_bytes_trans by (cases k) (auto simp: text_cmp_def)
  show ?thesis
    using assms(5,6) t [of "value_bytes a" "value_bytes b" "value_bytes c"]
      lex_bytes_trans [of "value_bytes a" "value_bytes b" "value_bytes c"]
    unfolding value_cmp_le_0 [OF assms(2,3)] value_cmp_le_0 [OF assms(3,4)] value_cmp_le_0 [OF assms(2,4)]
    by linarith
qed

section \<open>Properties\<close>


text \<open>A cell that holds an integer, and one that holds a real.\<close>

definition int_cell :: "int \<Rightarrow> cell" where
  "int_cell i = \<lparr>enc = SQLITE_UTF8, flags = MEM_Int, mn = 0, mz = [], own = False, ival = of_int i, nZero = 0, rval = 0\<rparr>"

definition real_cell :: "u64 \<Rightarrow> cell" where
  "real_cell r = \<lparr>enc = SQLITE_UTF8, flags = MEM_Real, mn = 0, mz = [], own = False, ival = 0, nZero = 0, rval = r\<rparr>"

lemma ilog2_eq: "2 ^ k \<le> n \<Longrightarrow> n < 2 ^ Suc k \<Longrightarrow> ilog2 n = k"
proof (rule ccontr)
  assume a: "2 ^ k \<le> n" "n < 2 ^ Suc k" and ne: "ilog2 n \<noteq> k"
  have "0 < n" using a(1) by (metis gr0I not_le zero_less_numeral zero_less_power)
  note b = ilog2_bounds [OF this]
  show False
  proof (cases "k < ilog2 n")
    case True
    then have "(2 :: nat) ^ Suc k \<le> 2 ^ ilog2 n" by (intro power_increasing) auto
    then show False using a b by linarith
  next
    case False
    then have "(2 :: nat) ^ Suc (ilog2 n) \<le> 2 ^ k" using ne by (intro power_increasing) auto
    then show False using a b by linarith
  qed
qed

lemma int_to_real_examples:
  "int_to_real 1 = 0x3FF0000000000000" "int_to_real 3 = 0x4008000000000000"
  "int_to_real (2 ^ 53) = 0x4340000000000000" "int_to_real (2 ^ 53 + 1) = 0x4340000000000000"
  using ilog2_eq [of 0 1] ilog2_eq [of 1 3] ilog2_eq [of 53 "2 ^ 53"] ilog2_eq [of 53 "2 ^ 53 + 1"]
  by (simp_all add: int_to_real_def nat_to_real_def round_shift_def Let_def)

lemmas int_to_real_big = int_to_real_examples(3,4) [simplified]

lemmas cell_eval = int_cell_def real_cell_def has_def flag_values cell_value_def cell_single_def text_encoded_def
  sqlite3MemCompare_def sqlite3IsNaN_def real_less_def




end
