(* ===== verification/RecordFormat.thy ===== *)
theory RecordFormat
  imports MemCompare
begin

text \<open>
  The record format: \<open>OP_MakeRecord\<close> of \<^verbatim>\<open>src/vdbe.c\<close> builds a record from cells,
  \<open>sqlite3VdbeRecordUnpack\<close>, \<open>sqlite3VdbeRecordCompare\<close> and \<open>sqlite3VdbeIdxRowid\<close> of
  \<^verbatim>\<open>src/vdbeaux.c\<close> read one.
\<close>

abbreviation (input) SQLITE_CORRUPT :: int where "SQLITE_CORRUPT \<equiv> 11"
abbreviation (input) SQLITE_TOOBIG :: int where "SQLITE_TOOBIG \<equiv> 18"

section \<open>Building a record\<close>

text \<open>\<open>ok\<close> tells whether the cell's buffer can be grown.\<close>

definition sqlite3VdbeMemExpandBlob :: "bool \<Rightarrow> cell \<Rightarrow> int \<times> cell" where
  "sqlite3VdbeMemExpandBlob ok m =
     (if has m MEM_Zero
      then if \<not> ok then (SQLITE_NOMEM, m\<lparr>flags := MEM_Null, mz := [], own := True\<rparr>)
           else (SQLITE_OK, m\<lparr>mz := take (mn m) (mz m) @ replicate (nZero m) 0, own := True, mn := mn m + nZero m,
                              flags := flags m AND NOT (MEM_Ephem OR MEM_Static) AND NOT (MEM_Zero OR MEM_Term)\<rparr>)
      else (SQLITE_OK, m))"

text \<open>
  The first loop of \<open>OP_MakeRecord\<close>: the cells after expansion, \<open>nData\<close>, \<open>nHdr\<close> and \<open>nZero\<close>. The
  opcode ignores the result of the expansion.
\<close>

fun record_sizes :: "(cell \<Rightarrow> bool) \<Rightarrow> nat \<Rightarrow> cell list \<Rightarrow> nat \<Rightarrow> nat \<Rightarrow> nat \<Rightarrow> cell list \<times> nat \<times> nat \<times> nat" where
  "record_sizes ok ff [] nData nHdr nz = ([], nData, nHdr, nz)"
| "record_sizes ok ff (m # ms) nData nHdr nz =
     (let m = (if has m MEM_Zero \<and> mn m > 0 then snd (sqlite3VdbeMemExpandBlob (ok m) m) else m);
          serial_type = sqlite3VdbeSerialType m ff;
          len = unat (sqlite3VdbeSerialTypeLen serial_type);
          (ms, r) = record_sizes ok ff ms (nData + len) (nHdr + sqlite3VarintLen (ucast serial_type))
            (if has m MEM_Zero then nz + nZero m else if len \<noteq> 0 then 0 else nz)
      in (m # ms, r))"

text \<open>The loop that writes the serial data into the space that is left.\<close>

fun record_data :: "nat \<Rightarrow> cell list \<Rightarrow> nat \<Rightarrow> u8 list option" where
  "record_data ff [] left = Some []"
| "record_data ff (m # ms) left = do {
     d \<leftarrow> sqlite3VdbeSerialPut left m ff;
     ds \<leftarrow> record_data ff ms (left - length d);
     Some (d @ ds)
   }"

text \<open>
  The opcode without a P4 affinity string; \<open>limit\<close> is \<^verbatim>\<open>SQLITE_LIMIT_LENGTH\<close> and \<open>grow\<close> tells whether the output
  register can be grown. The outer option is \<open>None\<close> if a write leaves its buffer.
\<close>

definition OP_MakeRecord :: "(cell \<Rightarrow> bool) \<Rightarrow> bool \<Rightarrow> nat \<Rightarrow> nat \<Rightarrow> cell list \<Rightarrow> cell \<Rightarrow> (int + cell) option" where
  "OP_MakeRecord ok grow limit file_format cells pOut =
     (let (cells, nData, nHdr, nz) = record_sizes ok file_format cells 0 0 0;
          nVarint = sqlite3VarintLen (of_nat nHdr);
          nHdr = nHdr + nVarint;
          nHdr = (if nVarint < sqlite3VarintLen (of_nat nHdr) then nHdr + 1 else nHdr);
          nByte = nHdr + nData - nz
      in if nByte > limit then Some (Inl SQLITE_TOOBIG)
         else if \<not> grow then Some (Inl SQLITE_NOMEM)
         else do {
           let hdr = putVarint32 (of_nat nHdr) @
             concat (map (\<lambda>m. putVarint32 (sqlite3VdbeSerialType m file_format)) cells);
           _ \<leftarrow> (if length hdr \<le> nByte then Some () else None);
           d \<leftarrow> record_data file_format cells (nByte - length hdr);
           (if length (hdr @ d) \<le> nByte
            then Some (Inr (pOut\<lparr>mz := hdr @ d, own := True, mn := nByte, enc := SQLITE_UTF8,
              flags := (if nz \<noteq> 0 then MEM_Blob OR MEM_Dyn OR MEM_Zero else MEM_Blob OR MEM_Dyn),
              nZero := (if nz \<noteq> 0 then nz else nZero pOut)\<rparr>))
            else None)
         })"

section \<open>Reading a record\<close>

record keyinfo =
  kenc :: nat
  aColl :: "collseq option list"
  aSortOrder :: "bool list"
  kField :: nat

text \<open>The loop of \<open>sqlite3VdbeRecordUnpack\<close>; the cells in front of it are the destination.\<close>

fun unpack_loop :: "nat \<Rightarrow> u8 list \<Rightarrow> nat \<Rightarrow> nat \<Rightarrow> nat \<Rightarrow> nat \<Rightarrow> cell list \<Rightarrow> cell list option" where
  "unpack_loop kenc' aKey nKey szHdr idx d [] = Some []"
| "unpack_loop kenc' aKey nKey szHdr idx d (m # ms) =
     (if idx < szHdr \<and> d \<le> nKey
      then do {
        (serial_type, k) \<leftarrow> getVarint32 (drop idx aKey);
        (len, m) \<leftarrow> sqlite3VdbeSerialGet (drop d aKey) serial_type (m\<lparr>enc := kenc'\<rparr>);
        ms \<leftarrow> unpack_loop kenc' aKey nKey szHdr (idx + k) (d + len) ms;
        Some (m # ms)
      }
      else Some [])"

text \<open>\<open>dest\<close> are the \<open>nField + 1\<close> cells that \<open>sqlite3VdbeAllocUnpackedRecord\<close> has made room for.\<close>

definition sqlite3VdbeRecordUnpack :: "keyinfo \<Rightarrow> u8 list \<Rightarrow> nat \<Rightarrow> cell list \<Rightarrow> cell list option" where
  "sqlite3VdbeRecordUnpack pKeyInfo aKey nKey dest = do {
     (szHdr, idx) \<leftarrow> getVarint32 aKey;
     unpack_loop (kenc pKeyInfo) aKey nKey (unat szHdr) idx (unat szHdr) dest
   }"

definition UNPACKED_INCRKEY :: u8 where "UNPACKED_INCRKEY = 0x01"
definition UNPACKED_PREFIX_MATCH :: u8 where "UNPACKED_PREFIX_MATCH = 0x02"
definition UNPACKED_PREFIX_SEARCH :: u8 where "UNPACKED_PREFIX_SEARCH = 0x04"

record unpacked =
  pKeyInfo :: keyinfo
  uflags :: u8
  rowid :: u64
  aMem :: "cell list"

text \<open>
  The loop of \<open>sqlite3VdbeRecordCompare\<close> over the remaining cells of the right key; \<open>Inl\<close> is the early return
  of a difference, \<open>Inr\<close> the offset \<open>idx1\<close> at which the loop ends with all fields equal.
\<close>

fun compare_loop ::
  "(cell \<Rightarrow> bool) \<Rightarrow> nat \<Rightarrow> u8 list \<Rightarrow> nat \<Rightarrow> unpacked \<Rightarrow> cell list \<Rightarrow> nat \<Rightarrow> nat \<Rightarrow> nat \<Rightarrow> cell \<Rightarrow> (int \<times> unpacked + nat) option" where
  "compare_loop ok nKey1 aKey1 szHdr1 p [] i idx1 d1 mem1 = Some (Inr idx1)"
| "compare_loop ok nKey1 aKey1 szHdr1 p (m2 # ms) i idx1 d1 mem1 =
     (if idx1 < szHdr1
      then do {
        (serial_type1, k) \<leftarrow> getVarint32 (drop idx1 aKey1);
        (if d1 \<ge> nKey1 \<and> sqlite3VdbeSerialTypeLen serial_type1 > 0 then Some (Inr (idx1 + k))
         else do {
           (len, mem1) \<leftarrow> sqlite3VdbeSerialGet (drop d1 aKey1) serial_type1 mem1;
           rc \<leftarrow> sqlite3MemCompare ok mem1 m2 (if i < kField (pKeyInfo p) then aColl (pKeyInfo p) ! i else None);
           (if rc \<noteq> 0
            then let rc = (if i < kField (pKeyInfo p) \<and> aSortOrder (pKeyInfo p) ! i then - rc else rc)
                 in Some (Inl (rc,
                      if uflags p AND UNPACKED_PREFIX_SEARCH \<noteq> 0 \<and> i + 1 = length (aMem p)
                      then p\<lparr>uflags := uflags p AND NOT UNPACKED_PREFIX_SEARCH, rowid := ival mem1\<rparr> else p))
            else compare_loop ok nKey1 aKey1 szHdr1 p ms (i + 1) (idx1 + k) (d1 + len) mem1)
         })
      }
      else Some (Inr idx1))"

text \<open>\<open>mem1\<close> is the uninitialised local variable of that name.\<close>

definition sqlite3VdbeRecordCompare ::
  "(cell \<Rightarrow> bool) \<Rightarrow> cell \<Rightarrow> nat \<Rightarrow> u8 list \<Rightarrow> unpacked \<Rightarrow> (int \<times> unpacked) option" where
  "sqlite3VdbeRecordCompare ok mem1 nKey1 aKey1 p = do {
     (szHdr1, idx1) \<leftarrow> getVarint32 aKey1;
     r \<leftarrow> compare_loop ok nKey1 aKey1 (unat szHdr1) p (aMem p) 0 idx1 (unat szHdr1)
       (mem1\<lparr>enc := kenc (pKeyInfo p)\<rparr>);
     Some (case r of
         Inl res \<Rightarrow> res
       | Inr idx1 \<Rightarrow>
           (if uflags p AND UNPACKED_INCRKEY \<noteq> 0 then -1
            else if uflags p AND UNPACKED_PREFIX_MATCH \<noteq> 0 then 0
            else if idx1 < unat szHdr1 then 1
            else 0, p))
   }"

text \<open>
  \<open>content\<close> is what \<open>sqlite3VdbeMemFromBtree\<close> delivers: its error code, or the bytes of the
  index entry. \<open>v\<close> is the uninitialised local cell.
\<close>

definition sqlite3VdbeIdxRowid :: "int + u8 list \<Rightarrow> cell \<Rightarrow> (int + u64) option" where
  "sqlite3VdbeIdxRowid content v =
     (case content of
        Inl rc \<Rightarrow> Some (Inl rc)
      | Inr z \<Rightarrow> do {
          (szHdr, _) \<leftarrow> getVarint32 z;
          (if unat szHdr < 3 \<or> unat szHdr > length z then Some (Inl SQLITE_CORRUPT)
           else do {
             (typeRowid, _) \<leftarrow> getVarint32 (drop (unat szHdr - 1) z);
             (if typeRowid < 1 \<or> typeRowid > 9 \<or> typeRowid = 7 then Some (Inl SQLITE_CORRUPT)
              else do {
                let lenRowid = unat (sqlite3VdbeSerialTypeLen typeRowid);
                (if length z < unat szHdr + lenRowid then Some (Inl SQLITE_CORRUPT)
                 else do {
                   (_, v) \<leftarrow> sqlite3VdbeSerialGet (drop (length z - lenRowid) z) typeRowid v;
                   Some (Inr (ival v))
                 })
              })
           })
        })"

section \<open>Varints of the header\<close>

lemma varintLen_le_iff:
  assumes "0 < n" "n \<le> 8" "x < 2 ^ 63"
  shows "sqlite3VarintLen (of_nat x) \<le> n \<longleftrightarrow> x < 2 ^ (7 * n)"
proof -
  have len: "sqlite3VarintLen (of_nat x) = min 9 (length (putVarint_buf (of_nat x)))"
    by (simp add: sqlite3VarintLen_def varintLen_loop_eq)
  have "unat (of_nat x :: u64) = x" using assms(3) by (simp add: unat_of_nat)
  then have "drop_bit (7 * n) (of_nat x :: u64) = 0 \<longleftrightarrow> x div 2 ^ (7 * n) = 0"
    by (simp only: word_unat_eq_iff unat_drop_bit_eq) (simp add: drop_bit_eq_div)
  then have d: "drop_bit (7 * n) (of_nat x :: u64) = 0 \<longleftrightarrow> x < 2 ^ (7 * n)"
    by (simp add: div_eq_0_iff)
  show ?thesis
  proof (cases "drop_bit (7 * n) (of_nat x :: u64) = 0")
    case True
    then show ?thesis using length_putVarint_buf_le [OF True assms(1)] d len by simp
  next
    case False
    then show ?thesis using length_putVarint_buf_gt [OF False] d len assms(2) by simp
  qed
qed

lemma varintLen_pos: "0 < sqlite3VarintLen v"
  using length_sqlite3PutVarint [of v] by (auto simp: sqlite3VarintLen_correct Suc_le_eq)

lemma length_putVarint32: "length (putVarint32 t) = sqlite3VarintLen (ucast t)"
  by (simp add: putVarint32_correct sqlite3VarintLen_correct)

lemma putVarint32_pos: "0 < length (putVarint32 t)"
  by (simp only: length_putVarint32 varintLen_pos)

lemma get_putVarint32: "getVarint32 (putVarint32 t @ q) = Some (t, length (putVarint32 t))"
proof -
  have "(ucast t :: u64) AND 0xffffffff = ucast t" by (simp add: u64_bitwise)
  moreover have "ucast (ucast t :: u64) = t" by (simp add: u32_bitwise)
  ultimately show ?thesis
    by (simp add: getVarint32_correct putVarint32_correct varint.get_put)
qed

lemma ucast_of_nat_u32: "x < 2 ^ 32 \<Longrightarrow> (ucast (of_nat x :: u32) :: u64) = of_nat x"
  by (simp add: word_unat_eq_iff unsigned_ucast_eq unat_of_nat take_bit_eq_mod)

text \<open>The header size counts its own varint.\<close>

lemma header_size:
  assumes "s < 2 ^ 20"
  defines "h1 \<equiv> s + sqlite3VarintLen (of_nat s)"
  defines "h \<equiv> (if sqlite3VarintLen (of_nat s) < sqlite3VarintLen (of_nat h1) then h1 + 1 else h1)"
  shows "sqlite3VarintLen (of_nat h) + s = h" "h < 2 ^ 21"
proof -
  have v: "sqlite3VarintLen (of_nat x) = (if x < 128 then 1 else if x < 16384 then 2 else 3)" if "x < 2 ^ 21" for x
    using that varintLen_le_iff [of 1 x] varintLen_le_iff [of 2 x] varintLen_le_iff [of 3 x] varintLen_pos [of "of_nat x"]
    by (auto simp: not_le)
  have "h1 = s + (if s < 128 then 1 else if s < 16384 then 2 else 3)" using assms(1) v [of s] by (simp add: h1_def)
  moreover have "h1 < 2 ^ 21" using calculation assms(1) by (auto split: if_splits)
  moreover have "h = (if h1 < 128 then h1 else if h1 < 16384 then (if s < 128 then h1 + 1 else h1) else (if s < 16384 then h1 + 1 else h1))"
    using assms(1) v [of s] v [of h1] calculation by (auto simp: h_def)
  ultimately have "h < 2 ^ 21" "(if h < 128 then 1 else if h < 16384 then 2 else 3) + s = h" using assms(1) by (auto split: if_splits)
  then show "sqlite3VarintLen (of_nat h) + s = h" "h < 2 ^ 21" using v [of h] by simp_all
qed

section \<open>The bytes of a record\<close>

definition types_bytes :: "nat \<Rightarrow> cell list \<Rightarrow> u8 list" where
  "types_bytes ff ms = concat (map (\<lambda>m. putVarint32 (sqlite3VdbeSerialType m ff)) ms)"

definition data_bytes :: "nat \<Rightarrow> cell list \<Rightarrow> u8 list" where
  "data_bytes ff ms = concat (map (\<lambda>m. serial_data m ff) ms)"

text \<open>A complete record of the cells: the size of the header, the types, the data.\<close>

definition is_record :: "nat \<Rightarrow> cell list \<Rightarrow> u8 list \<Rightarrow> bool" where
  "is_record ff ms r \<longleftrightarrow> (\<exists>h :: u32. r = putVarint32 h @ types_bytes ff ms @ data_bytes ff ms \<and>
     unat h = length (putVarint32 h @ types_bytes ff ms))"

definition record_cell :: "cell \<Rightarrow> bool" where
  "record_cell m \<longleftrightarrow> cell_ok m \<and>
     (has m MEM_Zero \<longrightarrow> \<not> has m MEM_Null \<and> \<not> has m MEM_Int \<and> \<not> has m MEM_Real \<and> \<not> has m MEM_Str)"

definition expanded :: "cell \<Rightarrow> cell" where
  "expanded m = (if has m MEM_Zero \<and> mn m > 0 then snd (sqlite3VdbeMemExpandBlob True m) else m)"

lemma has_clear:
  "has (m\<lparr>flags := flags m AND NOT (MEM_Ephem OR MEM_Static) AND NOT (MEM_Zero OR MEM_Term)\<rparr>) f \<longleftrightarrow> has m f" if "f \<in> {MEM_Null, MEM_Int, MEM_Real, MEM_Str}"
proof -
  have "f AND NOT (MEM_Ephem OR MEM_Static) AND NOT (MEM_Zero OR MEM_Term) = f"
    using that by (auto simp: flag_values MEM_Term_def MEM_Ephem_def MEM_Static_def)
  then have "(flags m AND NOT (MEM_Ephem OR MEM_Static) AND NOT (MEM_Zero OR MEM_Term)) AND f = flags m AND f"
    by (metis and.assoc and.commute)
  then show ?thesis unfolding has_def by simp
qed


lemma expanded:
  assumes "record_cell m"
  shows "record_cell (expanded m)" "cell_value (expanded m) = cell_value m"
    and "has (expanded m) MEM_Zero \<Longrightarrow> mn (expanded m) = 0"
proof -
  have "record_cell (expanded m) \<and> cell_value (expanded m) = cell_value m \<and> (has (expanded m) MEM_Zero \<longrightarrow> mn (expanded m) = 0)"
  proof (cases "has m MEM_Zero \<and> mn m > 0")
    case True
    let ?m = "expanded m"
    have e: "?m = m\<lparr>flags := flags m AND NOT (MEM_Ephem OR MEM_Static) AND NOT (MEM_Zero OR MEM_Term), own := True,
        mz := take (mn m) (mz m) @ replicate (nZero m) 0, mn := mn m + nZero m\<rparr>"
      using True by (simp add: expanded_def sqlite3VdbeMemExpandBlob_def)
    have f: "has ?m f = has m f" if "f \<in> {MEM_Null, MEM_Int, MEM_Real, MEM_Str}" for f
      using has_clear [OF that, of m] by (simp add: e has_def del: bit.de_Morgan_disj)
    have z: "\<not> has ?m MEM_Zero" 
    proof -
      have "flags m AND NOT (MEM_Ephem OR MEM_Static) AND NOT (MEM_Zero OR MEM_Term) AND MEM_Zero = 0"
        by (rule bit_word_eqI) (auto simp: bit_simps)
      then show ?thesis by (simp add: e has_def and.assoc del: bit.de_Morgan_disj)
    qed
    have "length (mz ?m) = mn ?m" "mn ?m = mn m + nZero m"
      using True assms by (simp_all add: e record_cell_def cell_ok_def)
    moreover have "cell_bytes ?m = cell_bytes m"
      unfolding cell_bytes_def [of ?m] if_not_P [OF z]
      using True assms by (simp add: e cell_bytes_def record_cell_def cell_ok_def)
    ultimately have b: "length (mz ?m) = mn ?m" "mn ?m = mn m + nZero m" "cell_bytes ?m = cell_bytes m" by blast+
    show ?thesis using assms True z f b
      by (auto simp: record_cell_def cell_ok_def cell_value_def)
  qed (use assms in \<open>auto simp: expanded_def\<close>)
  then show "record_cell (expanded m)" "cell_value (expanded m) = cell_value m"
    "has (expanded m) MEM_Zero \<Longrightarrow> mn (expanded m) = 0" by blast+
qed

text \<open>The number of trailing zeros that the record leaves out.\<close>

fun tail_zeros :: "nat \<Rightarrow> nat \<Rightarrow> cell list \<Rightarrow> nat" where
  "tail_zeros ff z [] = z"
| "tail_zeros ff z (m # ms) =
     tail_zeros ff (if has m MEM_Zero then z + nZero m else if serial_data m ff \<noteq> [] then 0 else z) ms"

lemma record_sizes_eq:
  assumes "list_all record_cell ms" "\<And>m. m \<in> set ms \<Longrightarrow> ok m"
  shows "record_sizes ok ff ms a b z = (let ms' = map expanded ms
    in (ms', a + length (data_bytes ff ms'), b + length (types_bytes ff ms'), tail_zeros ff z ms'))"
  using assms
proof (induction ms arbitrary: a b z)
  case (Cons m ms)
  have e: "(if has m MEM_Zero \<and> mn m > 0 then snd (sqlite3VdbeMemExpandBlob (ok m) m) else m) = expanded m"
    using Cons.prems(2) [of m] by (simp add: expanded_def)
  have "record_cell (expanded m)" using Cons.prems(1) expanded(1) by simp
  then have l: "length (serial_data (expanded m) ff) = unat (sqlite3VdbeSerialTypeLen (sqlite3VdbeSerialType (expanded m) ff))"
    by (intro serial_data_length) (simp add: record_cell_def)
  show ?case
    using Cons.IH Cons.prems
    unfolding record_sizes.simps e Let_def
    by (simp add: Let_def data_bytes_def types_bytes_def length_putVarint32 flip: l)
qed (simp add: data_bytes_def types_bytes_def Let_def)

lemma tail_zeros_split:
  "tail_zeros ff z ms = (if \<exists>m \<in> set ms. \<not> has m MEM_Zero \<and> serial_data m ff \<noteq> [] then tail_zeros ff 0 ms else z + tail_zeros ff 0 ms)"
proof (induction ms arbitrary: z)
  case (Cons m ms)
  show ?case
    using Cons.IH [of "z + nZero m"] Cons.IH [of "nZero m"] Cons.IH [of z] by auto
qed simp

lemma zero_data: "record_cell m \<Longrightarrow> has m MEM_Zero \<Longrightarrow> mn m = 0 \<Longrightarrow> serial_data m ff = replicate (nZero m) 0"
  using serial_data_bytes(3) [of m ff] by (auto simp: record_cell_def cell_bytes_def)

definition zeros_only :: "nat \<Rightarrow> cell list \<Rightarrow> bool" where
  "zeros_only ff ms \<longleftrightarrow> (\<forall>m \<in> set ms. has m MEM_Zero \<or> serial_data m ff = [])"

lemma tail_zeros_data:
  assumes "list_all record_cell ms" "\<And>m. m \<in> set ms \<Longrightarrow> has m MEM_Zero \<Longrightarrow> mn m = 0"
  shows "tail_zeros ff 0 ms \<le> length (data_bytes ff ms) \<and>
    data_bytes ff ms = take (length (data_bytes ff ms) - tail_zeros ff 0 ms) (data_bytes ff ms) @ replicate (tail_zeros ff 0 ms) 0 \<and>
    (zeros_only ff ms \<longrightarrow> tail_zeros ff 0 ms = length (data_bytes ff ms))"
  using assms
proof (induction ms)
  case (Cons m ms)
  have IH: "tail_zeros ff 0 ms \<le> length (data_bytes ff ms)"
    "data_bytes ff ms = take (length (data_bytes ff ms) - tail_zeros ff 0 ms) (data_bytes ff ms) @ replicate (tail_zeros ff 0 ms) 0"
    "zeros_only ff ms \<Longrightarrow> tail_zeros ff 0 ms = length (data_bytes ff ms)"
    using Cons by auto
  have d: "data_bytes ff (m # ms) = serial_data m ff @ data_bytes ff ms" by (simp add: data_bytes_def)
  show ?case
  proof (cases "zeros_only ff ms")
    case True
    have t: "tail_zeros ff z ms = z + tail_zeros ff 0 ms" for z
      using True by (subst tail_zeros_split) (auto simp: zeros_only_def)
    have all: "data_bytes ff ms = replicate (length (data_bytes ff ms)) 0" using IH(2,3) True by simp
    show ?thesis
    proof (cases "has m MEM_Zero")
      case z: True
      then have "serial_data m ff = replicate (nZero m) 0" using Cons.prems zero_data by simp
      then show ?thesis using z t [of "nZero m"] IH(3) [OF True] all d
        by (simp add: replicate_add)
    next
      case False
      then show ?thesis using IH True d by (simp add: zeros_only_def)
    qed
  next
    case False
    then have t: "tail_zeros ff z ms = tail_zeros ff 0 ms" for z
      by (subst tail_zeros_split) (auto simp: zeros_only_def)
    have "tail_zeros ff 0 (m # ms) = tail_zeros ff 0 ms" using t by simp
    moreover have "\<not> zeros_only ff (m # ms)" using False by (auto simp: zeros_only_def)
    ultimately show ?thesis using IH(1,2) d by simp
  qed
qed (simp add: data_bytes_def)

lemma record_data_take:
  assumes "list_all record_cell ms" "\<And>m. m \<in> set ms \<Longrightarrow> has m MEM_Zero \<Longrightarrow> mn m = 0"
    and "left = length (data_bytes ff ms) - tail_zeros ff 0 ms"
  shows "record_data ff ms left = Some (take left (data_bytes ff ms))"
  using assms
proof (induction ms arbitrary: left)
  case (Cons m ms)
  let ?l = "length (data_bytes ff ms) - tail_zeros ff 0 ms"
  have IH: "record_data ff ms ?l = Some (take ?l (data_bytes ff ms))"
    using Cons by auto
  have le: "tail_zeros ff 0 ms \<le> length (data_bytes ff ms)"
    and zl: "zeros_only ff ms \<Longrightarrow> tail_zeros ff 0 ms = length (data_bytes ff ms)"
    using tail_zeros_data [of ms ff] Cons.prems by auto
  have d: "data_bytes ff (m # ms) = serial_data m ff @ data_bytes ff ms" by (simp add: data_bytes_def)
  have m: "cell_ok m" using Cons.prems(1) by (simp add: record_cell_def)
  show ?case
  proof (cases "zeros_only ff ms \<and> has m MEM_Zero")
    case True
    have t: "tail_zeros ff z ms = z + tail_zeros ff 0 ms" for z
      using True by (subst tail_zeros_split) (auto simp: zeros_only_def)
    have z: "serial_data m ff = replicate (nZero m) 0" "mn m = 0" using True Cons.prems zero_data by simp_all
    have "left = 0" using t [of "nZero m"] Cons.prems(3) d z zl True by simp
    moreover have "sqlite3VdbeSerialPut 0 m ff = Some []"
      using serial_data_bytes(5) [of m 0 ff] Cons.prems(1) True z by (simp add: record_cell_def)
    moreover have "?l = 0" using zl True by simp
    ultimately show ?thesis using IH by simp
  next
    case False
    have "tail_zeros ff 0 (m # ms) = tail_zeros ff 0 ms"
    proof (cases "zeros_only ff ms")
      case False
      then show ?thesis by (simp, subst (1) tail_zeros_split) (auto simp: zeros_only_def)
    qed (use False in simp)
    then have l: "left = length (serial_data m ff) + ?l" using Cons.prems(3) d le by simp
    then have "sqlite3VdbeSerialPut left m ff = Some (serial_data m ff)"
      by (intro serial_put_data [OF m]) simp
    then show ?thesis using IH l d by simp
  qed
qed (simp add: data_bytes_def)

lemma length_types_bytes:
  "length (types_bytes ff ms) \<le> 9 * length ms" "length ms \<le> length (types_bytes ff ms)"
proof -
  have b: "0 < length (putVarint32 t)" "length (putVarint32 t) \<le> 9" for t
    using length_sqlite3PutVarint [of "ucast t"] putVarint32_pos [of t] by (simp_all add: putVarint32_correct)
  show "length (types_bytes ff ms) \<le> 9 * length ms"
  proof (induction ms)
    case (Cons m ms)
    then show ?case using b(2) [of "sqlite3VdbeSerialType m ff"] by (simp add: types_bytes_def)
  qed (simp add: types_bytes_def)
  have "putVarint32 t \<noteq> []" for t using b(1) [of t] by auto
  then show "length ms \<le> length (types_bytes ff ms)"
    unfolding types_bytes_def by (intro length_concat_ge)
qed

lemma MakeRecord_post:
  assumes "list_all record_cell cells" "\<And>m. m \<in> set cells \<Longrightarrow> ok m" "length cells \<le> 32767"
  defines "ms \<equiv> map expanded cells"
  shows "\<exists>r n. is_record ff ms r \<and> n \<le> length r \<and> drop n r = replicate (length r - n) 0 \<and>
    OP_MakeRecord ok grow limit ff cells pOut =
      Some (if n > limit then Inl SQLITE_TOOBIG else if \<not> grow then Inl SQLITE_NOMEM
        else Inr (pOut\<lparr>mz := take n r, own := True, mn := n, enc := SQLITE_UTF8,
              flags := (if n < length r then MEM_Blob OR MEM_Dyn OR MEM_Zero else MEM_Blob OR MEM_Dyn),
              nZero := (if n < length r then length r - n else nZero pOut)\<rparr>))"
proof -
  have ms: "list_all record_cell ms" "\<And>m. m \<in> set ms \<Longrightarrow> has m MEM_Zero \<Longrightarrow> mn m = 0"
    using assms(1) expanded by (auto simp: ms_def list_all_iff)
  let ?T = "types_bytes ff ms" and ?D = "data_bytes ff ms" and ?z = "tail_zeros ff 0 ms"
  have s: "length ?T < 2 ^ 20" using length_types_bytes(1) [of ff ms] assms(3) by (simp add: ms_def)
  define h where "h = (let h1 = length ?T + sqlite3VarintLen (of_nat (length ?T))
    in if sqlite3VarintLen (of_nat (length ?T)) < sqlite3VarintLen (of_nat h1) then h1 + 1 else h1)"
  have h: "sqlite3VarintLen (of_nat h) + length ?T = h" "h < 2 ^ 21"
    using header_size [OF s] by (simp_all add: h_def Let_def)
  have u: "unat (of_nat h :: u32) = h" using h(2) by (simp add: unat_of_nat)
  have lh: "length (putVarint32 (of_nat h)) = sqlite3VarintLen (of_nat h)"
    using h(2) by (simp add: length_putVarint32 ucast_of_nat_u32)
  define r where "r = putVarint32 (of_nat h) @ ?T @ ?D"
  have rec: "is_record ff ms r" using lh h(1) u by (auto simp: is_record_def r_def)
  have tz: "?z \<le> length ?D" "?D = take (length ?D - ?z) ?D @ replicate ?z 0"
    using tail_zeros_data [OF ms] by auto
  define n where "n = h + length ?D - ?z"
  have n': "n = length (putVarint32 (of_nat h)) + (length ?T + (length ?D - ?z))"
    using lh h(1) tz(1) by (simp add: n_def)
  have n: "length r = h + length ?D" "take n r = putVarint32 (of_nat h) @ ?T @ take (length ?D - ?z) ?D"
    using lh h(1) by (simp_all add: r_def n')
  have dn: "drop n r = replicate (length r - n) 0"
  proof -
    have "take n r @ drop n r = r" by simp
    also have "r = take n r @ replicate ?z 0"
      unfolding n(2) append_assoc tz(2) [symmetric] by (simp only: r_def)
    finally have "drop n r = replicate ?z 0" by (simp only: same_append_eq)
    then show ?thesis using n(1) tz(1) by (simp add: n_def)
  qed
  have data: "record_data ff ms (length ?D - ?z) = Some (take (length ?D - ?z) ?D)"
    by (rule record_data_take [OF ms refl])
  have left: "n - (length (putVarint32 (of_nat h)) + length ?T) = length ?D - ?z" using lh h(1) tz(1) by (simp add: n_def)
  have "OP_MakeRecord ok grow limit ff cells pOut =
      Some (if n > limit then Inl SQLITE_TOOBIG else if \<not> grow then Inl SQLITE_NOMEM
        else Inr (pOut\<lparr>mz := take n r, own := True, mn := n, enc := SQLITE_UTF8,
              flags := (if ?z \<noteq> 0 then MEM_Blob OR MEM_Dyn OR MEM_Zero else MEM_Blob OR MEM_Dyn),
              nZero := (if ?z \<noteq> 0 then ?z else nZero pOut)\<rparr>))"
  proof -
    have sizes: "record_sizes ok ff cells 0 0 0 = (ms, length ?D, length ?T, ?z)"
      using record_sizes_eq [OF assms(1), of ok ff 0 0 0] assms(2) by (simp add: ms_def Let_def)
    have "OP_MakeRecord ok grow limit ff cells pOut =
      (if h + length ?D - ?z > limit then Some (Inl SQLITE_TOOBIG)
         else if \<not> grow then Some (Inl SQLITE_NOMEM)
         else do {
           _ \<leftarrow> (if length (putVarint32 (of_nat h) @ ?T) \<le> h + length ?D - ?z then Some () else None);
           d \<leftarrow> record_data ff ms (h + length ?D - ?z - length (putVarint32 (of_nat h) @ ?T));
           (if length ((putVarint32 (of_nat h) @ ?T) @ d) \<le> h + length ?D - ?z
            then Some (Inr (pOut\<lparr>mz := (putVarint32 (of_nat h) @ ?T) @ d, own := True, mn := h + length ?D - ?z, enc := SQLITE_UTF8,
              flags := (if ?z \<noteq> 0 then MEM_Blob OR MEM_Dyn OR MEM_Zero else MEM_Blob OR MEM_Dyn),
              nZero := (if ?z \<noteq> 0 then ?z else nZero pOut)\<rparr>))
            else None)
         })"
      unfolding OP_MakeRecord_def sizes h_def Let_def prod.case types_bytes_def by (rule refl)
    note eq = this [folded n_def]
    have c: "length (putVarint32 (of_nat h) @ ?T) \<le> n" "n - length (putVarint32 (of_nat h) @ ?T) = length ?D - ?z"
      "length ((putVarint32 (of_nat h) @ ?T) @ take (length ?D - ?z) ?D) \<le> n"
      using left by (simp_all add: n')
    have w: "(putVarint32 (of_nat h) @ ?T) @ take (length ?D - ?z) ?D = take n r" using n(2) by simp
    show ?thesis
      unfolding eq c(2) data if_P [OF c(1)] Option.bind.bind_lunit w if_P [OF c(3) [unfolded w]]
      by (cases "n > limit"; cases grow) (simp_all only: if_True if_False simp_thms)
  qed
  note main = this
  have z: "(?z \<noteq> 0) = (n < length r)" "?z = length r - n" unfolding n_def n(1) using tz(1) by arith+
  have "n \<le> length r" using n(1) by (simp add: n_def)
  then show ?thesis using rec dn main [unfolded z(1), unfolded z(2)] by blast
qed
section \<open>Reading a record back\<close>

lemma unpack_text:
  assumes "list_all cell_ok ms"
    and "drop idx aKey = types_bytes ff ms @ q" "szHdr = idx + length (types_bytes ff ms)"
    and "drop d aKey = data_bytes ff ms" "d \<le> length aKey"
  shows "\<exists>cs. unpack_loop e aKey (length aKey) szHdr idx d dest = Some cs \<and>
    map cell_value cs = take (length dest) (map cell_value ms)"
  using assms
proof (induction dest arbitrary: ms idx d)
  case (Cons c dest)
  show ?case
  proof (cases ms)
    case Nil
    then show ?thesis using Cons.prems by (simp add: types_bytes_def)
  next
    case (Cons m ms')
    let ?t = "sqlite3VdbeSerialType m ff"
    have t: "drop idx aKey = putVarint32 ?t @ types_bytes ff ms' @ q"
      and d: "drop d aKey = serial_data m ff @ data_bytes ff ms'"
      using Cons.prems(2,4) Cons by (simp_all add: types_bytes_def data_bytes_def)
    have lt: "idx < szHdr" using Cons.prems(3) Cons putVarint32_pos [of ?t] by (simp add: types_bytes_def)
    obtain m' where m': "sqlite3VdbeSerialGet (drop d aKey) ?t (c\<lparr>enc := e\<rparr>) = Some (length (serial_data m ff), m')"
      "cell_value m' = cell_value m"
      using serial_get_data [of m ff "data_bytes ff ms'" "c\<lparr>enc := e\<rparr>"] Cons.prems(1) Cons d by auto
    have len: "d + length (serial_data m ff) \<le> length aKey"
      using arg_cong [OF d, of length] Cons.prems(5) by simp
    have "\<exists>cs. unpack_loop e aKey (length aKey) szHdr (idx + length (putVarint32 ?t)) (d + length (serial_data m ff)) dest = Some cs \<and>
        map cell_value cs = take (length dest) (map cell_value ms')"
    proof (rule Cons.IH)
      show "list_all cell_ok ms'" using Cons.prems(1) Cons by simp
      show "drop (idx + length (putVarint32 ?t)) aKey = types_bytes ff ms' @ q"
        using arg_cong [OF t, of "drop (length (putVarint32 ?t))"] by (simp add: add.commute)
      show "szHdr = idx + length (putVarint32 ?t) + length (types_bytes ff ms')"
        using Cons.prems(3) Cons by (simp add: types_bytes_def)
      show "drop (d + length (serial_data m ff)) aKey = data_bytes ff ms'"
        using arg_cong [OF d, of "drop (length (serial_data m ff))"] by (simp add: add.commute)
    qed (rule len)
    then show ?thesis
      using lt m' t Cons Cons.prems(5) get_putVarint32 [of ?t] by auto
  qed
qed simp

lemma unpack_record:
  assumes "is_record ff ms r" "list_all cell_ok ms"
  shows "\<exists>cs. sqlite3VdbeRecordUnpack ki r (length r) dest = Some cs \<and>
    map cell_value cs = take (length dest) (map cell_value ms)"
proof -
  obtain h where r: "r = putVarint32 h @ types_bytes ff ms @ data_bytes ff ms"
    "unat h = length (putVarint32 h) + length (types_bytes ff ms)"
    using assms(1) by (auto simp: is_record_def)
  have "\<exists>cs. unpack_loop (kenc ki) r (length r) (unat h) (length (putVarint32 h)) (unat h) dest = Some cs \<and>
    map cell_value cs = take (length dest) (map cell_value ms)"
    by (rule unpack_text [OF assms(2)]) (use r in simp_all)
  then show ?thesis using r(1) get_putVarint32 [of h] by (simp add: sqlite3VdbeRecordUnpack_def)
qed

text \<open>The record as the b-tree stores it, with its tail of zeros.\<close>

lemma MakeRecord_record:
  assumes "list_all record_cell cells" "\<And>m. m \<in> set cells \<Longrightarrow> ok m" "length cells \<le> 32767"
    and "OP_MakeRecord ok grow limit ff cells pOut = Some (Inr out)"
  obtains ms where "is_record ff ms (cell_bytes out)" "list_all record_cell ms" "map cell_value ms = map cell_value cells"
proof -
  let ?ms = "map expanded cells"
  obtain r n where r: "is_record ff ?ms r" "n \<le> length r" "drop n r = replicate (length r - n) 0"
    and eq: "OP_MakeRecord ok grow limit ff cells pOut =
      Some (if n > limit then Inl SQLITE_TOOBIG else if \<not> grow then Inl SQLITE_NOMEM
        else Inr (pOut\<lparr>mz := take n r, own := True, mn := n, enc := SQLITE_UTF8,
              flags := (if n < length r then MEM_Blob OR MEM_Dyn OR MEM_Zero else MEM_Blob OR MEM_Dyn),
              nZero := (if n < length r then length r - n else nZero pOut)\<rparr>))"
    using MakeRecord_post [OF assms(1) _ assms(3), where ok = ok and ff = ff and limit = limit and grow = grow and pOut = pOut]
      assms(2) by blast
  have out: "out = pOut\<lparr>mz := take n r, own := True, mn := n, enc := SQLITE_UTF8,
              flags := (if n < length r then MEM_Blob OR MEM_Dyn OR MEM_Zero else MEM_Blob OR MEM_Dyn),
              nZero := (if n < length r then length r - n else nZero pOut)\<rparr>"
    using assms(4) unfolding eq by (cases "n > limit"; cases grow) (simp_all only: option.inject sum.inject sum.distinct if_True if_False simp_thms)
  have z: "has out MEM_Zero \<longleftrightarrow> n < length r"
    unfolding out by (simp add: has_def flag_values MEM_Dyn_def)
  have "cell_bytes out = take n r @ (if n < length r then replicate (length r - n) 0 else [])"
    unfolding cell_bytes_def z using r(2) by (simp add: out)
  also have "\<dots> = take n r @ drop n r" using r(3) by auto
  finally have "cell_bytes out = r" by simp
  moreover have "list_all record_cell ?ms" "map cell_value ?ms = map cell_value cells"
    using assms(1) expanded by (auto simp: list_all_iff)
  ultimately show thesis using that r(1) by metis
qed

section \<open>Comparing a record with a key\<close>

lemma serial_get_single:
  assumes "cell_ok m"
  shows "\<exists>m'. sqlite3VdbeSerialGet (serial_data m ff @ q) (sqlite3VdbeSerialType m ff) m0 = Some (length (serial_data m ff), m') \<and>
    cell_value m' = cell_value m \<and> enc m' = enc m0 \<and> cell_single m'"
proof -
  obtain m' where m': "sqlite3VdbeSerialGet (serial_data m ff @ q) (sqlite3VdbeSerialType m ff) m0 = Some (length (serial_data m ff), m')"
    "cell_value m' = cell_value m" "enc m' = enc m0"
    using serial_get_data [OF assms] by metis
  have "cell_single m'"
  proof (cases rule: cell_kind [of m])
    case Null
    then have "flags m' = MEM_Null" using serial_data_null [OF Null] m'(1) by auto
    then show ?thesis by (simp add: cell_single_def has_def flag_values)
  next
    case Int
    then have "flags m' = MEM_Int" using serial_data_int(1) [OF Int, of ff q m0] m'(1) by auto
    then show ?thesis by (simp add: cell_single_def has_def flag_values)
  next
    case Real
    then have "flags m' = (if sqlite3IsNaN (rval m) then MEM_Null else MEM_Real)" "rval m' = rval m"
      using serial_data_real(1) [OF Real, of ff q m0] m'(1) by auto
    then show ?thesis by (simp add: cell_single_def has_def flag_values)
  next
    case Bytes
    then have "flags m' = (if has m MEM_Str then MEM_Str OR MEM_Ephem else MEM_Blob OR MEM_Ephem)"
      "mz m' = cell_bytes m @ q" "mn m' = length (cell_bytes m)"
      using serial_data_bytes(1) [OF assms Bytes, of ff q m0] m'(1) by auto
    then show ?thesis by (simp add: cell_single_def has_def flag_values MEM_Ephem_def)
  qed
  then show ?thesis using m' by blast
qed

text \<open>
  The comparison of two lists of values, field by field: the first difference decides, with its sign reversed
  in a descending field; \<open>None\<close> if there is none, with the number of fields compared.
\<close>

fun fields_cmp :: "keyinfo \<Rightarrow> nat \<Rightarrow> sqlval list \<Rightarrow> sqlval list \<Rightarrow> int option" where
  "fields_cmp ki i (a # as) (b # bs) =
     (let c = value_cmp (if i < kField ki then map_option xCmp (aColl ki ! i) else None) a b
      in if c \<noteq> 0 then Some (if i < kField ki \<and> aSortOrder ki ! i then - c else c) else fields_cmp ki (i + 1) as bs)"
| "fields_cmp ki i _ _ = None"

definition record_cmp :: "unpacked \<Rightarrow> sqlval list \<Rightarrow> int" where
  "record_cmp p vs =
     (case fields_cmp (pKeyInfo p) 0 vs (map cell_value (aMem p)) of
        Some c \<Rightarrow> c
      | None \<Rightarrow> if uflags p AND UNPACKED_INCRKEY \<noteq> 0 then -1
                else if uflags p AND UNPACKED_PREFIX_MATCH \<noteq> 0 then 0
                else if length vs > length (aMem p) then 1 else 0)"

definition key_ok :: "unpacked \<Rightarrow> bool" where
  "key_ok p \<longleftrightarrow> list_all cell_single (aMem p) \<and>
     length (aColl (pKeyInfo p)) = kField (pKeyInfo p) \<and>
     (\<forall>c. Some c \<in> set (aColl (pKeyInfo p)) \<longrightarrow> cenc c = kenc (pKeyInfo p))"

lemma sgn_zero_iff: "sgn a = sgn b \<Longrightarrow> a = 0 \<longleftrightarrow> b = (0 :: int)"
  by (auto simp: sgn_if split: if_splits)

lemma compare_text:
  assumes "list_all cell_ok ms" "list_all cell_single m2s" "enc mem1 = kenc (pKeyInfo p)"
    and ki: "length (aColl (pKeyInfo p)) = kField (pKeyInfo p)"
      "\<And>c. Some c \<in> set (aColl (pKeyInfo p)) \<Longrightarrow> cenc c = kenc (pKeyInfo p)"
    and "drop idx aKey = types_bytes ff ms @ q" "szHdr = idx + length (types_bytes ff ms)"
    and "drop d aKey = data_bytes ff ms" "d \<le> length aKey"
  shows "\<exists>r. compare_loop ok (length aKey) aKey szHdr p m2s i idx d mem1 = Some r \<and>
    (case fields_cmp (pKeyInfo p) i (map cell_value ms) (map cell_value m2s) of
       None \<Rightarrow> \<exists>idx'. r = Inr idx' \<and> (idx' < szHdr \<longleftrightarrow> length ms > length m2s)
     | Some c \<Rightarrow> \<exists>rc p'. r = Inl (rc, p') \<and> sgn rc = sgn c)"
  using assms(1-3,6-)
proof (induction m2s arbitrary: ms idx d i mem1)
  case Nil
  have "0 < length ms \<longleftrightarrow> 0 < length (types_bytes ff ms)"
    using putVarint32_pos by (cases ms) (auto simp: types_bytes_def)
  then show ?case using Nil.prems by simp
next
  case (Cons m2 m2s)
  show ?case
  proof (cases ms)
    case Nil
    then show ?thesis using Cons.prems by (simp add: types_bytes_def)
  next
    case (Cons m ms')
    let ?t = "sqlite3VdbeSerialType m ff" and ?coll = "if i < kField (pKeyInfo p) then aColl (pKeyInfo p) ! i else None"
    have t: "drop idx aKey = putVarint32 ?t @ types_bytes ff ms' @ q"
      and d: "drop d aKey = serial_data m ff @ data_bytes ff ms'"
      using Cons.prems(4,6) Cons by (simp_all add: types_bytes_def data_bytes_def)
    have lt: "idx < szHdr" using Cons.prems(5) Cons putVarint32_pos [of ?t] by (simp add: types_bytes_def)
    obtain m' where m': "sqlite3VdbeSerialGet (drop d aKey) ?t mem1 = Some (length (serial_data m ff), m')"
      "cell_value m' = cell_value m" "enc m' = enc mem1" "cell_single m'"
      using serial_get_single [of m ff "data_bytes ff ms'" mem1] Cons.prems(1) Cons d by auto
    have len: "d + length (serial_data m ff) \<le> length aKey"
      using arg_cong [OF d, of length] Cons.prems(7) by simp
    have nb: "\<not> (length aKey \<le> d \<and> 0 < sqlite3VdbeSerialTypeLen ?t)"
      using len serial_data_length [of m ff] Cons.prems(1) Cons by (auto simp: word_less_nat_alt)
    have "text_encoded m' ?coll"
    proof (cases "i < kField (pKeyInfo p) \<and> aColl (pKeyInfo p) ! i \<noteq> None")
      case True
      then obtain c where c: "aColl (pKeyInfo p) ! i = Some c" by auto
      then have "cenc c = enc m'"
        using True ki m'(3) Cons.prems(3) nth_mem [of i "aColl (pKeyInfo p)"] by simp
      then show ?thesis using True c by (simp add: text_encoded_def)
    qed (auto simp: text_encoded_def)
    then obtain rc where rc: "sqlite3MemCompare ok m' m2 ?coll = Some rc"
      "sgn rc = sgn (value_cmp (map_option xCmp ?coll) (cell_value m) (cell_value m2))"
      using MemCompare_value_post [OF m'(4), of m2 ?coll ok] Cons.prems(2) m'(2) by auto
    have map: "map_option xCmp ?coll = (if i < kField (pKeyInfo p) then map_option xCmp (aColl (pKeyInfo p) ! i) else None)" by simp
    have IH: "\<exists>r. compare_loop ok (length aKey) aKey szHdr p m2s (i + 1) (idx + length (putVarint32 ?t)) (d + length (serial_data m ff)) m' = Some r \<and>
    (case fields_cmp (pKeyInfo p) (i + 1) (map cell_value ms') (map cell_value m2s) of
       None \<Rightarrow> \<exists>idx'. r = Inr idx' \<and> (idx' < szHdr \<longleftrightarrow> length ms' > length m2s)
     | Some c \<Rightarrow> \<exists>rc p'. r = Inl (rc, p') \<and> sgn rc = sgn c)"
    proof (rule Cons.IH)
      show "list_all cell_ok ms'" using Cons.prems(1) Cons by simp
      show "list_all cell_single m2s" using Cons.prems(2) by simp
      show "enc m' = kenc (pKeyInfo p)" using m'(3) Cons.prems(3) by simp
      show "drop (idx + length (putVarint32 ?t)) aKey = types_bytes ff ms' @ q"
        using arg_cong [OF t, of "drop (length (putVarint32 ?t))"] by (simp add: add.commute)
      show "szHdr = idx + length (putVarint32 ?t) + length (types_bytes ff ms')"
        using Cons.prems(5) Cons by (simp add: types_bytes_def)
      show "drop (d + length (serial_data m ff)) aKey = data_bytes ff ms'"
        using arg_cong [OF d, of "drop (length (serial_data m ff))"] by (simp add: add.commute)
    qed (rule len)
    have g: "getVarint32 (drop idx aKey) = Some (?t, length (putVarint32 ?t))" using t get_putVarint32 by simp
    show ?thesis
    proof (cases "rc = 0")
      case True
      then have z: "value_cmp (map_option xCmp ?coll) (cell_value m) (cell_value m2) = 0" using sgn_zero_iff [OF rc(2)] by simp
      have cl: "compare_loop ok (length aKey) aKey szHdr p (m2 # m2s) i idx d mem1 =
        compare_loop ok (length aKey) aKey szHdr p m2s (i + 1) (idx + length (putVarint32 ?t)) (d + length (serial_data m ff)) m'"
        using lt g nb m'(1) rc(1) True by (auto simp del: One_nat_def)
      have fl: "fields_cmp (pKeyInfo p) i (map cell_value (m # ms')) (map cell_value (m2 # m2s)) =
        fields_cmp (pKeyInfo p) (i + 1) (map cell_value ms') (map cell_value m2s)"
        using z by (simp add: map del: One_nat_def)
      have ll: "length (m2 # m2s) < length (m # ms') \<longleftrightarrow> length m2s < length ms'" by simp
      show ?thesis unfolding cl Cons fl ll by (rule IH)
    next
      case False
      then have z: "value_cmp (map_option xCmp ?coll) (cell_value m) (cell_value m2) \<noteq> 0" using sgn_zero_iff [OF rc(2)] by simp
      let ?neg = "i < kField (pKeyInfo p) \<and> aSortOrder (pKeyInfo p) ! i"
      let ?v = "value_cmp (map_option xCmp ?coll) (cell_value m) (cell_value m2)"
      have "\<exists>p'. compare_loop ok (length aKey) aKey szHdr p (m2 # m2s) i idx d mem1 = Some (Inl (if ?neg then - rc else rc, p'))"
        using lt g nb m'(1) rc(1) False by (auto simp add: Let_def simp del: One_nat_def)
      then obtain p' where cl: "compare_loop ok (length aKey) aKey szHdr p (m2 # m2s) i idx d mem1 = Some (Inl (if ?neg then - rc else rc, p'))"
        by blast
      have fl: "fields_cmp (pKeyInfo p) i (map cell_value (m # ms')) (map cell_value (m2 # m2s)) = Some (if ?neg then - ?v else ?v)"
        using z by (simp add: map Let_def del: One_nat_def)
      show ?thesis unfolding cl Cons fl using rc(2) by (simp add: sgn_minus)
    qed
  qed
qed

lemma RecordCompare_post:
  assumes "is_record ff ms r" "list_all cell_ok ms" "key_ok p"
  shows "\<exists>rc p'. sqlite3VdbeRecordCompare ok mem1 (length r) r p = Some (rc, p') \<and>
    sgn rc = sgn (record_cmp p (map cell_value ms))"
proof -
  obtain h where r: "r = putVarint32 h @ types_bytes ff ms @ data_bytes ff ms"
    "unat h = length (putVarint32 h) + length (types_bytes ff ms)"
    using assms(1) by (auto simp: is_record_def)
  let ?f = "fields_cmp (pKeyInfo p) 0 (map cell_value ms) (map cell_value (aMem p))"
  have "\<exists>x. compare_loop ok (length r) r (unat h) p (aMem p) 0 (length (putVarint32 h)) (unat h)
      (mem1\<lparr>enc := kenc (pKeyInfo p)\<rparr>) = Some x \<and>
    (case ?f of
       None \<Rightarrow> \<exists>idx'. x = Inr idx' \<and> (idx' < unat h \<longleftrightarrow> length ms > length (aMem p))
     | Some c \<Rightarrow> \<exists>rc p'. x = Inl (rc, p') \<and> sgn rc = sgn c)"
    by (rule compare_text [OF assms(2)]) (use r assms(3) in \<open>auto simp: key_ok_def\<close>)
  then obtain x where x: "compare_loop ok (length r) r (unat h) p (aMem p) 0 (length (putVarint32 h)) (unat h)
      (mem1\<lparr>enc := kenc (pKeyInfo p)\<rparr>) = Some x"
    "case ?f of
       None \<Rightarrow> \<exists>idx'. x = Inr idx' \<and> (idx' < unat h \<longleftrightarrow> length ms > length (aMem p))
     | Some c \<Rightarrow> \<exists>rc p'. x = Inl (rc, p') \<and> sgn rc = sgn c" by blast
  have g: "getVarint32 r = Some (h, length (putVarint32 h))" using r(1) get_putVarint32 by simp
  show ?thesis
  proof (cases ?f)
    case None
    then show ?thesis using x g by (auto simp: sqlite3VdbeRecordCompare_def record_cmp_def)
  next
    case (Some c)
    then show ?thesis using x g by (auto simp: sqlite3VdbeRecordCompare_def record_cmp_def)
  qed
qed

section \<open>The rowid of an index entry\<close>

lemma IdxRowid_post:
  assumes "is_record ff (ms @ [m]) r" "list_all cell_ok (ms @ [m])" "ms \<noteq> []" "\<not> has m MEM_Null" "has m MEM_Int"
  shows "sqlite3VdbeIdxRowid (Inr r) v = Some (Inr (ival m))"
proof -
  let ?t = "sqlite3VdbeSerialType m ff" and ?T = "types_bytes ff ms" and ?d = "serial_data m ff"
  obtain h where r: "r = putVarint32 h @ (?T @ putVarint32 ?t) @ data_bytes ff ms @ ?d"
    "unat h = length (putVarint32 h) + (length ?T + length (putVarint32 ?t))"
    using assms(1) by (auto simp: is_record_def types_bytes_def data_bytes_def)
  have "1 \<le> ?t \<and> ?t \<le> 9 \<and> ?t \<noteq> 7"
  proof (cases rule: int_type [OF assms(4,5), of ff])
    case (1 k t)
    then show ?thesis by (auto simp: word_le_nat_alt)
  qed (simp_all add: word_le_nat_alt)
  then have t: "1 \<le> ?t" "?t \<le> 9" "?t \<noteq> 7" by blast+
  have small: "?t < 0x80" using t(2) by (simp add: word_le_nat_alt word_less_nat_alt)
  then have pt: "putVarint32 ?t = [ucast ?t]" by (simp add: putVarint32_def)
  have "1 \<le> length (putVarint32 h)" "1 \<le> length ?T"
  proof -
    show "1 \<le> length (putVarint32 h)" using putVarint32_pos [of h] by linarith
    have "1 \<le> length ms" using assms(3) by (cases ms) simp_all
    then show "1 \<le> length ?T" using length_types_bytes(2) [of ms ff] by linarith
  qed
  moreover have "unat h = length (putVarint32 h) + (length ?T + 1)" using r(2) pt by simp
  moreover have "length r = unat h + (length (data_bytes ff ms) + length ?d)" unfolding r(2) by (simp add: r(1))
  ultimately have h: "3 \<le> unat h" "unat h \<le> length r" "unat h - 1 = length (putVarint32 h @ ?T)"
    unfolding length_append by linarith+
  have m: "cell_ok m" using assms(2) by simp
  have len: "unat (sqlite3VdbeSerialTypeLen ?t) = length ?d" using serial_data_length [OF m] by simp
  have "drop (unat h - 1) r = putVarint32 ?t @ data_bytes ff ms @ ?d" unfolding h(3) r(1) by simp
  then have g: "getVarint32 (drop (unat h - 1) r) = Some (?t, length (putVarint32 ?t))" by (simp only: get_putVarint32)
  have g0: "getVarint32 r = Some (h, length (putVarint32 h))" unfolding r(1) by (rule get_putVarint32)
  have le: "unat h + length ?d \<le> length r" using r by simp
  have "drop (length r - length ?d) r = ?d" unfolding r(1) by simp
  moreover have "sqlite3VdbeSerialGet ?d ?t v = Some (length ?d, v\<lparr>ival := ival m, flags := MEM_Int\<rparr>)"
    using serial_data_int(1) [OF assms(4,5), of ff "[]" v] by simp
  ultimately show ?thesis
    using h(1,2) t le g by (auto simp: sqlite3VdbeIdxRowid_def g0 len word_less_nat_alt word_le_nat_alt)
qed

section \<open>Properties\<close>

text \<open>
  C33: What \<open>OP_MakeRecord\<close> builds, \<open>sqlite3VdbeRecordUnpack\<close> reads back: the values of the
  cells, as many as there is room for.
\<close>

theorem record_roundtrip:
  assumes "list_all record_cell cells" "\<And>m. m \<in> set cells \<Longrightarrow> ok m" "length cells \<le> 32767"
    and "OP_MakeRecord ok grow limit ff cells pOut = Some (Inr out)"
  shows "\<exists>cs. sqlite3VdbeRecordUnpack ki (cell_bytes out) (length (cell_bytes out)) dest = Some cs \<and>
    map cell_value cs = take (length dest) (map cell_value cells)"
proof -
  obtain ms where ms: "is_record ff ms (cell_bytes out)" "list_all record_cell ms" "map cell_value ms = map cell_value cells"
    using MakeRecord_record [OF assms(1) _ assms(3,4)] assms(2) by blast
  have "list_all cell_ok ms" using ms(2) by (simp add: list_all_iff record_cell_def)
  from unpack_record [OF ms(1) this] ms(3) show ?thesis by metis
qed

text \<open>A cell that holds text.\<close>

definition text_cell :: "u8 list \<Rightarrow> cell" where
  "text_cell z = \<lparr>enc = SQLITE_UTF8, flags = MEM_Str, mn = length z, mz = z, own = False, ival = 0, nZero = 0, rval = 0\<rparr>"

text \<open>A cell that holds a blob of zeros.\<close>

definition zero_cell :: "nat \<Rightarrow> cell" where
  "zero_cell n = \<lparr>enc = SQLITE_UTF8, flags = MEM_Blob OR MEM_Zero, mn = 0, mz = [], own = False, ival = 0, nZero = n, rval = 0\<rparr>"

lemmas example_cells = text_cell_def int_cell_def zero_cell_def has_def flag_values

lemma example_types:
  "sqlite3VdbeSerialType (text_cell [0x41]) 4 = 15" "sqlite3VdbeSerialType (int_cell 300) 4 = 2"
  "sqlite3VdbeSerialType (zero_cell 2) 4 = 16"
  "sqlite3VdbeSerialTypeLen 15 = 1" "sqlite3VdbeSerialTypeLen 16 = 2"
  by (simp_all add: sqlite3VdbeSerialType_def example_cells Let_def MAX_6BYTE_def sqlite3VdbeSerialTypeLen_def word_le_nat_alt unat_div)

lemma example_has: "has (text_cell z) MEM_Zero = False" "has (int_cell i) MEM_Zero = False" "has (zero_cell n) MEM_Zero = True"
  by (simp_all add: example_cells)

lemma varintLen_example: "sqlite3VarintLen 2 = 1" "sqlite3VarintLen 3 = 1" "sqlite3VarintLen 4 = 1" "sqlite3VarintLen 15 = 1" "sqlite3VarintLen 16 = 1"
  by (simp_all add: sqlite3VarintLen_def varintLen_loop.simps)

lemma putVarint32_example:
  "putVarint32 2 = [2]" "putVarint32 3 = [3]" "putVarint32 4 = [4]" "putVarint32 15 = [15]" "putVarint32 16 = [16]"
  by (simp_all add: putVarint32_def)

lemma example_record:
  "OP_MakeRecord (\<lambda>_. True) True 1000 4 [text_cell [0x41], int_cell 300, zero_cell 2] (int_cell 0) = Some (Inr
     \<lparr>enc = SQLITE_UTF8, flags = MEM_Blob OR MEM_Dyn OR MEM_Zero, mn = 7, mz = [4, 15, 2, 16, 0x41, 1, 44], own = True, ival = 0, nZero = 2, rval = 0\<rparr>)"
proof -
  have s: "record_sizes (\<lambda>_. True) 4 [text_cell [0x41], int_cell 300, zero_cell 2] 0 0 0 =
    ([text_cell [0x41], int_cell 300, zero_cell 2], 5, 3, 2)"
    by (simp add: example_types example_has varintLen_example Let_def) (simp add: zero_cell_def)
  have d: "record_data 4 [text_cell [0x41], int_cell 300, zero_cell 2] 3 = Some [0x41, 1, 44]"
    by (simp add: sqlite3VdbeSerialPut_def example_types example_has Let_def) (simp add: text_cell_def int_cell_def zero_cell_def put_be_numeral)
  have h: "(let nVarint = sqlite3VarintLen (of_nat 3); nHdr = 3 + nVarint in
      if nVarint < sqlite3VarintLen (of_nat nHdr) then nHdr + 1 else nHdr) = 4"
    by (simp add: varintLen_example Let_def)
  have c: "concat (map (\<lambda>m. putVarint32 (sqlite3VdbeSerialType m 4)) [text_cell [0x41], int_cell 300, zero_cell 2]) = [15, 2, 16]"
    by (simp add: example_types putVarint32_example)
  show ?thesis
    unfolding OP_MakeRecord_def s prod.case Let_def
    unfolding h [unfolded Let_def] c
    by (simp add: putVarint32_example d del: record_data.simps) (simp add: int_cell_def)
qed


lemma example_values:
  "map cell_value [text_cell [0x41], int_cell 300, zero_cell 2] = [VText [0x41], VInt 300, VBlob [0, 0]]"
  "list_all record_cell [text_cell [0x41], int_cell 300, zero_cell 2]"
  by (simp_all add: cell_value_def cell_bytes_def record_cell_def cell_ok_def example_cells) (simp add: numeral_2_eq_2)


theorem record_roundtrip_witness:
  "\<exists>out cs. OP_MakeRecord (\<lambda>_. True) True 1000 4 [text_cell [0x41], int_cell 300, zero_cell 2] (int_cell 0) = Some (Inr out) \<and>
    sqlite3VdbeRecordUnpack \<lparr>kenc = SQLITE_UTF8, aColl = [], aSortOrder = [], kField = 0\<rparr> (cell_bytes out) (length (cell_bytes out)) (replicate 5 (int_cell 0)) = Some cs \<and>
    map cell_value cs = [VText [0x41], VInt 300, VBlob [0, 0]]"
  using record_roundtrip [OF example_values(2) _ _ example_record, of "\<lparr>kenc = SQLITE_UTF8, aColl = [], aSortOrder = [], kField = 0\<rparr>" "replicate 5 (int_cell 0)"] example_record
  unfolding example_values(1) by auto






lemma example_index_entry:
  "\<exists>out. OP_MakeRecord (\<lambda>_. True) True 1000 4 [text_cell [0x41], int_cell 300] (int_cell 0) = Some (Inr out)"
proof -
  have s: "record_sizes (\<lambda>_. True) 4 [text_cell [0x41], int_cell 300] 0 0 0 = ([text_cell [0x41], int_cell 300], 3, 2, 0)"
    by (simp add: example_types example_has varintLen_example Let_def)
  have d: "record_data 4 [text_cell [0x41], int_cell 300] 3 = Some [0x41, 1, 44]"
    by (simp add: sqlite3VdbeSerialPut_def example_types example_has Let_def) (simp add: text_cell_def int_cell_def put_be_numeral)
  have h: "(let nVarint = sqlite3VarintLen (of_nat 2); nHdr = 2 + nVarint in
      if nVarint < sqlite3VarintLen (of_nat nHdr) then nHdr + 1 else nHdr) = 3"
    by (simp add: varintLen_example Let_def)
  have c: "concat (map (\<lambda>m. putVarint32 (sqlite3VdbeSerialType m 4)) [text_cell [0x41], int_cell 300]) = [15, 2]"
    by (simp add: example_types putVarint32_example)
  show ?thesis
    unfolding OP_MakeRecord_def s prod.case Let_def
    unfolding h [unfolded Let_def] c
    by (simp add: putVarint32_example d del: record_data.simps)
qed


end
