(* ===== verification/UnixLock.thy ===== *)
theory UnixLock
  imports Prelude
begin

text \<open>
  File locks, \<^verbatim>\<open>src/os_unix.c\<close>: how the five lock levels of a database connection are built from
  the advisory record locks of the operating system. An operation is a program of system
  calls, so that the operations of different processes interleave at every call. The calls are
  those of POSIX (\<open>fcntl\<close> with \<^verbatim>\<open>F_SETLK\<close> and \<^verbatim>\<open>F_GETLK\<close>); the mutex of the process makes an operation
  atomic for the threads of one process, which share one \<^verbatim>\<open>unixInodeInfo\<close>.
\<close>

section \<open>Lock levels\<close>

datatype lock = NO_LOCK | SHARED_LOCK | RESERVED_LOCK | PENDING_LOCK | EXCLUSIVE_LOCK

primrec lock_level :: "lock \<Rightarrow> nat" where
  "lock_level NO_LOCK = 0"
| "lock_level SHARED_LOCK = 1"
| "lock_level RESERVED_LOCK = 2"
| "lock_level PENDING_LOCK = 3"
| "lock_level EXCLUSIVE_LOCK = 4"

text \<open>The code compares levels as the small integers that they are.\<close>

instantiation lock :: linorder
begin

definition less_eq_lock :: "lock \<Rightarrow> lock \<Rightarrow> bool" where
  "less_eq_lock a b \<longleftrightarrow> lock_level a \<le> lock_level b"

definition less_lock :: "lock \<Rightarrow> lock \<Rightarrow> bool" where
  "less_lock a b \<longleftrightarrow> lock_level a < lock_level b"

instance
proof
  fix a b :: lock
  show "a \<le> b \<Longrightarrow> b \<le> a \<Longrightarrow> a = b"
    by (cases a; cases b) (simp_all add: less_eq_lock_def)
qed (auto simp: less_eq_lock_def less_lock_def)

end

lemmas lock_order = less_eq_lock_def less_lock_def

section \<open>System calls\<close>

datatype ltype = F_UNLCK | F_RDLCK | F_WRLCK

record flock =
  l_type :: ltype
  l_start :: nat
  l_len :: nat

datatype errno =
  EAGAIN | ETIMEDOUT | EBUSY | EINTR | ENOLCK | EACCES | EPERM | EDEADLK | EOPNOTSUPP | ENOTSUP
  | EIO | EBADF | EINVAL | ENOTCONN | ENODEV | ENXIO | ENOENT | ESTALE | ENOSYS | E_OTHER

text \<open>
  A program performs system calls and then returns. The answer to \<open>F_SETLK\<close> is success (\<open>Inr\<close>) or an
  error, that to \<open>F_GETLK\<close> also the type of a conflicting lock.
\<close>

datatype syscall = SETLK flock | GETLK flock

datatype 'a prog = Ret 'a | Fcntl syscall "errno + ltype \<Rightarrow> 'a prog"

abbreviation (input) SQLITE_PERM :: int where "SQLITE_PERM \<equiv> 3"
abbreviation (input) SQLITE_BUSY :: int where "SQLITE_BUSY \<equiv> 5"
definition SQLITE_IOERR_UNLOCK :: int where "SQLITE_IOERR_UNLOCK = 10 + 8 * 2 ^ 8"
definition SQLITE_IOERR_RDLOCK :: int where "SQLITE_IOERR_RDLOCK = 10 + 9 * 2 ^ 8"
definition SQLITE_IOERR_CHECKRESERVEDLOCK :: int where "SQLITE_IOERR_CHECKRESERVEDLOCK = 10 + 14 * 2 ^ 8"
definition SQLITE_IOERR_LOCK :: int where "SQLITE_IOERR_LOCK = 10 + 15 * 2 ^ 8"

definition sqliteErrorFromPosixError :: "errno \<Rightarrow> int \<Rightarrow> int" where
  "sqliteErrorFromPosixError posixError sqliteIOErr =
     (case posixError of
        EAGAIN \<Rightarrow> SQLITE_BUSY
      | ETIMEDOUT \<Rightarrow> SQLITE_BUSY
      | EBUSY \<Rightarrow> SQLITE_BUSY
      | EINTR \<Rightarrow> SQLITE_BUSY
      | ENOLCK \<Rightarrow> SQLITE_BUSY
      | EACCES \<Rightarrow>
          if sqliteIOErr = SQLITE_IOERR_LOCK \<or> sqliteIOErr = SQLITE_IOERR_UNLOCK \<or>
             sqliteIOErr = SQLITE_IOERR_RDLOCK \<or> sqliteIOErr = SQLITE_IOERR_CHECKRESERVEDLOCK
          then SQLITE_BUSY else SQLITE_PERM
      | EPERM \<Rightarrow> SQLITE_PERM
      | _ \<Rightarrow> sqliteIOErr)"

section \<open>The state of a process\<close>

record unixFile =
  eFileLock :: lock
  lastErrno :: "errno option"
  UNIXFILE_EXCL :: bool
  UNIXFILE_RDONLY :: bool

record unixInodeInfo =
  nShared :: nat
  iFileLock :: lock
  bProcessLock :: bool
  nLock :: nat
  pUnused :: nat

text \<open>The handles of one process on one file; \<open>pUnused\<close> counts the descriptors whose close is deferred.\<close>

record process =
  pInode :: unixInodeInfo
  pFile :: "nat \<Rightarrow> unixFile"

definition PENDING_BYTE :: nat where "PENDING_BYTE = 0x40000000"
definition RESERVED_BYTE :: nat where "RESERVED_BYTE = PENDING_BYTE + 1"
definition SHARED_FIRST :: nat where "SHARED_FIRST = PENDING_BYTE + 2"
definition SHARED_SIZE :: nat where "SHARED_SIZE = 510"

definition set_level :: "nat \<Rightarrow> lock \<Rightarrow> process \<Rightarrow> process" where
  "set_level h l s = s\<lparr>pFile := (pFile s)(h := pFile s h\<lparr>eFileLock := l\<rparr>)\<rparr>"

definition set_errno :: "nat \<Rightarrow> errno \<Rightarrow> process \<Rightarrow> process" where
  "set_errno h e s = s\<lparr>pFile := (pFile s)(h := pFile s h\<lparr>lastErrno := Some e\<rparr>)\<rparr>"

section \<open>Operations\<close>

text \<open>The continuation gets the \<^verbatim>\<open>errno\<close> of a failure.\<close>

definition unixFileLock :: "nat \<Rightarrow> flock \<Rightarrow> process \<Rightarrow> (errno option \<Rightarrow> process \<Rightarrow> 'a prog) \<Rightarrow> 'a prog" where
  "unixFileLock h pLock s k =
     (if (UNIXFILE_EXCL (pFile s h) \<or> bProcessLock (pInode s)) \<and> \<not> UNIXFILE_RDONLY (pFile s h)
      then if \<not> bProcessLock (pInode s)
           then Fcntl (SETLK \<lparr>l_type = F_WRLCK, l_start = SHARED_FIRST, l_len = SHARED_SIZE\<rparr>)
             (\<lambda>r. case r of
                Inl e \<Rightarrow> k (Some e) s
              | Inr _ \<Rightarrow> k None (s\<lparr>pInode := pInode s\<lparr>bProcessLock := True, nLock := nLock (pInode s) + 1\<rparr>\<rparr>))
           else k None s
      else Fcntl (SETLK pLock) (\<lambda>r. case r of Inl e \<Rightarrow> k (Some e) s | Inr _ \<Rightarrow> k None s))"

definition unixCheckReservedLock :: "nat \<Rightarrow> process \<Rightarrow> ((int \<times> bool) \<times> process) prog" where
  "unixCheckReservedLock h s =
     (let reserved = iFileLock (pInode s) > SHARED_LOCK
      in if \<not> reserved \<and> \<not> bProcessLock (pInode s)
         then Fcntl (GETLK \<lparr>l_type = F_WRLCK, l_start = RESERVED_BYTE, l_len = 1\<rparr>)
           (\<lambda>r. case r of
              Inl e \<Rightarrow> Ret ((SQLITE_IOERR_CHECKRESERVEDLOCK, reserved), set_errno h e s)
            | Inr t \<Rightarrow> Ret ((SQLITE_OK, t \<noteq> F_UNLCK), s))
         else Ret ((SQLITE_OK, reserved), s))"

text \<open>The end of \<open>unixLock\<close> before the label \<^verbatim>\<open>end_lock\<close>.\<close>

definition lock_finish :: "nat \<Rightarrow> lock \<Rightarrow> int \<Rightarrow> process \<Rightarrow> (int \<times> process) prog" where
  "lock_finish h l rc s =
     (if rc = SQLITE_OK
      then Ret (rc, (set_level h l s)\<lparr>pInode := pInode s\<lparr>iFileLock := l\<rparr>\<rparr>)
      else if l = EXCLUSIVE_LOCK
      then Ret (rc, (set_level h PENDING_LOCK s)\<lparr>pInode := pInode s\<lparr>iFileLock := PENDING_LOCK\<rparr>\<rparr>)
      else Ret (rc, s))"

text \<open>The system calls for the requested level, once any \<^verbatim>\<open>PENDING\<close> lock is held.\<close>

definition lock_shared :: "nat \<Rightarrow> process \<Rightarrow> (int \<times> process) prog" where
  "lock_shared h s =
     unixFileLock h \<lparr>l_type = F_RDLCK, l_start = SHARED_FIRST, l_len = SHARED_SIZE\<rparr> s (\<lambda>e1 s.
       let rc = (case e1 of None \<Rightarrow> SQLITE_OK | Some e \<Rightarrow> sqliteErrorFromPosixError e SQLITE_IOERR_LOCK)
       in unixFileLock h \<lparr>l_type = F_UNLCK, l_start = PENDING_BYTE, l_len = 1\<rparr> s (\<lambda>e2 s.
         let tErrno = (if e2 \<noteq> None \<and> rc = SQLITE_OK then e2 else e1);
             rc = (if e2 \<noteq> None \<and> rc = SQLITE_OK then SQLITE_IOERR_UNLOCK else rc)
         in if rc \<noteq> SQLITE_OK
            then Ret (rc, if rc \<noteq> SQLITE_BUSY then (case tErrno of None \<Rightarrow> s | Some e \<Rightarrow> set_errno h e s) else s)
            else lock_finish h SHARED_LOCK rc
              ((set_level h SHARED_LOCK s)\<lparr>pInode := pInode s\<lparr>nLock := nLock (pInode s) + 1, nShared := 1\<rparr>\<rparr>)))"

definition lock_write :: "nat \<Rightarrow> lock \<Rightarrow> process \<Rightarrow> (int \<times> process) prog" where
  "lock_write h l s =
     (if l = EXCLUSIVE_LOCK \<and> nShared (pInode s) > 1 then lock_finish h l SQLITE_BUSY s
      else unixFileLock h
        (if l = RESERVED_LOCK then \<lparr>l_type = F_WRLCK, l_start = RESERVED_BYTE, l_len = 1\<rparr>
         else \<lparr>l_type = F_WRLCK, l_start = SHARED_FIRST, l_len = SHARED_SIZE\<rparr>) s (\<lambda>e s.
        case e of
          None \<Rightarrow> lock_finish h l SQLITE_OK s
        | Some e \<Rightarrow>
            let rc = sqliteErrorFromPosixError e SQLITE_IOERR_LOCK
            in lock_finish h l rc (if rc \<noteq> SQLITE_BUSY then set_errno h e s else s)))"

definition unixLock :: "nat \<Rightarrow> lock \<Rightarrow> process \<Rightarrow> (int \<times> process) prog" where
  "unixLock h l s =
     (let f = pFile s h; ino = pInode s
      in if eFileLock f \<ge> l then Ret (SQLITE_OK, s)
         else if eFileLock f \<noteq> iFileLock ino \<and> (iFileLock ino \<ge> PENDING_LOCK \<or> l > SHARED_LOCK)
         then Ret (SQLITE_BUSY, s)
         else if l = SHARED_LOCK \<and> (iFileLock ino = SHARED_LOCK \<or> iFileLock ino = RESERVED_LOCK)
         then Ret (SQLITE_OK, (set_level h SHARED_LOCK s)
           \<lparr>pInode := ino\<lparr>nShared := nShared ino + 1, nLock := nLock ino + 1\<rparr>\<rparr>)
         else if l = SHARED_LOCK \<or> l = EXCLUSIVE_LOCK \<and> eFileLock f < PENDING_LOCK
         then unixFileLock h
           \<lparr>l_type = (if l = SHARED_LOCK then F_RDLCK else F_WRLCK), l_start = PENDING_BYTE, l_len = 1\<rparr> s (\<lambda>e s.
             case e of
               Some e \<Rightarrow>
                 let rc = sqliteErrorFromPosixError e SQLITE_IOERR_LOCK
                 in Ret (rc, if rc \<noteq> SQLITE_BUSY then set_errno h e s else s)
             | None \<Rightarrow> if l = SHARED_LOCK then lock_shared h s else lock_write h l s)
         else lock_write h l s)"

definition closePendingFds :: "process \<Rightarrow> process" where
  "closePendingFds s = s\<lparr>pInode := pInode s\<lparr>pUnused := 0\<rparr>\<rparr>"

text \<open>The second half of \<open>posixUnlock\<close>: the count of shared locks goes down.\<close>

definition unlock_count :: "nat \<Rightarrow> int \<Rightarrow> process \<Rightarrow> (int \<times> process) prog" where
  "unlock_count h rc s =
     (let s = s\<lparr>pInode := pInode s\<lparr>nLock := nLock (pInode s) - 1\<rparr>\<rparr>;
          s = (if nLock (pInode s) = 0 then closePendingFds s else s)
      in Ret (rc, if rc = SQLITE_OK then set_level h NO_LOCK s else s))"

definition unlock_shared :: "nat \<Rightarrow> process \<Rightarrow> (int \<times> process) prog" where
  "unlock_shared h s =
     (let s = s\<lparr>pInode := pInode s\<lparr>nShared := nShared (pInode s) - 1\<rparr>\<rparr>
      in if nShared (pInode s) = 0
         then unixFileLock h \<lparr>l_type = F_UNLCK, l_start = 0, l_len = 0\<rparr> s (\<lambda>e s.
           case e of
             None \<Rightarrow> unlock_count h SQLITE_OK (s\<lparr>pInode := pInode s\<lparr>iFileLock := NO_LOCK\<rparr>\<rparr>)
           | Some e \<Rightarrow> unlock_count h SQLITE_IOERR_UNLOCK
               ((set_level h NO_LOCK (set_errno h e s))\<lparr>pInode := pInode s\<lparr>iFileLock := NO_LOCK\<rparr>\<rparr>))
         else unlock_count h SQLITE_OK s)"

definition IS_LOCK_ERROR :: "int \<Rightarrow> bool" where
  "IS_LOCK_ERROR x \<longleftrightarrow> x \<noteq> SQLITE_OK \<and> x \<noteq> SQLITE_BUSY"

text \<open>From a write to a read lock of the shared range: at once, or on NFS in two blocks.\<close>

definition downgrade :: "nat \<Rightarrow> process \<Rightarrow> (process \<Rightarrow> (int \<times> process) prog) \<Rightarrow> (int \<times> process) prog" where
  "downgrade h s k =
     unixFileLock h \<lparr>l_type = F_RDLCK, l_start = SHARED_FIRST, l_len = SHARED_SIZE\<rparr> s (\<lambda>e s.
       case e of
         None \<Rightarrow> k s
       | Some e \<Rightarrow> Ret (SQLITE_IOERR_RDLOCK, set_errno h e s))"

definition downgrade_nfs :: "nat \<Rightarrow> process \<Rightarrow> (process \<Rightarrow> (int \<times> process) prog) \<Rightarrow> (int \<times> process) prog" where
  "downgrade_nfs h s k =
     (let divSize = SHARED_SIZE - 1;
          failed = (\<lambda>rc e s. Ret (rc, if IS_LOCK_ERROR rc then set_errno h e s else s))
      in unixFileLock h \<lparr>l_type = F_UNLCK, l_start = SHARED_FIRST, l_len = divSize\<rparr> s (\<lambda>e s.
           case e of
             Some e \<Rightarrow> failed SQLITE_IOERR_UNLOCK e s
           | None \<Rightarrow> unixFileLock h \<lparr>l_type = F_RDLCK, l_start = SHARED_FIRST, l_len = divSize\<rparr> s (\<lambda>e s.
               case e of
                 Some e \<Rightarrow> failed (sqliteErrorFromPosixError e SQLITE_IOERR_RDLOCK) e s
               | None \<Rightarrow> unixFileLock h
                   \<lparr>l_type = F_UNLCK, l_start = SHARED_FIRST + divSize, l_len = SHARED_SIZE - divSize\<rparr> s (\<lambda>e s.
                   case e of
                     Some e \<Rightarrow> failed SQLITE_IOERR_UNLOCK e s
                   | None \<Rightarrow> k s))))"

definition posixUnlock :: "nat \<Rightarrow> lock \<Rightarrow> bool \<Rightarrow> process \<Rightarrow> (int \<times> process) prog" where
  "posixUnlock h l handleNFSUnlock s =
     (if eFileLock (pFile s h) \<le> l then Ret (SQLITE_OK, s)
      else
        let rest = (\<lambda>s. if l = NO_LOCK then unlock_shared h s else Ret (SQLITE_OK, set_level h l s));
            release = (\<lambda>s. unixFileLock h \<lparr>l_type = F_UNLCK, l_start = PENDING_BYTE, l_len = 2\<rparr> s (\<lambda>e s.
              case e of
                None \<Rightarrow> rest (s\<lparr>pInode := pInode s\<lparr>iFileLock := SHARED_LOCK\<rparr>\<rparr>)
              | Some e \<Rightarrow> Ret (SQLITE_IOERR_UNLOCK, set_errno h e s)))
        in if eFileLock (pFile s h) > SHARED_LOCK
           then if l = SHARED_LOCK
                then if handleNFSUnlock then downgrade_nfs h s release else downgrade h s release
                else release s
           else rest s)"

definition unixUnlock :: "nat \<Rightarrow> lock \<Rightarrow> process \<Rightarrow> (int \<times> process) prog" where
  "unixUnlock h l s = posixUnlock h l False s"

definition nfsUnlock :: "nat \<Rightarrow> lock \<Rightarrow> process \<Rightarrow> (int \<times> process) prog" where
  "nfsUnlock h l s = posixUnlock h l True s"

end
