(* ===== verification/LockProtocol.thy ===== *)
theory LockProtocol
  imports UnixLock
begin

text \<open>
  The locking protocol: processes that run the operations of \<^verbatim>\<open>src/os_unix.c\<close> against the lock table of the
  operating system, one system call at a time. \<open>good\<close> is what an operation keeps at every call;
  \<open>unixLock_good\<close> and \<open>posixUnlock_good\<close> show it, and \<open>world_ok_step\<close> lifts it to the interleavings. The
  process-wide lock of the \<^verbatim>\<open>unix-excl\<close> file system is in the definitions of the operations, but not in these theorems:
  \<open>fresh_process\<close> opens no such file; unlocking is that of \<open>unixUnlock\<close>. \<^verbatim>\<open>F_UNLCK\<close> requests are taken never to fail.
\<close>

section \<open>Processes and the operating system\<close>

text \<open>
  The lock table: the type of the lock that each process has on each byte. \<open>fcntl\<close> fails if another
  process has a conflicting lock, and may fail for other reasons.
\<close>

definition flock_range :: "flock \<Rightarrow> nat \<Rightarrow> bool" where
  "flock_range fl b \<longleftrightarrow> l_start fl \<le> b \<and> (l_len fl = 0 \<or> b < l_start fl + l_len fl)"

definition set_range :: "(nat \<Rightarrow> ltype) \<Rightarrow> flock \<Rightarrow> nat \<Rightarrow> ltype" where
  "set_range own fl = (\<lambda>b. if flock_range fl b then l_type fl else own b)"

definition conflicting :: "ltype \<Rightarrow> ltype \<Rightarrow> bool" where
  "conflicting a b \<longleftrightarrow> a = F_WRLCK \<and> b \<noteq> F_UNLCK \<or> b = F_WRLCK \<and> a \<noteq> F_UNLCK"

text \<open>
  What runs in a process: nothing, or the rest of an operation. \<open>claims\<close> are the levels that the handles may
  rely on: those before a locking operation until it has returned, those after an unlocking operation as soon as it
  begins.
\<close>

record procstate =
  proc :: process
  running :: "(int \<times> process) prog option"
  claims :: "nat \<Rightarrow> lock"

record world =
  owns :: "nat \<Rightarrow> nat \<Rightarrow> ltype"
  procs :: "nat \<Rightarrow> procstate"

definition levels :: "process \<Rightarrow> nat \<Rightarrow> lock" where
  "levels s h = eFileLock (pFile s h)"

definition blocked :: "world \<Rightarrow> nat \<Rightarrow> flock \<Rightarrow> bool" where
  "blocked w p fl \<longleftrightarrow> (\<exists>q b. q \<noteq> p \<and> flock_range fl b \<and> conflicting (l_type fl) (owns w q b))"

text \<open>The assertions at the head of \<open>unixLock\<close> are the obligations of its caller.\<close>

definition lock_request :: "process \<Rightarrow> nat \<Rightarrow> lock \<Rightarrow> bool" where
  "lock_request s h l \<longleftrightarrow> (levels s h \<noteq> NO_LOCK \<or> l = SHARED_LOCK) \<and> l \<noteq> PENDING_LOCK \<and> l \<noteq> NO_LOCK \<and>
     (l \<noteq> RESERVED_LOCK \<or> levels s h = SHARED_LOCK)"

inductive lock_step :: "world \<Rightarrow> world \<Rightarrow> bool" where
  begin_lock:
    "running (procs w p) = None \<Longrightarrow> lock_request (proc (procs w p)) h l \<Longrightarrow>
     lock_step w (w\<lparr>procs := (procs w)(p := (procs w p)\<lparr>running := Some (unixLock h l (proc (procs w p)))\<rparr>)\<rparr>)"
| begin_unlock:
    "running (procs w p) = None \<Longrightarrow> l \<le> SHARED_LOCK \<Longrightarrow>
     lock_step w (w\<lparr>procs := (procs w)(p := (procs w p)
       \<lparr>running := Some (unixUnlock h l (proc (procs w p))),
        claims := (claims (procs w p))(h := min l (claims (procs w p) h))\<rparr>)\<rparr>)"
| setlk_ok:
    "running (procs w p) = Some (Fcntl (SETLK fl) k) \<Longrightarrow> \<not> blocked w p fl \<Longrightarrow>
     lock_step w (w\<lparr>owns := (owns w)(p := set_range (owns w p) fl),
       procs := (procs w)(p := (procs w p)\<lparr>running := Some (k (Inr t))\<rparr>)\<rparr>)"
| setlk_error:
    "running (procs w p) = Some (Fcntl (SETLK fl) k) \<Longrightarrow> l_type fl \<noteq> F_UNLCK \<Longrightarrow>
     lock_step w (w\<lparr>procs := (procs w)(p := (procs w p)\<lparr>running := Some (k (Inl e))\<rparr>)\<rparr>)"
| finish:
    "running (procs w p) = Some (Ret (rc, s)) \<Longrightarrow>
     lock_step w (w\<lparr>procs := (procs w)(p := \<lparr>proc = s, running = None, claims = levels s\<rparr>)\<rparr>)"

text \<open>At the start every process has closed handles and no locks.\<close>

definition fresh_process :: "process \<Rightarrow> bool" where
  "fresh_process s \<longleftrightarrow> (\<forall>h. eFileLock (pFile s h) = NO_LOCK \<and> \<not> UNIXFILE_EXCL (pFile s h)) \<and>
     nShared (pInode s) = 0 \<and> nLock (pInode s) = 0 \<and> iFileLock (pInode s) = NO_LOCK \<and> \<not> bProcessLock (pInode s)"

inductive lock_reachable :: "world \<Rightarrow> bool" where
  start: "(\<And>p b. owns w p b = F_UNLCK) \<Longrightarrow> (\<And>p. fresh_process (proc (procs w p)) \<and> running (procs w p) = None \<and>
     claims (procs w p) = (\<lambda>_. NO_LOCK)) \<Longrightarrow> lock_reachable w"
| step: "lock_reachable w \<Longrightarrow> lock_step w w' \<Longrightarrow> lock_reachable w'"

section \<open>The invariant\<close>

text \<open>What a level promises about the locks of the process.\<close>

definition holds :: "(nat \<Rightarrow> ltype) \<Rightarrow> lock \<Rightarrow> bool" where
  "holds own l \<longleftrightarrow>
     (l \<ge> SHARED_LOCK \<longrightarrow> (\<forall>b. SHARED_FIRST \<le> b \<and> b < SHARED_FIRST + SHARED_SIZE \<longrightarrow> own b \<noteq> F_UNLCK)) \<and>
     (l = RESERVED_LOCK \<longrightarrow> own RESERVED_BYTE = F_WRLCK) \<and>
     (l \<ge> PENDING_LOCK \<longrightarrow> own PENDING_BYTE = F_WRLCK) \<and>
     (l = EXCLUSIVE_LOCK \<longrightarrow> (\<forall>b. SHARED_FIRST \<le> b \<and> b < SHARED_FIRST + SHARED_SIZE \<longrightarrow> own b = F_WRLCK))"

text \<open>The levels of the handles of one process exclude each other as those of different processes do.\<close>

definition compatible :: "(nat \<Rightarrow> lock) \<Rightarrow> bool" where
  "compatible lv \<longleftrightarrow> (\<forall>h h'. h \<noteq> h' \<longrightarrow> lv h > SHARED_LOCK \<longrightarrow> lv h' \<le> SHARED_LOCK \<and> (lv h = EXCLUSIVE_LOCK \<longrightarrow> lv h' = NO_LOCK))"

definition inode_ok :: "(nat \<Rightarrow> lock) \<Rightarrow> nat \<Rightarrow> nat \<Rightarrow> lock \<Rightarrow> bool" where
  "inode_ok lv n nl il \<longleftrightarrow>
     finite {h. lv h \<noteq> NO_LOCK} \<and> n = card {h. lv h \<noteq> NO_LOCK} \<and> nl = n \<and> compatible lv \<and>
     (\<forall>h. lv h \<le> il) \<and> (il \<noteq> NO_LOCK \<longrightarrow> (\<exists>h. lv h = il))"

definition plain_process :: "process \<Rightarrow> bool" where
  "plain_process s \<longleftrightarrow> (\<forall>h. \<not> UNIXFILE_EXCL (pFile s h)) \<and> \<not> bProcessLock (pInode s)"

definition process_ok :: "process \<Rightarrow> bool" where
  "process_ok s \<longleftrightarrow> plain_process s \<and>
     inode_ok (levels s) (nShared (pInode s)) (nLock (pInode s)) (iFileLock (pInode s))"

definition holds_all :: "(nat \<Rightarrow> ltype) \<Rightarrow> (nat \<Rightarrow> lock) \<Rightarrow> bool" where
  "holds_all own cl \<longleftrightarrow> (\<forall>h. holds own (cl h))"

text \<open>
  A program keeps the promises \<open>cl\<close> at every point and ends in a good state, whatever the answers.
\<close>

primrec good :: "(int \<times> process) prog \<Rightarrow> (nat \<Rightarrow> ltype) \<Rightarrow> (nat \<Rightarrow> lock) \<Rightarrow> bool" where
  "good (Ret x) own cl \<longleftrightarrow> process_ok (snd x) \<and> holds_all own (levels (snd x))"
| "good (Fcntl c k) own cl \<longleftrightarrow>
     (case c of
        SETLK fl \<Rightarrow> holds_all (set_range own fl) cl \<and> (\<forall>t. good (k (Inr t)) (set_range own fl) cl) \<and>
          (l_type fl \<noteq> F_UNLCK \<longrightarrow> (\<forall>e. good (k (Inl e)) own cl))
      | GETLK fl \<Rightarrow> \<forall>r. good (k r) own cl)"

lemma good_unixFileLock:
  assumes "plain_process s"
  shows "good (unixFileLock h fl s k) own cl \<longleftrightarrow>
    holds_all (set_range own fl) cl \<and> good (k None s) (set_range own fl) cl \<and>
    (l_type fl \<noteq> F_UNLCK \<longrightarrow> (\<forall>e. good (k (Some e) s) own cl))"
  using assms by (auto simp: unixFileLock_def plain_process_def)

lemma plain_processI [simp]: "process_ok s \<Longrightarrow> plain_process s"
  by (simp add: process_ok_def)


section \<open>The levels of one process\<close>

lemma NO_LOCK_le [simp]: "NO_LOCK \<le> l"
  by (cases l) (simp_all add: lock_order)

lemma le_NO_LOCK [simp]: "l \<le> NO_LOCK \<longleftrightarrow> l = NO_LOCK"
  by (cases l) (simp_all add: lock_order)

lemma le_EXCLUSIVE [simp]: "l \<le> EXCLUSIVE_LOCK"
  by (cases l) (simp_all add: lock_order)

lemma shared_cases: "l \<le> SHARED_LOCK \<longleftrightarrow> l = NO_LOCK \<or> l = SHARED_LOCK"
  by (cases l) (simp_all add: lock_order)

lemma not_NO_LOCK: "l \<noteq> NO_LOCK \<longleftrightarrow> l \<ge> SHARED_LOCK"
  by (cases l) (simp_all add: lock_order)

lemma inode_idle: "inode_ok lv n nl NO_LOCK \<longleftrightarrow> (\<forall>h. lv h = NO_LOCK) \<and> n = 0 \<and> nl = 0"
  by (auto simp: inode_ok_def compatible_def)

lemma card_update:
  assumes "finite {h. lv h \<noteq> NO_LOCK}"
  shows "finite {x. (lv(h := l)) x \<noteq> NO_LOCK}"
    and "card {x. (lv(h := l)) x \<noteq> NO_LOCK} =
      (if lv h \<noteq> NO_LOCK then card {x. lv x \<noteq> NO_LOCK} - 1 else card {x. lv x \<noteq> NO_LOCK}) + (if l \<noteq> NO_LOCK then 1 else 0)"
proof -
  let ?A = "{x. lv x \<noteq> NO_LOCK}"
  have *: "{x. (lv(h := l)) x \<noteq> NO_LOCK} = (if l \<noteq> NO_LOCK then insert h (?A - {h}) else ?A - {h})"
    by auto
  show "finite {x. (lv(h := l)) x \<noteq> NO_LOCK}" unfolding * using assms by auto
  have "card (insert h (?A - {h})) = Suc (card (?A - {h}))" using assms by (intro card_insert_disjoint) auto
  moreover have "card (?A - {h}) = (if lv h \<noteq> NO_LOCK then card ?A - 1 else card ?A)"
    using assms by (simp add: card_Diff_singleton_if)
  ultimately show "card {x. (lv(h := l)) x \<noteq> NO_LOCK} =
      (if lv h \<noteq> NO_LOCK then card ?A - 1 else card ?A) + (if l \<noteq> NO_LOCK then 1 else 0)"
    unfolding * by auto
qed

lemma compatibleD:
  "compatible lv \<Longrightarrow> h \<noteq> h' \<Longrightarrow> lv h > SHARED_LOCK \<Longrightarrow> lv h' \<le> SHARED_LOCK"
  "compatible lv \<Longrightarrow> h \<noteq> h' \<Longrightarrow> lv h = EXCLUSIVE_LOCK \<Longrightarrow> lv h' = NO_LOCK"
  by (auto simp: compatible_def lock_order)

text \<open>Taking and leaving the level \<open>SHARED\<close>.\<close>

lemma inode_share:
  assumes "inode_ok lv n nl il" "lv h = NO_LOCK" "il = SHARED_LOCK \<or> il = RESERVED_LOCK"
  shows "inode_ok (lv(h := SHARED_LOCK)) (n + 1) (nl + 1) il"
proof -
  obtain h' where h': "lv h' = il" using assms(1,3) by (auto simp: inode_ok_def)
  then have "h' \<noteq> h" using assms(2,3) by auto
  have ne: "lv x \<noteq> EXCLUSIVE_LOCK" for x
  proof -
    have "lv x \<le> il" using assms(1) by (simp add: inode_ok_def)
    then show ?thesis using assms(3) by (auto simp: lock_order)
  qed
  have c: "compatible (lv(h := SHARED_LOCK))"
    using assms(1) ne by (auto simp: inode_ok_def compatible_def)
  show ?thesis
    using assms c h' \<open>h' \<noteq> h\<close> card_update [of lv h SHARED_LOCK] by (auto simp: inode_ok_def lock_order)
qed

lemma inode_first:
  assumes "inode_ok lv n nl NO_LOCK"
  shows "inode_ok (lv(h := SHARED_LOCK)) 1 (nl + 1) SHARED_LOCK"
proof -
  have "lv = (\<lambda>_. NO_LOCK)" using assms by (auto simp: inode_idle)
  moreover have "{x. ((\<lambda>_. NO_LOCK)(h := SHARED_LOCK)) x \<noteq> NO_LOCK} = {h}" by auto
  ultimately show ?thesis using assms by (auto simp: inode_ok_def compatible_def)
qed

text \<open>Raising the level of the handle that is at the level of the process.\<close>

lemma inode_raise:
  assumes "inode_ok lv n nl il" "lv h = il" "il \<noteq> NO_LOCK" "il \<le> l" "l = EXCLUSIVE_LOCK \<Longrightarrow> n \<le> 1"
  shows "inode_ok (lv(h := l)) n nl l"
proof -
  have others: "lv x \<le> SHARED_LOCK" if "x \<noteq> h" for x
  proof (cases "il > SHARED_LOCK")
    case True
    then show ?thesis using assms(1,2) that compatibleD(1) [of lv h x] by (simp add: inode_ok_def)
  next
    case False
    then show ?thesis using assms(1) by (auto simp: inode_ok_def not_less intro: order_trans)
  qed
  have l: "l \<noteq> NO_LOCK" using assms(3,4) by auto
  have only: "lv x = NO_LOCK" if "l = EXCLUSIVE_LOCK" "x \<noteq> h" for x
  proof (rule ccontr)
    assume "lv x \<noteq> NO_LOCK"
    then have "{h, x} \<subseteq> {y. lv y \<noteq> NO_LOCK}" using assms(2,3) by auto
    then have "card {h, x} \<le> card {y. lv y \<noteq> NO_LOCK}" using assms(1) by (intro card_mono) (auto simp: inode_ok_def)
    then show False using assms(1,5) that by (auto simp: inode_ok_def)
  qed
  have "compatible (lv(h := l))"
    using others only by (auto simp: compatible_def not_less [symmetric] dest: less_le_not_le [THEN iffD1])
  moreover have "lv x \<le> l" for x using assms(1,4) by (auto simp: inode_ok_def intro: order_trans)
  moreover have "card {y. lv y \<noteq> NO_LOCK} > 0"
    using assms(1-3) by (auto simp: inode_ok_def card_gt_0_iff)
  ultimately show ?thesis
    using assms(1-3) l card_update [of lv h l] by (auto simp: inode_ok_def)
qed

text \<open>Lowering a level.\<close>

lemma compatible_lower: "compatible lv \<Longrightarrow> l \<le> SHARED_LOCK \<Longrightarrow> l \<le> lv h \<Longrightarrow> compatible (lv(h := l))"
  by (auto simp: compatible_def not_le [symmetric])

lemma inode_lower:
  assumes "inode_ok lv n nl il" "lv h > SHARED_LOCK"
  shows "inode_ok (lv(h := SHARED_LOCK)) n nl SHARED_LOCK"
proof -
  have others: "lv x \<le> SHARED_LOCK" if "x \<noteq> h" for x
    using assms that compatibleD(1) [of lv h x] by (simp add: inode_ok_def)
  have h: "lv h \<noteq> NO_LOCK" using assms(2) by (auto simp: lock_order)
  then have "card {y. lv y \<noteq> NO_LOCK} > 0" using assms(1) by (auto simp: inode_ok_def card_gt_0_iff)
  moreover have "compatible (lv(h := SHARED_LOCK))"
    using assms compatible_lower [of lv SHARED_LOCK h] by (simp add: inode_ok_def less_imp_le)
  ultimately show ?thesis using assms(1) others h card_update [of lv h SHARED_LOCK] by (auto simp: inode_ok_def)
qed

lemma inode_drop:
  assumes "inode_ok lv n nl il" "lv h = SHARED_LOCK"
  shows "n - 1 = 0 \<Longrightarrow> inode_ok (lv(h := NO_LOCK)) (n - 1) (nl - 1) NO_LOCK"
    and "n - 1 \<noteq> 0 \<Longrightarrow> inode_ok (lv(h := NO_LOCK)) (n - 1) (nl - 1) il"
proof -
  have f: "finite {x. lv x \<noteq> NO_LOCK}" and n: "n = card {x. lv x \<noteq> NO_LOCK}" "nl = n"
    using assms(1) by (auto simp: inode_ok_def)
  have c: "compatible (lv(h := NO_LOCK))" using assms compatible_lower [of lv NO_LOCK h] by (simp add: inode_ok_def)
  have card: "card {x. (lv(h := NO_LOCK)) x \<noteq> NO_LOCK} = n - 1" using card_update(2) [OF f, of h NO_LOCK] n assms(2) by simp
  note fin = card_update(1) [OF f, of h NO_LOCK]
  show "inode_ok (lv(h := NO_LOCK)) (n - 1) (nl - 1) NO_LOCK" if "n - 1 = 0"
  proof -
    have "{x. (lv(h := NO_LOCK)) x \<noteq> NO_LOCK} = {}" using card fin that by (metis card_0_eq)
    then have "\<forall>x. (lv(h := NO_LOCK)) x = NO_LOCK" by blast
    then show ?thesis using that n by (simp add: inode_idle)
  qed
  show "inode_ok (lv(h := NO_LOCK)) (n - 1) (nl - 1) il" if "n - 1 \<noteq> 0"
  proof -
    have "{x. (lv(h := NO_LOCK)) x \<noteq> NO_LOCK} \<noteq> {}" using card that by (metis card.empty)
    then obtain x where x: "x \<noteq> h" "lv x \<noteq> NO_LOCK" by (auto split: if_splits)
    obtain y where y: "lv y = il" using assms by (cases "il = NO_LOCK") (auto simp: inode_ok_def)
    have "\<exists>y. (lv(h := NO_LOCK)) y = il"
    proof (cases "y = h")
      case True
      then have "il = SHARED_LOCK" using y assms(2) by simp
      moreover have "lv x \<le> il" using assms(1) by (simp add: inode_ok_def)
      ultimately have "lv x = il" using x(2) by (auto simp: shared_cases)
      then show ?thesis using x(1) by auto
    qed (use y in auto)
    then show ?thesis using assms(1) c card fin n by (auto simp: inode_ok_def)
  qed
qed

section \<open>The operations keep the promises\<close>

lemma rc_nonzero: "sqliteErrorFromPosixError e SQLITE_IOERR_LOCK \<noteq> SQLITE_OK"
  by (cases e) (simp_all add: sqliteErrorFromPosixError_def SQLITE_IOERR_LOCK_def)

lemma levels_simps [simp]:
  "levels (set_level h l s) = (levels s)(h := l)" "levels (set_errno h e s) = levels s" "levels (s\<lparr>pInode := i\<rparr>) = levels s"
  by (auto simp: levels_def set_level_def set_errno_def)

lemma flags_simps [simp]:
  "plain_process (set_level h l s) = plain_process s" "plain_process (set_errno h e s) = plain_process s"
  "bProcessLock i = bProcessLock (pInode s) \<Longrightarrow> plain_process (s\<lparr>pInode := i\<rparr>) = plain_process s"
  "pInode (set_level h l s) = pInode s" "pInode (set_errno h e s) = pInode s"
  by (auto simp: set_level_def set_errno_def plain_process_def)

lemma process_ok_errno [simp]: "process_ok (set_errno h e s) = process_ok s"
  by (simp add: process_ok_def)

lemma holds_NO_LOCK [simp]: "holds own NO_LOCK"
  by (simp add: holds_def lock_order)

lemma byte_order: "PENDING_BYTE < SHARED_FIRST" "RESERVED_BYTE < SHARED_FIRST" "RESERVED_BYTE = PENDING_BYTE + 1" "SHARED_FIRST = PENDING_BYTE + 2"
  by (simp_all add: SHARED_FIRST_def RESERVED_BYTE_def)

lemmas flock_simps = set_range_def flock_range_def byte_order(3,4) lock_order

text \<open>Locks that only add to what is held keep every promise.\<close>

lemma holds_all_write:
  "holds_all own cl \<Longrightarrow> l_type fl = F_WRLCK \<Longrightarrow> holds_all (set_range own fl) cl"
  by (auto simp: holds_all_def holds_def set_range_def)

lemma holds_all_none: "(\<And>h. cl h = NO_LOCK) \<Longrightarrow> holds_all own cl"
  by (simp add: holds_all_def)

lemma holds_all_upd: "holds_all own (cl(h := l)) \<longleftrightarrow> holds own l \<and> (\<forall>x. x \<noteq> h \<longrightarrow> holds own (cl x))"
  by (auto simp: holds_all_def)

lemma holds_allD: "holds_all own cl \<Longrightarrow> holds own (cl h)"
  by (simp add: holds_all_def)

lemma lock_finish_good:
  assumes "process_ok s" "holds_all own (levels s)"
    and "rc = SQLITE_OK \<Longrightarrow> holds own l \<and> inode_ok ((levels s)(h := l)) (nShared (pInode s)) (nLock (pInode s)) l"
    and "rc \<noteq> SQLITE_OK \<Longrightarrow> l = EXCLUSIVE_LOCK \<Longrightarrow> holds own PENDING_LOCK \<and>
      inode_ok ((levels s)(h := PENDING_LOCK)) (nShared (pInode s)) (nLock (pInode s)) PENDING_LOCK"
  shows "good (lock_finish h l rc s) own cl"
  using assms by (auto simp: lock_finish_def process_ok_def holds_all_upd holds_allD)

lemma lock_write_good:
  assumes ok: "process_ok s" and hold: "holds_all own (levels s)"
    and h: "levels s h = iFileLock (pInode s)" "levels s h \<noteq> NO_LOCK"
    and lt: "levels s h < l"
    and l: "l = RESERVED_LOCK \<and> levels s h = SHARED_LOCK \<or> l = EXCLUSIVE_LOCK \<and> own PENDING_BYTE = F_WRLCK"
  shows "good (lock_write h l s) own (levels s)"
proof -
  have i: "inode_ok (levels s) (nShared (pInode s)) (nLock (pInode s)) (iFileLock (pInode s))"
    using ok by (simp add: process_ok_def)
  have n: "iFileLock (pInode s) \<noteq> NO_LOCK" using h by simp
  have ge: "levels s h \<ge> SHARED_LOCK" using h(2) by (simp add: not_NO_LOCK)
  have own: "own b \<noteq> F_UNLCK" if "SHARED_FIRST \<le> b" "b < SHARED_FIRST + SHARED_SIZE" for b
    using holds_allD [OF hold, of h] ge that by (auto simp: holds_def)
  have le: "iFileLock (pInode s) \<le> l" using lt h(1) by simp
  show ?thesis
  proof (cases "l = RESERVED_LOCK")
    case True
    let ?fl = "\<lparr>l_type = F_WRLCK, l_start = RESERVED_BYTE, l_len = 1\<rparr>"
    have hw: "holds_all (set_range own ?fl) (levels s)" by (rule holds_all_write [OF hold]) simp
    have "holds (set_range own ?fl) RESERVED_LOCK"
      using own by (auto simp: holds_def flock_simps)
    moreover have "inode_ok ((levels s)(h := RESERVED_LOCK)) (nShared (pInode s)) (nLock (pInode s)) RESERVED_LOCK"
      using inode_raise [OF i h(1) n, of RESERVED_LOCK] le True by simp
    ultimately show ?thesis
      using True ok hold hw rc_nonzero
      by (auto simp: lock_write_def good_unixFileLock Let_def intro!: lock_finish_good)
  next
    case False
    then have ex: "l = EXCLUSIVE_LOCK" "own PENDING_BYTE = F_WRLCK" using l by auto
    let ?fl = "\<lparr>l_type = F_WRLCK, l_start = SHARED_FIRST, l_len = SHARED_SIZE\<rparr>"
    have pend: "holds own PENDING_LOCK" using own ex by (auto simp: holds_def lock_order)
    have "iFileLock (pInode s) \<le> PENDING_LOCK"
      using lt h(1) ex(1) by (cases "iFileLock (pInode s)") (simp_all add: lock_order)
    then have ip: "inode_ok ((levels s)(h := PENDING_LOCK)) (nShared (pInode s)) (nLock (pInode s)) PENDING_LOCK"
      by (intro inode_raise [OF i h(1) n]) simp_all
    show ?thesis
    proof (cases "nShared (pInode s) > 1")
      case True
      then show ?thesis using ex(1) ok hold pend ip by (auto simp: lock_write_def intro!: lock_finish_good)
    next
      case False
      then have ie: "inode_ok ((levels s)(h := EXCLUSIVE_LOCK)) (nShared (pInode s)) (nLock (pInode s)) EXCLUSIVE_LOCK"
        by (intro inode_raise [OF i h(1) n]) simp_all
      have hw: "holds_all (set_range own ?fl) (levels s)" by (rule holds_all_write [OF hold]) simp
      have he: "holds (set_range own ?fl) EXCLUSIVE_LOCK"
        using ex(2) by (auto simp: holds_def flock_simps SHARED_SIZE_def)
      show ?thesis
        using False ex(1) ok hold hw he ie ip pend rc_nonzero
        by (auto simp: lock_write_def good_unixFileLock Let_def intro!: lock_finish_good)
    qed
  qed
qed

lemma lock_shared_good:
  assumes ok: "process_ok s" and i: "iFileLock (pInode s) = NO_LOCK"
  shows "good (lock_shared h s) own (levels s)"
proof -
  have inode: "inode_ok (levels s) (nShared (pInode s)) (nLock (pInode s)) NO_LOCK"
    using ok i by (simp add: process_ok_def)
  then have none: "levels s x = NO_LOCK" for x by (simp add: inode_idle)
  have claims: "holds_all own' (levels s)" for own' by (rule holds_all_none [OF none])
  let ?rd = "\<lparr>l_type = F_RDLCK, l_start = SHARED_FIRST, l_len = SHARED_SIZE\<rparr>"
  let ?un = "\<lparr>l_type = F_UNLCK, l_start = PENDING_BYTE, l_len = 1\<rparr>"
  have "holds (set_range (set_range own ?rd) ?un) SHARED_LOCK"
    by (auto simp: holds_def flock_simps SHARED_SIZE_def)
  then have fin: "holds_all (set_range (set_range own ?rd) ?un) ((levels s)(h := SHARED_LOCK))"
    using none by (simp add: holds_all_upd)
  have inode': "inode_ok ((levels s)(h := SHARED_LOCK)) 1 (nLock (pInode s) + 1) SHARED_LOCK"
    by (rule inode_first [OF inode])
  show ?thesis
    using ok i claims fin inode' rc_nonzero
    by (auto simp: lock_shared_def good_unixFileLock Let_def lock_finish_def process_ok_def split: option.splits)
qed

text \<open>A process that is above \<open>NO_LOCK\<close> holds at least a read lock of the shared range.\<close>

lemma holds_SHARED: "holds own l \<Longrightarrow> l \<noteq> NO_LOCK \<Longrightarrow> holds own SHARED_LOCK"
  by (cases l) (auto simp: holds_def lock_order)

lemma unixLock_good:
  assumes ok: "process_ok s" and hold: "holds_all own (levels s)" and req: "lock_request s h l"
  shows "good (unixLock h l s) own (levels s)"
proof -
  let ?i = "iFileLock (pInode s)" and ?lv = "levels s h"
  have e: "eFileLock (pFile s h) = ?lv" by (simp add: levels_def)
  have i: "inode_ok (levels s) (nShared (pInode s)) (nLock (pInode s)) ?i"
    using ok by (simp add: process_ok_def)
  have same: "good (Ret (rc, s)) own (levels s)" "good (Ret (rc, set_errno h' e' s)) own (levels s)" for rc h' e'
    using ok hold by simp_all
  consider (old) "?lv \<ge> l"
    | (busy) "?lv < l" "?lv \<noteq> ?i \<and> (?i \<ge> PENDING_LOCK \<or> l > SHARED_LOCK)"
    | (share) "?lv = NO_LOCK" "l = SHARED_LOCK" "?i = SHARED_LOCK \<or> ?i = RESERVED_LOCK"
    | (first) "?lv = NO_LOCK" "l = SHARED_LOCK" "?i = NO_LOCK"
    | (excl) "?lv < PENDING_LOCK" "l = EXCLUSIVE_LOCK" "?lv = ?i" "?lv \<noteq> NO_LOCK"
    | (pending) "?lv = PENDING_LOCK" "l = EXCLUSIVE_LOCK" "?lv = ?i"
    | (res) "?lv = SHARED_LOCK" "l = RESERVED_LOCK" "?lv = ?i"
    using req by (cases l; cases ?lv; cases ?i) (auto simp: lock_request_def lock_order)
  then show ?thesis
  proof cases
    case old
    then show ?thesis using same by (simp add: unixLock_def e)
  next
    case busy
    then show ?thesis using same by (auto simp: unixLock_def e Let_def not_le)
  next
    case share
    obtain h' where "levels s h' = ?i" using i share(3) by (auto simp: inode_ok_def)
    then have "holds own SHARED_LOCK" using holds_allD [OF hold, of h'] share(3) holds_SHARED by auto
    then show ?thesis
      using share ok hold inode_share [OF i share(1,3)]
      by (auto simp: unixLock_def e Let_def process_ok_def holds_all_upd holds_allD lock_order)
  next
    case first
    have none: "levels s x = NO_LOCK" for x using i first(3) by (simp add: inode_idle)
    then show ?thesis
      using first same lock_shared_good [OF ok first(3)]
      by (auto simp: unixLock_def e Let_def lock_order good_unixFileLock holds_all_none)
  next
    case excl
    let ?fl = "\<lparr>l_type = F_WRLCK, l_start = PENDING_BYTE, l_len = 1\<rparr>"
    have hw: "holds_all (set_range own ?fl) (levels s)" by (rule holds_all_write [OF hold]) simp
    have "good (lock_write h l s) (set_range own ?fl) (levels s)"
      using excl by (intro lock_write_good [OF ok hw]) (auto simp: set_range_def flock_range_def lock_order)
    then show ?thesis
      using excl same hw by (auto simp: unixLock_def e Let_def lock_order good_unixFileLock)
  next
    case pending
    have "own PENDING_BYTE = F_WRLCK" using holds_allD [OF hold, of h] pending(1) by (simp add: holds_def lock_order)
    then have "good (lock_write h l s) own (levels s)"
      using pending by (intro lock_write_good [OF ok hold]) (auto simp: lock_order)
    then show ?thesis using pending by (auto simp: unixLock_def e Let_def lock_order)
  next
    case res
    then have "good (lock_write h l s) own (levels s)"
      by (intro lock_write_good [OF ok hold]) (auto simp: lock_order)
    then show ?thesis using res by (auto simp: unixLock_def e Let_def lock_order)
  qed
qed

text \<open>Dropping the level \<open>SHARED\<close>, with the count of the process already below the others.\<close>

lemma unlock_count_good:
  "plain_process s \<Longrightarrow> holds_all own ((levels s)(h := NO_LOCK)) \<Longrightarrow>
   inode_ok ((levels s)(h := NO_LOCK)) (nShared (pInode s)) (nLock (pInode s) - 1) (iFileLock (pInode s)) \<Longrightarrow>
   good (unlock_count h SQLITE_OK s) own cl"
  by (auto simp: unlock_count_def Let_def closePendingFds_def process_ok_def simp del: diff_is_0_eq)

lemma unlock_shared_good:
  assumes plain: "plain_process s" and hold: "holds_all own ((levels s)(h := NO_LOCK))"
    and inode: "inode_ok ((levels s)(h := SHARED_LOCK)) (nShared (pInode s)) (nLock (pInode s)) (iFileLock (pInode s))"
  shows "good (unlock_shared h s) own ((levels s)(h := NO_LOCK))"
proof (cases "nShared (pInode s) - 1 = 0")
  case True
  have i: "inode_ok ((levels s)(h := NO_LOCK)) (nShared (pInode s) - 1) (nLock (pInode s) - 1) NO_LOCK"
    using inode_drop(1) [OF inode, of h] True by simp
  then have "\<forall>x. ((levels s)(h := NO_LOCK)) x = NO_LOCK" by (simp add: inode_idle)
  then have n: "holds_all own' ((levels s)(h := NO_LOCK))" for own' by (intro holds_all_none) simp
  show ?thesis
    using True i n plain
    by (simp add: unlock_shared_def Let_def good_unixFileLock unlock_count_good del: One_nat_def diff_is_0_eq)
next
  case False
  have "inode_ok ((levels s)(h := NO_LOCK)) (nShared (pInode s) - 1) (nLock (pInode s) - 1) (iFileLock (pInode s))"
    using inode_drop(2) [OF inode, of h] False by simp
  then show ?thesis
    using False plain hold by (simp add: unlock_shared_def Let_def unlock_count_good)
qed

text \<open>No lock outside the shared range matters to a process at or below \<open>SHARED\<close>.\<close>

lemma holds_all_low:
  assumes "\<And>x. cl x \<le> SHARED_LOCK" "holds_all own cl"
    and "\<And>b. SHARED_FIRST \<le> b \<Longrightarrow> b < SHARED_FIRST + SHARED_SIZE \<Longrightarrow> own b \<noteq> F_UNLCK \<Longrightarrow> own' b \<noteq> F_UNLCK"
  shows "holds_all own' cl"
  unfolding holds_all_def
proof
  fix x
  show "holds own' (cl x)"
    using assms(1) [of x] assms(3) holds_allD [OF assms(2), of x] unfolding shared_cases
    by (auto simp: holds_def lock_order)
qed

lemma posixUnlock_good:
  assumes ok: "process_ok s" and hold: "holds_all own (levels s)" and l: "l \<le> SHARED_LOCK"
  shows "good (posixUnlock h l False s) own ((levels s)(h := min l (levels s h)))"
proof (cases "levels s h \<le> l")
  case True
  then show ?thesis using ok hold by (simp add: posixUnlock_def downgrade_def levels_def)
next
  case False
  let ?cl = "(levels s)(h := min l (levels s h))"
  let ?un = "\<lparr>l_type = F_UNLCK, l_start = PENDING_BYTE, l_len = 2\<rparr>"
  let ?rd = "\<lparr>l_type = F_RDLCK, l_start = SHARED_FIRST, l_len = SHARED_SIZE\<rparr>"
  have e: "eFileLock (pFile s h) = levels s h" by (simp add: levels_def)
  have plain: "plain_process s" using ok by simp
  have i: "inode_ok (levels s) (nShared (pInode s)) (nLock (pInode s)) (iFileLock (pInode s))"
    using ok by (simp add: process_ok_def)
  have cl: "?cl = (levels s)(h := l)" using False by (simp add: min_absorb1 not_le less_imp_le)
  have sh: "holds own SHARED_LOCK" by (rule holds_SHARED [OF holds_allD [OF hold, of h]]) (use False in auto)
  have hold_cl: "holds_all own ((levels s)(h := l))"
    using hold sh l by (auto simp: holds_all_upd holds_allD shared_cases)
  show ?thesis
  proof (cases "levels s h > SHARED_LOCK")
    case True
    have low: "((levels s)(h := l)) x \<le> SHARED_LOCK" for x
      using compatibleD(1) [of "levels s" h x] i True l by (auto simp: inode_ok_def)
    have un: "holds_all (set_range own' ?un) ((levels s)(h := l))" if "holds_all own' ((levels s)(h := l))" for own'
      by (rule holds_all_low [OF low that]) (auto simp: flock_simps)
    have rd: "holds_all (set_range own ?rd) ((levels s)(h := l))"
      by (rule holds_all_low [OF low hold_cl]) (auto simp: flock_simps)
    let ?s = "s\<lparr>pInode := pInode s\<lparr>iFileLock := SHARED_LOCK\<rparr>\<rparr>"
    have i': "inode_ok ((levels s)(h := SHARED_LOCK)) (nShared (pInode s)) (nLock (pInode s)) SHARED_LOCK"
      by (rule inode_lower [OF i True])
    show ?thesis
    proof (cases "l = SHARED_LOCK")
      case l: True
      then show ?thesis
        using False True ok hold plain rd un [OF rd] i' unfolding cl
        by (auto simp: posixUnlock_def downgrade_def e Let_def good_unixFileLock process_ok_def)
    next
      case l': False
      then have l0: "l = NO_LOCK" using l by (simp add: shared_cases)
      have "good (unlock_shared h ?s) (set_range own ?un) ((levels s)(h := NO_LOCK))"
        using unlock_shared_good [of ?s "set_range own ?un" h] plain un [OF hold_cl] i' l0 by simp
      then show ?thesis
        using l0 True ok hold plain un [OF hold_cl] unfolding cl
        by (auto simp: posixUnlock_def downgrade_def e Let_def good_unixFileLock process_ok_def)
    qed
  next
    case level: False
    then have "levels s h = SHARED_LOCK" "l = NO_LOCK" using False l by (auto simp: not_less shared_cases)
    then show ?thesis
      using unlock_shared_good [OF plain, of own h] hold_cl i level unfolding cl
      by (auto simp: posixUnlock_def downgrade_def e Let_def fun_upd_idem)
  qed
qed

section \<open>The invariant of the system\<close>

definition procstate_ok :: "(nat \<Rightarrow> ltype) \<Rightarrow> procstate \<Rightarrow> bool" where
  "procstate_ok own ps \<longleftrightarrow> compatible (claims ps) \<and> holds_all own (claims ps) \<and>
     (case running ps of
        None \<Rightarrow> process_ok (proc ps) \<and> claims ps = levels (proc ps)
      | Some P \<Rightarrow> good P own (claims ps))"

definition world_ok :: "world \<Rightarrow> bool" where
  "world_ok w \<longleftrightarrow> (\<forall>p q b. p \<noteq> q \<longrightarrow> \<not> conflicting (owns w p b) (owns w q b)) \<and>
     (\<forall>p. procstate_ok (owns w p) (procs w p))"

lemma conflicting_commute: "conflicting a b = conflicting b a"
  by (auto simp: conflicting_def)

lemma process_ok_compatible: "process_ok s \<Longrightarrow> compatible (levels s)"
  by (simp add: process_ok_def inode_ok_def)

lemma fresh_ok: "fresh_process s \<Longrightarrow> process_ok s \<and> levels s = (\<lambda>_. NO_LOCK)"
  by (auto simp: fresh_process_def process_ok_def plain_process_def inode_idle levels_def)

lemma owns_set_range:
  assumes "\<not> blocked w p fl" "\<forall>p q b. p \<noteq> q \<longrightarrow> \<not> conflicting (owns w p b) (owns w q b)"
    and "p' \<noteq> q'"
  shows "\<not> conflicting (((owns w)(p := set_range (owns w p) fl)) p' b) (((owns w)(p := set_range (owns w p) fl)) q' b)"
  using assms conflicting_commute by (auto simp: blocked_def set_range_def split: if_splits) metis+

lemma world_ok_proc:
  "world_ok w \<Longrightarrow> procstate_ok (owns w p) ps \<Longrightarrow> world_ok (w\<lparr>procs := (procs w)(p := ps)\<rparr>)"
  by (simp add: world_ok_def)

lemma world_ok_step: "lock_step w w' \<Longrightarrow> world_ok w \<Longrightarrow> world_ok w'"
proof (induction rule: lock_step.induct)
  case (begin_lock w p h l)
  then have p: "procstate_ok (owns w p) (procs w p)" by (simp add: world_ok_def)
  then have "good (unixLock h l (proc (procs w p))) (owns w p) (claims (procs w p))"
    using begin_lock(1,2) by (auto simp: procstate_ok_def intro: unixLock_good)
  then have "procstate_ok (owns w p) ((procs w p)\<lparr>running := Some (unixLock h l (proc (procs w p)))\<rparr>)"
    using p by (simp add: procstate_ok_def)
  then show ?case using begin_lock(3) by (intro world_ok_proc)
next
  case (begin_unlock w p l h)
  let ?s = "proc (procs w p)"
  have p: "procstate_ok (owns w p) (procs w p)" using begin_unlock by (simp add: world_ok_def)
  then have ok: "process_ok ?s" "claims (procs w p) = levels ?s" "holds_all (owns w p) (levels ?s)"
    using begin_unlock(1) by (auto simp: procstate_ok_def)
  let ?cl = "(levels ?s)(h := min l (levels ?s h))"
  have g: "good (unixUnlock h l ?s) (owns w p) ?cl"
    unfolding unixUnlock_def by (rule posixUnlock_good [OF ok(1,3) begin_unlock(2)])
  have "min l (levels ?s h) \<le> SHARED_LOCK" "min l (levels ?s h) \<le> levels ?s h"
    using begin_unlock(2) by (simp_all add: min_le_iff_disj)
  then have "compatible ?cl" using process_ok_compatible [OF ok(1)] by (intro compatible_lower)
  moreover have "holds (owns w p) (min l (levels ?s h))"
  proof (cases "levels ?s h \<le> l")
    case True
    then show ?thesis using holds_allD [OF ok(3)] by (simp add: min_absorb2)
  next
    case False
    then have "min l (levels ?s h) = l" by (simp add: min_absorb1 not_le less_imp_le)
    moreover have "holds (owns w p) SHARED_LOCK"
      by (rule holds_SHARED [OF holds_allD [OF ok(3), of h]]) (use False in auto)
    ultimately show ?thesis using begin_unlock(2) by (auto simp: shared_cases)
  qed
  then have "holds_all (owns w p) ?cl" using ok(3) by (simp add: holds_all_upd holds_allD)
  ultimately have "procstate_ok (owns w p) ((procs w p)\<lparr>running := Some (unixUnlock h l ?s), claims := ?cl\<rparr>)"
    using g by (simp add: procstate_ok_def)
  then show ?case using begin_unlock(3) unfolding ok(2) by (intro world_ok_proc)
next
  case (setlk_ok w p fl k t)
  have "procstate_ok (owns w p) (procs w p)" using setlk_ok by (simp add: world_ok_def)
  then have "procstate_ok (set_range (owns w p) fl) ((procs w p)\<lparr>running := Some (k (Inr t))\<rparr>)"
    using setlk_ok(1) by (simp add: procstate_ok_def)
  then show ?case
    using setlk_ok(3) owns_set_range [OF setlk_ok(2)] by (simp add: world_ok_def)
next
  case (setlk_error w p fl k e)
  have "procstate_ok (owns w p) (procs w p)" using setlk_error by (simp add: world_ok_def)
  then have "procstate_ok (owns w p) ((procs w p)\<lparr>running := Some (k (Inl e))\<rparr>)"
    using setlk_error(1,2) by (simp add: procstate_ok_def)
  then show ?case using setlk_error(3) by (intro world_ok_proc)
next
  case (finish w p rc s)
  have "procstate_ok (owns w p) (procs w p)" using finish by (simp add: world_ok_def)
  then have "procstate_ok (owns w p) \<lparr>proc = s, running = None, claims = levels s\<rparr>"
    using finish(1) by (simp add: procstate_ok_def process_ok_compatible)
  then show ?case using finish(2) by (intro world_ok_proc)
qed

lemma reachable_ok: "lock_reachable w \<Longrightarrow> world_ok w"
proof (induction rule: lock_reachable.induct)
  case (start w)
  have "procstate_ok (owns w p) (procs w p)" for p
    using start(2) [of p] fresh_ok [of "proc (procs w p)"]
    by (auto simp: procstate_ok_def compatible_def holds_all_def)
  then show ?case using start(1) by (simp add: world_ok_def conflicting_def)
qed (rule world_ok_step)

lemma claims_exclude_post:
  assumes "lock_reachable w" "(p, h) \<noteq> (q, h')"
  shows "(claims (procs w p) h = EXCLUSIVE_LOCK \<longrightarrow> claims (procs w q) h' = NO_LOCK) \<and>
    (claims (procs w p) h = RESERVED_LOCK \<longrightarrow> claims (procs w q) h' \<noteq> RESERVED_LOCK) \<and>
    (claims (procs w p) h \<ge> PENDING_LOCK \<longrightarrow> claims (procs w q) h' < PENDING_LOCK)"
proof (cases "p = q")
  case True
  then have "h \<noteq> h'" "compatible (claims (procs w p))"
    using assms(2) reachable_ok [OF assms(1)] by (auto simp: world_ok_def procstate_ok_def)
  then show ?thesis
    using compatibleD [of "claims (procs w p)" h h'] True
    by (cases "claims (procs w p) h"; cases "claims (procs w q) h'") (auto simp: lock_order)
next
  case False
  have c: "\<not> conflicting (owns w p b) (owns w q b)" for b
    using reachable_ok [OF assms(1)] False by (simp add: world_ok_def)
  have hp: "holds (owns w p) (claims (procs w p) h)" and hq: "holds (owns w q) (claims (procs w q) h')"
    using reachable_ok [OF assms(1)] by (auto simp: world_ok_def procstate_ok_def holds_all_def)
  show ?thesis
    using hp hq c [of RESERVED_BYTE] c [of PENDING_BYTE] c [of SHARED_FIRST]
    by (cases "claims (procs w p) h"; cases "claims (procs w q) h'")
      (auto simp: holds_def lock_order conflicting_def SHARED_SIZE_def)
qed
section \<open>Operations that run to their end\<close>

text \<open>The result of a program when the system grants every lock, and that it does.\<close>

primrec run_ok :: "(int \<times> process) prog \<Rightarrow> (nat \<Rightarrow> ltype) \<Rightarrow> (int \<times> process) \<times> (nat \<Rightarrow> ltype)" where
  "run_ok (Ret x) own = (x, own)"
| "run_ok (Fcntl c k) own = (case c of SETLK fl \<Rightarrow> run_ok (k (Inr F_UNLCK)) (set_range own fl) | GETLK fl \<Rightarrow> run_ok (k (Inr F_UNLCK)) own)"

primrec granted :: "(nat \<Rightarrow> nat \<Rightarrow> ltype) \<Rightarrow> nat \<Rightarrow> (int \<times> process) prog \<Rightarrow> bool" where
  "granted os p (Ret x) = True"
| "granted os p (Fcntl c k) = (case c of
     SETLK fl \<Rightarrow> (\<forall>q b. q \<noteq> p \<longrightarrow> flock_range fl b \<longrightarrow> \<not> conflicting (l_type fl) (os q b)) \<and> granted os p (k (Inr F_UNLCK))
   | GETLK fl \<Rightarrow> False)"

lemma granted_cong: "(\<And>q. q \<noteq> p \<Longrightarrow> os q = os' q) \<Longrightarrow> granted os p P = granted os' p P"
  by (induction P) (auto split: syscall.splits)

definition finished :: "world \<Rightarrow> nat \<Rightarrow> (int \<times> process) prog \<Rightarrow> world" where
  "finished w p P = (let r = run_ok P (owns w p) in w\<lparr>owns := (owns w)(p := snd r),
     procs := (procs w)(p := \<lparr>proc = snd (fst r), running = None, claims = levels (snd (fst r))\<rparr>)\<rparr>)"

lemma run_steps:
  "running (procs w p) = Some P \<Longrightarrow> granted (owns w) p P \<Longrightarrow> lock_step\<^sup>*\<^sup>* w (finished w p P)"
proof (induction P arbitrary: w)
  case (Ret x)
  obtain rc s where x: "x = (rc, s)" by (cases x)
  have "finished w p (Ret x) = w\<lparr>procs := (procs w)(p := \<lparr>proc = s, running = None, claims = levels s\<rparr>)\<rparr>"
    by (simp add: finished_def x)
  then show ?case using lock_step.finish [of w p rc s] Ret(1) x by auto
next
  case (Fcntl c k)
  then obtain fl where c: "c = SETLK fl" by (cases c) auto
  define w1 where "w1 = w\<lparr>owns := (owns w)(p := set_range (owns w p) fl),
    procs := (procs w)(p := (procs w p)\<lparr>running := Some (k (Inr F_UNLCK))\<rparr>)\<rparr>"
  have "\<not> blocked w p fl" using Fcntl(3) c by (auto simp: blocked_def)
  then have s1: "lock_step w w1" unfolding w1_def using Fcntl(2) c by (intro setlk_ok) simp_all
  have "granted (owns w) p (k (Inr F_UNLCK))" using Fcntl(3) c by simp
  moreover have "granted (owns w) p (k (Inr F_UNLCK)) = granted (owns w1) p (k (Inr F_UNLCK))"
    by (rule granted_cong) (simp add: w1_def)
  ultimately have "granted (owns w1) p (k (Inr F_UNLCK))" by simp
  then have "lock_step\<^sup>*\<^sup>* w1 (finished w1 p (k (Inr F_UNLCK)))"
    by (intro Fcntl(1)) (assumption | simp add: w1_def)+
  moreover have "finished w1 p (k (Inr F_UNLCK)) = finished w p (Fcntl c k)"
    by (simp add: finished_def w1_def c Let_def)
  ultimately show ?case using s1 by simp
qed

lemma reachable_steps: "lock_step\<^sup>*\<^sup>* w w' \<Longrightarrow> lock_reachable w \<Longrightarrow> lock_reachable w'"
  by (induction rule: rtranclp_induct) (auto intro: lock_reachable.step)

lemma lock_runs:
  assumes "lock_reachable w" "running (procs w p) = None" "lock_request (proc (procs w p)) h l"
    and "granted (owns w) p (unixLock h l (proc (procs w p)))"
  shows "lock_reachable (finished w p (unixLock h l (proc (procs w p))))"
proof -
  let ?P = "unixLock h l (proc (procs w p))"
  let ?w = "w\<lparr>procs := (procs w)(p := (procs w p)\<lparr>running := Some ?P\<rparr>)\<rparr>"
  have "lock_step\<^sup>*\<^sup>* ?w (finished ?w p ?P)" by (rule run_steps) (use assms(4) in simp_all)
  moreover have "finished ?w p ?P = finished w p ?P" by (simp add: finished_def Let_def)
  moreover have "lock_reachable ?w" using assms(1-3) begin_lock by (intro lock_reachable.step [OF assms(1)]) simp
  ultimately show ?thesis using reachable_steps by metis
qed

section \<open>Unlocking\<close>

lemma granted_unixFileLock:
  assumes "plain_process s"
  shows "granted os p (unixFileLock h fl s k) \<longleftrightarrow>
    (\<forall>q b. q \<noteq> p \<longrightarrow> flock_range fl b \<longrightarrow> \<not> conflicting (l_type fl) (os q b)) \<and> granted os p (k None s)"
    and "run_ok (unixFileLock h fl s k) own = run_ok (k None s) (set_range own fl)"
  using assms by (auto simp: unixFileLock_def plain_process_def)

lemma unlck_granted [simp]: "conflicting F_UNLCK t = False"
  by (simp add: conflicting_def)

lemma unlock_count_run:
  "granted os p (unlock_count h SQLITE_OK s) \<and> fst (fst (run_ok (unlock_count h SQLITE_OK s) own)) = SQLITE_OK \<and>
   levels (snd (fst (run_ok (unlock_count h SQLITE_OK s) own))) = (levels s)(h := NO_LOCK)"
  by (simp add: unlock_count_def Let_def closePendingFds_def)

lemma unlock_shared_run:
  "plain_process s \<Longrightarrow> granted os p (unlock_shared h s) \<and> fst (fst (run_ok (unlock_shared h s) own)) = SQLITE_OK \<and>
   levels (snd (fst (run_ok (unlock_shared h s) own))) = (levels s)(h := NO_LOCK)"
  using unlock_count_run by (simp add: unlock_shared_def Let_def granted_unixFileLock)

lemma posixUnlock_run:
  assumes plain: "plain_process s" and l: "l \<le> SHARED_LOCK"
    and free: "levels s h > SHARED_LOCK \<Longrightarrow> l = SHARED_LOCK \<Longrightarrow>
      \<forall>q b. q \<noteq> p \<longrightarrow> SHARED_FIRST \<le> b \<and> b < SHARED_FIRST + SHARED_SIZE \<longrightarrow> os q b \<noteq> F_WRLCK"
  shows "granted os p (posixUnlock h l False s) \<and> fst (fst (run_ok (posixUnlock h l False s) own)) = SQLITE_OK \<and>
    levels (snd (fst (run_ok (posixUnlock h l False s) own))) = (levels s)(h := min l (levels s h))"
proof (cases "levels s h \<le> l")
  case True
  have "eFileLock (pFile s h) = levels s h" by (simp add: levels_def)
  then show ?thesis using True by (simp add: posixUnlock_def downgrade_def min_absorb2)
next
  case False
  then have m: "min l (levels s h) = l" by (simp add: min_absorb1 not_le less_imp_le)
  show ?thesis
    using False m l free unlock_shared_run plain
    by (auto simp: posixUnlock_def downgrade_def levels_def Let_def granted_unixFileLock shared_cases flock_range_def conflicting_def SHARED_SIZE_def)
qed

lemma unlock_succeeds_post:
  assumes "lock_reachable w" "running (procs w p) = None" "l \<le> SHARED_LOCK"
  shows "\<exists>w'. lock_step\<^sup>*\<^sup>* w w' \<and> running (procs w' p) = None \<and>
    levels (proc (procs w' p)) = (levels (proc (procs w p)))(h := min l (levels (proc (procs w p)) h)) \<and>
    (\<forall>q. q \<noteq> p \<longrightarrow> owns w' q = owns w q \<and> procs w' q = procs w q)"
proof -
  let ?s = "proc (procs w p)"
  let ?P = "unixUnlock h l ?s"
  let ?w = "w\<lparr>procs := (procs w)(p := (procs w p)\<lparr>running := Some ?P,
    claims := (claims (procs w p))(h := min l (claims (procs w p) h))\<rparr>)\<rparr>"
  have ok: "world_ok w" by (rule reachable_ok [OF assms(1)])
  then have p: "process_ok ?s" "holds_all (owns w p) (levels ?s)"
    using assms(2) by (auto simp: world_ok_def procstate_ok_def split: option.splits dest: spec [of _ p])
  have free: "\<forall>q b. q \<noteq> p \<longrightarrow> SHARED_FIRST \<le> b \<and> b < SHARED_FIRST + SHARED_SIZE \<longrightarrow> owns w q b \<noteq> F_WRLCK"
    if "levels ?s h > SHARED_LOCK"
  proof (intro allI impI)
    fix q b assume "q \<noteq> p" and b: "SHARED_FIRST \<le> b \<and> b < SHARED_FIRST + SHARED_SIZE"
    then have "\<not> conflicting (owns w p b) (owns w q b)" using ok by (auto simp: world_ok_def)
    moreover have "owns w p b \<noteq> F_UNLCK"
      using holds_allD [OF p(2), of h] that b by (simp add: holds_def less_imp_le)
    ultimately show "owns w q b \<noteq> F_WRLCK" by (auto simp: conflicting_def)
  qed
  have run: "granted (owns w) p ?P \<and> levels (snd (fst (run_ok ?P (owns w p)))) = (levels ?s)(h := min l (levels ?s h))"
    using posixUnlock_run [of ?s l h p "owns w"] p(1) assms(3) free by (simp add: unixUnlock_def)
  have "lock_step\<^sup>*\<^sup>* ?w (finished ?w p ?P)" by (rule run_steps) (use run in simp_all)
  moreover have "lock_step w ?w" by (rule begin_unlock [OF assms(2,3)])
  ultimately have "lock_step\<^sup>*\<^sup>* w (finished ?w p ?P)" by simp
  then show ?thesis using run by (intro exI [of _ "finished ?w p ?P"]) (simp add: finished_def Let_def)
qed

section \<open>The outcomes of locking\<close>

primrec always :: "('a \<Rightarrow> bool) \<Rightarrow> 'a prog \<Rightarrow> bool" where
  "always Q (Ret x) = Q x"
| "always Q (Fcntl c k) = (\<forall>r. always Q (k r))"

lemma always_unixFileLock:
  "(\<And>e s'. levels s' = levels s \<Longrightarrow> always Q (k e s')) \<Longrightarrow> always Q (unixFileLock h fl s k)"
  by (auto simp: unixFileLock_def split: sum.splits)

definition lock_outcome :: "(nat \<Rightarrow> lock) \<Rightarrow> nat \<Rightarrow> lock \<Rightarrow> int \<times> process \<Rightarrow> bool" where
  "lock_outcome lv h l r \<longleftrightarrow>
     (if fst r = SQLITE_OK then levels (snd r) = lv(h := max l (lv h))
      else levels (snd r) = lv \<or> l = EXCLUSIVE_LOCK \<and> levels (snd r) = lv(h := PENDING_LOCK))"

lemma lock_finish_outcome:
  "lv h < l \<Longrightarrow> levels s = lv \<or> rc = SQLITE_OK \<and> levels s = lv(h := l) \<Longrightarrow> always (lock_outcome lv h l) (lock_finish h l rc s)"
  by (auto simp: lock_finish_def lock_outcome_def max_absorb1)

lemma lock_write_outcome: "levels s = lv \<Longrightarrow> lv h < l \<Longrightarrow> always (lock_outcome lv h l) (lock_write h l s)"
  by (auto simp: lock_write_def Let_def intro!: always_unixFileLock lock_finish_outcome split: option.splits)

lemma lock_shared_outcome:
  "levels s = lv \<Longrightarrow> lv h < SHARED_LOCK \<Longrightarrow> always (lock_outcome lv h SHARED_LOCK) (lock_shared h s)"
  by (auto simp: lock_shared_def Let_def lock_outcome_def rc_nonzero SQLITE_IOERR_UNLOCK_def
      intro!: always_unixFileLock lock_finish_outcome split: option.splits)

lemma unixLock_outcome:
  assumes "lock_request s h l"
  shows "always (lock_outcome (levels s) h l) (unixLock h l s)"
proof (cases "levels s h \<ge> l")
  case True
  then show ?thesis by (simp add: unixLock_def levels_def lock_outcome_def max_absorb2 fun_upd_idem)
next
  case False
  have "eFileLock (pFile s h) = levels s h" by (simp add: levels_def)
  moreover have "lock_outcome (levels s) h l (rc, s')" if "rc \<noteq> SQLITE_OK" "levels s' = levels s" for rc s'
    using that by (simp add: lock_outcome_def)
  ultimately show ?thesis
    using False lock_write_outcome lock_shared_outcome
    by (auto simp: unixLock_def Let_def lock_outcome_def rc_nonzero max_absorb1 not_le
      intro!: always_unixFileLock split: option.splits)
qed

section \<open>Properties\<close>

text \<open>Two processes without locks; the first then locks its handle 0.\<close>

definition closed_file :: unixFile where
  "closed_file = \<lparr>eFileLock = NO_LOCK, lastErrno = None, UNIXFILE_EXCL = False, UNIXFILE_RDONLY = False\<rparr>"

definition new_process :: process where
  "new_process = \<lparr>pInode = \<lparr>nShared = 0, iFileLock = NO_LOCK, bProcessLock = False, nLock = 0, pUnused = 0\<rparr>,
     pFile = (\<lambda>_. closed_file)\<rparr>"

definition new_world :: world where
  "new_world = \<lparr>owns = (\<lambda>_ _. F_UNLCK), procs = (\<lambda>_. \<lparr>proc = new_process, running = None, claims = (\<lambda>_. NO_LOCK)\<rparr>)\<rparr>"

definition locked :: "lock \<Rightarrow> world \<Rightarrow> world" where
  "locked l w = finished w 0 (unixLock 0 l (proc (procs w 0)))"

lemma new_world_reachable: "lock_reachable new_world"
  by (rule lock_reachable.start) (simp_all add: new_world_def new_process_def closed_file_def fresh_process_def)

lemmas lock_eval = locked_def finished_def unixLock_def lock_shared_def lock_write_def lock_finish_def unixFileLock_def
  Let_def set_level_def closed_file_def new_process_def new_world_def lock_order levels_def

lemma conflicting_unlck [simp]: "conflicting t F_UNLCK = (False)"
  by (auto simp: conflicting_def)

lemma locked_shared:
  "lock_reachable (locked SHARED_LOCK new_world) \<and> claims (procs (locked SHARED_LOCK new_world) 0) 0 = SHARED_LOCK"
  unfolding locked_def
  by (intro conjI lock_runs new_world_reachable)
    (simp_all add: lock_eval lock_request_def)

lemma locked_exclusive:
  "lock_reachable (locked EXCLUSIVE_LOCK (locked SHARED_LOCK new_world)) \<and>
   claims (procs (locked EXCLUSIVE_LOCK (locked SHARED_LOCK new_world)) 0) 0 = EXCLUSIVE_LOCK"
  unfolding locked_def [of EXCLUSIVE_LOCK]
  by (intro conjI lock_runs locked_shared [THEN conjunct1]) (simp_all add: lock_eval lock_request_def)

text \<open> C37: Mutual exclusion across processes and handles. In every interleaving of the system calls of any number of
  processes, with failures of system calls at any point except for unlocking, a handle that is entitled to the
  level \<open>EXCLUSIVE\<close> excludes every level of every other handle of this or another process; at most one handle is at
  \<open>RESERVED\<close>; at most one is at \<open>PENDING\<close> or above. A handle stays entitled to its level until it begins to unlock. \<close>

theorem locks_exclude:
  assumes "lock_reachable w" "(p, h) \<noteq> (q, h')"
  shows "(claims (procs w p) h = EXCLUSIVE_LOCK \<longrightarrow> claims (procs w q) h' = NO_LOCK) \<and>
    (claims (procs w p) h = RESERVED_LOCK \<longrightarrow> claims (procs w q) h' \<noteq> RESERVED_LOCK) \<and>
    (claims (procs w p) h \<ge> PENDING_LOCK \<longrightarrow> claims (procs w q) h' < PENDING_LOCK)"
  using assms by (rule claims_exclude_post)

theorem locks_exclude_witness:
  "claims (procs (locked EXCLUSIVE_LOCK (locked SHARED_LOCK new_world)) 0) 0 = EXCLUSIVE_LOCK \<and>
   claims (procs (locked EXCLUSIVE_LOCK (locked SHARED_LOCK new_world)) 1) 0 = NO_LOCK"
  using locks_exclude [of "locked EXCLUSIVE_LOCK (locked SHARED_LOCK new_world)" 0 0 1 0] locked_exclusive by simp



text \<open> C39: Unlocking never waits. From every reachable state a process that runs no operation can lower any handle to
  \<open>SHARED\<close> or \<open>NO_LOCK\<close> by its own steps, whatever the others hold and however far their operations are; nothing changes
  for them. \<close>

theorem unlock_succeeds:
  assumes "lock_reachable w" "running (procs w p) = None" "l \<le> SHARED_LOCK"
  shows "\<exists>w'. lock_step\<^sup>*\<^sup>* w w' \<and> running (procs w' p) = None \<and>
    levels (proc (procs w' p)) = (levels (proc (procs w p)))(h := min l (levels (proc (procs w p)) h)) \<and>
    (\<forall>q. q \<noteq> p \<longrightarrow> owns w' q = owns w q \<and> procs w' q = procs w q)"
  using assms by (rule unlock_succeeds_post)

theorem unlock_succeeds_witness:
  "\<exists>w'. lock_step\<^sup>*\<^sup>* (locked EXCLUSIVE_LOCK (locked SHARED_LOCK new_world)) w' \<and> levels (proc (procs w' 0)) 0 = SHARED_LOCK"
proof -
  have "running (procs (locked EXCLUSIVE_LOCK (locked SHARED_LOCK new_world)) 0) = None"
    "levels (proc (procs (locked EXCLUSIVE_LOCK (locked SHARED_LOCK new_world)) 0)) 0 = EXCLUSIVE_LOCK"
    by (simp_all add: lock_eval)
  then show ?thesis
    using unlock_succeeds [of "locked EXCLUSIVE_LOCK (locked SHARED_LOCK new_world)" 0 SHARED_LOCK 0] locked_exclusive
    by (auto simp: min_absorb1)
qed

text \<open> The outcomes of \<open>unixLock\<close>, whatever the system answers. Success means that the handle is at the requested level
  or above; after a failure every level is what it was, except that a handle that asked for \<open>EXCLUSIVE\<close> may be left at
  \<open>PENDING\<close>. \<close>

theorem unixLock_outcomes:
  assumes "lock_request s h l"
  shows "always (\<lambda>r. if fst r = SQLITE_OK then levels (snd r) = (levels s)(h := max l (levels s h))
      else levels (snd r) = levels s \<or> l = EXCLUSIVE_LOCK \<and> levels (snd r) = (levels s)(h := PENDING_LOCK)) (unixLock h l s)"
  using unixLock_outcome [OF assms] unfolding lock_outcome_def .

theorem unixLock_outcomes_witness:
  "always (\<lambda>r. fst r = SQLITE_OK \<longrightarrow> levels (snd r) 7 = SHARED_LOCK) (unixLock 7 SHARED_LOCK new_process)"
proof -
  have mono: "always Q P \<Longrightarrow> (\<And>r. Q r \<Longrightarrow> Q' r) \<Longrightarrow> always Q' P" for Q Q' :: "int \<times> process \<Rightarrow> bool" and P
    by (induction P) auto
  show ?thesis
    by (rule mono [OF unixLock_outcomes])
      (auto simp: lock_request_def levels_def new_process_def closed_file_def max_def split: if_splits)
qed

text \<open>The answer of \<^verbatim>\<open>F_GETLK\<close>: the type of a conflicting lock of another process, or \<open>F_UNLCK\<close> if there is none.\<close>

definition getlk_answer :: "world \<Rightarrow> nat \<Rightarrow> flock \<Rightarrow> errno + ltype \<Rightarrow> bool" where
  "getlk_answer w p fl r \<longleftrightarrow> (case r of Inl e \<Rightarrow> True | Inr t \<Rightarrow> (t \<noteq> F_UNLCK) = blocked w p fl)"

primrec query :: "world \<Rightarrow> nat \<Rightarrow> 'a prog \<Rightarrow> 'a \<Rightarrow> bool" where
  "query w p (Ret x) y = (x = y)"
| "query w p (Fcntl c k) y = (\<exists>r. (case c of GETLK fl \<Rightarrow> getlk_answer w p fl r | SETLK fl \<Rightarrow> False) \<and> query w p (k r) y)"

lemma check_reserved_post:
  assumes "lock_reachable w" "running (procs w p) = None"
    and "query w p (unixCheckReservedLock h (proc (procs w p))) ((rc, res), s')"
  shows "levels s' = levels (proc (procs w p)) \<and>
    (rc = SQLITE_OK \<longrightarrow>
      res = ((\<exists>h. levels (proc (procs w p)) h > SHARED_LOCK) \<or> (\<exists>q. q \<noteq> p \<and> owns w q RESERVED_BYTE \<noteq> F_UNLCK)) \<and>
      (\<forall>q h. claims (procs w q) h = RESERVED_LOCK \<longrightarrow> res))"
proof -
  let ?s = "proc (procs w p)" and ?fl = "\<lparr>l_type = F_WRLCK, l_start = RESERVED_BYTE, l_len = 1\<rparr>"
  have ok: "procstate_ok (owns w q) (procs w q)" for q using reachable_ok [OF assms(1)] by (simp add: world_ok_def)
  then have p: "process_ok ?s" "claims (procs w p) = levels ?s"
    using ok [of p] assms(2) by (simp_all add: procstate_ok_def)
  have il: "iFileLock (pInode ?s) > SHARED_LOCK \<longleftrightarrow> (\<exists>h. levels ?s h > SHARED_LOCK)"
    using p(1) unfolding process_ok_def inode_ok_def by (metis less_le_trans le_less_linear NO_LOCK_le not_le)
  have blocked: "blocked w p ?fl \<longleftrightarrow> (\<exists>q. q \<noteq> p \<and> owns w q RESERVED_BYTE \<noteq> F_UNLCK)"
    by (auto simp: blocked_def flock_range_def conflicting_def less_Suc_eq_le dest: order_antisym)
  have res: "levels s' = levels ?s \<and> (rc = SQLITE_OK \<longrightarrow>
      res = ((\<exists>h. levels ?s h > SHARED_LOCK) \<or> (\<exists>q. q \<noteq> p \<and> owns w q RESERVED_BYTE \<noteq> F_UNLCK)))"
    using assms(3) p(1) unfolding il [symmetric] blocked [symmetric]
    by (auto simp: unixCheckReservedLock_def Let_def getlk_answer_def process_ok_def plain_process_def
        SQLITE_IOERR_CHECKRESERVEDLOCK_def split: if_splits sum.splits)
  have "(\<exists>h. levels ?s h > SHARED_LOCK) \<or> (\<exists>q. q \<noteq> p \<and> owns w q RESERVED_BYTE \<noteq> F_UNLCK)"
    if "claims (procs w q) h = RESERVED_LOCK" for q h
  proof (cases "q = p")
    case True
    then have "levels ?s h > SHARED_LOCK" using that p(2) by (simp add: lock_order)
    then show ?thesis by blast
  next
    case False
    have "holds (owns w q) (claims (procs w q) h)" using ok [of q] by (simp add: procstate_ok_def holds_all_def)
    then have "owns w q RESERVED_BYTE = F_WRLCK" using that by (simp add: holds_def)
    then show ?thesis using False by auto
  qed
  then show ?thesis using res by blast
qed

text \<open> C40: The test for a reserved lock. If \<open>unixCheckReservedLock\<close> succeeds, its answer is whether a handle of this process
  is above \<open>SHARED\<close> or another process has locked the reserved byte; so it is true whenever any handle of any process is
  entitled to \<open>RESERVED\<close>. It changes no level. \<close>

theorem check_reserved:
  assumes "lock_reachable w" "running (procs w p) = None"
    and "query w p (unixCheckReservedLock h (proc (procs w p))) ((rc, res), s')"
  shows "levels s' = levels (proc (procs w p)) \<and>
    (rc = SQLITE_OK \<longrightarrow>
      res = ((\<exists>h. levels (proc (procs w p)) h > SHARED_LOCK) \<or> (\<exists>q. q \<noteq> p \<and> owns w q RESERVED_BYTE \<noteq> F_UNLCK)) \<and>
      (\<forall>q h. claims (procs w q) h = RESERVED_LOCK \<longrightarrow> res))"
  using assms by (rule check_reserved_post)

theorem check_reserved_witness:
  "query (locked SHARED_LOCK new_world) 1 (unixCheckReservedLock 0 new_process) ((SQLITE_OK, False), new_process) \<and>
   claims (procs (locked SHARED_LOCK new_world) 0) 0 \<noteq> RESERVED_LOCK"
proof -
  have e: "running (procs (locked SHARED_LOCK new_world) 1) = None" "proc (procs (locked SHARED_LOCK new_world) 1) = new_process"
    by (simp_all add: lock_eval)
  have "\<not> blocked (locked SHARED_LOCK new_world) 1 \<lparr>l_type = F_WRLCK, l_start = RESERVED_BYTE, l_len = 1\<rparr>"
    by (auto simp: blocked_def lock_eval set_range_def flock_range_def SHARED_FIRST_def RESERVED_BYTE_def)
  then have q: "query (locked SHARED_LOCK new_world) 1 (unixCheckReservedLock 0 new_process) ((SQLITE_OK, False), new_process)"
    by (auto simp: unixCheckReservedLock_def Let_def new_process_def lock_order getlk_answer_def intro!: exI [of _ "Inr F_UNLCK"])
  then show ?thesis
    using check_reserved [of "locked SHARED_LOCK new_world" 1 0 SQLITE_OK False new_process] locked_shared e by auto
qed

end
