(* ===== verification/Cipher_Ctx.thy ===== *)
theory Cipher_Ctx
  imports Strings Varint
begin

text \<open>
  The state of the page encryption, \<^verbatim>\<open>src/crypto_impl.c\<close>: cipher contexts for reading and for writing,
  which hold the pass phrase, the parameters of the key derivation and the derived keys, and the codec
  context of a database that owns both. The provider of the cryptographic primitives is an argument: a record of the
  functions behind the pointers of \<^verbatim>\<open>sqlcipher_provider\<close>, with the state \<^verbatim>\<open>provider_ctx\<close> of type \<open>'p\<close>.

  The answers of the allocator are a list of booleans that is consumed from the front (an empty
  list always has memory); memory that is wiped before it is freed is not kept.
\<close>

section \<open>Bytes\<close>

text \<open>Reading and writing a block of a buffer; outside the buffer it is undefined.\<close>

definition block :: "'a list \<Rightarrow> nat \<Rightarrow> nat \<Rightarrow> 'a list option" where
  "block p i n = (if i + n \<le> length p then Some (take n (drop i p)) else None)"

definition put_block :: "'a list \<Rightarrow> nat \<Rightarrow> 'a list \<Rightarrow> 'a list option" where
  "put_block p i x = (if i + length x \<le> length p then Some (take i p @ x @ drop (i + length x) p) else None)"

definition sqlcipher_memset :: "u8 list \<Rightarrow> u8 \<Rightarrow> nat \<Rightarrow> u8 list option" where
  "sqlcipher_memset v val len = (if len \<le> length v then Some (fold (\<lambda>i a. a[i := val]) [0..<len] v) else None)"

text \<open>The two comparisons look at every byte, whatever they find.\<close>

definition sqlcipher_ismemset :: "u8 list \<Rightarrow> u8 \<Rightarrow> nat \<Rightarrow> int option" where
  "sqlcipher_ismemset v val len =
     (if len \<le> length v then Some (if fold (\<lambda>i r. r OR (v ! i XOR val)) [0..<len] 0 \<noteq> 0 then 1 else 0) else None)"

definition sqlcipher_memcmp :: "u8 list \<Rightarrow> u8 list \<Rightarrow> nat \<Rightarrow> int option" where
  "sqlcipher_memcmp a0 a1 len =
     (if len \<le> length a0 \<and> len \<le> length a1
      then Some (if fold (\<lambda>i r. r OR (a0 ! i XOR a1 ! i)) [0..<len] 0 \<noteq> 0 then 1 else 0) else None)"

definition sqlcipher_put4byte_le :: "u32 \<Rightarrow> u8 list" where
  "sqlcipher_put4byte_le v = [ucast v, ucast (drop_bit 8 v), ucast (drop_bit 16 v), ucast (drop_bit 24 v)]"

definition cipher_hex2int :: "u8 \<Rightarrow> u8" where
  "cipher_hex2int c = (if 48 \<le> c \<and> c \<le> 57 then c - 48 else if 65 \<le> c \<and> c \<le> 70 then c - 65 + 10
     else if 97 \<le> c \<and> c \<le> 102 then c - 97 + 10 else 0)"

text \<open>The bytes written to \<^verbatim>\<open>out\<close>; an odd \<open>sz\<close> reads one character more.\<close>

fun cipher_hex2bin :: "u8 list \<Rightarrow> nat \<Rightarrow> u8 list option" where
  "cipher_hex2bin hex 0 = Some []"
| "cipher_hex2bin (a # b # hex) sz =
     map_option ((#) (push_bit 4 (cipher_hex2int a) OR cipher_hex2int b)) (cipher_hex2bin hex (sz - 2))"
| "cipher_hex2bin _ sz = None"

section \<open>Memory\<close>

definition sqlcipher_malloc :: "int \<Rightarrow> bool list \<Rightarrow> bool \<times> bool list" where
  "sqlcipher_malloc sz am =
     (if sz \<le> 0 \<or> sz \<ge> 0x7fffff00 then (False, am) else case am of [] \<Rightarrow> (True, []) | b # am \<Rightarrow> (b, am))"

section \<open>The provider\<close>

record 'p sqlcipher_provider =
  p_hmac :: "'p \<Rightarrow> u8 list \<Rightarrow> u8 list \<Rightarrow> u8 list \<Rightarrow> u8 list"
  p_kdf :: "'p \<Rightarrow> u8 list \<Rightarrow> u8 list \<Rightarrow> int \<Rightarrow> nat \<Rightarrow> u8 list"
  p_cipher :: "'p \<Rightarrow> bool \<Rightarrow> u8 list \<Rightarrow> u8 list \<Rightarrow> u8 list \<Rightarrow> u8 list option"
  p_set_cipher :: "'p \<Rightarrow> u8 list \<Rightarrow> 'p"
  p_get_cipher :: "'p \<Rightarrow> u8 list option"
  p_get_key_sz :: "'p \<Rightarrow> nat option"
  p_get_iv_sz :: "'p \<Rightarrow> nat option"
  p_get_block_sz :: "'p \<Rightarrow> nat option"
  p_get_hmac_sz :: "'p \<Rightarrow> nat option"
  p_ctx_copy :: "'p \<Rightarrow> 'p \<Rightarrow> 'p"
  p_ctx_cmp :: "'p \<Rightarrow> 'p \<Rightarrow> bool"
  p_ctx_init :: "'p"

definition CIPHER_FLAG_HMAC :: u32 where "CIPHER_FLAG_HMAC = 0x01"
definition CIPHER_FLAG_LE_PGNO :: u32 where "CIPHER_FLAG_LE_PGNO = 0x02"
definition CIPHER_FLAG_BE_PGNO :: u32 where "CIPHER_FLAG_BE_PGNO = 0x04"

definition FILE_HEADER_SZ :: nat where "FILE_HEADER_SZ = 16"
definition CIPHER_MAX_IV_SZ :: nat where "CIPHER_MAX_IV_SZ = 16"
definition CIPHER_MAX_KEY_SZ :: nat where "CIPHER_MAX_KEY_SZ = 64"
definition PBKDF2_ITER :: int where "PBKDF2_ITER = 4000"
definition FAST_PBKDF2_ITER :: int where "FAST_PBKDF2_ITER = 2"
definition SQLITE_DEFAULT_PAGE_SIZE :: int where "SQLITE_DEFAULT_PAGE_SIZE = 1024"

text \<open>The name of the default cipher, ``aes-256-cbc''.\<close>

definition CIPHER :: "u8 list" where
  "CIPHER = [0x61, 0x65, 0x73, 0x2D, 0x32, 0x35, 0x36, 0x2D, 0x63, 0x62, 0x63, 0]"

text \<open>The variables of the file: the flags of new contexts and the mask of the salt.\<close>

record cipher_globals =
  default_flags :: u32
  hmac_salt_mask :: u8

definition cipher_globals0 :: cipher_globals where
  "cipher_globals0 = \<lparr>default_flags = CIPHER_FLAG_HMAC OR CIPHER_FLAG_LE_PGNO, hmac_salt_mask = 0x3a\<rparr>"

definition sqlcipher_set_default_use_hmac :: "bool \<Rightarrow> cipher_globals \<Rightarrow> cipher_globals" where
  "sqlcipher_set_default_use_hmac use g =
     (if use then g\<lparr>default_flags := default_flags g OR CIPHER_FLAG_HMAC\<rparr>
      else g\<lparr>default_flags := default_flags g AND NOT CIPHER_FLAG_HMAC\<rparr>)"

definition sqlcipher_get_default_use_hmac :: "cipher_globals \<Rightarrow> bool" where
  "sqlcipher_get_default_use_hmac g \<longleftrightarrow> default_flags g AND CIPHER_FLAG_HMAC \<noteq> 0"

definition sqlcipher_set_hmac_salt_mask :: "u8 \<Rightarrow> cipher_globals \<Rightarrow> cipher_globals" where
  "sqlcipher_set_hmac_salt_mask m g = g\<lparr>hmac_salt_mask := m\<rparr>"

definition sqlcipher_get_hmac_salt_mask :: "cipher_globals \<Rightarrow> u8" where
  "sqlcipher_get_hmac_salt_mask g = hmac_salt_mask g"

section \<open>Contexts\<close>

text \<open>The pointer to the pass phrase: none, memory that has been freed, or the bytes.\<close>

datatype secret = Null | Freed | Bytes "u8 list"

record 'p cipher_ctx =
  derive_key :: bool
  kdf_iter :: int
  fast_kdf_iter :: int
  key_sz :: nat
  iv_sz :: nat
  block_sz :: nat
  pass_sz :: nat
  reserve_sz :: nat
  hmac_sz :: nat
  cflags :: u32
  key :: "u8 list"
  hmac_key :: "u8 list"
  pass :: secret
  provider_ctx :: 'p

text \<open>\<open>errCode\<close> is the error that the codec reports to the pager and the connection.\<close>

record 'p codec_ctx =
  kdf_salt_sz :: nat
  page_sz :: int
  kdf_salt :: "u8 list"
  hmac_kdf_salt :: "u8 list"
  buffer :: "u8 list option"
  read_ctx :: "'p cipher_ctx"
  write_ctx :: "'p cipher_ctx"
  errCode :: int

definition the_ctx :: "int \<Rightarrow> 'p codec_ctx \<Rightarrow> 'p cipher_ctx" where
  "the_ctx for_ctx ctx = (if for_ctx \<noteq> 0 then write_ctx ctx else read_ctx ctx)"

definition set_ctx :: "int \<Rightarrow> 'p cipher_ctx \<Rightarrow> 'p codec_ctx \<Rightarrow> 'p codec_ctx" where
  "set_ctx for_ctx c ctx = (if for_ctx \<noteq> 0 then ctx\<lparr>write_ctx := c\<rparr> else ctx\<lparr>read_ctx := c\<rparr>)"

definition free_secret :: "secret \<Rightarrow> secret" where
  "free_secret s = (if s = Null then Null else Freed)"

section \<open>Operations on cipher contexts\<close>

text \<open>The five allocations are the context, its provider, the provider's context and the two keys.\<close>

fun allocs :: "nat \<Rightarrow> bool list \<Rightarrow> bool \<times> bool list" where
  "allocs 0 am = (True, am)"
| "allocs (Suc n) am = (case sqlcipher_malloc 1 am of (b, am) \<Rightarrow> if b then allocs n am else (False, am))"

definition sqlcipher_cipher_ctx_init :: "'p sqlcipher_provider \<Rightarrow> cipher_globals \<Rightarrow> bool list \<Rightarrow> 'p cipher_ctx option \<times> bool list" where
  "sqlcipher_cipher_ctx_init P g am =
     (case allocs 5 am of
        (False, am) \<Rightarrow> (None, am)
      | (True, am) \<Rightarrow>
          (Some \<lparr>derive_key = False, kdf_iter = 0, fast_kdf_iter = 0, key_sz = 0, iv_sz = 0, block_sz = 0, pass_sz = 0,
             reserve_sz = 0, hmac_sz = 0, cflags = default_flags g, key = replicate CIPHER_MAX_KEY_SZ 0,
             hmac_key = replicate CIPHER_MAX_KEY_SZ 0, pass = Null, provider_ctx = p_ctx_init P\<rparr>, am))"

text \<open>\<open>None\<close> where the code reads a null pointer or freed memory.\<close>

definition pass_equal :: "'p cipher_ctx \<Rightarrow> 'p cipher_ctx \<Rightarrow> bool option" where
  "pass_equal c1 c2 =
     (case (pass c1, pass c2) of
        (Null, Null) \<Rightarrow> Some True
      | (Bytes p1, Bytes p2) \<Rightarrow> map_option (\<lambda>r. r = 0) (sqlcipher_memcmp p1 p2 (pass_sz c1))
      | _ \<Rightarrow> if pass_sz c1 = 0 then Some True else None)"

definition sqlcipher_cipher_ctx_cmp :: "'p sqlcipher_provider \<Rightarrow> 'p cipher_ctx \<Rightarrow> 'p cipher_ctx \<Rightarrow> int option" where
  "sqlcipher_cipher_ctx_cmp P c1 c2 =
     (if iv_sz c1 = iv_sz c2 \<and> kdf_iter c1 = kdf_iter c2 \<and> fast_kdf_iter c1 = fast_kdf_iter c2 \<and> key_sz c1 = key_sz c2 \<and>
         pass_sz c1 = pass_sz c2 \<and> cflags c1 = cflags c2 \<and> hmac_sz c1 = hmac_sz c2 \<and>
         p_ctx_cmp P (provider_ctx c1) (provider_ctx c2)
      then map_option (\<lambda>eq. if eq then 0 else 1) (pass_equal c1 c2)
      else Some 1)"

definition sqlcipher_cipher_ctx_copy ::
  "'p sqlcipher_provider \<Rightarrow> 'p cipher_ctx \<Rightarrow> 'p cipher_ctx \<Rightarrow> bool list \<Rightarrow> (int \<times> 'p cipher_ctx \<times> bool list) option" where
  "sqlcipher_cipher_ctx_copy P target source am =
     (let t = source\<lparr>provider_ctx := p_ctx_copy P (provider_ctx target) (provider_ctx source)\<rparr>;
          (b, am) = sqlcipher_malloc (int (pass_sz source)) am
      in if \<not> b then Some (SQLITE_NOMEM, t\<lparr>pass := Null\<rparr>, am)
         else case pass source of
             Bytes p \<Rightarrow> map_option (\<lambda>z. (SQLITE_OK, t\<lparr>pass := Bytes z\<rparr>, am)) (block p 0 (pass_sz source))
           | _ \<Rightarrow> None)"

definition sqlcipher_cipher_ctx_set_pass ::
  "'p cipher_ctx \<Rightarrow> u8 list option \<Rightarrow> nat \<Rightarrow> bool list \<Rightarrow> int \<times> 'p cipher_ctx \<times> bool list" where
  "sqlcipher_cipher_ctx_set_pass c zKey nKey am =
     (let c = c\<lparr>pass := free_secret (pass c), pass_sz := nKey\<rparr>
      in case zKey of
           Some z \<Rightarrow>
             if nKey \<noteq> 0
             then case sqlcipher_malloc (int nKey) am of
                 (False, am) \<Rightarrow> (SQLITE_NOMEM, c\<lparr>pass := Null\<rparr>, am)
               | (True, am) \<Rightarrow> (SQLITE_OK, c\<lparr>pass := Bytes (take nKey z)\<rparr>, am)
             else (SQLITE_ERROR, c, am)
         | None \<Rightarrow> (SQLITE_ERROR, c, am))"

section \<open>Operations on codec contexts\<close>

text \<open>The setters store the changed context and copy it to the other one when \<^verbatim>\<open>for_ctx\<close> is 2.\<close>

definition store_ctx ::
  "'p sqlcipher_provider \<Rightarrow> int \<Rightarrow> 'p cipher_ctx \<Rightarrow> 'p codec_ctx \<Rightarrow> bool list \<Rightarrow> (int \<times> 'p codec_ctx \<times> bool list) option" where
  "store_ctx P for_ctx c ctx am =
     (let ctx = set_ctx for_ctx c ctx
      in if for_ctx = 2
         then do { (rc, r, am) \<leftarrow> sqlcipher_cipher_ctx_copy P (read_ctx ctx) c am;
                   Some (rc, ctx\<lparr>read_ctx := r\<rparr>, am) }
         else Some (SQLITE_OK, ctx, am))"

definition sqlcipher_codec_ctx_set_pass ::
  "'p sqlcipher_provider \<Rightarrow> 'p codec_ctx \<Rightarrow> u8 list option \<Rightarrow> nat \<Rightarrow> int \<Rightarrow> bool list \<Rightarrow> (int \<times> 'p codec_ctx \<times> bool list) option" where
  "sqlcipher_codec_ctx_set_pass P ctx zKey nKey for_ctx am =
     (let (rc, c, am) = sqlcipher_cipher_ctx_set_pass (the_ctx for_ctx ctx) zKey nKey am
      in if rc \<noteq> SQLITE_OK then Some (rc, set_ctx for_ctx c ctx, am)
         else store_ctx P for_ctx (c\<lparr>derive_key := True\<rparr>) ctx am)"

definition sqlcipher_codec_ctx_set_cipher ::
  "'p sqlcipher_provider \<Rightarrow> 'p codec_ctx \<Rightarrow> u8 list \<Rightarrow> int \<Rightarrow> bool list \<Rightarrow> (int \<times> 'p codec_ctx \<times> bool list) option" where
  "sqlcipher_codec_ctx_set_cipher P ctx cipher_name for_ctx am =
     (let c = the_ctx for_ctx ctx; p = p_set_cipher P (provider_ctx c) cipher_name
      in do {
        ks \<leftarrow> p_get_key_sz P p;
        is \<leftarrow> p_get_iv_sz P p;
        bs \<leftarrow> p_get_block_sz P p;
        hs \<leftarrow> p_get_hmac_sz P p;
        store_ctx P for_ctx
          (c\<lparr>provider_ctx := p, key_sz := ks, iv_sz := is, block_sz := bs, hmac_sz := hs, derive_key := True\<rparr>) ctx am
      })"

definition sqlcipher_codec_ctx_get_cipher :: "'p sqlcipher_provider \<Rightarrow> 'p codec_ctx \<Rightarrow> int \<Rightarrow> u8 list option" where
  "sqlcipher_codec_ctx_get_cipher P ctx for_ctx = p_get_cipher P (provider_ctx (the_ctx for_ctx ctx))"

definition sqlcipher_codec_ctx_set_kdf_iter ::
  "'p sqlcipher_provider \<Rightarrow> 'p codec_ctx \<Rightarrow> int \<Rightarrow> int \<Rightarrow> bool list \<Rightarrow> (int \<times> 'p codec_ctx \<times> bool list) option" where
  "sqlcipher_codec_ctx_set_kdf_iter P ctx n for_ctx am =
     store_ctx P for_ctx ((the_ctx for_ctx ctx)\<lparr>kdf_iter := n, derive_key := True\<rparr>) ctx am"

definition sqlcipher_codec_ctx_get_kdf_iter :: "'p codec_ctx \<Rightarrow> int \<Rightarrow> int" where
  "sqlcipher_codec_ctx_get_kdf_iter ctx for_ctx = kdf_iter (the_ctx for_ctx ctx)"

definition sqlcipher_codec_ctx_set_fast_kdf_iter ::
  "'p sqlcipher_provider \<Rightarrow> 'p codec_ctx \<Rightarrow> int \<Rightarrow> int \<Rightarrow> bool list \<Rightarrow> (int \<times> 'p codec_ctx \<times> bool list) option" where
  "sqlcipher_codec_ctx_set_fast_kdf_iter P ctx n for_ctx am =
     store_ctx P for_ctx ((the_ctx for_ctx ctx)\<lparr>fast_kdf_iter := n, derive_key := True\<rparr>) ctx am"

definition sqlcipher_codec_ctx_get_fast_kdf_iter :: "'p codec_ctx \<Rightarrow> int \<Rightarrow> int" where
  "sqlcipher_codec_ctx_get_fast_kdf_iter ctx for_ctx = fast_kdf_iter (the_ctx for_ctx ctx)"

definition sqlcipher_codec_ctx_set_flag :: "'p codec_ctx \<Rightarrow> u32 \<Rightarrow> 'p codec_ctx" where
  "sqlcipher_codec_ctx_set_flag ctx flag =
     ctx\<lparr>write_ctx := (write_ctx ctx)\<lparr>cflags := cflags (write_ctx ctx) OR flag\<rparr>,
         read_ctx := (read_ctx ctx)\<lparr>cflags := cflags (read_ctx ctx) OR flag\<rparr>\<rparr>"

definition sqlcipher_codec_ctx_unset_flag :: "'p codec_ctx \<Rightarrow> u32 \<Rightarrow> 'p codec_ctx" where
  "sqlcipher_codec_ctx_unset_flag ctx flag =
     ctx\<lparr>write_ctx := (write_ctx ctx)\<lparr>cflags := cflags (write_ctx ctx) AND NOT flag\<rparr>,
         read_ctx := (read_ctx ctx)\<lparr>cflags := cflags (read_ctx ctx) AND NOT flag\<rparr>\<rparr>"

definition sqlcipher_codec_ctx_get_flag :: "'p codec_ctx \<Rightarrow> u32 \<Rightarrow> int \<Rightarrow> bool" where
  "sqlcipher_codec_ctx_get_flag ctx flag for_ctx \<longleftrightarrow> cflags (the_ctx for_ctx ctx) AND flag \<noteq> 0"

text \<open>The reserve at the end of a page; a block size of zero is a division by zero.\<close>

definition sqlcipher_codec_ctx_set_use_hmac :: "'p codec_ctx \<Rightarrow> bool \<Rightarrow> (int \<times> 'p codec_ctx) option" where
  "sqlcipher_codec_ctx_set_use_hmac ctx use =
     (let reserve = CIPHER_MAX_IV_SZ + (if use then hmac_sz (read_ctx ctx) else 0);
          b = block_sz (read_ctx ctx)
      in if b = 0 then None
         else
           let reserve = (if reserve mod b = 0 then reserve else (reserve div b + 1) * b);
               ctx = (if use then sqlcipher_codec_ctx_set_flag ctx CIPHER_FLAG_HMAC
                      else sqlcipher_codec_ctx_unset_flag ctx CIPHER_FLAG_HMAC)
           in Some (SQLITE_OK, ctx\<lparr>read_ctx := (read_ctx ctx)\<lparr>reserve_sz := reserve\<rparr>,
                                   write_ctx := (write_ctx ctx)\<lparr>reserve_sz := reserve\<rparr>\<rparr>))"

definition sqlcipher_codec_ctx_get_use_hmac :: "'p codec_ctx \<Rightarrow> int \<Rightarrow> bool" where
  "sqlcipher_codec_ctx_get_use_hmac ctx for_ctx \<longleftrightarrow> cflags (the_ctx for_ctx ctx) AND CIPHER_FLAG_HMAC \<noteq> 0"

definition sqlcipher_codec_ctx_set_error :: "'p codec_ctx \<Rightarrow> int \<Rightarrow> 'p codec_ctx" where
  "sqlcipher_codec_ctx_set_error ctx error = ctx\<lparr>errCode := error\<rparr>"

definition sqlcipher_codec_ctx_get_reservesize :: "'p codec_ctx \<Rightarrow> nat" where
  "sqlcipher_codec_ctx_get_reservesize ctx = reserve_sz (read_ctx ctx)"

definition sqlcipher_codec_get_pass :: "'p codec_ctx \<Rightarrow> secret \<times> nat" where
  "sqlcipher_codec_get_pass ctx = (pass (read_ctx ctx), pass_sz (read_ctx ctx))"

definition sqlcipher_codec_ctx_set_pagesize :: "'p codec_ctx \<Rightarrow> int \<Rightarrow> bool list \<Rightarrow> int \<times> 'p codec_ctx \<times> bool list" where
  "sqlcipher_codec_ctx_set_pagesize ctx sz am =
     (case sqlcipher_malloc sz am of
        (False, am) \<Rightarrow> (SQLITE_NOMEM, ctx\<lparr>page_sz := sz, buffer := None\<rparr>, am)
      | (True, am) \<Rightarrow> (SQLITE_OK, ctx\<lparr>page_sz := sz, buffer := Some (replicate (nat sz) 0)\<rparr>, am))"


section \<open>Keys\<close>

text \<open>
  The first \<open>n\<close> bytes of a buffer of the key are written by the key derivation. A pass phrase of the form
  \<^verbatim>\<open>x'...'\<close> of the right length holds the key in hexadecimal.
\<close>

definition sqlcipher_cipher_ctx_key_derive ::
  "'p sqlcipher_provider \<Rightarrow> cipher_globals \<Rightarrow> 'p codec_ctx \<Rightarrow> 'p cipher_ctx \<Rightarrow> (int \<times> 'p codec_ctx \<times> 'p cipher_ctx) option" where
  "sqlcipher_cipher_ctx_key_derive P g ctx c =
     (if pass c = Null \<or> pass_sz c = 0 then Some (SQLITE_ERROR, ctx, c)
      else case pass c of
        Bytes p \<Rightarrow> do {
          raw \<leftarrow> (if pass_sz c = key_sz c * 2 + 3 then map_option (\<lambda>r. r = 0) (sqlite3_strnicmp p [0x78, 0x27, 0] 2) else Some False);
          z \<leftarrow> block p 0 (pass_sz c);
          salt \<leftarrow> block (kdf_salt ctx) 0 (kdf_salt_sz ctx);
          k \<leftarrow> (if raw then cipher_hex2bin (drop 2 z) (pass_sz c - 3)
               else Some (p_kdf P (provider_ctx c) z salt (kdf_iter c) (key_sz c)));
          k \<leftarrow> put_block (key c) 0 k;
          if cflags c AND CIPHER_FLAG_HMAC \<noteq> 0
          then do {
            let hmac_salt = map (\<lambda>b. b XOR hmac_salt_mask g) salt;
            hs \<leftarrow> put_block (hmac_kdf_salt ctx) 0 hmac_salt;
            k' \<leftarrow> block k 0 (key_sz c);
            hk \<leftarrow> put_block (hmac_key c) 0 (p_kdf P (provider_ctx c) k' hmac_salt (fast_kdf_iter c) (key_sz c));
            Some (SQLITE_OK, ctx\<lparr>hmac_kdf_salt := hs\<rparr>, c\<lparr>key := k, hmac_key := hk, derive_key := False\<rparr>)
          }
          else Some (SQLITE_OK, ctx, c\<lparr>key := k, derive_key := False\<rparr>)
        }
      | _ \<Rightarrow> None)"

definition sqlcipher_codec_key_derive ::
  "'p sqlcipher_provider \<Rightarrow> cipher_globals \<Rightarrow> 'p codec_ctx \<Rightarrow> bool list \<Rightarrow> (int \<times> 'p codec_ctx \<times> bool list) option" where
  "sqlcipher_codec_key_derive P g ctx am = do {
     (rc, ctx) \<leftarrow> (if derive_key (read_ctx ctx)
       then do { (rc, ctx, c) \<leftarrow> sqlcipher_cipher_ctx_key_derive P g ctx (read_ctx ctx); Some (rc, ctx\<lparr>read_ctx := c\<rparr>) }
       else Some (SQLITE_OK, ctx));
     if rc \<noteq> SQLITE_OK then Some (SQLITE_ERROR, ctx, am)
     else if derive_key (write_ctx ctx)
     then do {
       cmp \<leftarrow> sqlcipher_cipher_ctx_cmp P (write_ctx ctx) (read_ctx ctx);
       if cmp = 0
       then do {
         (rc, w, am) \<leftarrow> sqlcipher_cipher_ctx_copy P (write_ctx ctx) (read_ctx ctx) am;
         Some (if rc \<noteq> SQLITE_OK then SQLITE_ERROR else SQLITE_OK, ctx\<lparr>write_ctx := w\<rparr>, am)
       }
       else do {
         (rc, ctx, w) \<leftarrow> sqlcipher_cipher_ctx_key_derive P g ctx (write_ctx ctx);
         Some (if rc \<noteq> SQLITE_OK then SQLITE_ERROR else SQLITE_OK, ctx\<lparr>write_ctx := w\<rparr>, am)
       }
     }
     else Some (SQLITE_OK, ctx, am)
   }"

definition CIPHER_READ_CTX :: int where "CIPHER_READ_CTX = 0"
definition CIPHER_WRITE_CTX :: int where "CIPHER_WRITE_CTX = 1"

definition sqlcipher_codec_key_copy ::
  "'p sqlcipher_provider \<Rightarrow> 'p codec_ctx \<Rightarrow> int \<Rightarrow> bool list \<Rightarrow> (int \<times> 'p codec_ctx \<times> bool list) option" where
  "sqlcipher_codec_key_copy P ctx source am =
     (if source = CIPHER_READ_CTX
      then do { (rc, w, am) \<leftarrow> sqlcipher_cipher_ctx_copy P (write_ctx ctx) (read_ctx ctx) am; Some (rc, ctx\<lparr>write_ctx := w\<rparr>, am) }
      else do { (rc, r, am) \<leftarrow> sqlcipher_cipher_ctx_copy P (read_ctx ctx) (write_ctx ctx) am; Some (rc, ctx\<lparr>read_ctx := r\<rparr>, am) })"

text \<open>The settings of a new context: all for reading, then copied for writing.\<close>

definition codec_ctx_configure ::
  "'p sqlcipher_provider \<Rightarrow> cipher_globals \<Rightarrow> 'p codec_ctx \<Rightarrow> u8 list option \<Rightarrow> nat \<Rightarrow> bool list \<Rightarrow> (int + 'p codec_ctx) option" where
  "codec_ctx_configure P g ctx zKey nKey am = do {
     (rc, ctx, am) \<leftarrow> sqlcipher_codec_ctx_set_cipher P ctx CIPHER 0 am;
     if rc \<noteq> SQLITE_OK then Some (Inl rc) else do {
     (rc, ctx, am) \<leftarrow> sqlcipher_codec_ctx_set_kdf_iter P ctx PBKDF2_ITER 0 am;
     if rc \<noteq> SQLITE_OK then Some (Inl rc) else do {
     (rc, ctx, am) \<leftarrow> sqlcipher_codec_ctx_set_fast_kdf_iter P ctx FAST_PBKDF2_ITER 0 am;
     if rc \<noteq> SQLITE_OK then Some (Inl rc) else do {
     (rc, ctx, am) \<leftarrow> sqlcipher_codec_ctx_set_pass P ctx zKey nKey 0 am;
     if rc \<noteq> SQLITE_OK then Some (Inl rc) else do {
     (rc, ctx) \<leftarrow> sqlcipher_codec_ctx_set_use_hmac ctx (sqlcipher_get_default_use_hmac g);
     if rc \<noteq> SQLITE_OK then Some (Inl rc) else do {
     (rc, w, am) \<leftarrow> sqlcipher_cipher_ctx_copy P (write_ctx ctx) (read_ctx ctx) am;
     Some (if rc \<noteq> SQLITE_OK then Inl rc else Inr (ctx\<lparr>write_ctx := w\<rparr>)) }}}}}}"

text \<open>
  A new codec context. The header of the file is the answer of \<^verbatim>\<open>sqlite3OsRead\<close> (no file: \<open>None\<close>),
  \<open>rnd\<close> the answer of the random generator. The result is the context or the code of the failure.
\<close>

definition sqlcipher_codec_ctx_init ::
  "'p sqlcipher_provider \<Rightarrow> cipher_globals \<Rightarrow> (int \<times> u8 list) option \<Rightarrow> (nat \<Rightarrow> int \<times> u8 list) \<Rightarrow> u8 list option \<Rightarrow> nat \<Rightarrow>
   bool list \<Rightarrow> (int + 'p codec_ctx) option" where
  "sqlcipher_codec_ctx_init P g file rnd zKey nKey am =
     (case allocs 3 am of
        (False, am) \<Rightarrow> Some (Inl SQLITE_NOMEM)
      | (True, am) \<Rightarrow>
        case sqlcipher_malloc SQLITE_DEFAULT_PAGE_SIZE am of
          (False, am) \<Rightarrow> Some (Inl SQLITE_NOMEM)
        | (True, am) \<Rightarrow>
          case sqlcipher_cipher_ctx_init P g am of
            (None, am) \<Rightarrow> Some (Inl SQLITE_NOMEM)
          | (Some r, am) \<Rightarrow>
            case sqlcipher_cipher_ctx_init P g am of
              (None, am) \<Rightarrow> Some (Inl SQLITE_NOMEM)
            | (Some w, am) \<Rightarrow>
              let (rc, salt) = (case file of
                    Some (rc, hdr) \<Rightarrow> if rc = SQLITE_OK then (SQLITE_OK, hdr) else rnd FILE_HEADER_SZ
                  | None \<Rightarrow> rnd FILE_HEADER_SZ)
              in if rc \<noteq> SQLITE_OK then Some (Inl SQLITE_ERROR)
                 else
                   let ctx = \<lparr>kdf_salt_sz = FILE_HEADER_SZ, page_sz = SQLITE_DEFAULT_PAGE_SIZE, kdf_salt = salt,
                         hmac_kdf_salt = replicate FILE_HEADER_SZ 0, buffer = Some (replicate (nat SQLITE_DEFAULT_PAGE_SIZE) 0),
                         read_ctx = r, write_ctx = w, errCode = SQLITE_OK\<rparr>
                   in codec_ctx_configure P g ctx zKey nKey am)"

end
