(* ===== verification/Page_Codec.thy ===== *)
theory Page_Codec
  imports Cipher_Ctx
begin

text \<open>
  Encryption of pages: \<^verbatim>\<open>sqlcipher_page_cipher\<close> of \<^verbatim>\<open>src/crypto_impl.c\<close> and the codec \<^verbatim>\<open>sqlite3Codec\<close> of
  \<^verbatim>\<open>src/crypto.c\<close> that the pager calls for every page it reads or writes. The random bytes are an argument: the answer of the
  generator to the number of bytes asked for. A platform stores integers with the least significant byte first, as
  the targets of the application do. An access outside a buffer is \<open>None\<close>.
\<close>

section \<open>One page\<close>

definition sqlcipher_page_hmac :: "'p sqlcipher_provider \<Rightarrow> 'p cipher_ctx \<Rightarrow> u32 \<Rightarrow> u8 list \<Rightarrow> nat \<Rightarrow> u8 list option" where
  "sqlcipher_page_hmac P c pgno inp in_sz =
     (let pgno_raw = (if cflags c AND CIPHER_FLAG_LE_PGNO \<noteq> 0 then sqlcipher_put4byte_le pgno
            else if cflags c AND CIPHER_FLAG_BE_PGNO \<noteq> 0 then sqlite3Put4byte pgno
            else sqlcipher_put4byte_le pgno)
      in do {
        k \<leftarrow> block (hmac_key c) 0 (key_sz c);
        d \<leftarrow> block inp 0 in_sz;
        Some (p_hmac P (provider_ctx c) k d pgno_raw)
      })"

text \<open>The start of the output: random bytes for a page to write, the initialization vector of a page read.\<close>

definition cipher_iv :: "'p cipher_ctx \<Rightarrow> bool \<Rightarrow> nat \<Rightarrow> u8 list \<Rightarrow> u8 list \<Rightarrow> (nat \<Rightarrow> int \<times> u8 list) \<Rightarrow> (int \<times> u8 list) option" where
  "cipher_iv c encrypt n inp out rnd =
     (if encrypt
      then let (rc, r) = rnd (reserve_sz c)
        in do { out \<leftarrow> put_block out n r; Some (if rc \<noteq> SQLITE_OK then SQLITE_ERROR else SQLITE_OK, out) }
      else do { iv \<leftarrow> block inp n (iv_sz c); out \<leftarrow> put_block out n iv; Some (SQLITE_OK, out) })"

text \<open>The check of the authentication code of a page read; a result code ends the operation.\<close>

definition cipher_check ::
  "'p sqlcipher_provider \<Rightarrow> 'p cipher_ctx \<Rightarrow> u32 \<Rightarrow> nat \<Rightarrow> nat \<Rightarrow> u8 list \<Rightarrow> u8 list \<Rightarrow> (int option \<times> u8 list) option" where
  "cipher_check P c pgno n sz inp out = do {
     mac \<leftarrow> sqlcipher_page_hmac P c pgno inp (n + iv_sz c);
     out \<leftarrow> put_block out (n + iv_sz c) mac;
     cmp \<leftarrow> sqlcipher_memcmp (drop (n + iv_sz c) inp) (drop (n + iv_sz c) out) (hmac_sz c);
     if cmp \<noteq> 0
     then do {
       z \<leftarrow> sqlcipher_ismemset inp 0 sz;
       out \<leftarrow> sqlcipher_memset out 0 sz;
       Some (Some (if z = 0 then SQLITE_OK else SQLITE_ERROR), out)
     }
     else Some (None, out)
   }"

definition sqlcipher_page_cipher ::
  "'p sqlcipher_provider \<Rightarrow> 'p codec_ctx \<Rightarrow> int \<Rightarrow> u32 \<Rightarrow> bool \<Rightarrow> nat \<Rightarrow> u8 list \<Rightarrow> u8 list \<Rightarrow> (nat \<Rightarrow> int \<times> u8 list) \<Rightarrow>
   (int \<times> u8 list) option" where
  "sqlcipher_page_cipher P ctx for_ctx pgno encrypt sz inp out rnd =
     (let c = the_ctx for_ctx ctx; n = sz - reserve_sz c
      in if sz < reserve_sz c then None
         else if key_sz c = 0
         then map_option (\<lambda>out. (SQLITE_ERROR, out)) (sqlcipher_memset out 0 sz)
         else do {
           (rc, out) \<leftarrow> cipher_iv c encrypt n inp out rnd;
           if rc \<noteq> SQLITE_OK then Some (rc, out)
           else do {
             (done, out) \<leftarrow> (if cflags c AND CIPHER_FLAG_HMAC \<noteq> 0 \<and> \<not> encrypt
               then cipher_check P c pgno n sz inp out else Some (None, out));
             case done of
               Some rc \<Rightarrow> Some (rc, out)
             | None \<Rightarrow> do {
                 k \<leftarrow> block (key c) 0 (key_sz c);
                 iv \<leftarrow> block out n (iv_sz c);
                 d \<leftarrow> block inp 0 n;
                 e \<leftarrow> p_cipher P (provider_ctx c) encrypt k iv d;
                 out \<leftarrow> put_block out 0 e;
                 out \<leftarrow> (if cflags c AND CIPHER_FLAG_HMAC \<noteq> 0 \<and> encrypt
                   then do { mac \<leftarrow> sqlcipher_page_hmac P c pgno out (n + iv_sz c); put_block out (n + iv_sz c) mac }
                   else Some out);
                 Some (SQLITE_OK, out)
               }
           }
         })"

section \<open>The codec\<close>

text \<open>``SQLite format 3'' with its terminating zero.\<close>

definition SQLITE_FILE_HEADER :: "u8 list" where
  "SQLITE_FILE_HEADER = [0x53, 0x51, 0x4C, 0x69, 0x74, 0x65, 0x20, 0x66, 0x6F, 0x72, 0x6D, 0x61, 0x74, 0x20, 0x33, 0]"

text \<open>The pointer that is returned: none, the page of the caller, or the buffer of the context.\<close>

datatype page_ptr = NULL | PDATA | BUFFER

definition codec_page ::
  "'p sqlcipher_provider \<Rightarrow> 'p codec_ctx \<Rightarrow> int \<Rightarrow> u32 \<Rightarrow> bool \<Rightarrow> u8 list \<Rightarrow> u8 list \<Rightarrow> (nat \<Rightarrow> int \<times> u8 list) \<Rightarrow>
   ('p codec_ctx \<times> u8 list) option" where
  "codec_page P ctx for_ctx pgno encrypt start pData rnd = do {
     let offset = (if pgno = 1 then FILE_HEADER_SZ else 0);
     buf \<leftarrow> buffer ctx;
     hdr \<leftarrow> block start 0 FILE_HEADER_SZ;
     buf \<leftarrow> (if pgno = 1 then put_block buf 0 hdr else Some buf);
     if page_sz ctx < int offset \<or> length buf < offset \<or> length pData < offset then None
     else do {
       (rc, out) \<leftarrow> sqlcipher_page_cipher P ctx for_ctx pgno encrypt (nat (page_sz ctx) - offset)
          (drop offset pData) (drop offset buf) rnd;
       let ctx = ctx\<lparr>buffer := Some (take offset buf @ out)\<rparr>;
       Some (if rc \<noteq> SQLITE_OK then sqlcipher_codec_ctx_set_error ctx rc else ctx, take offset buf @ out)
     }
   }"

definition sqlite3Codec ::
  "'p sqlcipher_provider \<Rightarrow> cipher_globals \<Rightarrow> 'p codec_ctx \<Rightarrow> u8 list \<Rightarrow> u32 \<Rightarrow> int \<Rightarrow> (nat \<Rightarrow> int \<times> u8 list) \<Rightarrow> bool list \<Rightarrow>
   (page_ptr \<times> u8 list \<times> 'p codec_ctx) option" where
  "sqlite3Codec P g ctx pData pgno mode rnd am = do {
     (rc, ctx, am) \<leftarrow> sqlcipher_codec_key_derive P g ctx am;
     if rc \<noteq> SQLITE_OK then Some (NULL, pData, sqlcipher_codec_ctx_set_error ctx rc)
     else if mode = 0 \<or> mode = 2 \<or> mode = 3
     then do {
       (ctx, buf) \<leftarrow> codec_page P ctx CIPHER_READ_CTX pgno False SQLITE_FILE_HEADER pData rnd;
       z \<leftarrow> block buf 0 (nat (page_sz ctx));
       pData \<leftarrow> put_block pData 0 z;
       Some (PDATA, pData, ctx)
     }
     else if mode = 6
     then do {
       (ctx, buf) \<leftarrow> codec_page P ctx CIPHER_WRITE_CTX pgno True (kdf_salt ctx) pData rnd;
       Some (BUFFER, pData, ctx)
     }
     else if mode = 7
     then do {
       (ctx, buf) \<leftarrow> codec_page P ctx CIPHER_READ_CTX pgno True (kdf_salt ctx) pData rnd;
       Some (BUFFER, pData, ctx)
     }
     else Some (PDATA, pData, ctx)
   }"

end
