(* ===== verification/Page_Codec_Correct.thy ===== *)
theory Page_Codec_Correct
  imports Page_Codec
begin

text \<open>
  What the encryption of pages computes: the layout of an encrypted page (\<open>sealed\<close>), the outcome of reading one
  (\<open>page_cipher_decrypt\<close>), that the second undoes the first (\<open>codec_roundtrip\<close>), and what a derivation of keys keeps of a
  well-formed context (\<open>codec_wf\<close>).
\<close>

section \<open>Blocks and constant-time comparisons\<close>

lemma block_length: "block p i n = Some x \<Longrightarrow> length x = n"
  by (auto simp: block_def split: if_splits)

lemma put_block_length: "put_block p i x = Some q \<Longrightarrow> length q = length p"
  by (auto simp: put_block_def split: if_splits)

lemma put_block_append: "length a = i \<Longrightarrow> length x = length y \<Longrightarrow> put_block (a @ y @ b) i x = Some (a @ x @ b)"
  by (simp add: put_block_def)

lemma block_append: "length a = i \<Longrightarrow> length x = n \<Longrightarrow> block (a @ x @ b) i n = Some x"
  by (simp add: block_def)

lemma fold_or_zero: "fold (\<lambda>i r. r OR f i) xs a = (0 :: u8) \<longleftrightarrow> a = 0 \<and> (\<forall>i \<in> set xs. f i = 0)"
  by (induction xs arbitrary: a) (auto simp: or_eq_0_iff)

lemma xor_zero_iff: "(a :: u8) XOR b = 0 \<longleftrightarrow> a = b"
  by (metis xor.assoc xor.right_neutral xor_self_eq)

lemma fold_set_all: "fold (\<lambda>i a. a[i := x]) [0..<n] v = (if n \<le> length v then replicate n x @ drop n v else fold (\<lambda>i a. a[i := x]) [0..<n] v)"
proof (induction n)
  case (Suc n)
  show ?case
  proof (cases "Suc n \<le> length v")
    case True
    then have "(replicate n x @ drop n v)[n := x] = replicate (Suc n) x @ drop (Suc n) v"
      by (simp add: list_update_append replicate_append_same [symmetric] Cons_nth_drop_Suc [symmetric])
    then show ?thesis using True Suc by simp
  qed simp
qed simp

lemma memset_eq: "n \<le> length v \<Longrightarrow> sqlcipher_memset v x n = Some (replicate n x @ drop n v)"
  using fold_set_all [of x n v] by (simp add: sqlcipher_memset_def)

lemma memcmp_eq:
  "n \<le> length a \<Longrightarrow> n \<le> length b \<Longrightarrow> sqlcipher_memcmp a b n = Some (if take n a = take n b then 0 else 1)"
  by (auto simp: sqlcipher_memcmp_def fold_or_zero xor_zero_iff list_eq_iff_nth_eq)

lemma ismemset_eq:
  "n \<le> length v \<Longrightarrow> sqlcipher_ismemset v x n = Some (if take n v = replicate n x then 0 else 1)"
  by (auto simp: sqlcipher_ismemset_def fold_or_zero xor_zero_iff list_eq_iff_nth_eq)

section \<open>What a page holds\<close>

text \<open>
  The documented behaviour of the primitives for a key and block size: deciphering undoes enciphering for whole blocks, and
  the outputs have their sizes.
\<close>

definition primitives_ok :: "'p sqlcipher_provider \<Rightarrow> 'p \<Rightarrow> nat \<Rightarrow> nat \<Rightarrow> nat \<Rightarrow> nat \<Rightarrow> bool" where
  "primitives_ok P p ks vs bs hs \<longleftrightarrow>
     (\<forall>e k i d. length k = ks \<longrightarrow> length i = vs \<longrightarrow> bs dvd length d \<longrightarrow>
        (\<exists>x. p_cipher P p e k i d = Some x \<and> length x = length d)) \<and>
     (\<forall>k i d. length k = ks \<longrightarrow> length i = vs \<longrightarrow> bs dvd length d \<longrightarrow>
        Option.bind (p_cipher P p True k i d) (p_cipher P p False k i) = Some d) \<and>
     (\<forall>k d x. length (p_hmac P p k d x) = hs) \<and> (\<forall>z s n. length (p_kdf P p z s n ks) = ks)"

definition uses_hmac :: "'p cipher_ctx \<Rightarrow> bool" where
  "uses_hmac c \<longleftrightarrow> cflags c AND CIPHER_FLAG_HMAC \<noteq> 0"

definition ctx_ok :: "'p sqlcipher_provider \<Rightarrow> 'p cipher_ctx \<Rightarrow> bool" where
  "ctx_ok P c \<longleftrightarrow> 0 < key_sz c \<and> key_sz c \<le> CIPHER_MAX_KEY_SZ \<and> length (key c) = CIPHER_MAX_KEY_SZ \<and>
     length (hmac_key c) = CIPHER_MAX_KEY_SZ \<and> iv_sz c + (if uses_hmac c then hmac_sz c else 0) \<le> reserve_sz c \<and>
     primitives_ok P (provider_ctx c) (key_sz c) (iv_sz c) (block_sz c) (hmac_sz c)"

definition pgno_bytes :: "'p cipher_ctx \<Rightarrow> u32 \<Rightarrow> u8 list" where
  "pgno_bytes c pgno = (if cflags c AND CIPHER_FLAG_LE_PGNO = 0 \<and> cflags c AND CIPHER_FLAG_BE_PGNO \<noteq> 0
     then sqlite3Put4byte pgno else sqlcipher_put4byte_le pgno)"

definition page_mac :: "'p sqlcipher_provider \<Rightarrow> 'p cipher_ctx \<Rightarrow> u32 \<Rightarrow> u8 list \<Rightarrow> u8 list" where
  "page_mac P c pgno d = p_hmac P (provider_ctx c) (take (key_sz c) (hmac_key c)) d (pgno_bytes c pgno)"

definition crypt :: "'p sqlcipher_provider \<Rightarrow> 'p cipher_ctx \<Rightarrow> bool \<Rightarrow> u8 list \<Rightarrow> u8 list \<Rightarrow> u8 list" where
  "crypt P c e iv d = (case p_cipher P (provider_ctx c) e (take (key_sz c) (key c)) iv d of Some x \<Rightarrow> x | None \<Rightarrow> [])"

text \<open>A page with the content \<open>d\<close> and the random bytes \<open>r\<close>: the ciphertext, the initialization vector, the authentication
  code of both with the page number, and what is left of the random bytes.\<close>

definition sealed :: "'p sqlcipher_provider \<Rightarrow> 'p cipher_ctx \<Rightarrow> u32 \<Rightarrow> u8 list \<Rightarrow> u8 list \<Rightarrow> u8 list" where
  "sealed P c pgno d r =
     (let iv = take (iv_sz c) r; e = crypt P c True iv d
      in e @ iv @ (if uses_hmac c then page_mac P c pgno (e @ iv) @ drop (iv_sz c + hmac_sz c) r else drop (iv_sz c) r))"

lemma page_hmac_eq:
  "ctx_ok P c \<Longrightarrow> n \<le> length inp \<Longrightarrow> sqlcipher_page_hmac P c pgno inp n = Some (page_mac P c pgno (take n inp))"
  by (simp add: sqlcipher_page_hmac_def block_def ctx_ok_def page_mac_def pgno_bytes_def Let_def)

lemma key_length: "ctx_ok P c \<Longrightarrow> length (take (key_sz c) (key c)) = key_sz c"
  by (simp add: ctx_ok_def)

lemma primitivesD:
  assumes "primitives_ok P p ks vs bs hs"
  shows "length k = ks \<Longrightarrow> length i = vs \<Longrightarrow> bs dvd length d \<Longrightarrow> \<exists>x. p_cipher P p e k i d = Some x \<and> length x = length d"
    and "length k = ks \<Longrightarrow> length i = vs \<Longrightarrow> bs dvd length d \<Longrightarrow>
      Option.bind (p_cipher P p True k i d) (p_cipher P p False k i) = Some d"
    and "length (p_hmac P p k d x) = hs" "length (p_kdf P p z s n ks) = ks"
  using assms unfolding primitives_ok_def by blast+

lemma ctx_ok_primitives: "ctx_ok P c \<Longrightarrow> primitives_ok P (provider_ctx c) (key_sz c) (iv_sz c) (block_sz c) (hmac_sz c)"
  by (simp add: ctx_ok_def)

lemma crypt_eq:
  assumes "ctx_ok P c" "length iv = iv_sz c" "block_sz c dvd length d"
  shows "p_cipher P (provider_ctx c) e (take (key_sz c) (key c)) iv d = Some (crypt P c e iv d) \<and> length (crypt P c e iv d) = length d"
  using primitivesD(1) [OF ctx_ok_primitives [OF assms(1)] key_length [OF assms(1)] assms(2,3), of e]
  by (auto simp: crypt_def)

lemmas crypt_length = crypt_eq [THEN conjunct2]

lemma crypt_inverse:
  assumes "ctx_ok P c" "length iv = iv_sz c" "block_sz c dvd length d"
  shows "crypt P c False iv (crypt P c True iv d) = d"
proof -
  have "Option.bind (p_cipher P (provider_ctx c) True (take (key_sz c) (key c)) iv d)
      (p_cipher P (provider_ctx c) False (take (key_sz c) (key c)) iv) = Some d"
    by (rule primitivesD(2) [OF ctx_ok_primitives [OF assms(1)] key_length [OF assms(1)] assms(2,3)])
  then show ?thesis using crypt_eq [OF assms, of True] by (simp add: crypt_def [of P c False])
qed

lemma mac_length: "ctx_ok P c \<Longrightarrow> length (page_mac P c pgno d) = hmac_sz c"
  using primitivesD(3) [OF ctx_ok_primitives] by (simp add: page_mac_def)

lemma sealed_length:
  assumes "ctx_ok P c" "block_sz c dvd length d" "length r = reserve_sz c"
  shows "length (sealed P c pgno d r) = length d + reserve_sz c"
proof -
  have "iv_sz c + (if uses_hmac c then hmac_sz c else 0) \<le> reserve_sz c" using assms(1) by (simp add: ctx_ok_def)
  moreover from this have "length (take (iv_sz c) r) = iv_sz c" using assms(3) by simp
  ultimately show ?thesis
    using assms crypt_length [OF assms(1) _ assms(2)] mac_length [OF assms(1)]
    by (auto simp: sealed_def Let_def split: if_splits)
qed

lemma page_cipher_encrypt:
  assumes c: "the_ctx for_ctx ctx = c" and ok: "ctx_ok P c"
    and sz: "sz = n + reserve_sz c" "block_sz c dvd n"
    and len: "length inp = sz" "length out = sz"
    and r: "rnd (reserve_sz c) = (SQLITE_OK, r)" "length r = reserve_sz c"
  shows "sqlcipher_page_cipher P ctx for_ctx pgno True sz inp out rnd = Some (SQLITE_OK, sealed P c pgno (take n inp) r)"
proof -
  have res: "iv_sz c + (if uses_hmac c then hmac_sz c else 0) \<le> reserve_sz c" and k: "key_sz c \<noteq> 0"
    "block (key c) 0 (key_sz c) = Some (take (key_sz c) (key c))"
    using ok by (auto simp: ctx_ok_def block_def)
  let ?iv = "take (iv_sz c) r" and ?d = "take n inp"
  define e where "e = crypt P c True ?iv ?d"
  have iv: "length ?iv = iv_sz c" "iv_sz c \<le> reserve_sz c" using res r(2) by auto
  have e: "length e = n" unfolding e_def using crypt_length [OF ok iv(1), of ?d True] sz len(1) by simp
  have o1: "put_block out n r = Some (take n out @ r)" using len(2) sz(1) r(2) by (simp add: put_block_def)
  have o2: "block (take n out @ r) n (iv_sz c) = Some ?iv" using len(2) sz(1) r(2) iv(2) by (simp add: block_def)
  have o3: "put_block (take n out @ r) 0 e = Some (e @ r)" using len(2) sz(1) e by (simp add: put_block_def)
  have o4: "put_block (e @ r) (n + iv_sz c) (page_mac P c pgno (e @ ?iv)) =
      Some (e @ ?iv @ page_mac P c pgno (e @ ?iv) @ drop (iv_sz c + hmac_sz c) r)" if "uses_hmac c"
    using that res e r(2) mac_length [OF ok] by (simp add: put_block_def add.commute)
  have h: "sqlcipher_page_hmac P c pgno (e @ r) (n + iv_sz c) = Some (page_mac P c pgno (e @ ?iv))"
    using page_hmac_eq [OF ok, of "n + iv_sz c" "e @ r"] e r(2) iv(2) by simp
  have d: "block inp 0 n = Some ?d" using len(1) sz(1) by (simp add: block_def)
  have cr: "p_cipher P (provider_ctx c) True (take (key_sz c) (key c)) ?iv ?d = Some e"
    using crypt_eq [OF ok iv(1), of ?d True] sz len(1) by (simp add: e_def)
  show ?thesis
    using k sz(1) o1 o2 o3 o4 h d cr r(1)
    by (simp add: sqlcipher_page_cipher_def c cipher_iv_def Let_def sealed_def uses_hmac_def [symmetric] e_def [symmetric])
qed

text \<open>Reading: a page is deciphered, recognized as all zeros, or rejected.\<close>

definition authentic :: "'p sqlcipher_provider \<Rightarrow> 'p cipher_ctx \<Rightarrow> u32 \<Rightarrow> nat \<Rightarrow> u8 list \<Rightarrow> bool" where
  "authentic P c pgno n inp \<longleftrightarrow> uses_hmac c \<longrightarrow>
     take (hmac_sz c) (drop (n + iv_sz c) inp) = page_mac P c pgno (take (n + iv_sz c) inp)"

lemma page_cipher_decrypt:
  assumes c: "the_ctx for_ctx ctx = c" and ok: "ctx_ok P c"
    and sz: "sz = n + reserve_sz c" "block_sz c dvd n"
    and len: "length inp = sz" "length out = sz"
  shows "\<exists>x. length x = reserve_sz c \<and> sqlcipher_page_cipher P ctx for_ctx pgno False sz inp out rnd = Some
    (if authentic P c pgno n inp then (SQLITE_OK, crypt P c False (take (iv_sz c) (drop n inp)) (take n inp) @ x)
     else (if inp = replicate sz 0 then SQLITE_OK else SQLITE_ERROR, replicate sz 0))"
proof -
  have res: "iv_sz c + (if uses_hmac c then hmac_sz c else 0) \<le> reserve_sz c" and k: "key_sz c \<noteq> 0"
    "block (key c) 0 (key_sz c) = Some (take (key_sz c) (key c))"
    using ok by (auto simp: ctx_ok_def block_def)
  let ?iv = "take (iv_sz c) (drop n inp)" and ?d = "take n inp" and ?m = "page_mac P c pgno (take (n + iv_sz c) inp)"
  define e where "e = crypt P c False ?iv ?d"
  have iv: "length ?iv = iv_sz c" "iv_sz c \<le> reserve_sz c" using res sz(1) len(1) by auto
  have e: "length e = n" unfolding e_def using crypt_length [OF ok iv(1), of ?d False] sz len(1) by simp
  have i1: "block inp n (iv_sz c) = Some ?iv" using len(1) sz(1) iv(2) by (simp add: block_def)
  have d: "block inp 0 n = Some ?d" using len(1) sz(1) by (simp add: block_def)
  have cr: "p_cipher P (provider_ctx c) False (take (key_sz c) (key c)) ?iv ?d = Some e"
    using crypt_eq [OF ok iv(1), of ?d False] sz len(1) by (simp add: e_def)
  let ?o1 = "take n out @ ?iv @ drop (n + iv_sz c) out"
  have o1: "put_block out n ?iv = Some ?o1" using len sz(1) iv by (simp add: put_block_def)
  have rest: "block (take n out @ ?iv @ y) n (iv_sz c) = Some ?iv \<and> put_block (take n out @ ?iv @ y) 0 e = Some (e @ ?iv @ y)" for y
    using len sz(1) iv e by (simp add: put_block_def block_def)
  have ly: "length (?iv @ drop (n + iv_sz c) out) = reserve_sz c" using len sz(1) iv by simp
  show ?thesis
  proof (cases "uses_hmac c")
    case False
    then have "sqlcipher_page_cipher P ctx for_ctx pgno False sz inp out rnd = Some (SQLITE_OK, e @ ?iv @ drop (n + iv_sz c) out)"
      using k sz(1) i1 o1 rest d cr
      by (simp add: sqlcipher_page_cipher_def c cipher_iv_def Let_def uses_hmac_def [symmetric])
    then show ?thesis using False ly by (auto simp: authentic_def e_def)
  next
    case True
    let ?y = "?m @ drop (n + iv_sz c + hmac_sz c) out"
    have h: "sqlcipher_page_hmac P c pgno inp (n + iv_sz c) = Some ?m"
      using page_hmac_eq [OF ok, of "n + iv_sz c" inp] len sz(1) iv(2) by simp
    have m: "length ?m = hmac_sz c" by (rule mac_length [OF ok])
    have o2: "put_block ?o1 (n + iv_sz c) ?m = Some (take n out @ ?iv @ ?y)"
      using True res len sz(1) iv m by (simp add: put_block_def add.commute add.left_commute)
    have cmp: "sqlcipher_memcmp (drop (n + iv_sz c) inp) (drop (n + iv_sz c) (take n out @ ?iv @ ?y)) (hmac_sz c) =
        Some (if authentic P c pgno n inp then 0 else 1)"
      using True res len sz(1) iv m by (subst memcmp_eq) (auto simp: authentic_def)
    have lo: "length (take n out @ ?iv @ ?y) = sz" using True res len sz(1) iv m by simp
    have z: "sqlcipher_ismemset inp 0 sz = Some (if inp = replicate sz 0 then 0 else 1)"
      "sqlcipher_memset (take n out @ ?iv @ ?y) 0 sz = Some (replicate sz 0)"
      using ismemset_eq [of sz inp 0] memset_eq [of sz "take n out @ ?iv @ ?y" 0] len(1) lo by simp_all
    have check: "cipher_check P c pgno n sz inp ?o1 = Some (if authentic P c pgno n inp then (None, take n out @ ?iv @ ?y)
        else (Some (if inp = replicate sz 0 then SQLITE_OK else SQLITE_ERROR), replicate sz 0))"
      using h o2 cmp z by (simp add: cipher_check_def)
    have "sqlcipher_page_cipher P ctx for_ctx pgno False sz inp out rnd = Some
      (if authentic P c pgno n inp then (SQLITE_OK, e @ ?iv @ ?y) else (if inp = replicate sz 0 then SQLITE_OK else SQLITE_ERROR, replicate sz 0))"
      using True k sz(1) i1 o1 rest d cr check
      by (simp add: sqlcipher_page_cipher_def c cipher_iv_def Let_def uses_hmac_def [symmetric])
    moreover have "length (?iv @ ?y) = reserve_sz c" using lo len(2) sz(1) by simp
    ultimately show ?thesis unfolding e_def by (intro exI [of _ "?iv @ ?y"]) simp
  qed
qed

section \<open>The codec with derived keys\<close>

text \<open>Pages of \<open>sz\<close> bytes hold whole blocks beside the reserve, also behind the header of page 1.\<close>

definition page_fits :: "'p cipher_ctx \<Rightarrow> nat \<Rightarrow> bool" where
  "page_fits c sz \<longleftrightarrow> FILE_HEADER_SZ + reserve_sz c \<le> sz \<and> block_sz c dvd sz - reserve_sz c \<and> block_sz c dvd FILE_HEADER_SZ"

definition codec_ok :: "'p sqlcipher_provider \<Rightarrow> 'p codec_ctx \<Rightarrow> nat \<Rightarrow> bool" where
  "codec_ok P ctx sz \<longleftrightarrow> page_sz ctx = int sz \<and> (\<exists>b. buffer ctx = Some b \<and> length b = sz) \<and> length (kdf_salt ctx) = FILE_HEADER_SZ \<and>
     ctx_ok P (read_ctx ctx) \<and> ctx_ok P (write_ctx ctx) \<and> page_fits (read_ctx ctx) sz \<and> page_fits (write_ctx ctx) sz"

definition header_sz :: "u32 \<Rightarrow> nat" where
  "header_sz pgno = (if pgno = 1 then FILE_HEADER_SZ else 0)"

lemma page_fits_content:
  assumes "page_fits c sz"
  shows "header_sz pgno + reserve_sz c \<le> sz"
    and "block_sz c dvd sz - header_sz pgno - reserve_sz c" and "header_sz pgno \<le> sz"
proof -
  show "header_sz pgno + reserve_sz c \<le> sz" "header_sz pgno \<le> sz"
    using assms by (auto simp: page_fits_def header_sz_def)
  have "block_sz c dvd header_sz pgno" "block_sz c dvd sz - reserve_sz c" using assms by (simp_all add: page_fits_def header_sz_def)
  then have "block_sz c dvd (sz - reserve_sz c) - header_sz pgno" by (rule dvd_diff_nat [rotated])
  moreover have "sz - header_sz pgno - reserve_sz c = (sz - reserve_sz c) - header_sz pgno" by simp
  ultimately show "block_sz c dvd sz - header_sz pgno - reserve_sz c" by (simp only:)
qed

lemma codec_page_eq:
  assumes b: "buffer ctx = Some b" "length b = sz" "page_sz ctx = int sz" and fits: "page_fits c sz"
    and start: "length start = FILE_HEADER_SZ" and data: "length pData = sz"
    and cipher: "sqlcipher_page_cipher P ctx for_ctx pgno e (sz - header_sz pgno) (drop (header_sz pgno) pData)
      (drop (header_sz pgno) b) rnd = Some (rc, out)"
  shows "codec_page P ctx for_ctx pgno e start pData rnd = Some
    (let page = take (header_sz pgno) start @ out; ctx = ctx\<lparr>buffer := Some page\<rparr>
     in (if rc \<noteq> SQLITE_OK then ctx\<lparr>errCode := rc\<rparr> else ctx, page))"
proof -
  have le: "FILE_HEADER_SZ \<le> sz" using fits by (simp add: page_fits_def)
  have n: "nat (int sz) - FILE_HEADER_SZ = sz - FILE_HEADER_SZ" by simp
  show ?thesis
  proof (cases "pgno = 1")
    case True
    have "drop FILE_HEADER_SZ (start @ drop FILE_HEADER_SZ b) = drop FILE_HEADER_SZ b" using start by simp
    then show ?thesis
      using True assms le n
      by (simp add: codec_page_def header_sz_def block_def put_block_def sqlcipher_codec_ctx_set_error_def Let_def)
  next
    case False
    then show ?thesis
      using assms le by (simp add: codec_page_def header_sz_def block_def sqlcipher_codec_ctx_set_error_def Let_def)
  qed
qed

lemma key_derive_done:
  "\<not> derive_key (read_ctx ctx) \<Longrightarrow> \<not> derive_key (write_ctx ctx) \<Longrightarrow> sqlcipher_codec_key_derive P g ctx am = Some (SQLITE_OK, ctx, am)"
  by (simp add: sqlcipher_codec_key_derive_def)

text \<open>The bytes of a page in the file.\<close>

definition file_page :: "'p sqlcipher_provider \<Rightarrow> 'p cipher_ctx \<Rightarrow> u8 list \<Rightarrow> u32 \<Rightarrow> u8 list \<Rightarrow> u8 list \<Rightarrow> u8 list" where
  "file_page P c salt pgno d r = take (header_sz pgno) salt @
     sealed P c pgno (take (length d - header_sz pgno - reserve_sz c) (drop (header_sz pgno) d)) r"

lemma file_page_length:
  assumes "ctx_ok P c" "page_fits c (length d)" "length salt = FILE_HEADER_SZ" "length r = reserve_sz c"
  shows "length (file_page P c salt pgno d r) = length d"
proof -
  note pf = page_fits_content [OF assms(2), of pgno]
  have "length (take (length d - header_sz pgno - reserve_sz c) (drop (header_sz pgno) d)) = length d - header_sz pgno - reserve_sz c"
    by simp
  then show ?thesis
    using sealed_length [OF assms(1) _ assms(4)] pf(1,2) assms(3)
    by (simp add: file_page_def) (simp add: header_sz_def split: if_splits)
qed

lemma codec_encrypt:
  assumes derive: "sqlcipher_codec_key_derive P g ctx0 am0 = Some (SQLITE_OK, ctx, am)"
    and ok: "codec_ok P ctx sz" and mode: "mode = 6 \<and> c = write_ctx ctx \<or> mode = 7 \<and> c = read_ctx ctx"
    and data: "length pData = sz" and r: "rnd (reserve_sz c) = (SQLITE_OK, r)" "length r = reserve_sz c"
  shows "sqlite3Codec P g ctx0 pData pgno mode rnd am0 =
    Some (BUFFER, pData, ctx\<lparr>buffer := Some (file_page P c (kdf_salt ctx) pgno pData r)\<rparr>)"
proof -
  define f where "f = (if mode = 6 then CIPHER_WRITE_CTX else CIPHER_READ_CTX)"
  have c: "the_ctx f ctx = c" using mode by (auto simp: the_ctx_def f_def CIPHER_WRITE_CTX_def CIPHER_READ_CTX_def)
  obtain b where b: "buffer ctx = Some b" "length b = sz" "page_sz ctx = int sz" using ok by (auto simp: codec_ok_def)
  have cok: "ctx_ok P c" "page_fits c sz" and salt: "length (kdf_salt ctx) = FILE_HEADER_SZ"
    using ok mode by (auto simp: codec_ok_def)
  note pf = page_fits_content [OF cok(2), of pgno]
  have "sqlcipher_page_cipher P ctx f pgno True (sz - header_sz pgno) (drop (header_sz pgno) pData) (drop (header_sz pgno) b) rnd =
      Some (SQLITE_OK, sealed P c pgno (take (sz - header_sz pgno - reserve_sz c) (drop (header_sz pgno) pData)) r)"
    by (rule page_cipher_encrypt [OF c cok(1) _ pf(2)]) (use data b r pf(1) in simp_all)
  from codec_page_eq [OF b cok(2) salt data this]
  show ?thesis
    using derive mode data
    by (auto simp: sqlite3Codec_def f_def file_page_def Let_def CIPHER_WRITE_CTX_def CIPHER_READ_CTX_def)
qed

lemma codec_decrypt:
  assumes derive: "sqlcipher_codec_key_derive P g ctx0 am0 = Some (SQLITE_OK, ctx, am)"
    and ok: "codec_ok P ctx sz" and mode: "mode = 0 \<or> mode = 2 \<or> mode = 3" and c: "c = read_ctx ctx"
    and data: "length pData = sz" and h: "h = header_sz pgno" and n: "n = sz - h - reserve_sz c"
  shows "\<exists>x. length x = reserve_sz c \<and> sqlite3Codec P g ctx0 pData pgno mode rnd am0 = Some
    (let inp = drop h pData; a = authentic P c pgno n inp;
         body = (if a then crypt P c False (take (iv_sz c) (drop n inp)) (take n inp) @ x else replicate (sz - h) 0);
         page = take h SQLITE_FILE_HEADER @ body; ctx = ctx\<lparr>buffer := Some page\<rparr>
     in (PDATA, page, if a \<or> inp = replicate (sz - h) 0 then ctx else ctx\<lparr>errCode := SQLITE_ERROR\<rparr>))"
proof -
  have c': "the_ctx CIPHER_READ_CTX ctx = c" using c by (simp add: the_ctx_def CIPHER_READ_CTX_def)
  obtain b where b: "buffer ctx = Some b" "length b = sz" "page_sz ctx = int sz" using ok by (auto simp: codec_ok_def)
  have cok: "ctx_ok P c" "page_fits c sz"
    using ok c by (auto simp: codec_ok_def)
  note pf = page_fits_content [OF cok(2), of pgno, folded h]
  have start: "length SQLITE_FILE_HEADER = FILE_HEADER_SZ" by (simp add: SQLITE_FILE_HEADER_def FILE_HEADER_SZ_def)
  have inp: "length (drop h pData) = sz - h" "length (drop h b) = sz - h" using data b by simp_all
  obtain x where x: "length x = reserve_sz c" and pc: "sqlcipher_page_cipher P ctx CIPHER_READ_CTX pgno False (sz - h) (drop h pData) (drop h b) rnd = Some
    (if authentic P c pgno n (drop h pData) then (SQLITE_OK, crypt P c False (take (iv_sz c) (drop n (drop h pData))) (take n (drop h pData)) @ x)
     else (if drop h pData = replicate (sz - h) 0 then SQLITE_OK else SQLITE_ERROR, replicate (sz - h) 0))"
    using page_cipher_decrypt [OF c' cok(1) _ _ inp, of n pgno rnd] pf(1,2) n by (auto simp del: replicate_eq_replicate)
  have iv: "length (take (iv_sz c) (drop n (drop h pData))) = iv_sz c"
    using cok(1) pf(1) n data by (auto simp: ctx_ok_def split: if_splits)
  then have d: "length (crypt P c False (take (iv_sz c) (drop n (drop h pData))) (take n (drop h pData))) = n"
    using crypt_length [OF cok(1) iv] pf n data by simp
  define a where "a = authentic P c pgno n (drop h pData)"
  define body where "body = (if a then crypt P c False (take (iv_sz c) (drop n (drop h pData))) (take n (drop h pData)) @ x else replicate (sz - h) 0)"
  define rc where "rc = (if a \<or> drop h pData = replicate (sz - h) 0 then SQLITE_OK else SQLITE_ERROR)"
  have "sqlcipher_page_cipher P ctx CIPHER_READ_CTX pgno False (sz - header_sz pgno) (drop (header_sz pgno) pData) (drop (header_sz pgno) b) rnd = Some (rc, body)"
    unfolding h [symmetric] pc rc_def body_def a_def by simp
  note cp = codec_page_eq [OF b cok(2) start data this, folded h]
  have "length body = sz - h" using d x pf(1) n by (simp add: body_def)
  define page where "page = take h SQLITE_FILE_HEADER @ body"
  have "length page = sz" using \<open>length body = sz - h\<close> pf(3) start h by (simp add: page_def header_sz_def)
  then have bl: "block page 0 (nat (int sz)) = Some page" "put_block pData 0 page = Some page"
    using data by (simp_all add: block_def put_block_def)
  have "sqlite3Codec P g ctx0 pData pgno mode rnd am0 = Some (PDATA, page,
      let ctx = ctx\<lparr>buffer := Some page\<rparr> in if rc \<noteq> SQLITE_OK then ctx\<lparr>errCode := rc\<rparr> else ctx)"
    using derive mode cp [folded page_def] bl b(3) by (auto simp: sqlite3Codec_def Let_def)
  then show ?thesis
    using x unfolding Let_def page_def body_def rc_def a_def by (intro exI [of _ x]) auto
qed

section \<open>Reading what was written\<close>

text \<open>Two contexts that encrypt alike.\<close>

definition same_cipher :: "'p cipher_ctx \<Rightarrow> 'p cipher_ctx \<Rightarrow> bool" where
  "same_cipher a b \<longleftrightarrow> provider_ctx a = provider_ctx b \<and> key_sz a = key_sz b \<and> iv_sz a = iv_sz b \<and> block_sz a = block_sz b \<and>
     reserve_sz a = reserve_sz b \<and> hmac_sz a = hmac_sz b \<and> cflags a = cflags b \<and> key a = key b \<and> hmac_key a = hmac_key b"

lemma same_cipher_sealed:
  "same_cipher a b \<Longrightarrow> sealed P a pgno d r = sealed P b pgno d r"
  by (simp add: same_cipher_def sealed_def crypt_def page_mac_def uses_hmac_def pgno_bytes_def Let_def)

lemma sealed_authentic:
  assumes "ctx_ok P c" "block_sz c dvd length d" "length r = reserve_sz c"
  shows "authentic P c pgno (length d) (sealed P c pgno d r) \<and>
    crypt P c False (take (iv_sz c) (drop (length d) (sealed P c pgno d r))) (take (length d) (sealed P c pgno d r)) = d"
proof -
  have iv: "length (take (iv_sz c) r) = iv_sz c" using assms by (auto simp: ctx_ok_def split: if_splits)
  note e = crypt_length [OF assms(1) iv assms(2), of True]
  show ?thesis
    using e iv mac_length [OF assms(1)] crypt_inverse [OF assms(1) iv assms(2)]
    by (simp add: sealed_def Let_def authentic_def)
qed

lemma codec_roundtrip:
  assumes derive: "sqlcipher_codec_key_derive P g ctx0 am0 = Some (SQLITE_OK, ctx, am)" and ok: "codec_ok P ctx sz"
    and mode: "mode = 0 \<or> mode = 2 \<or> mode = 3" and same: "same_cipher c (read_ctx ctx)"
    and data: "length pData = sz" and r: "length r = reserve_sz c" and salt: "length salt = FILE_HEADER_SZ"
    and hdr: "pgno = 1 \<Longrightarrow> take FILE_HEADER_SZ pData = SQLITE_FILE_HEADER"
  shows "\<exists>out ctx'. sqlite3Codec P g ctx0 (file_page P c salt pgno pData r) pgno mode rnd am0 = Some (PDATA, out, ctx') \<and>
    errCode ctx' = errCode ctx \<and> read_ctx ctx' = read_ctx ctx \<and> take (sz - reserve_sz c) out = take (sz - reserve_sz c) pData"
proof -
  let ?c = "read_ctx ctx" and ?h = "header_sz pgno"
  let ?n = "sz - ?h - reserve_sz ?c" and ?p = "file_page P c salt pgno pData r"
  let ?d = "take ?n (drop ?h pData)"
  have res: "reserve_sz c = reserve_sz ?c" using same by (simp add: same_cipher_def)
  have cok: "ctx_ok P ?c" "page_fits ?c sz" using ok by (auto simp: codec_ok_def)
  note pf = page_fits_content [OF cok(2), of pgno]
  have p: "?p = file_page P ?c salt pgno pData r"
    using same_cipher_sealed [OF same] res by (simp add: file_page_def)
  then have len: "length ?p = sz" using file_page_length [OF cok(1), of pData salt r pgno] cok(2) data salt r res by simp
  have d: "length ?d = ?n" using data by simp
  have inp: "drop ?h ?p = sealed P ?c pgno ?d r" using p salt data by (simp add: file_page_def header_sz_def)
  note au = sealed_authentic [OF cok(1), of ?d r pgno, unfolded d, folded inp]
  have a: "authentic P ?c pgno ?n (drop ?h ?p)"
    "crypt P ?c False (take (iv_sz ?c) (drop ?n (drop ?h ?p))) (take ?n (drop ?h ?p)) = ?d"
    using au pf(2) r res by simp_all
  obtain x where x: "sqlite3Codec P g ctx0 ?p pgno mode rnd am0 =
      Some (PDATA, take ?h SQLITE_FILE_HEADER @ ?d @ x, ctx\<lparr>buffer := Some (take ?h SQLITE_FILE_HEADER @ ?d @ x)\<rparr>)"
    using codec_decrypt [OF derive ok mode refl len refl refl, where rnd = rnd and pgno = pgno]
    unfolding Let_def a(2) by (simp only: a(1) if_True simp_thms append_assoc) blast
  have "take ?h SQLITE_FILE_HEADER = take ?h pData"
    using hdr by (auto simp: header_sz_def SQLITE_FILE_HEADER_def FILE_HEADER_SZ_def)
  moreover have "take (sz - reserve_sz ?c) (take ?h pData @ ?d @ x) = take ?h pData @ ?d"
    using pf(1,3) data by (simp add: add.commute)
  moreover have "take ?h pData @ ?d = take (sz - reserve_sz ?c) pData"
    using pf(1) take_add [of ?h ?n pData] by simp
  ultimately have "take (sz - reserve_sz c) (take ?h SQLITE_FILE_HEADER @ ?d @ x) = take (sz - reserve_sz c) pData"
    using res by simp
  then show ?thesis using x by auto
qed

section \<open>Deriving keys\<close>

lemma hex2bin_length: "2 * n \<le> length hex \<Longrightarrow> \<exists>x. cipher_hex2bin hex (2 * n) = Some x \<and> length x = n"
proof (induction n arbitrary: hex)
  case (Suc n)
  then obtain a b h where "hex = a # b # h" by (cases hex; cases "tl hex") auto
  then show ?case using Suc.IH [of h] Suc.prems by auto
qed simp

lemma strnicmp_defined: "2 \<le> length p \<Longrightarrow> \<exists>r. sqlite3_strnicmp p (a # b # q) 2 = Some r"
  by (cases p; cases "tl p") (auto simp: numeral_2_eq_2)

text \<open>A pass phrase is stored with its length.\<close>

definition pass_ok :: "'p cipher_ctx \<Rightarrow> bool" where
  "pass_ok c \<longleftrightarrow> (\<exists>p. pass c = Bytes p \<and> length p = pass_sz c) \<and> 0 < pass_sz c \<and> pass_sz c < 0x7fffff00"

lemma put_block_prefix: "length x \<le> length p \<Longrightarrow> put_block p 0 x = Some (x @ drop (length x) p)"
  by (simp add: put_block_def)

lemma ctx_key_derive:
  assumes ok: "ctx_ok P c" "pass_ok c"
    and salt: "length (kdf_salt ctx) = kdf_salt_sz ctx" "length (hmac_kdf_salt ctx) = kdf_salt_sz ctx"
  shows "\<exists>k hk hs. sqlcipher_cipher_ctx_key_derive P g ctx c =
      Some (SQLITE_OK, ctx\<lparr>hmac_kdf_salt := hs\<rparr>, c\<lparr>key := k, hmac_key := hk, derive_key := False\<rparr>) \<and>
      length k = CIPHER_MAX_KEY_SZ \<and> length hk = CIPHER_MAX_KEY_SZ \<and> length hs = kdf_salt_sz ctx"
proof -
  obtain p where p: "pass c = Bytes p" "length p = pass_sz c" "0 < pass_sz c" using ok(2) by (auto simp: pass_ok_def)
  define raw where "raw = (if pass_sz c = key_sz c * 2 + 3 then map_option (\<lambda>r. r = 0) (sqlite3_strnicmp p [0x78, 0x27, 0] 2) else Some False)"
  have "\<exists>b. raw = Some b"
    using strnicmp_defined [of p "0x78" "0x27" "[0]"] p(2)
    by (cases "pass_sz c = key_sz c * 2 + 3") (auto simp: raw_def)
  then obtain b where b: "raw = Some b" by blast
  have ks: "b \<Longrightarrow> pass_sz c = key_sz c * 2 + 3" using b by (auto simp: raw_def split: if_splits)
  define k where "k = (if b then cipher_hex2bin (drop 2 p) (pass_sz c - 3)
    else Some (p_kdf P (provider_ctx c) p (kdf_salt ctx) (kdf_iter c) (key_sz c)))"
  have "\<exists>x. k = Some x \<and> length x = key_sz c"
  proof (cases b)
    case True
    then show ?thesis using hex2bin_length [of "key_sz c" "drop 2 p"] ks p(2) by (simp add: k_def mult.commute)
  next
    case False
    then show ?thesis using primitivesD(4) [OF ctx_ok_primitives [OF ok(1)]] by (simp add: k_def)
  qed
  then obtain x where x: "k = Some x" "length x = key_sz c" by blast
  have max: "key_sz c \<le> CIPHER_MAX_KEY_SZ" "length (key c) = CIPHER_MAX_KEY_SZ" "length (hmac_key c) = CIPHER_MAX_KEY_SZ"
    using ok(1) by (auto simp: ctx_ok_def)
  let ?key = "x @ drop (key_sz c) (key c)"
  have key: "put_block (key c) 0 x = Some ?key" "block ?key 0 (key_sz c) = Some x" "length ?key = CIPHER_MAX_KEY_SZ"
    using x(2) max by (simp_all add: put_block_prefix block_def)
  define m where "m = map (\<lambda>b. b XOR hmac_salt_mask g) (kdf_salt ctx)"
  define h where "h = p_kdf P (provider_ctx c) x m (fast_kdf_iter c) (key_sz c)"
  have h: "length h = key_sz c" unfolding h_def by (rule primitivesD(4) [OF ctx_ok_primitives [OF ok(1)]])
  have m: "put_block (hmac_kdf_salt ctx) 0 m = Some m" using salt by (simp add: put_block_prefix m_def)
  have bl: "block p 0 (pass_sz c) = Some p" "block (kdf_salt ctx) 0 (kdf_salt_sz ctx) = Some (kdf_salt ctx)"
    using p(2) salt(1) by (simp_all add: block_def)
  let ?hk = "h @ drop (key_sz c) (hmac_key c)"
  have hk: "put_block (hmac_key c) 0 h = Some ?hk" "length ?hk = CIPHER_MAX_KEY_SZ"
    using h max by (simp_all add: put_block_prefix)
  have eq: "sqlcipher_cipher_ctx_key_derive P g ctx c = (if cflags c AND CIPHER_FLAG_HMAC \<noteq> 0
      then Some (SQLITE_OK, ctx\<lparr>hmac_kdf_salt := m\<rparr>, c\<lparr>key := ?key, hmac_key := ?hk, derive_key := False\<rparr>)
      else Some (SQLITE_OK, ctx, c\<lparr>key := ?key, derive_key := False\<rparr>))"
    using p bl b [unfolded raw_def] x(1) [unfolded k_def] key hk m
    by (simp add: sqlcipher_cipher_ctx_key_derive_def h_def m_def Let_def)
  show ?thesis
  proof (cases "cflags c AND CIPHER_FLAG_HMAC \<noteq> 0")
    case True
    have "length m = kdf_salt_sz ctx" using salt by (simp add: m_def)
    then show ?thesis using eq key(3) hk(2) True by (intro exI [of _ ?key] exI [of _ ?hk] exI [of _ m]) simp
  next
    case False
    have "c\<lparr>key := ?key, derive_key := False\<rparr> = c\<lparr>key := ?key, hmac_key := hmac_key c, derive_key := False\<rparr>"
      "ctx = ctx\<lparr>hmac_kdf_salt := hmac_kdf_salt ctx\<rparr>" by simp_all
    then show ?thesis using eq key max salt False by metis
  qed
qed

section \<open>Well-formed contexts\<close>

text \<open>Copying a provider's context replaces the old one, comparing a context with itself succeeds.\<close>

definition provider_copies :: "'p sqlcipher_provider \<Rightarrow> bool" where
  "provider_copies P \<longleftrightarrow> (\<forall>a b. p_ctx_copy P a b = b) \<and> (\<forall>a. p_ctx_cmp P a a)"

lemma ctx_copy_eq:
  assumes "provider_copies P" "pass_ok source"
  shows "\<exists>am'. sqlcipher_cipher_ctx_copy P target source am = Some (SQLITE_OK, source, am') \<or>
    sqlcipher_cipher_ctx_copy P target source am = Some (SQLITE_NOMEM, source\<lparr>pass := Null\<rparr>, am')"
proof -
  obtain p where p: "pass source = Bytes p" "length p = pass_sz source" using assms(2) by (auto simp: pass_ok_def)
  have "block p 0 (pass_sz source) = Some p" "source\<lparr>pass := Bytes p\<rparr> = source" using p by (simp_all add: block_def)
  then show ?thesis
    using p(1) assms(1)
    by (auto simp: sqlcipher_cipher_ctx_copy_def provider_copies_def split: prod.splits)
qed

lemma ctx_copy_always:
  "provider_copies P \<Longrightarrow> pass_ok source \<Longrightarrow> sqlcipher_cipher_ctx_copy P target source [] = Some (SQLITE_OK, source, [])"
  by (auto simp: sqlcipher_cipher_ctx_copy_def provider_copies_def pass_ok_def sqlcipher_malloc_def block_def Let_def)

lemma ctx_cmp_defined:
  "pass_ok a \<Longrightarrow> pass_ok b \<Longrightarrow> \<exists>r. sqlcipher_cipher_ctx_cmp P a b = Some r"
  by (auto simp: sqlcipher_cipher_ctx_cmp_def pass_ok_def pass_equal_def memcmp_eq)

text \<open>Fields that do not matter for the sizes.\<close>

lemma ctx_ok_keys:
  "ctx_ok P c \<Longrightarrow> length k = CIPHER_MAX_KEY_SZ \<Longrightarrow> length hk = CIPHER_MAX_KEY_SZ \<Longrightarrow>
   ctx_ok P (c\<lparr>key := k, hmac_key := hk, derive_key := b\<rparr>)"
  by (auto simp: ctx_ok_def uses_hmac_def split: if_splits)

text \<open>
  Sizes: the block size \<open>B\<close> divides the length of the file header, the authentication code has \<open>H\<close> bytes, the reserve is a
  multiple of the block size with room for the longest initialization vector and for the code, and pages have at
  least 512 bytes.
\<close>

definition sizes_ok :: "nat \<Rightarrow> nat \<Rightarrow> nat \<Rightarrow> 'p cipher_ctx \<Rightarrow> bool" where
  "sizes_ok B H sz c \<longleftrightarrow> block_sz c = B \<and> hmac_sz c = H \<and> 0 < B \<and> B dvd FILE_HEADER_SZ \<and> H \<le> 64 \<and>
     iv_sz c \<le> CIPHER_MAX_IV_SZ \<and> B dvd reserve_sz c \<and> reserve_sz c \<le> 96 \<and>
     CIPHER_MAX_IV_SZ + (if uses_hmac c then H else 0) \<le> reserve_sz c \<and> 512 \<le> sz \<and> FILE_HEADER_SZ dvd sz"

definition cipher_wf :: "'p sqlcipher_provider \<Rightarrow> nat \<Rightarrow> nat \<Rightarrow> nat \<Rightarrow> 'p cipher_ctx \<Rightarrow> bool" where
  "cipher_wf P B H sz c \<longleftrightarrow> ctx_ok P c \<and> pass_ok c \<and> sizes_ok B H sz c"

definition codec_wf :: "'p sqlcipher_provider \<Rightarrow> nat \<Rightarrow> nat \<Rightarrow> 'p codec_ctx \<Rightarrow> bool" where
  "codec_wf P B H ctx \<longleftrightarrow> kdf_salt_sz ctx = FILE_HEADER_SZ \<and> length (kdf_salt ctx) = FILE_HEADER_SZ \<and>
     length (hmac_kdf_salt ctx) = FILE_HEADER_SZ \<and> (\<exists>b. buffer ctx = Some b \<and> page_sz ctx = int (length b)) \<and>
     cipher_wf P B H (nat (page_sz ctx)) (read_ctx ctx) \<and> cipher_wf P B H (nat (page_sz ctx)) (write_ctx ctx)"

lemma sizes_page_fits: "sizes_ok B H sz c \<Longrightarrow> page_fits c sz"
  by (auto simp: sizes_ok_def page_fits_def FILE_HEADER_SZ_def intro: dvd_diff_nat dvd_trans [of _ 16 sz])

lemma codec_wf_ok: "codec_wf P B H ctx \<Longrightarrow> codec_ok P ctx (nat (page_sz ctx))"
  by (auto simp: codec_wf_def codec_ok_def cipher_wf_def intro: sizes_page_fits)

lemma cipher_wf_keys:
  "cipher_wf P B H sz c \<Longrightarrow> length k = CIPHER_MAX_KEY_SZ \<Longrightarrow> length hk = CIPHER_MAX_KEY_SZ \<Longrightarrow>
   cipher_wf P B H sz (c\<lparr>key := k, hmac_key := hk, derive_key := b\<rparr>)"
  by (auto simp: cipher_wf_def ctx_ok_keys pass_ok_def sizes_ok_def uses_hmac_def)

lemma key_derive_read:
  assumes "codec_wf P B H ctx" and c: "c = read_ctx ctx \<or> c = write_ctx ctx"
  shows "\<exists>hs c'. sqlcipher_cipher_ctx_key_derive P g ctx c = Some (SQLITE_OK, ctx\<lparr>hmac_kdf_salt := hs\<rparr>, c') \<and>
    length hs = FILE_HEADER_SZ \<and> cipher_wf P B H (nat (page_sz ctx)) c' \<and> \<not> derive_key c'"
proof -
  have w: "cipher_wf P B H (nat (page_sz ctx)) c" "length (kdf_salt ctx) = kdf_salt_sz ctx"
    "length (hmac_kdf_salt ctx) = kdf_salt_sz ctx" "kdf_salt_sz ctx = FILE_HEADER_SZ"
    using assms by (auto simp: codec_wf_def)
  obtain k hk hs where d: "sqlcipher_cipher_ctx_key_derive P g ctx c =
      Some (SQLITE_OK, ctx\<lparr>hmac_kdf_salt := hs\<rparr>, c\<lparr>key := k, hmac_key := hk, derive_key := False\<rparr>)"
    "length k = CIPHER_MAX_KEY_SZ" "length hk = CIPHER_MAX_KEY_SZ" "length hs = kdf_salt_sz ctx"
    using ctx_key_derive [of P c ctx g] w by (auto simp: cipher_wf_def)
  then show ?thesis using cipher_wf_keys [OF w(1) d(2,3), of False] w(4) by auto
qed

lemma key_derive_wf:
  assumes P: "provider_copies P" and wf: "codec_wf P B H ctx"
  shows "\<exists>rc ctx' am'. sqlcipher_codec_key_derive P g ctx am = Some (rc, ctx', am') \<and>
    (rc = SQLITE_OK \<longrightarrow> codec_wf P B H ctx' \<and> \<not> derive_key (read_ctx ctx') \<and> \<not> derive_key (write_ctx ctx') \<and>
      page_sz ctx' = page_sz ctx \<and> buffer ctx' = buffer ctx \<and> kdf_salt ctx' = kdf_salt ctx \<and> errCode ctx' = errCode ctx)"
proof -
  let ?same = "\<lambda>ctx'. page_sz ctx' = page_sz ctx \<and> buffer ctx' = buffer ctx \<and> kdf_salt ctx' = kdf_salt ctx \<and> errCode ctx' = errCode ctx"
  define stage where "stage = (if derive_key (read_ctx ctx)
       then do { (rc, ctx, c) \<leftarrow> sqlcipher_cipher_ctx_key_derive P g ctx (read_ctx ctx); Some (rc, ctx\<lparr>read_ctx := c\<rparr>) }
       else Some (SQLITE_OK, ctx))"
  have "\<exists>ctx1. stage = Some (SQLITE_OK, ctx1) \<and> codec_wf P B H ctx1 \<and> \<not> derive_key (read_ctx ctx1) \<and> ?same ctx1"
  proof (cases "derive_key (read_ctx ctx)")
    case True
    obtain hs c' where d: "sqlcipher_cipher_ctx_key_derive P g ctx (read_ctx ctx) = Some (SQLITE_OK, ctx\<lparr>hmac_kdf_salt := hs\<rparr>, c')"
      "length hs = FILE_HEADER_SZ" "cipher_wf P B H (nat (page_sz ctx)) c'" "\<not> derive_key c'"
      using key_derive_read [OF wf, of "read_ctx ctx" g] by auto
    have "codec_wf P B H (ctx\<lparr>hmac_kdf_salt := hs, read_ctx := c'\<rparr>)" using wf d(2,3) by (simp add: codec_wf_def)
    then show ?thesis using True d by (simp add: stage_def)
  qed (use wf in \<open>simp add: stage_def\<close>)
  then obtain ctx1 where ctx1: "stage = Some (SQLITE_OK, ctx1)" "codec_wf P B H ctx1" "\<not> derive_key (read_ctx ctx1)" "?same ctx1" by blast
  let ?r = "read_ctx ctx1" and ?w = "write_ctx ctx1"
  have r: "cipher_wf P B H (nat (page_sz ctx1)) ?r" "pass_ok ?r" "pass_ok ?w" using ctx1(2) by (auto simp: codec_wf_def cipher_wf_def)
  show ?thesis
  proof (cases "derive_key ?w")
    case False
    then show ?thesis using ctx1 by (simp add: sqlcipher_codec_key_derive_def stage_def [symmetric])
  next
    case True
    obtain cmp where cmp: "sqlcipher_cipher_ctx_cmp P ?w ?r = Some cmp" using ctx_cmp_defined r(2,3) by blast
    obtain am' where cp: "sqlcipher_cipher_ctx_copy P ?w ?r am = Some (SQLITE_OK, ?r, am') \<or>
        sqlcipher_cipher_ctx_copy P ?w ?r am = Some (SQLITE_NOMEM, ?r\<lparr>pass := Null\<rparr>, am')"
      using ctx_copy_eq [OF P r(2)] by blast
    obtain hs c' where d: "sqlcipher_cipher_ctx_key_derive P g ctx1 ?w = Some (SQLITE_OK, ctx1\<lparr>hmac_kdf_salt := hs\<rparr>, c')"
      "length hs = FILE_HEADER_SZ" "cipher_wf P B H (nat (page_sz ctx1)) c'" "\<not> derive_key c'"
      using key_derive_read [OF ctx1(2), of ?w g] by auto
    have "codec_wf P B H (ctx1\<lparr>write_ctx := ?r\<rparr>)" "codec_wf P B H (ctx1\<lparr>hmac_kdf_salt := hs, write_ctx := c'\<rparr>)"
      using ctx1(2) r(1) d(2,3) by (simp_all add: codec_wf_def)
    then show ?thesis
      using True cmp cp d ctx1 by (auto simp: sqlcipher_codec_key_derive_def stage_def [symmetric])
  qed
qed

end
