(* ===== verification/Codec_History.thy ===== *)
theory Codec_History
  imports Page_Codec_Correct
begin

text \<open>
  Contexts over time: the context that \<^verbatim>\<open>sqlcipher_codec_ctx_init\<close> makes, the operations that a connection can
  perform on it (\<open>codec_reachable\<close>), and that all of them keep it well formed.
\<close>

section \<open>The codec keeps its context well formed\<close>

lemma page_cipher_defined:
  assumes c: "the_ctx for_ctx ctx = c" and ok: "ctx_ok P c" and sz: "sz = n + reserve_sz c" "block_sz c dvd n"
    and len: "length inp = sz" "length out = sz" and rnd: "\<And>n. length (snd (rnd n)) = n"
  shows "\<exists>rc out'. sqlcipher_page_cipher P ctx for_ctx pgno e sz inp out rnd = Some (rc, out') \<and> length out' = sz"
proof (cases e)
  case False
  obtain x where "length x = reserve_sz c" "sqlcipher_page_cipher P ctx for_ctx pgno False sz inp out rnd = Some
    (if authentic P c pgno n inp then (SQLITE_OK, crypt P c False (take (iv_sz c) (drop n inp)) (take n inp) @ x)
     else (if inp = replicate sz 0 then SQLITE_OK else SQLITE_ERROR, replicate sz 0))"
    using page_cipher_decrypt [OF c ok sz len] by blast
  moreover have "length (crypt P c False (take (iv_sz c) (drop n inp)) (take n inp)) = n"
    using ok sz len(1) by (intro crypt_length [OF ok, THEN trans]) (auto simp: ctx_ok_def split: if_splits)
  ultimately show ?thesis using False sz(1) by auto
next
  case True
  obtain rc r where r: "rnd (reserve_sz c) = (rc, r)" "length r = reserve_sz c"
    using rnd [of "reserve_sz c"] by (cases "rnd (reserve_sz c)") auto
  show ?thesis
  proof (cases "rc = SQLITE_OK")
    case ok': True
    have "length (sealed P c pgno (take n inp) r) = sz" using sealed_length [OF ok _ r(2)] sz len(1) by simp
    then show ?thesis
      using True r page_cipher_encrypt [OF c ok sz len, of rnd r pgno] ok' by simp
  next
    case False
    have "key_sz c \<noteq> 0" using ok by (simp add: ctx_ok_def)
    moreover have "put_block out n r = Some (take n out @ r)" using len(2) sz(1) r(2) by (simp add: put_block_def)
    ultimately have "sqlcipher_page_cipher P ctx for_ctx pgno True sz inp out rnd = Some (SQLITE_ERROR, take n out @ r)"
      using False r(1) sz(1) by (simp add: sqlcipher_page_cipher_def c cipher_iv_def Let_def)
    then show ?thesis using True len(2) sz(1) r(2) by simp
  qed
qed

lemma codec_page_defined:
  assumes wf: "codec_wf P B H ctx" and f: "f = CIPHER_READ_CTX \<or> f = CIPHER_WRITE_CTX"
    and start: "length start = FILE_HEADER_SZ" and data: "length pData = nat (page_sz ctx)" and rnd: "\<And>n. length (snd (rnd n)) = n"
  shows "\<exists>ctx' page. codec_page P ctx f pgno e start pData rnd = Some (ctx', page) \<and> codec_wf P B H ctx' \<and>
    page_sz ctx' = page_sz ctx \<and> length page = nat (page_sz ctx)"
proof -
  let ?sz = "nat (page_sz ctx)" and ?h = "header_sz pgno"
  obtain b where b: "buffer ctx = Some b" "length b = ?sz" "page_sz ctx = int ?sz" using wf by (auto simp: codec_wf_def)
  define c where "c = the_ctx f ctx"
  have c: "cipher_wf P B H ?sz c" using wf f by (auto simp: codec_wf_def c_def the_ctx_def)
  then have cok: "ctx_ok P c" "page_fits c ?sz" by (auto simp: cipher_wf_def intro: sizes_page_fits)
  note pf = page_fits_content [OF cok(2), of pgno]
  obtain rc out where o: "sqlcipher_page_cipher P ctx f pgno e (?sz - ?h) (drop ?h pData) (drop ?h b) rnd = Some (rc, out)"
    "length out = ?sz - ?h"
    using page_cipher_defined [OF c_def [symmetric] cok(1) _ pf(2), of "?sz - ?h" "drop ?h pData" "drop ?h b" rnd pgno e]
      pf(1) data b(2) rnd by auto
  have len: "length (take ?h start @ out) = ?sz" using o(2) pf(3) start by (simp add: header_sz_def)
  have "codec_wf P B H (ctx\<lparr>buffer := Some (take ?h start @ out)\<rparr>)"
    "codec_wf P B H (ctx\<lparr>buffer := Some (take ?h start @ out), errCode := rc\<rparr>)"
    using wf len b(3) by (simp_all add: codec_wf_def)
  then show ?thesis using codec_page_eq [OF b cok(2) start data o(1)] len by (simp add: Let_def)
qed

lemma sqlite3Codec_defined:
  assumes P: "provider_copies P" and wf: "codec_wf P B H ctx" and data: "length pData = nat (page_sz ctx)"
    and rnd: "\<And>n. length (snd (rnd n)) = n"
  shows "\<exists>ptr pData' ctx'. sqlite3Codec P g ctx pData pgno mode rnd am = Some (ptr, pData', ctx') \<and>
    length pData' = length pData \<and> (ptr \<noteq> NULL \<longrightarrow> codec_wf P B H ctx' \<and> page_sz ctx' = page_sz ctx)"
proof -
  obtain rc ctx1 am1 where d: "sqlcipher_codec_key_derive P g ctx am = Some (rc, ctx1, am1)"
    "rc = SQLITE_OK \<longrightarrow> codec_wf P B H ctx1 \<and> page_sz ctx1 = page_sz ctx"
    using key_derive_wf [OF P wf, of g am] by blast
  show ?thesis
  proof (cases "rc = SQLITE_OK")
    case True
    then have w: "codec_wf P B H ctx1" "page_sz ctx1 = page_sz ctx" "length pData = nat (page_sz ctx1)" using d(2) data by auto
    have hdr: "length SQLITE_FILE_HEADER = FILE_HEADER_SZ" "length (kdf_salt ctx1) = FILE_HEADER_SZ"
      using w(1) by (auto simp: SQLITE_FILE_HEADER_def FILE_HEADER_SZ_def codec_wf_def)
    obtain c1 p1 where p1: "codec_page P ctx1 CIPHER_READ_CTX pgno False SQLITE_FILE_HEADER pData rnd = Some (c1, p1)"
      "codec_wf P B H c1" "page_sz c1 = page_sz ctx1" "length p1 = nat (page_sz ctx1)"
      using codec_page_defined [OF w(1) _ hdr(1) w(3) rnd, of CIPHER_READ_CTX pgno False] by auto
    obtain c2 p2 where p2: "codec_page P ctx1 CIPHER_WRITE_CTX pgno True (kdf_salt ctx1) pData rnd = Some (c2, p2)"
      "codec_wf P B H c2" "page_sz c2 = page_sz ctx1"
      using codec_page_defined [OF w(1) _ hdr(2) w(3) rnd, of CIPHER_WRITE_CTX pgno True] by auto
    obtain c3 p3 where p3: "codec_page P ctx1 CIPHER_READ_CTX pgno True (kdf_salt ctx1) pData rnd = Some (c3, p3)"
      "codec_wf P B H c3" "page_sz c3 = page_sz ctx1"
      using codec_page_defined [OF w(1) _ hdr(2) w(3) rnd, of CIPHER_READ_CTX pgno True] by auto
    have bl: "block p1 0 (nat (page_sz c1)) = Some p1" "put_block pData 0 p1 = Some p1"
      using p1 w(3) by (simp_all add: block_def put_block_def)
    consider "mode = 0 \<or> mode = 2 \<or> mode = 3" | "mode = 6" | "mode = 7" | "mode \<notin> {0, 2, 3, 6, 7}" by auto
    then show ?thesis
    proof cases
      case 1
      then have "sqlite3Codec P g ctx pData pgno mode rnd am = Some (PDATA, p1, c1)"
        using d(1) True p1(1) bl by (auto simp: sqlite3Codec_def)
      then show ?thesis using p1 w by simp
    next
      case 2
      then have "sqlite3Codec P g ctx pData pgno mode rnd am = Some (BUFFER, pData, c2)"
        using d(1) True p2(1) by (simp add: sqlite3Codec_def)
      then show ?thesis using p2 w by simp
    next
      case 3
      then have "sqlite3Codec P g ctx pData pgno mode rnd am = Some (BUFFER, pData, c3)"
        using d(1) True p3(1) by (simp add: sqlite3Codec_def)
      then show ?thesis using p3 w by simp
    next
      case 4
      then have "sqlite3Codec P g ctx pData pgno mode rnd am = Some (PDATA, pData, ctx1)"
        using d(1) True by (simp add: sqlite3Codec_def)
      then show ?thesis using w by simp
    qed
  next
    case False
    then have "sqlite3Codec P g ctx pData pgno mode rnd am = Some (NULL, pData, sqlcipher_codec_ctx_set_error ctx1 rc)"
      using d(1) by (simp add: sqlite3Codec_def)
    then show ?thesis by simp
  qed
qed

section \<open>A new context\<close>

definition reserve_for :: "bool \<Rightarrow> nat \<Rightarrow> nat \<Rightarrow> nat" where
  "reserve_for use bs hs = (let r = CIPHER_MAX_IV_SZ + (if use then hs else 0) in if r mod bs = 0 then r else (r div bs + 1) * bs)"

lemma reserve_for_bounds:
  assumes "0 < bs"
  shows "bs dvd reserve_for use bs hs \<and> CIPHER_MAX_IV_SZ + (if use then hs else 0) \<le> reserve_for use bs hs \<and>
    reserve_for use bs hs < CIPHER_MAX_IV_SZ + (if use then hs else 0) + bs"
proof -
  define r where "r = CIPHER_MAX_IV_SZ + (if use then hs else 0)"
  have "r < (r div bs + 1) * bs" "(r div bs + 1) * bs \<le> r + bs"
    using dividend_less_div_times [of bs r] div_times_less_eq_dividend [of r bs] assms by simp_all
  moreover have "(r div bs + 1) * bs < r + bs" if "r mod bs \<noteq> 0"
    using that div_mult_mod_eq [of r bs] unfolding add_mult_distrib by linarith
  moreover have "reserve_for use bs hs = (if r mod bs = 0 then r else (r div bs + 1) * bs)" by (simp add: reserve_for_def r_def Let_def)
  ultimately show ?thesis using assms unfolding r_def [symmetric] by auto
qed

lemma set_use_hmac_eq:
  assumes "block_sz (read_ctx ctx) \<noteq> 0"
  shows "sqlcipher_codec_ctx_set_use_hmac ctx use = Some (SQLITE_OK,
    (let ctx = (if use then sqlcipher_codec_ctx_set_flag ctx CIPHER_FLAG_HMAC else sqlcipher_codec_ctx_unset_flag ctx CIPHER_FLAG_HMAC);
         n = reserve_for use (block_sz (read_ctx ctx)) (hmac_sz (read_ctx ctx))
     in ctx\<lparr>read_ctx := (read_ctx ctx)\<lparr>reserve_sz := n\<rparr>, write_ctx := (write_ctx ctx)\<lparr>reserve_sz := n\<rparr>\<rparr>))"
  using assms
  by (simp add: sqlcipher_codec_ctx_set_use_hmac_def reserve_for_def Let_def sqlcipher_codec_ctx_set_flag_def sqlcipher_codec_ctx_unset_flag_def)

text \<open>The sizes of a provider's context.\<close>

definition cipher_sizes :: "'p sqlcipher_provider \<Rightarrow> 'p \<Rightarrow> nat \<Rightarrow> nat \<Rightarrow> nat \<Rightarrow> nat \<Rightarrow> bool" where
  "cipher_sizes P p ks vs B H \<longleftrightarrow> p_get_key_sz P p = Some ks \<and> p_get_iv_sz P p = Some vs \<and> p_get_block_sz P p = Some B \<and>
     p_get_hmac_sz P p = Some H"

definition new_cipher :: "cipher_globals \<Rightarrow> 'p \<Rightarrow> nat \<Rightarrow> nat \<Rightarrow> nat \<Rightarrow> nat \<Rightarrow> u8 list \<Rightarrow> nat \<Rightarrow> 'p cipher_ctx" where
  "new_cipher g p ks vs B H z n = (let use = sqlcipher_get_default_use_hmac g in
     \<lparr>derive_key = True, kdf_iter = PBKDF2_ITER, fast_kdf_iter = FAST_PBKDF2_ITER, key_sz = ks, iv_sz = vs, block_sz = B,
      pass_sz = n, reserve_sz = reserve_for use B H, hmac_sz = H,
      cflags = (if use then default_flags g OR CIPHER_FLAG_HMAC else default_flags g AND NOT CIPHER_FLAG_HMAC),
      key = replicate CIPHER_MAX_KEY_SZ 0, hmac_key = replicate CIPHER_MAX_KEY_SZ 0, pass = Bytes (take n z), provider_ctx = p\<rparr>)"

definition new_codec :: "u8 list \<Rightarrow> 'p cipher_ctx \<Rightarrow> 'p codec_ctx" where
  "new_codec salt c = \<lparr>kdf_salt_sz = FILE_HEADER_SZ, page_sz = SQLITE_DEFAULT_PAGE_SIZE, kdf_salt = salt,
     hmac_kdf_salt = replicate FILE_HEADER_SZ 0, buffer = Some (replicate (nat SQLITE_DEFAULT_PAGE_SIZE) 0),
     read_ctx = c, write_ctx = c, errCode = SQLITE_OK\<rparr>"

text \<open>The salt: the start of the file, or random bytes for a file that cannot be read.\<close>

definition salt_source :: "(int \<times> u8 list) option \<Rightarrow> (nat \<Rightarrow> int \<times> u8 list) \<Rightarrow> int \<times> u8 list" where
  "salt_source file rnd = (case file of Some (rc, hdr) \<Rightarrow> if rc = SQLITE_OK then (SQLITE_OK, hdr) else rnd FILE_HEADER_SZ
     | None \<Rightarrow> rnd FILE_HEADER_SZ)"

abbreviation default_cipher :: "'p sqlcipher_provider \<Rightarrow> 'p" where
  "default_cipher P \<equiv> p_set_cipher P (p_ctx_init P) CIPHER"

lemma cipher_ctx_init_eq:
  "sqlcipher_cipher_ctx_init P g am = (None, am') \<or> sqlcipher_cipher_ctx_init P g am =
    (Some \<lparr>derive_key = False, kdf_iter = 0, fast_kdf_iter = 0, key_sz = 0, iv_sz = 0, block_sz = 0, pass_sz = 0,
      reserve_sz = 0, hmac_sz = 0, cflags = default_flags g, key = replicate CIPHER_MAX_KEY_SZ 0,
      hmac_key = replicate CIPHER_MAX_KEY_SZ 0, pass = Null, provider_ctx = p_ctx_init P\<rparr>, am')"
  if "am' = snd (allocs 5 am)"
  using that by (auto simp: sqlcipher_cipher_ctx_init_def split: prod.splits bool.splits)

definition zero_cipher :: "'p sqlcipher_provider \<Rightarrow> cipher_globals \<Rightarrow> 'p cipher_ctx" where
  "zero_cipher P g = \<lparr>derive_key = False, kdf_iter = 0, fast_kdf_iter = 0, key_sz = 0, iv_sz = 0, block_sz = 0, pass_sz = 0,
      reserve_sz = 0, hmac_sz = 0, cflags = default_flags g, key = replicate CIPHER_MAX_KEY_SZ 0,
      hmac_key = replicate CIPHER_MAX_KEY_SZ 0, pass = Null, provider_ctx = p_ctx_init P\<rparr>"

lemma set_pass_eq:
  assumes "0 < n" "n \<le> length z" "n < 0x7fffff00"
  shows "\<exists>am'. sqlcipher_cipher_ctx_set_pass c (Some z) n am = (SQLITE_NOMEM, c\<lparr>pass_sz := n, pass := Null\<rparr>, am') \<and> am \<noteq> [] \<or>
    sqlcipher_cipher_ctx_set_pass c (Some z) n am = (SQLITE_OK, c\<lparr>pass_sz := n, pass := Bytes (take n z)\<rparr>, am') \<and>
      (am = [] \<longrightarrow> am' = [])"
  using assms by (auto simp: sqlcipher_cipher_ctx_set_pass_def sqlcipher_malloc_def Let_def split: list.splits bool.splits)

lemma configure_result:
  assumes P: "provider_copies P" and sizes: "cipher_sizes P (default_cipher P) ks vs B H" and B: "0 < B" and n: "0 < n" "n \<le> length z" "n < 0x7fffff00"
    and ctx: "read_ctx ctx = zero_cipher P g" "write_ctx ctx = zero_cipher P g"
  defines "c \<equiv> new_cipher g (default_cipher P) ks vs B H z n"
  shows "\<exists>r. codec_ctx_configure P g ctx (Some z) n am = Some r \<and>
    (r = Inl SQLITE_NOMEM \<and> am \<noteq> [] \<or> r = Inr (ctx\<lparr>read_ctx := c, write_ctx := c\<rparr>))"
proof -
  let ?p = "default_cipher P"
  define c1 where "c1 = (zero_cipher P g)\<lparr>provider_ctx := ?p, key_sz := ks, iv_sz := vs, block_sz := B, hmac_sz := H,
    derive_key := True, kdf_iter := PBKDF2_ITER, fast_kdf_iter := FAST_PBKDF2_ITER\<rparr>"
  have conf: "codec_ctx_configure P g ctx (Some z) n am = do {
     (rc, ctx, am) \<leftarrow> sqlcipher_codec_ctx_set_pass P (ctx\<lparr>read_ctx := c1\<rparr>) (Some z) n 0 am;
     if rc \<noteq> SQLITE_OK then Some (Inl rc) else do {
     (rc, ctx) \<leftarrow> sqlcipher_codec_ctx_set_use_hmac ctx (sqlcipher_get_default_use_hmac g);
     if rc \<noteq> SQLITE_OK then Some (Inl rc) else do {
     (rc, w, am) \<leftarrow> sqlcipher_cipher_ctx_copy P (write_ctx ctx) (read_ctx ctx) am;
     Some (if rc \<noteq> SQLITE_OK then Inl rc else Inr (ctx\<lparr>write_ctx := w\<rparr>)) }}}"
    using sizes ctx
    by (simp add: codec_ctx_configure_def sqlcipher_codec_ctx_set_cipher_def sqlcipher_codec_ctx_set_kdf_iter_def
        sqlcipher_codec_ctx_set_fast_kdf_iter_def store_ctx_def set_ctx_def the_ctx_def cipher_sizes_def zero_cipher_def c1_def Let_def)
  obtain am' where sp: "sqlcipher_cipher_ctx_set_pass c1 (Some z) n am = (SQLITE_NOMEM, c1\<lparr>pass_sz := n, pass := Null\<rparr>, am') \<and> am \<noteq> [] \<or>
    sqlcipher_cipher_ctx_set_pass c1 (Some z) n am = (SQLITE_OK, c1\<lparr>pass_sz := n, pass := Bytes (take n z)\<rparr>, am') \<and> (am = [] \<longrightarrow> am' = [])"
    using set_pass_eq [OF n] by blast
  show ?thesis
  proof (cases "sqlcipher_cipher_ctx_set_pass c1 (Some z) n am = (SQLITE_NOMEM, c1\<lparr>pass_sz := n, pass := Null\<rparr>, am') \<and> am \<noteq> []")
    case True
    then show ?thesis by (simp add: conf sqlcipher_codec_ctx_set_pass_def the_ctx_def)
  next
    case False
    define c2 where "c2 = c1\<lparr>pass_sz := n, pass := Bytes (take n z), derive_key := True\<rparr>"
    have sp': "sqlcipher_codec_ctx_set_pass P (ctx\<lparr>read_ctx := c1\<rparr>) (Some z) n 0 am = Some (SQLITE_OK, ctx\<lparr>read_ctx := c2\<rparr>, am')"
      and am': "am = [] \<longrightarrow> am' = []"
      using sp False by (auto simp: sqlcipher_codec_ctx_set_pass_def the_ctx_def store_ctx_def set_ctx_def c2_def)
    define use where "use = sqlcipher_get_default_use_hmac g"
    define fl where "fl = (if use then default_flags g OR CIPHER_FLAG_HMAC else default_flags g AND NOT CIPHER_FLAG_HMAC)"
    have c: "c = c2\<lparr>cflags := fl, reserve_sz := reserve_for use B H\<rparr>"
      by (simp add: c_def new_cipher_def c2_def c1_def zero_cipher_def fl_def use_def [symmetric] Let_def)
    define w where "w = (zero_cipher P g)\<lparr>cflags := fl, reserve_sz := reserve_for use B H\<rparr>"
    have uh: "sqlcipher_codec_ctx_set_use_hmac (ctx\<lparr>read_ctx := c2\<rparr>) use = Some (SQLITE_OK, ctx\<lparr>read_ctx := c, write_ctx := w\<rparr>)"
      using ctx B by (subst set_use_hmac_eq) (auto simp: c w_def c2_def c1_def fl_def zero_cipher_def sqlcipher_codec_ctx_set_flag_def
          sqlcipher_codec_ctx_unset_flag_def Let_def)
    have ok: "pass_ok c" using n by (simp add: pass_ok_def c c2_def)
    have cp: "\<exists>am''. sqlcipher_cipher_ctx_copy P w c am' = Some (SQLITE_OK, c, am'') \<or>
        sqlcipher_cipher_ctx_copy P w c am' = Some (SQLITE_NOMEM, c\<lparr>pass := Null\<rparr>, am'') \<and> am \<noteq> []"
      using ctx_copy_eq [OF P ok, of w am'] ctx_copy_always [OF P ok, of w] am' by (cases "am = []") auto
    show ?thesis using sp' uh cp by (auto simp: conf use_def [symmetric])
  qed
qed

lemma codec_init_result:
  assumes P: "provider_copies P" and sizes: "cipher_sizes P (default_cipher P) ks vs B H" and B: "0 < B" and n: "0 < n" "n \<le> length z" "n < 0x7fffff00"
  shows "\<exists>r. sqlcipher_codec_ctx_init P g file rnd (Some z) n am = Some r \<and>
    (r = Inl SQLITE_NOMEM \<and> am \<noteq> [] \<or> r = Inl SQLITE_ERROR \<and> fst (salt_source file rnd) \<noteq> SQLITE_OK \<or>
      (\<exists>salt. salt_source file rnd = (SQLITE_OK, salt) \<and> r = Inr (new_codec salt (new_cipher g (default_cipher P) ks vs B H z n))))"
proof -
  have al: "allocs k [] = (True, [])" for k by (induction k) (simp_all add: sqlcipher_malloc_def)
  have ma: "sqlcipher_malloc SQLITE_DEFAULT_PAGE_SIZE [] = (True, [])" by (simp add: sqlcipher_malloc_def SQLITE_DEFAULT_PAGE_SIZE_def)
  have ci: "sqlcipher_cipher_ctx_init P g [] = (Some (zero_cipher P g), [])"
    by (simp add: sqlcipher_cipher_ctx_init_def al zero_cipher_def)
  have ci': "fst (sqlcipher_cipher_ctx_init P g am) \<in> {None, Some (zero_cipher P g)}" for am
    by (auto simp: sqlcipher_cipher_ctx_init_def zero_cipher_def split: prod.splits bool.splits)
  obtain b1 am1 where a1: "allocs 3 am = (b1, am1)" "am = [] \<longrightarrow> b1 \<and> am1 = []"
    using al [of 3] by (cases "am = []"; cases "allocs 3 am") auto
  obtain b2 am2 where a2: "sqlcipher_malloc SQLITE_DEFAULT_PAGE_SIZE am1 = (b2, am2)" "am1 = [] \<longrightarrow> b2 \<and> am2 = []"
    using ma by (cases "am1 = []"; cases "sqlcipher_malloc SQLITE_DEFAULT_PAGE_SIZE am1") auto
  obtain r1 am3 where a3: "sqlcipher_cipher_ctx_init P g am2 = (r1, am3)" "am2 = [] \<longrightarrow> r1 \<noteq> None \<and> am3 = []"
    using ci by (cases "am2 = []"; cases "sqlcipher_cipher_ctx_init P g am2") auto
  obtain r2 am4 where a4: "sqlcipher_cipher_ctx_init P g am3 = (r2, am4)" "am3 = [] \<longrightarrow> r2 \<noteq> None \<and> am4 = []"
    using ci by (cases "am3 = []"; cases "sqlcipher_cipher_ctx_init P g am3") auto
  have r: "r1 \<in> {None, Some (zero_cipher P g)}" "r2 \<in> {None, Some (zero_cipher P g)}"
    using ci' [of am2] ci' [of am3] a3(1) a4(1) by auto
  obtain rc salt where ss: "salt_source file rnd = (rc, salt)" by (cases "salt_source file rnd")
  have salt: "(case file of Some (rc, hdr) \<Rightarrow> if rc = SQLITE_OK then (SQLITE_OK, hdr) else rnd FILE_HEADER_SZ
     | None \<Rightarrow> rnd FILE_HEADER_SZ) = (rc, salt)" using ss by (simp add: salt_source_def)
  note conf = configure_result [OF P sizes B n, where g = g and am = am4]
  show ?thesis
  proof (cases "b1 \<and> b2 \<and> r1 \<noteq> None \<and> r2 \<noteq> None \<and> rc = SQLITE_OK")
    case False
    then show ?thesis
      using a1 a2 a3 a4 salt ss by (auto simp: sqlcipher_codec_ctx_init_def Let_def split: bool.splits option.splits)
  next
    case True
    define ctx where "ctx = (new_codec salt (zero_cipher P g) :: 'a codec_ctx)"
    have "sqlcipher_codec_ctx_init P g file rnd (Some z) n am = codec_ctx_configure P g ctx (Some z) n am4"
      using True r a1(1) a2(1) a3(1) a4(1) salt
      by (auto simp: sqlcipher_codec_ctx_init_def Let_def ctx_def new_codec_def)
    moreover have "ctx\<lparr>read_ctx := c, write_ctx := c\<rparr> = new_codec salt c" for c by (simp add: ctx_def new_codec_def)
    ultimately show ?thesis
      using conf [of ctx] True ss a1(2) a2(2) a3(2) a4(2) by (auto simp: ctx_def new_codec_def)
  qed
qed

section \<open>Histories of a context\<close>

text \<open>A cipher of block size \<open>B\<close> with codes of \<open>H\<close> bytes.\<close>

definition cipher_ok :: "'p sqlcipher_provider \<Rightarrow> nat \<Rightarrow> nat \<Rightarrow> 'p \<Rightarrow> bool" where
  "cipher_ok P B H p \<longleftrightarrow> (\<exists>ks vs. cipher_sizes P p ks vs B H \<and> primitives_ok P p ks vs B H \<and>
     0 < ks \<and> ks \<le> CIPHER_MAX_KEY_SZ \<and> vs \<le> CIPHER_MAX_IV_SZ)"

definition provider_ok :: "'p sqlcipher_provider \<Rightarrow> nat \<Rightarrow> nat \<Rightarrow> bool" where
  "provider_ok P B H \<longleftrightarrow> provider_copies P \<and> cipher_ok P B H (default_cipher P) \<and> 0 < B \<and> B dvd FILE_HEADER_SZ \<and> H \<le> 64"

text \<open>
  What a connection can do with its context: attach it with a key, configure it, and pass pages through it. The answers
  of the allocator and of the random generator are arbitrary; operations that report an error are not followed by others.
  Ciphers may be changed for ones of the same block size, and page sizes are those of a database.
\<close>

inductive codec_reachable :: "'p sqlcipher_provider \<Rightarrow> nat \<Rightarrow> nat \<Rightarrow> 'p codec_ctx \<Rightarrow> bool" for P B H where
  attach: "sqlcipher_codec_ctx_init P g file rnd (Some z) n am = Some (Inr ctx) \<Longrightarrow> 0 < n \<Longrightarrow> n \<le> length z \<Longrightarrow> n < 0x7fffff00 \<Longrightarrow>
    (\<And>hdr. file = Some (SQLITE_OK, hdr) \<Longrightarrow> length hdr = FILE_HEADER_SZ) \<Longrightarrow> length (snd (rnd FILE_HEADER_SZ)) = FILE_HEADER_SZ \<Longrightarrow>
    codec_reachable P B H ctx"
| set_pass: "codec_reachable P B H ctx \<Longrightarrow> sqlcipher_codec_ctx_set_pass P ctx (Some z) n f am = Some (SQLITE_OK, ctx', am') \<Longrightarrow>
    n \<le> length z \<Longrightarrow> codec_reachable P B H ctx'"
| set_kdf_iter: "codec_reachable P B H ctx \<Longrightarrow> sqlcipher_codec_ctx_set_kdf_iter P ctx i f am = Some (SQLITE_OK, ctx', am') \<Longrightarrow>
    codec_reachable P B H ctx'"
| set_fast_kdf_iter: "codec_reachable P B H ctx \<Longrightarrow> sqlcipher_codec_ctx_set_fast_kdf_iter P ctx i f am = Some (SQLITE_OK, ctx', am') \<Longrightarrow>
    codec_reachable P B H ctx'"
| set_cipher: "codec_reachable P B H ctx \<Longrightarrow> sqlcipher_codec_ctx_set_cipher P ctx name f am = Some (SQLITE_OK, ctx', am') \<Longrightarrow>
    cipher_ok P B H (p_set_cipher P (provider_ctx (the_ctx f ctx)) name) \<Longrightarrow> codec_reachable P B H ctx'"
| set_flag: "codec_reachable P B H ctx \<Longrightarrow> fl = CIPHER_FLAG_LE_PGNO \<or> fl = CIPHER_FLAG_BE_PGNO \<Longrightarrow>
    codec_reachable P B H (sqlcipher_codec_ctx_set_flag ctx fl)"
| unset_flag: "codec_reachable P B H ctx \<Longrightarrow> fl = CIPHER_FLAG_LE_PGNO \<or> fl = CIPHER_FLAG_BE_PGNO \<Longrightarrow>
    codec_reachable P B H (sqlcipher_codec_ctx_unset_flag ctx fl)"
| set_use_hmac: "codec_reachable P B H ctx \<Longrightarrow> sqlcipher_codec_ctx_set_use_hmac ctx use = Some (SQLITE_OK, ctx') \<Longrightarrow>
    codec_reachable P B H ctx'"
| set_pagesize: "codec_reachable P B H ctx \<Longrightarrow> sqlcipher_codec_ctx_set_pagesize ctx sz am = (SQLITE_OK, ctx', am') \<Longrightarrow>
    512 \<le> sz \<Longrightarrow> 16 dvd sz \<Longrightarrow> codec_reachable P B H ctx'"
| key_copy: "codec_reachable P B H ctx \<Longrightarrow> sqlcipher_codec_key_copy P ctx source am = Some (SQLITE_OK, ctx', am') \<Longrightarrow>
    codec_reachable P B H ctx'"
| codec: "codec_reachable P B H ctx \<Longrightarrow> sqlite3Codec P g ctx pData pgno mode rnd am = Some (ptr, pData', ctx') \<Longrightarrow> ptr \<noteq> NULL \<Longrightarrow>
    length pData = nat (page_sz ctx) \<Longrightarrow> (\<And>n. length (snd (rnd n)) = n) \<Longrightarrow> codec_reachable P B H ctx'"

lemma store_ctx_wf:
  assumes P: "provider_copies P" and wf: "codec_wf P B H ctx" and c: "cipher_wf P B H (nat (page_sz ctx)) c"
  shows "\<exists>rc ctx' am'. store_ctx P f c ctx am = Some (rc, ctx', am') \<and> (rc = SQLITE_OK \<longrightarrow> codec_wf P B H ctx')"
proof -
  have "pass_ok c" using c by (simp add: cipher_wf_def)
  then obtain am' where "sqlcipher_cipher_ctx_copy P (read_ctx (set_ctx f c ctx)) c am = Some (SQLITE_OK, c, am') \<or>
      sqlcipher_cipher_ctx_copy P (read_ctx (set_ctx f c ctx)) c am = Some (SQLITE_NOMEM, c\<lparr>pass := Null\<rparr>, am')"
    using ctx_copy_eq [OF P] by blast
  then show ?thesis using wf c by (auto simp: store_ctx_def Let_def set_ctx_def codec_wf_def)
qed

lemma the_ctx_wf: "codec_wf P B H ctx \<Longrightarrow> cipher_wf P B H (nat (page_sz ctx)) (the_ctx f ctx)"
  by (simp add: codec_wf_def the_ctx_def)

lemma cipher_wf_param [simp]:
  "cipher_wf P B H sz (c\<lparr>kdf_iter := i, derive_key := b\<rparr>) = cipher_wf P B H sz c"
  "cipher_wf P B H sz (c\<lparr>fast_kdf_iter := i, derive_key := b\<rparr>) = cipher_wf P B H sz c"
  by (simp_all add: cipher_wf_def ctx_ok_def sizes_ok_def pass_ok_def uses_hmac_def)

text \<open>The operations, one by one.\<close>

lemma uses_hmac_bit: "uses_hmac c \<longleftrightarrow> bit (cflags c) 0"
  by (simp add: uses_hmac_def CIPHER_FLAG_HMAC_def and_one_eq bit_0 odd_iff_mod_2_eq_one)

lemma uses_hmac_pgno_flag:
  "fl = CIPHER_FLAG_LE_PGNO \<or> fl = CIPHER_FLAG_BE_PGNO \<Longrightarrow>
   uses_hmac (c\<lparr>cflags := cflags c OR fl\<rparr>) = uses_hmac c \<and> uses_hmac (c\<lparr>cflags := cflags c AND NOT fl\<rparr>) = uses_hmac c"
  by (auto simp: uses_hmac_bit bit_simps CIPHER_FLAG_LE_PGNO_def CIPHER_FLAG_BE_PGNO_def)

lemma cipher_wf_flags:
  "uses_hmac (c\<lparr>cflags := x\<rparr>) = uses_hmac c \<Longrightarrow> cipher_wf P B H sz (c\<lparr>cflags := x\<rparr>) = cipher_wf P B H sz c"
  by (simp add: cipher_wf_def ctx_ok_def sizes_ok_def pass_ok_def)

lemma cipher_wf_pgno:
  assumes "fl = CIPHER_FLAG_LE_PGNO \<or> fl = CIPHER_FLAG_BE_PGNO"
  shows "cipher_wf P B H sz (c\<lparr>cflags := cflags c OR fl\<rparr>) = cipher_wf P B H sz c"
    and "cipher_wf P B H sz (c\<lparr>cflags := cflags c AND NOT fl\<rparr>) = cipher_wf P B H sz c"
  using uses_hmac_pgno_flag [OF assms, of c] by (simp_all only: cipher_wf_flags)

lemma cipher_wf_pass:
  "cipher_wf P B H sz c \<Longrightarrow> 0 < n \<Longrightarrow> n < 0x7fffff00 \<Longrightarrow> n \<le> length z \<Longrightarrow>
   cipher_wf P B H sz (c\<lparr>pass_sz := n, pass := Bytes (take n z), derive_key := b\<rparr>)"
  by (auto simp: cipher_wf_def ctx_ok_def sizes_ok_def pass_ok_def uses_hmac_def split: if_splits)

lemma cipher_wf_reserve:
  assumes "cipher_wf P B H sz c" "bit fl 0 = use" "r = reserve_for use B H"
  shows "cipher_wf P B H sz (c\<lparr>cflags := fl, reserve_sz := r\<rparr>)"
proof -
  have B: "0 < B" "B dvd FILE_HEADER_SZ" "H \<le> 64" using assms(1) by (auto simp: cipher_wf_def sizes_ok_def)
  then have "B \<le> 16" by (auto simp: FILE_HEADER_SZ_def dest: dvd_imp_le)
  then have "reserve_for use B H \<le> 96"
    using reserve_for_bounds [OF B(1), of use H] B(3) by (auto simp: CIPHER_MAX_IV_SZ_def split: if_splits)
  then show ?thesis
    using assms reserve_for_bounds [OF B(1), of use H]
    by (auto simp: cipher_wf_def ctx_ok_def sizes_ok_def pass_ok_def uses_hmac_bit)
qed

lemma cipher_wf_cipher:
  assumes "cipher_wf P B H sz c" "cipher_sizes P p ks vs B H" "primitives_ok P p ks vs B H"
    "0 < ks" "ks \<le> CIPHER_MAX_KEY_SZ" "vs \<le> CIPHER_MAX_IV_SZ"
  shows "cipher_wf P B H sz (c\<lparr>provider_ctx := p, key_sz := ks, iv_sz := vs, block_sz := B, hmac_sz := H, derive_key := b\<rparr>)"
  using assms by (auto simp: cipher_wf_def ctx_ok_def sizes_ok_def pass_ok_def uses_hmac_def split: if_splits)

lemma new_cipher_wf:
  assumes P: "provider_ok P B H" and n: "0 < n" "n \<le> length z" "n < 0x7fffff00"
    and sizes: "cipher_sizes P (default_cipher P) ks vs B H" and sz: "512 \<le> sz" "16 dvd sz"
  shows "cipher_wf P B H sz (new_cipher g (default_cipher P) ks vs B H z n)"
proof -
  have c: "primitives_ok P (default_cipher P) ks vs B H" "0 < ks" "ks \<le> CIPHER_MAX_KEY_SZ" "vs \<le> CIPHER_MAX_IV_SZ"
    using P sizes by (auto simp: provider_ok_def cipher_ok_def cipher_sizes_def)
  have B: "0 < B" "B dvd FILE_HEADER_SZ" "H \<le> 64" using P by (auto simp: provider_ok_def)
  then have "B \<le> 16" by (auto simp: FILE_HEADER_SZ_def dest: dvd_imp_le)
  then have r: "reserve_for use B H \<le> 96" for use
    using reserve_for_bounds [OF B(1), of use H] B(3) by (auto simp: CIPHER_MAX_IV_SZ_def split: if_splits)
  define use where "use = sqlcipher_get_default_use_hmac g"
  define c where "c = new_cipher g (default_cipher P) ks vs B H z n"
  have u: "uses_hmac c = use"
    by (auto simp: c_def new_cipher_def Let_def use_def [symmetric] uses_hmac_bit CIPHER_FLAG_HMAC_def bit_simps)
  have f: "key_sz c = ks" "iv_sz c = vs" "block_sz c = B" "hmac_sz c = H" "pass_sz c = n" "pass c = Bytes (take n z)" "provider_ctx c = default_cipher P"
    "reserve_sz c = reserve_for use B H" "length (key c) = CIPHER_MAX_KEY_SZ" "length (hmac_key c) = CIPHER_MAX_KEY_SZ"
    by (simp_all add: c_def new_cipher_def Let_def use_def)
  have "iv_sz c + (if use then H else 0) \<le> reserve_for use B H"
    using reserve_for_bounds [OF B(1), of use H] c(4) f(2) by (auto split: if_splits)
  then have "cipher_wf P B H sz c"
    using c B n sz r [of use] reserve_for_bounds [OF B(1), of use H] f u
    by (cases use) (simp_all add: cipher_wf_def ctx_ok_def sizes_ok_def pass_ok_def FILE_HEADER_SZ_def)
  then show ?thesis by (simp add: c_def)
qed

lemma new_codec_wf:
  assumes "\<And>sz. 512 \<le> sz \<Longrightarrow> 16 dvd sz \<Longrightarrow> cipher_wf P B H sz c" "length salt = FILE_HEADER_SZ"
  shows "codec_wf P B H (new_codec salt c)"
  using assms by (simp add: codec_wf_def new_codec_def SQLITE_DEFAULT_PAGE_SIZE_def)

lemma codec_reachable_wf:
  assumes "provider_ok P B H" "codec_reachable P B H ctx"
  shows "codec_wf P B H ctx"
proof -
  have P: "provider_copies P" using assms(1) by (simp add: provider_ok_def)
  show ?thesis using assms(2)
proof (induction rule: codec_reachable.induct)
  case (attach g fd rnd z n am ctx)
  obtain ks vs where sizes: "cipher_sizes P (default_cipher P) ks vs B H" using assms(1) by (auto simp: provider_ok_def cipher_ok_def)
  have P: "provider_copies P" "0 < B" using assms(1) by (auto simp: provider_ok_def)
  obtain salt where salt: "salt_source fd rnd = (SQLITE_OK, salt)" "ctx = new_codec salt (new_cipher g (default_cipher P) ks vs B H z n)"
    using codec_init_result [OF P(1) sizes P(2) attach(2,3,4), of g fd rnd am] attach(1) by auto
  have "length salt = FILE_HEADER_SZ" using salt(1) attach(5,6) by (auto simp: salt_source_def split: option.splits if_splits)
  then show ?case unfolding salt(2) by (intro new_codec_wf new_cipher_wf assms(1) attach(2,3,4) sizes)
next
  case (set_pass ctx z n f am ctx' am')
  let ?c = "the_ctx f ctx"
  let ?c' = "?c\<lparr>pass_sz := n, pass := Bytes (take n z), derive_key := True\<rparr>"
  obtain am1 where sp: "0 < n" "n < 0x7fffff00" "store_ctx P f ?c' ctx am1 = Some (SQLITE_OK, ctx', am')"
    using set_pass(2) by (auto simp: sqlcipher_codec_ctx_set_pass_def sqlcipher_cipher_ctx_set_pass_def sqlcipher_malloc_def Let_def
        split: if_splits list.splits bool.splits prod.splits)
  have "cipher_wf P B H (nat (page_sz ctx)) ?c'" by (rule cipher_wf_pass [OF the_ctx_wf [OF set_pass(4)] sp(1,2) set_pass(3)])
  then show ?case using store_ctx_wf [OF P set_pass(4), of ?c' f am1] sp(3) by auto
next
  case (set_kdf_iter ctx i f am ctx' am')
  then show ?case
    using store_ctx_wf [of P B H ctx "(the_ctx f ctx)\<lparr>kdf_iter := i, derive_key := True\<rparr>" f am] the_ctx_wf [OF set_kdf_iter(3)] P
    by (simp add: sqlcipher_codec_ctx_set_kdf_iter_def)
next
  case (set_fast_kdf_iter ctx i f am ctx' am')
  then show ?case
    using store_ctx_wf [of P B H ctx "(the_ctx f ctx)\<lparr>fast_kdf_iter := i, derive_key := True\<rparr>" f am] the_ctx_wf [OF set_fast_kdf_iter(3)] P
    by (simp add: sqlcipher_codec_ctx_set_fast_kdf_iter_def)
next
  case (set_cipher ctx name f am ctx' am')
  let ?p = "p_set_cipher P (provider_ctx (the_ctx f ctx)) name"
  obtain ks vs where c: "cipher_sizes P ?p ks vs B H" "primitives_ok P ?p ks vs B H" "0 < ks" "ks \<le> CIPHER_MAX_KEY_SZ" "vs \<le> CIPHER_MAX_IV_SZ"
    using set_cipher(3) by (auto simp: cipher_ok_def)
  have "store_ctx P f ((the_ctx f ctx)\<lparr>provider_ctx := ?p, key_sz := ks, iv_sz := vs, block_sz := B, hmac_sz := H, derive_key := True\<rparr>) ctx am =
      Some (SQLITE_OK, ctx', am')"
    using set_cipher(2) c(1) by (simp add: sqlcipher_codec_ctx_set_cipher_def cipher_sizes_def Let_def)
  then show ?case
    using store_ctx_wf [OF P set_cipher(4) cipher_wf_cipher [OF the_ctx_wf [OF set_cipher(4), of f] c, where b = True], where f = f and am = am] by auto
next
  case (set_flag ctx fl)
  then show ?case by (simp add: sqlcipher_codec_ctx_set_flag_def codec_wf_def cipher_wf_pgno)
next
  case (unset_flag ctx fl)
  then show ?case by (simp add: sqlcipher_codec_ctx_unset_flag_def codec_wf_def cipher_wf_pgno)
next
  case (set_use_hmac ctx use ctx')
  let ?r = "read_ctx ctx" and ?w = "write_ctx ctx"
  have w: "cipher_wf P B H (nat (page_sz ctx)) ?r" "cipher_wf P B H (nat (page_sz ctx)) ?w"
    using set_use_hmac(3) by (auto simp: codec_wf_def)
  then have bs: "block_sz ?r = B" "hmac_sz ?r = H" "B \<noteq> 0" by (auto simp: cipher_wf_def sizes_ok_def)
  define fl where "fl = (\<lambda>x. if use then x OR CIPHER_FLAG_HMAC else x AND NOT CIPHER_FLAG_HMAC)"
  have fl: "bit (fl x) 0 = use" for x by (auto simp: fl_def CIPHER_FLAG_HMAC_def bit_simps)
  have "ctx' = ctx\<lparr>read_ctx := ?r\<lparr>cflags := fl (cflags ?r), reserve_sz := reserve_for use B H\<rparr>,
      write_ctx := ?w\<lparr>cflags := fl (cflags ?w), reserve_sz := reserve_for use B H\<rparr>\<rparr>"
    using set_use_hmac(2) bs set_use_hmac_eq [of ctx use]
    by (auto simp: fl_def Let_def sqlcipher_codec_ctx_set_flag_def sqlcipher_codec_ctx_unset_flag_def)
  then show ?case
    using set_use_hmac(3) cipher_wf_reserve [OF w(1) fl refl] cipher_wf_reserve [OF w(2) fl refl] by (simp add: codec_wf_def)
next
  case (set_pagesize ctx sz am ctx' am')
  have "ctx' = ctx\<lparr>page_sz := sz, buffer := Some (replicate (nat sz) 0)\<rparr>"
    using set_pagesize(2) by (auto simp: sqlcipher_codec_ctx_set_pagesize_def split: prod.splits bool.splits)
  moreover have "512 \<le> nat sz" "16 dvd nat sz"
    using set_pagesize(3,4) int_dvd_int_iff [of 16 "nat sz"] by simp_all
  then have "cipher_wf P B H (nat sz) c" if "cipher_wf P B H (nat (page_sz ctx)) c" for c
    using that by (simp add: cipher_wf_def sizes_ok_def FILE_HEADER_SZ_def)
  ultimately show ?case using set_pagesize(3,5) by (simp add: codec_wf_def)
next
  case (key_copy ctx source am ctx' am')
  have ok: "pass_ok (read_ctx ctx)" "pass_ok (write_ctx ctx)" using key_copy(3) by (auto simp: codec_wf_def cipher_wf_def)
  have "ctx' = ctx\<lparr>write_ctx := read_ctx ctx\<rparr> \<or> ctx' = ctx\<lparr>read_ctx := write_ctx ctx\<rparr>"
    using key_copy(2) ctx_copy_eq [OF P ok(1), of "write_ctx ctx" am] ctx_copy_eq [OF P ok(2), of "read_ctx ctx" am]
    by (auto simp: sqlcipher_codec_key_copy_def split: if_splits)
  then show ?case using key_copy(3) by (auto simp: codec_wf_def)
next
  case (codec ctx g pData pgno mode rnd am ptr pData' ctx')
  then show ?case using sqlite3Codec_defined [of P B H ctx pData rnd g pgno mode am] P by auto
qed
qed

end
