(* ===== verification/OpenSSL_Provider.thy ===== *)
theory OpenSSL_Provider
  imports Cipher_Ctx
begin

text \<open>
  The provider of the cryptographic primitives, \<^verbatim>\<open>src/crypto_openssl.c\<close>: thin functions over OpenSSL, whose
  functions are a record of parameters. The type of ciphers \<open>'e\<close> stands for \<^verbatim>\<open>EVP_CIPHER\<close>; the state of the provider is a pointer to one,
  which is null for an unknown name.
\<close>

record 'e openssl =
  EVP_get_cipherbyname :: "u8 list \<Rightarrow> 'e option"
  EVP_CIPHER_name :: "'e \<Rightarrow> u8 list"
  EVP_CIPHER_key_length :: "'e \<Rightarrow> nat"
  EVP_CIPHER_iv_length :: "'e \<Rightarrow> nat"
  EVP_CIPHER_block_size :: "'e \<Rightarrow> nat"
  EVP_crypt :: "'e \<Rightarrow> bool \<Rightarrow> u8 list \<Rightarrow> u8 list \<Rightarrow> u8 list \<Rightarrow> u8 list"
  HMAC_SHA1 :: "u8 list \<Rightarrow> u8 list \<Rightarrow> u8 list"
  PKCS5_PBKDF2_HMAC_SHA1 :: "u8 list \<Rightarrow> u8 list \<Rightarrow> int \<Rightarrow> nat \<Rightarrow> u8 list"

text \<open>\<^verbatim>\<open>EVP_MD_size(EVP_sha1())\<close>\<close>

definition SHA1_SIZE :: nat where "SHA1_SIZE = 20"

type_synonym 'e openssl_ctx = "'e option"

section \<open>Initialization of OpenSSL\<close>

text \<open>The two counters; the second result says whether \<^verbatim>\<open>OpenSSL_add_all_algorithms\<close> or \<^verbatim>\<open>EVP_cleanup\<close> is called.\<close>

record openssl_init =
  openssl_external_init :: bool
  openssl_init_count :: nat

definition sqlcipher_openssl_activate :: "bool \<Rightarrow> openssl_init \<Rightarrow> openssl_init \<times> bool" where
  "sqlcipher_openssl_activate cipher_known s =
     (let s = (if openssl_init_count s = 0 \<and> cipher_known then s\<lparr>openssl_external_init := True\<rparr> else s)
      in if \<not> openssl_external_init s
         then (s\<lparr>openssl_init_count := openssl_init_count s + 1\<rparr>, openssl_init_count s = 0)
         else (s, False))"

definition sqlcipher_openssl_deactivate :: "openssl_init \<Rightarrow> openssl_init \<times> bool" where
  "sqlcipher_openssl_deactivate s =
     (if \<not> openssl_external_init s
      then let n = openssl_init_count s - 1 in (s\<lparr>openssl_init_count := n\<rparr>, n = 0)
      else (s, False))"

section \<open>The functions of the provider\<close>

definition sqlcipher_openssl_hmac :: "'e openssl \<Rightarrow> 'e openssl_ctx \<Rightarrow> u8 list \<Rightarrow> u8 list \<Rightarrow> u8 list \<Rightarrow> u8 list" where
  "sqlcipher_openssl_hmac E ctx hk inp in2 = HMAC_SHA1 E hk (inp @ in2)"

definition sqlcipher_openssl_kdf :: "'e openssl \<Rightarrow> 'e openssl_ctx \<Rightarrow> u8 list \<Rightarrow> u8 list \<Rightarrow> int \<Rightarrow> nat \<Rightarrow> u8 list" where
  "sqlcipher_openssl_kdf E ctx z salt workfactor n = PKCS5_PBKDF2_HMAC_SHA1 E z salt workfactor n"

definition sqlcipher_openssl_cipher :: "'e openssl \<Rightarrow> 'e openssl_ctx \<Rightarrow> bool \<Rightarrow> u8 list \<Rightarrow> u8 list \<Rightarrow> u8 list \<Rightarrow> u8 list option" where
  "sqlcipher_openssl_cipher E ctx mode k iv inp = map_option (\<lambda>e. EVP_crypt E e mode k iv inp) ctx"

definition sqlcipher_openssl_set_cipher :: "'e openssl \<Rightarrow> 'e openssl_ctx \<Rightarrow> u8 list \<Rightarrow> 'e openssl_ctx" where
  "sqlcipher_openssl_set_cipher E ctx cipher_name = EVP_get_cipherbyname E cipher_name"

definition sqlcipher_openssl_get_cipher :: "'e openssl \<Rightarrow> 'e openssl_ctx \<Rightarrow> u8 list option" where
  "sqlcipher_openssl_get_cipher E ctx = map_option (EVP_CIPHER_name E) ctx"

definition sqlcipher_openssl_get_key_sz :: "'e openssl \<Rightarrow> 'e openssl_ctx \<Rightarrow> nat option" where
  "sqlcipher_openssl_get_key_sz E ctx = map_option (EVP_CIPHER_key_length E) ctx"

definition sqlcipher_openssl_get_iv_sz :: "'e openssl \<Rightarrow> 'e openssl_ctx \<Rightarrow> nat option" where
  "sqlcipher_openssl_get_iv_sz E ctx = map_option (EVP_CIPHER_iv_length E) ctx"

definition sqlcipher_openssl_get_block_sz :: "'e openssl \<Rightarrow> 'e openssl_ctx \<Rightarrow> nat option" where
  "sqlcipher_openssl_get_block_sz E ctx = map_option (EVP_CIPHER_block_size E) ctx"

definition sqlcipher_openssl_get_hmac_sz :: "'e openssl_ctx \<Rightarrow> nat option" where
  "sqlcipher_openssl_get_hmac_sz ctx = Some SHA1_SIZE"

definition sqlcipher_openssl_ctx_copy :: "'e openssl_ctx \<Rightarrow> 'e openssl_ctx \<Rightarrow> 'e openssl_ctx" where
  "sqlcipher_openssl_ctx_copy target_ctx source_ctx = source_ctx"

definition sqlcipher_openssl_ctx_cmp :: "'e openssl_ctx \<Rightarrow> 'e openssl_ctx \<Rightarrow> bool" where
  "sqlcipher_openssl_ctx_cmp c1 c2 \<longleftrightarrow> c1 = c2"

text \<open>The context is allocated zeroed.\<close>

definition sqlcipher_openssl_ctx_init :: "'e openssl_ctx" where
  "sqlcipher_openssl_ctx_init = None"

definition sqlcipher_openssl_setup :: "'e openssl \<Rightarrow> 'e openssl_ctx sqlcipher_provider" where
  "sqlcipher_openssl_setup E = \<lparr>
     p_hmac = sqlcipher_openssl_hmac E,
     p_kdf = sqlcipher_openssl_kdf E,
     p_cipher = sqlcipher_openssl_cipher E,
     p_set_cipher = sqlcipher_openssl_set_cipher E,
     p_get_cipher = sqlcipher_openssl_get_cipher E,
     p_get_key_sz = sqlcipher_openssl_get_key_sz E,
     p_get_iv_sz = sqlcipher_openssl_get_iv_sz E,
     p_get_block_sz = sqlcipher_openssl_get_block_sz E,
     p_get_hmac_sz = sqlcipher_openssl_get_hmac_sz,
     p_ctx_copy = sqlcipher_openssl_ctx_copy,
     p_ctx_cmp = sqlcipher_openssl_ctx_cmp,
     p_ctx_init = sqlcipher_openssl_ctx_init\<rparr>"

end
