(* ===== verification/Codec_Main.thy ===== *)
theory Codec_Main
  imports Codec_History OpenSSL_Provider
begin

text \<open>
  The properties of the page encryption with OpenSSL as the provider: a database can be read again, the codec stays in
  its buffers in every history of a context, and the outcomes of reading a page.
\<close>

section \<open>A key derivation for both contexts\<close>

lemma ctx_cmp_derived:
  assumes "provider_copies P" "pass_ok c"
  shows "sqlcipher_cipher_ctx_cmp P c (c\<lparr>key := k, hmac_key := hk, derive_key := b\<rparr>) = Some 0"
  using assms by (auto simp: sqlcipher_cipher_ctx_cmp_def pass_equal_def provider_copies_def pass_ok_def memcmp_eq)

lemma key_derive_new:
  assumes P: "provider_copies P" and wf: "codec_wf P B H (new_codec salt c)" and d: "derive_key c"
  shows "\<exists>hs c'. sqlcipher_codec_key_derive P g (new_codec salt c) [] =
      Some (SQLITE_OK, (new_codec salt c)\<lparr>hmac_kdf_salt := hs, read_ctx := c', write_ctx := c'\<rparr>, []) \<and>
    codec_wf P B H ((new_codec salt c)\<lparr>hmac_kdf_salt := hs, read_ctx := c', write_ctx := c'\<rparr>) \<and> reserve_sz c' = reserve_sz c"
proof -
  let ?ctx = "new_codec salt c"
  have c: "cipher_wf P B H (nat (page_sz ?ctx)) c" "length (kdf_salt ?ctx) = kdf_salt_sz ?ctx"
    "length (hmac_kdf_salt ?ctx) = kdf_salt_sz ?ctx" "kdf_salt_sz ?ctx = FILE_HEADER_SZ"
    using wf by (auto simp: codec_wf_def new_codec_def)
  then have ok: "ctx_ok P c" "pass_ok c" by (auto simp: cipher_wf_def)
  obtain k hk hs where kd: "sqlcipher_cipher_ctx_key_derive P g ?ctx c =
      Some (SQLITE_OK, ?ctx\<lparr>hmac_kdf_salt := hs\<rparr>, c\<lparr>key := k, hmac_key := hk, derive_key := False\<rparr>)"
    "length k = CIPHER_MAX_KEY_SZ" "length hk = CIPHER_MAX_KEY_SZ" "length hs = kdf_salt_sz ?ctx"
    using ctx_key_derive [OF ok c(2,3)] by blast
  define c' where "c' = c\<lparr>key := k, hmac_key := hk, derive_key := False\<rparr>"
  have c': "cipher_wf P B H (nat (page_sz ?ctx)) c'" unfolding c'_def by (rule cipher_wf_keys [OF c(1) kd(2,3)])
  have cmp: "sqlcipher_cipher_ctx_cmp P c c' = Some 0" unfolding c'_def by (rule ctx_cmp_derived [OF P ok(2)])
  have cp: "sqlcipher_cipher_ctx_copy P c c' [] = Some (SQLITE_OK, c', [])"
    by (rule ctx_copy_always [OF P]) (use c' in \<open>simp add: cipher_wf_def\<close>)
  have rw: "read_ctx ?ctx = c" "write_ctx ?ctx = c" by (simp_all add: new_codec_def)
  have "sqlcipher_codec_key_derive P g ?ctx [] = Some (SQLITE_OK, ?ctx\<lparr>hmac_kdf_salt := hs, read_ctx := c', write_ctx := c'\<rparr>, [])"
    using kd(1) d cmp cp rw by (simp add: sqlcipher_codec_key_derive_def c'_def [symmetric])
  moreover have "codec_wf P B H (?ctx\<lparr>hmac_kdf_salt := hs, read_ctx := c', write_ctx := c'\<rparr>)"
    using wf c' kd(4) c(4) by (simp add: codec_wf_def)
  moreover have "reserve_sz c' = reserve_sz c" by (simp add: c'_def)
  ultimately show ?thesis by blast
qed

lemma reopen_post:
  assumes P: "provider_ok P B H" and n: "0 < n" "n \<le> length z" "n < 0x7fffff00"
    and r: "\<And>n. length (r n) = n" and data: "length pData = 1024"
    and hdr: "pgno = 1 \<Longrightarrow> take FILE_HEADER_SZ pData = SQLITE_FILE_HEADER"
  shows "\<exists>ctx page ctx' ctx2 out ctx2'.
    sqlcipher_codec_ctx_init P g None (\<lambda>n. (SQLITE_OK, r n)) (Some z) n [] = Some (Inr ctx) \<and>
    sqlite3Codec P g ctx pData pgno 6 (\<lambda>n. (SQLITE_OK, r n)) [] = Some (BUFFER, pData, ctx') \<and>
    buffer ctx' = Some page \<and> length page = 1024 \<and> (pgno = 1 \<longrightarrow> take FILE_HEADER_SZ page = kdf_salt ctx) \<and>
    sqlcipher_codec_ctx_init P g (Some (SQLITE_OK, kdf_salt ctx)) rnd2 (Some z) n [] = Some (Inr ctx2) \<and>
    sqlite3Codec P g ctx2 page pgno 3 rnd2 [] = Some (PDATA, out, ctx2') \<and> errCode ctx2' = SQLITE_OK \<and>
    take (1024 - reserve_sz (read_ctx ctx2')) out = take (1024 - reserve_sz (read_ctx ctx2')) pData"
proof -
  obtain ks vs where sizes: "cipher_sizes P (default_cipher P) ks vs B H" using P by (auto simp: provider_ok_def cipher_ok_def)
  have P': "provider_copies P" "0 < B" using P by (auto simp: provider_ok_def)
  define c where "c = new_cipher g (default_cipher P) ks vs B H z n"
  define salt where "salt = r FILE_HEADER_SZ"
  let ?ctx = "new_codec salt c" and ?rnd = "\<lambda>n. (SQLITE_OK, r n)"
  have salt: "length salt = FILE_HEADER_SZ" "kdf_salt ?ctx = salt" by (simp_all add: salt_def r new_codec_def)
  have init: "sqlcipher_codec_ctx_init P g None ?rnd (Some z) n [] = Some (Inr ?ctx)"
    "sqlcipher_codec_ctx_init P g (Some (SQLITE_OK, salt)) rnd2 (Some z) n [] = Some (Inr ?ctx)"
    using codec_init_result [OF P'(1) sizes P'(2) n, of g None ?rnd "[]"]
      codec_init_result [OF P'(1) sizes P'(2) n, of g "Some (SQLITE_OK, salt)" rnd2 "[]"]
    by (auto simp: salt_source_def salt_def c_def)
  have wf: "codec_wf P B H ?ctx" unfolding c_def by (intro new_codec_wf new_cipher_wf P n sizes salt)
  have "derive_key c" by (simp add: c_def new_cipher_def Let_def)
  then obtain hs c' where d: "sqlcipher_codec_key_derive P g ?ctx [] = Some (SQLITE_OK, ?ctx\<lparr>hmac_kdf_salt := hs, read_ctx := c', write_ctx := c'\<rparr>, [])"
    "codec_wf P B H (?ctx\<lparr>hmac_kdf_salt := hs, read_ctx := c', write_ctx := c'\<rparr>)"
    using key_derive_new [OF P'(1) wf] by blast
  let ?ctx1 = "?ctx\<lparr>hmac_kdf_salt := hs, read_ctx := c', write_ctx := c'\<rparr>"
  have "page_sz ?ctx1 = 1024" by (simp add: new_codec_def SQLITE_DEFAULT_PAGE_SIZE_def)
  then have ok: "codec_ok P ?ctx1 1024" using codec_wf_ok [OF d(2)] by simp
  let ?page = "file_page P c' salt pgno pData (r (reserve_sz c'))"
  have e: "sqlite3Codec P g ?ctx pData pgno 6 ?rnd [] = Some (BUFFER, pData, ?ctx1\<lparr>buffer := Some ?page\<rparr>)"
    using codec_encrypt [OF d(1) ok _ data, of 6 c' ?rnd "r (reserve_sz c')" pgno] r salt(2) by simp
  have same: "same_cipher c' (read_ctx ?ctx1)" by (simp add: same_cipher_def)
  obtain out ctx2' where o: "sqlite3Codec P g ?ctx ?page pgno 3 rnd2 [] = Some (PDATA, out, ctx2')" "errCode ctx2' = errCode ?ctx1"
    "read_ctx ctx2' = c'" "take (1024 - reserve_sz c') out = take (1024 - reserve_sz c') pData"
    using codec_roundtrip [OF d(1) ok _ same data r salt(1) hdr, where mode = 3 and rnd = rnd2 and pgno = pgno] by auto
  have fits: "page_fits c' (length pData)" "ctx_ok P c'" using ok data by (auto simp: codec_ok_def)
  have len: "length ?page = 1024" using file_page_length [OF fits(2,1) salt(1), of "r (reserve_sz c')" pgno] r data by simp
  have hd: "pgno = 1 \<longrightarrow> take FILE_HEADER_SZ ?page = salt" using salt(1) by (simp add: file_page_def header_sz_def)
  show ?thesis
    using init e o len hd salt(2) by (intro exI [of _ ?ctx] exI [of _ ?page] exI [of _ "?ctx1\<lparr>buffer := Some ?page\<rparr>"] exI [of _ out] exI [of _ ctx2'])
      (simp add: new_codec_def)
qed

section \<open>OpenSSL as the provider\<close>

text \<open>The documented behaviour of OpenSSL: sizes of the outputs, and deciphering as the inverse of enciphering whole blocks.\<close>

definition openssl_ok :: "'e openssl \<Rightarrow> nat \<Rightarrow> bool" where
  "openssl_ok E B \<longleftrightarrow> 0 < B \<and> B dvd FILE_HEADER_SZ \<and> (\<forall>k d. length (HMAC_SHA1 E k d) = SHA1_SIZE) \<and>
     (\<forall>z s i n. length (PKCS5_PBKDF2_HMAC_SHA1 E z s i n) = n) \<and>
     (\<exists>e. EVP_get_cipherbyname E CIPHER = Some e \<and> EVP_CIPHER_block_size E e = B \<and> 0 < EVP_CIPHER_key_length E e \<and>
       EVP_CIPHER_key_length E e \<le> CIPHER_MAX_KEY_SZ \<and> EVP_CIPHER_iv_length E e \<le> CIPHER_MAX_IV_SZ \<and>
       (\<forall>m k v d. length k = EVP_CIPHER_key_length E e \<longrightarrow> length v = EVP_CIPHER_iv_length E e \<longrightarrow> B dvd length d \<longrightarrow>
          length (EVP_crypt E e m k v d) = length d \<and> EVP_crypt E e False k v (EVP_crypt E e True k v d) = d))"

lemma openssl_provider_ok:
  assumes "openssl_ok E B"
  shows "provider_ok (sqlcipher_openssl_setup E) B SHA1_SIZE"
proof -
  obtain e where e: "EVP_get_cipherbyname E CIPHER = Some e" "EVP_CIPHER_block_size E e = B" "0 < EVP_CIPHER_key_length E e"
    "EVP_CIPHER_key_length E e \<le> CIPHER_MAX_KEY_SZ" "EVP_CIPHER_iv_length E e \<le> CIPHER_MAX_IV_SZ"
    "\<And>m k v d. length k = EVP_CIPHER_key_length E e \<Longrightarrow> length v = EVP_CIPHER_iv_length E e \<Longrightarrow> B dvd length d \<Longrightarrow>
          length (EVP_crypt E e m k v d) = length d \<and> EVP_crypt E e False k v (EVP_crypt E e True k v d) = d"
    using assms unfolding openssl_ok_def by blast
  let ?P = "sqlcipher_openssl_setup E"
  have p: "default_cipher ?P = Some e" using e(1) by (simp add: sqlcipher_openssl_setup_def sqlcipher_openssl_set_cipher_def)
  have "cipher_sizes ?P (Some e) (EVP_CIPHER_key_length E e) (EVP_CIPHER_iv_length E e) B SHA1_SIZE"
    using e(2) by (simp add: cipher_sizes_def sqlcipher_openssl_setup_def sqlcipher_openssl_get_key_sz_def sqlcipher_openssl_get_iv_sz_def
        sqlcipher_openssl_get_block_sz_def sqlcipher_openssl_get_hmac_sz_def)
  moreover have "primitives_ok ?P (Some e) (EVP_CIPHER_key_length E e) (EVP_CIPHER_iv_length E e) B SHA1_SIZE"
    unfolding primitives_ok_def
    using assms e(6) by (simp add: openssl_ok_def sqlcipher_openssl_setup_def sqlcipher_openssl_cipher_def sqlcipher_openssl_hmac_def sqlcipher_openssl_kdf_def)
  ultimately have "cipher_ok ?P B SHA1_SIZE (default_cipher ?P)" unfolding p cipher_ok_def using e(3,4,5) by blast
  then show ?thesis
    using assms by (simp add: provider_ok_def provider_copies_def openssl_ok_def sqlcipher_openssl_setup_def
        sqlcipher_openssl_ctx_copy_def sqlcipher_openssl_ctx_cmp_def SHA1_SIZE_def)
qed

text \<open>An instance of the parameters for the examples: a cipher that combines every byte with the first bytes of the key and of the
  initialization vector.\<close>

definition xor_openssl :: "unit openssl" where
  "xor_openssl = \<lparr>EVP_get_cipherbyname = (\<lambda>_. Some ()), EVP_CIPHER_name = (\<lambda>_. CIPHER), EVP_CIPHER_key_length = (\<lambda>_. 32),
     EVP_CIPHER_iv_length = (\<lambda>_. 16), EVP_CIPHER_block_size = (\<lambda>_. 16),
     EVP_crypt = (\<lambda>_ m k v d. map (\<lambda>b. b XOR hd k XOR hd v) d),
     HMAC_SHA1 = (\<lambda>k d. replicate SHA1_SIZE (fold (+) (k @ d) 0)),
     PKCS5_PBKDF2_HMAC_SHA1 = (\<lambda>z s i n. replicate n (fold (+) (z @ s) (of_int i)))\<rparr>"

lemma xor_openssl_ok: "openssl_ok xor_openssl 16"
  by (simp add: openssl_ok_def xor_openssl_def FILE_HEADER_SZ_def CIPHER_MAX_KEY_SZ_def CIPHER_MAX_IV_SZ_def comp_def xor.assoc xor.left_commute)

lemma read_page_post:
  assumes P: "provider_ok P B H" and reach: "codec_reachable P B H ctx"
    and data: "length pData = nat (page_sz ctx)" and mode: "mode = 0 \<or> mode = 2 \<or> mode = 3"
    and run: "sqlite3Codec P g ctx pData pgno mode rnd am = Some (PDATA, out, ctx')"
    and h: "h = header_sz pgno" and c: "c = read_ctx ctx'" and n: "n = length pData - h - reserve_sz c"
  shows "length out = length pData \<and> take h out = take h SQLITE_FILE_HEADER \<and>
    (if authentic P c pgno n (drop h pData)
     then errCode ctx' = errCode ctx \<and>
       take n (drop h out) = crypt P c False (take (iv_sz c) (drop n (drop h pData))) (take n (drop h pData))
     else drop h out = replicate (length pData - h) 0 \<and>
       errCode ctx' = (if drop h pData = replicate (length pData - h) 0 then errCode ctx else SQLITE_ERROR))"
proof -
  have P': "provider_copies P" using P by (simp add: provider_ok_def)
  have wf: "codec_wf P B H ctx" by (rule codec_reachable_wf [OF P reach])
  obtain rc ctx1 am1 where d: "sqlcipher_codec_key_derive P g ctx am = Some (rc, ctx1, am1)"
    "rc = SQLITE_OK \<longrightarrow> codec_wf P B H ctx1 \<and> page_sz ctx1 = page_sz ctx \<and> errCode ctx1 = errCode ctx"
    using key_derive_wf [OF P' wf, of g am] by blast
  have rc: "rc = SQLITE_OK" using run d(1) by (auto simp: sqlite3Codec_def split: if_splits)
  let ?sz = "length pData" and ?c = "read_ctx ctx1"
  have w: "codec_wf P B H ctx1" "codec_ok P ctx1 ?sz" "errCode ctx1 = errCode ctx"
    using d(2) rc codec_wf_ok [of P B H ctx1] data by auto
  let ?n = "?sz - h - reserve_sz ?c" and ?inp = "drop h pData"
  define a where "a = authentic P ?c pgno ?n ?inp"
  obtain x where x: "length x = reserve_sz ?c" "sqlite3Codec P g ctx pData pgno mode rnd am = Some
    (let body = (if a then crypt P ?c False (take (iv_sz ?c) (drop ?n ?inp)) (take ?n ?inp) @ x else replicate (?sz - h) 0);
         page = take h SQLITE_FILE_HEADER @ body; ctx = ctx1\<lparr>buffer := Some page\<rparr>
     in (PDATA, page, if a \<or> ?inp = replicate (?sz - h) 0 then ctx else ctx\<lparr>errCode := SQLITE_ERROR\<rparr>))"
    using codec_decrypt [OF d(1) [unfolded rc] w(2) mode refl refl h refl, of rnd] unfolding a_def Let_def by blast
  have c1: "c = ?c" using x(2) run unfolding c by (auto simp: Let_def split: if_splits)
  then have n1: "n = ?n" using n by simp
  have cok: "ctx_ok P ?c" "page_fits ?c ?sz" using w(2) by (auto simp: codec_ok_def)
  note pf = page_fits_content [OF cok(2), of pgno, folded h]
  have iv: "length (take (iv_sz ?c) (drop ?n ?inp)) = iv_sz ?c" using cok(1) pf(1) by (auto simp: ctx_ok_def split: if_splits)
  have cl: "length (crypt P ?c False (take (iv_sz ?c) (drop ?n ?inp)) (take ?n ?inp)) = ?n"
    using crypt_length [OF cok(1) iv, of "take ?n ?inp" False] pf(2) by simp
  have hl: "length (take h SQLITE_FILE_HEADER) = h" using h by (simp add: header_sz_def SQLITE_FILE_HEADER_def FILE_HEADER_SZ_def)
  show ?thesis
    using x run w(3) cl hl pf(1) unfolding n1 c1 a_def [symmetric] by (cases a) (auto simp: Let_def split: if_splits)
qed

lemma attached_reads:
  fixes z :: "u8 list" and r :: "nat \<Rightarrow> u8 list"
  assumes P: "provider_ok P B H" and n: "0 < n" "n \<le> length z" "n < 0x7fffff00"
    and r: "\<And>n. length (r n) = n"
  shows "\<exists>ctx. codec_reachable P B H ctx \<and> page_sz ctx = 1024 \<and>
    (\<forall>pData pgno. length pData = 1024 \<longrightarrow> (\<exists>out ctx'. sqlite3Codec P g ctx pData pgno 3 rnd [] = Some (PDATA, out, ctx')))"
proof -
  obtain ks vs where sizes: "cipher_sizes P (default_cipher P) ks vs B H" using P by (auto simp: provider_ok_def cipher_ok_def)
  have P': "provider_copies P" "0 < B" using P by (auto simp: provider_ok_def)
  define c where "c = new_cipher g (default_cipher P) ks vs B H z n"
  let ?ctx = "new_codec (r FILE_HEADER_SZ) c"
  have init: "sqlcipher_codec_ctx_init P g None (\<lambda>n. (SQLITE_OK, r n)) (Some z) n [] = Some (Inr ?ctx)"
    using codec_init_result [OF P'(1) sizes P'(2) n, of g None "\<lambda>n. (SQLITE_OK, r n)" "[]"] by (auto simp: salt_source_def c_def)
  have reach: "codec_reachable P B H ?ctx" by (rule codec_reachable.attach [OF init n]) (simp_all add: r)
  have wf: "codec_wf P B H ?ctx" by (rule codec_reachable_wf [OF P reach])
  have "derive_key c" by (simp add: c_def new_cipher_def Let_def)
  then obtain hs c' where d: "sqlcipher_codec_key_derive P g ?ctx [] = Some (SQLITE_OK, ?ctx\<lparr>hmac_kdf_salt := hs, read_ctx := c', write_ctx := c'\<rparr>, [])"
    "codec_wf P B H (?ctx\<lparr>hmac_kdf_salt := hs, read_ctx := c', write_ctx := c'\<rparr>)"
    using key_derive_new [OF P'(1) wf] by blast
  have sz: "page_sz ?ctx = 1024" by (simp add: new_codec_def SQLITE_DEFAULT_PAGE_SIZE_def)
  then have "codec_ok P (?ctx\<lparr>hmac_kdf_salt := hs, read_ctx := c', write_ctx := c'\<rparr>) 1024" using codec_wf_ok [OF d(2)] by simp
  from codec_decrypt [OF d(1) this _ refl _ refl refl, of 3] have "\<exists>out ctx'. sqlite3Codec P g ?ctx pData pgno 3 rnd [] = Some (PDATA, out, ctx')"
    if "length pData = 1024" for pData pgno
    using that unfolding Let_def by blast
  then show ?thesis using reach sz by blast
qed

section \<open>Properties\<close>

text \<open>
  C10: A database can be read again. A connection with a key creates a database and writes any page; another connection
  that is opened later with the same key finds the salt at the start of the file and reads the content of the page back, up to the
  reserved bytes at its end, without an error. This holds for every page number, page 1 with its file header included, and
  for every answer of the random generator. \<open>openssl_ok\<close> is the documented behaviour of OpenSSL.
\<close>

theorem reopen_roundtrip:
  assumes "openssl_ok E B" and "0 < n" "n \<le> length z" "n < 0x7fffff00"
    and "\<And>n. length (r n) = n" and "length pData = 1024"
    and "pgno = 1 \<Longrightarrow> take FILE_HEADER_SZ pData = SQLITE_FILE_HEADER"
  defines "P \<equiv> sqlcipher_openssl_setup E"
  shows "\<exists>ctx page ctx' ctx2 out ctx2'.
    sqlcipher_codec_ctx_init P g None (\<lambda>n. (SQLITE_OK, r n)) (Some z) n [] = Some (Inr ctx) \<and>
    sqlite3Codec P g ctx pData pgno 6 (\<lambda>n. (SQLITE_OK, r n)) [] = Some (BUFFER, pData, ctx') \<and>
    buffer ctx' = Some page \<and> length page = 1024 \<and> (pgno = 1 \<longrightarrow> take FILE_HEADER_SZ page = kdf_salt ctx) \<and>
    sqlcipher_codec_ctx_init P g (Some (SQLITE_OK, kdf_salt ctx)) rnd2 (Some z) n [] = Some (Inr ctx2) \<and>
    sqlite3Codec P g ctx2 page pgno 3 rnd2 [] = Some (PDATA, out, ctx2') \<and> errCode ctx2' = SQLITE_OK \<and>
    take (1024 - reserve_sz (read_ctx ctx2')) out = take (1024 - reserve_sz (read_ctx ctx2')) pData"
  unfolding P_def by (rule reopen_post [OF openssl_provider_ok [OF assms(1)] assms(2-7)])

theorem reopen_roundtrip_witness:
  "\<exists>ctx page ctx'.
    sqlcipher_codec_ctx_init (sqlcipher_openssl_setup xor_openssl) cipher_globals0 None (\<lambda>n. (SQLITE_OK, replicate n 7))
      (Some [0x6B, 0x65, 0x79]) 3 [] = Some (Inr ctx) \<and>
    sqlite3Codec (sqlcipher_openssl_setup xor_openssl) cipher_globals0 ctx (SQLITE_FILE_HEADER @ replicate 1008 42) 1 6
      (\<lambda>n. (SQLITE_OK, replicate n 7)) [] = Some (BUFFER, SQLITE_FILE_HEADER @ replicate 1008 42, ctx') \<and>
    buffer ctx' = Some page \<and> take FILE_HEADER_SZ page = kdf_salt ctx"
proof -
  have l: "length SQLITE_FILE_HEADER = 16" "FILE_HEADER_SZ = 16" by (simp_all add: SQLITE_FILE_HEADER_def FILE_HEADER_SZ_def)
  show ?thesis
    using reopen_roundtrip [OF xor_openssl_ok, where n = 3 and z = "[0x6B, 0x65, 0x79]" and r = "\<lambda>n. replicate n 7"
        and pData = "SQLITE_FILE_HEADER @ replicate 1008 42" and pgno = 1 and g = cipher_globals0 and ?rnd2.0 = "\<lambda>n. (SQLITE_OK, [])"] l
    by auto
qed





text \<open>
  The reserve at the end of every page is the least multiple of the block size of the cipher with room for the longest
  initialization vector and, if codes are used, for the authentication code; reading and writing use the same.
\<close>

theorem use_hmac_reserve:
  assumes "sqlcipher_codec_ctx_set_use_hmac ctx use = Some (rc, ctx')"
  defines "need \<equiv> CIPHER_MAX_IV_SZ + (if use then hmac_sz (read_ctx ctx) else 0)"
  shows "rc = SQLITE_OK \<and> reserve_sz (write_ctx ctx') = reserve_sz (read_ctx ctx') \<and> uses_hmac (read_ctx ctx') = use \<and>
    uses_hmac (write_ctx ctx') = use \<and> block_sz (read_ctx ctx) dvd reserve_sz (read_ctx ctx') \<and> need \<le> reserve_sz (read_ctx ctx') \<and>
    reserve_sz (read_ctx ctx') < need + block_sz (read_ctx ctx)"
proof -
  have b: "block_sz (read_ctx ctx) \<noteq> 0"
  proof
    assume "block_sz (read_ctx ctx) = 0"
    then show False using assms(1) by (simp add: sqlcipher_codec_ctx_set_use_hmac_def Let_def)
  qed
  have "bit (1 :: u32) 0" by simp
  then show ?thesis
    using assms(1) set_use_hmac_eq [OF b, of use] reserve_for_bounds [of "block_sz (read_ctx ctx)" use "hmac_sz (read_ctx ctx)"] b
    by (auto simp: need_def Let_def sqlcipher_codec_ctx_set_flag_def sqlcipher_codec_ctx_unset_flag_def uses_hmac_bit
        CIPHER_FLAG_HMAC_def bit_simps)
qed

text \<open>Two requests that the code does not check: an unknown name of a cipher reads through a null pointer, and a page size below
  the reserve moves the pointers into the page in front of its buffer.\<close>

theorem unknown_cipher_undefined:
  assumes "EVP_get_cipherbyname E name = None"
  shows "sqlcipher_codec_ctx_set_cipher (sqlcipher_openssl_setup E) ctx name f am = None"
  using assms by (simp add: sqlcipher_codec_ctx_set_cipher_def sqlcipher_openssl_setup_def sqlcipher_openssl_set_cipher_def
      sqlcipher_openssl_get_key_sz_def Let_def)

theorem small_page_undefined:
  assumes "0 < sz" "sz < int (reserve_sz (the_ctx f ctx))" "sz < 0x7fffff00" "length pData = nat sz"
  shows "\<exists>ctx'. sqlcipher_codec_ctx_set_pagesize ctx sz [] = (SQLITE_OK, ctx', []) \<and>
    sqlcipher_page_cipher P ctx' f pgno e (nat sz) pData (replicate (nat sz) 0) rnd = None"
proof -
  let ?ctx = "ctx\<lparr>page_sz := sz, buffer := Some (replicate (nat sz) 0)\<rparr>"
  have "nat sz < reserve_sz (the_ctx f ?ctx)" using assms(1,2) by (auto simp: the_ctx_def nat_less_iff)
  then have "sqlcipher_page_cipher P ?ctx f pgno e (nat sz) pData (replicate (nat sz) 0) rnd = None"
    by (simp add: sqlcipher_page_cipher_def Let_def)
  moreover have "sqlcipher_codec_ctx_set_pagesize ctx sz [] = (SQLITE_OK, ?ctx, [])"
    using assms by (simp add: sqlcipher_codec_ctx_set_pagesize_def sqlcipher_malloc_def)
  ultimately show ?thesis by blast
qed

end
