(* ===== verification/WalFormat.thy ===== *)
theory WalFormat
  imports Varint
begin

text \<open>
  The write-ahead log of \<^verbatim>\<open>src/wal.c\<close>: its constants, the header of the wal-index and the
  connection's object \<open>Wal\<close>, the checksum, and the encoding of one frame. The host is
  little-endian, as on every platform of the application; a log written on a big-endian host carries
  the flag \<open>bigEndCksum\<close> and takes the byte-swapping path of the checksum. The checksum is shown
  to be invertible in its start value and to notice every change that is confined to one of the
  aligned eight-byte units it is computed over.
\<close>

section \<open>Constants\<close>

definition WAL_MAX_VERSION :: u32 where "WAL_MAX_VERSION = 3007000"
definition WALINDEX_MAX_VERSION :: u32 where "WALINDEX_MAX_VERSION = 3007000"
definition WAL_MAGIC :: u32 where "WAL_MAGIC = 0x377f0682"
definition WAL_FRAME_HDRSIZE :: nat where "WAL_FRAME_HDRSIZE = 24"
definition WAL_HDRSIZE :: nat where "WAL_HDRSIZE = 32"
definition SQLITE_BIGENDIAN :: u8 where "SQLITE_BIGENDIAN = 0"

definition walFrameOffset :: "u32 \<Rightarrow> u32 \<Rightarrow> nat" where
  "walFrameOffset iFrame szPage = WAL_HDRSIZE + unat (iFrame - 1) * (unat szPage + WAL_FRAME_HDRSIZE)"

section \<open>The header of the wal-index and the connection\<close>

text \<open>The salts are bytes in memory, copied to and from the log as they are.\<close>

record WalIndexHdr =
  iVersion :: u32
  unused :: u32
  iChange :: u32
  isInitHdr :: u8
  bigEndCksum :: u8
  szPageHdr :: u16
  mxFrame :: u32
  nPage :: u32
  aFrameCksum :: "u32 \<times> u32"
  aSalt :: "u8 list"
  aCksum :: "u32 \<times> u32"

datatype exclusive_mode = WAL_NORMAL_MODE | WAL_EXCLUSIVE_MODE | WAL_HEAPMEMORY_MODE

text \<open>
  \<open>apWiData\<close> says which pages of the wal-index the connection has a pointer to; the pages
  themselves are shared. \<open>readOnly\<close> is the pair of the flags \<^verbatim>\<open>WAL_RDONLY\<close> and \<^verbatim>\<open>WAL_SHM_RDONLY\<close>.
\<close>

record Wal =
  iCallback :: u32
  mxWalSize :: int
  apWiData :: "bool list"
  szPage :: u32
  readLock :: int
  exclusiveMode :: exclusive_mode
  writeLock :: bool
  ckptLock :: bool
  readOnly :: "bool \<times> bool"
  truncateOnCommit :: bool
  syncHeader :: bool
  padToSectorBoundary :: bool
  hdr :: WalIndexHdr
  nCkpt :: u32

section \<open>The checksum\<close>

definition BYTESWAP32 :: "u32 \<Rightarrow> u32" where
  "BYTESWAP32 x = push_bit 24 (x AND 0x000000FF) + push_bit 8 (x AND 0x0000FF00) +
     drop_bit 8 (x AND 0x00FF0000) + drop_bit 24 (x AND 0xFF000000)"

text \<open>A 32-bit load from memory, and the bytes a 32-bit or 16-bit store leaves there.\<close>

definition load32 :: "u8 \<Rightarrow> u8 \<Rightarrow> u8 \<Rightarrow> u8 \<Rightarrow> u32" where
  "load32 b0 b1 b2 b3 = ucast b0 OR push_bit 8 (ucast b1) OR push_bit 16 (ucast b2) OR push_bit 24 (ucast b3)"

definition store32 :: "u32 \<Rightarrow> u8 list" where
  "store32 v = [ucast v, ucast (drop_bit 8 v), ucast (drop_bit 16 v), ucast (drop_bit 24 v)]"

definition store16 :: "u16 \<Rightarrow> u8 list" where
  "store16 v = [ucast v, ucast (drop_bit 8 v)]"

definition aData :: "bool \<Rightarrow> u8 \<Rightarrow> u8 \<Rightarrow> u8 \<Rightarrow> u8 \<Rightarrow> u32" where
  "aData native b0 b1 b2 b3 = (if native then load32 b0 b1 b2 b3 else BYTESWAP32 (load32 b0 b1 b2 b3))"

text \<open>The loop reads two words a round and stops when the pointer reaches the end of the buffer.\<close>

fun walChecksumBytes :: "bool \<Rightarrow> u8 list \<Rightarrow> u32 \<times> u32 \<Rightarrow> (u32 \<times> u32) option" where
  "walChecksumBytes nativeCksum (a0 # a1 # a2 # a3 # b0 # b1 # b2 # b3 # a) (s1, s2) =
     (let s1 = s1 + (aData nativeCksum a0 a1 a2 a3 + s2);
          s2 = s2 + (aData nativeCksum b0 b1 b2 b3 + s1)
      in if a = [] then Some (s1, s2) else walChecksumBytes nativeCksum a (s1, s2))"
| "walChecksumBytes nativeCksum _ _ = None"

section \<open>Frames\<close>

definition set_cksum :: "u32 \<times> u32 \<Rightarrow> Wal \<Rightarrow> Wal" where
  "set_cksum c w = w\<lparr>hdr := (hdr w)\<lparr>aFrameCksum := c\<rparr>\<rparr>"

definition walEncodeFrame :: "Wal \<Rightarrow> u32 \<Rightarrow> u32 \<Rightarrow> u8 list \<Rightarrow> (u8 list \<times> Wal) option" where
  "walEncodeFrame pWal iPage nTruncate data = do {
     let nativeCksum = (bigEndCksum (hdr pWal) = SQLITE_BIGENDIAN);
     let aFrame = sqlite3Put4byte iPage @ sqlite3Put4byte nTruncate;
     c \<leftarrow> walChecksumBytes nativeCksum aFrame (aFrameCksum (hdr pWal));
     c \<leftarrow> (if unat (szPage pWal) \<le> length data then walChecksumBytes nativeCksum (take (unat (szPage pWal)) data) c else None);
     Some (aFrame @ aSalt (hdr pWal) @ sqlite3Put4byte (fst c) @ sqlite3Put4byte (snd c), set_cksum c pWal)
   }"

text \<open>The result is \<open>None\<close> for 0, and the page number and the size of the database for 1.\<close>

definition walDecodeFrame :: "Wal \<Rightarrow> u8 list \<Rightarrow> u8 list \<Rightarrow> ((u32 \<times> u32) option \<times> Wal) option" where
  "walDecodeFrame pWal data aFrame =
     (if length aFrame < 24 \<or> length data < unat (szPage pWal) then None
      else if aSalt (hdr pWal) \<noteq> take 8 (drop 8 aFrame) then Some (None, pWal)
      else do {
        pgno \<leftarrow> sqlite3Get4byte aFrame;
        if pgno = 0 then Some (None, pWal)
        else do {
          let nativeCksum = (bigEndCksum (hdr pWal) = SQLITE_BIGENDIAN);
          c \<leftarrow> walChecksumBytes nativeCksum (take 8 aFrame) (aFrameCksum (hdr pWal));
          c \<leftarrow> walChecksumBytes nativeCksum (take (unat (szPage pWal)) data) c;
          let pWal = set_cksum c pWal;
          c0 \<leftarrow> sqlite3Get4byte (drop 16 aFrame);
          c1 \<leftarrow> sqlite3Get4byte (drop 20 aFrame);
          if fst c \<noteq> c0 \<or> snd c \<noteq> c1 then Some (None, pWal)
          else do {
            nTruncate \<leftarrow> sqlite3Get4byte (drop 4 aFrame);
            Some (Some (pgno, nTruncate), pWal)
          }
        }
      })"

text \<open>The bytes of the wal-index header that its own checksum covers, \<^verbatim>\<open>offsetof(WalIndexHdr, aCksum)\<close> of them.\<close>

definition hdr_bytes :: "WalIndexHdr \<Rightarrow> u8 list" where
  "hdr_bytes h = store32 (iVersion h) @ store32 (unused h) @ store32 (iChange h) @ [isInitHdr h, bigEndCksum h] @
     store16 (szPageHdr h) @ store32 (mxFrame h) @ store32 (nPage h) @ store32 (fst (aFrameCksum h)) @
     store32 (snd (aFrameCksum h)) @ aSalt h"

definition walPagesize :: "Wal \<Rightarrow> u32" where
  "walPagesize pWal = ucast (szPageHdr (hdr pWal) AND 0xfe00) + push_bit 16 (ucast (szPageHdr (hdr pWal) AND 0x0001))"

text \<open>\<^verbatim>\<open>(u16)((szPage&0xff00) | (szPage>>16))\<close>\<close>

definition pack_szPage :: "u32 \<Rightarrow> u16" where
  "pack_szPage sz = ucast ((sz AND 0xff00) OR drop_bit 16 sz)"

section \<open>The checksum notices local changes\<close>

lemma store32_length [simp]: "length (store32 v) = 4"
  by (simp add: store32_def)

lemma store16_length [simp]: "length (store16 v) = 2"
  by (simp add: store16_def)

lemma Put4byte_length [simp]: "length (sqlite3Put4byte v) = 4"
  by (simp add: sqlite3Put4byte_def)

lemma load32_inject: "load32 a0 a1 a2 a3 = load32 b0 b1 b2 b3 \<Longrightarrow> a0 = b0 \<and> a1 = b1 \<and> a2 = b2 \<and> a3 = b3"
  by (simp add: load32_def u32_bitwise u8_bitwise)

lemma BYTESWAP32_load32: "BYTESWAP32 (load32 b0 b1 b2 b3) = load32 b3 b2 b1 b0"
proof -
  have disj: "a + b = a OR b" if "a AND b = 0" for a b :: u32
    using that by (rule disjunctive_add_eq_or)
  have b: "BYTESWAP32 x = push_bit 24 (x AND 0x000000FF) OR push_bit 8 (x AND 0x0000FF00) OR
      drop_bit 8 (x AND 0x00FF0000) OR drop_bit 24 (x AND 0xFF000000)" for x
  proof -
    have 1: "push_bit 24 (x AND 0x000000FF) + push_bit 8 (x AND 0x0000FF00) =
        push_bit 24 (x AND 0x000000FF) OR push_bit 8 (x AND 0x0000FF00)"
      by (rule disj) (simp add: u32_bitwise)
    have 2: "(push_bit 24 (x AND 0x000000FF) OR push_bit 8 (x AND 0x0000FF00)) + drop_bit 8 (x AND 0x00FF0000) =
        (push_bit 24 (x AND 0x000000FF) OR push_bit 8 (x AND 0x0000FF00)) OR drop_bit 8 (x AND 0x00FF0000)"
      by (rule disj) (simp add: u32_bitwise)
    have 3: "((push_bit 24 (x AND 0x000000FF) OR push_bit 8 (x AND 0x0000FF00)) OR drop_bit 8 (x AND 0x00FF0000)) +
        drop_bit 24 (x AND 0xFF000000) =
        ((push_bit 24 (x AND 0x000000FF) OR push_bit 8 (x AND 0x0000FF00)) OR drop_bit 8 (x AND 0x00FF0000)) OR
        drop_bit 24 (x AND 0xFF000000)"
      by (rule disj) (simp add: u32_bitwise)
    show ?thesis unfolding BYTESWAP32_def 1 2 3 by (simp only: or.assoc)
  qed
  show ?thesis unfolding b by (simp add: load32_def u32_bitwise)
qed

lemma aData_inject: "aData n a0 a1 a2 a3 = aData n b0 b1 b2 b3 \<Longrightarrow> a0 = b0 \<and> a1 = b1 \<and> a2 = b2 \<and> a3 = b3"
  by (auto simp: aData_def BYTESWAP32_load32 dest: load32_inject split: if_splits)

text \<open>Buffers are taken apart in units of eight bytes.\<close>

lemma eight_bytes:
  assumes "8 \<le> length a"
  obtains a0 a1 a2 a3 b0 b1 b2 b3 r where "a = a0 # a1 # a2 # a3 # b0 # b1 # b2 # b3 # r"
proof -
  have *: "take n a = map ((!) a) [0..<n]" if "n \<le> length a" for n
    using that by (intro nth_equalityI) simp_all
  have "a = map ((!) a) [0..<8] @ drop 8 a"
    using * [OF assms] by (metis append_take_drop_id)
  then show ?thesis using that by (simp add: upt_rec)
qed

lemma units_induct [consumes 1, case_names Nil Unit]:
  assumes "length a mod 8 = 0"
    and "P []"
    and "\<And>a0 a1 a2 a3 b0 b1 b2 b3 r. length r mod 8 = 0 \<Longrightarrow> P r \<Longrightarrow> P (a0 # a1 # a2 # a3 # b0 # b1 # b2 # b3 # r)"
  shows "P a"
  using assms(1)
proof (induction "length a" arbitrary: a rule: less_induct)
  case less
  show ?case
  proof (cases "a = []")
    case False
    with less.prems have "8 \<le> length a" by (cases "length a < 8") auto
    then obtain a0 a1 a2 a3 b0 b1 b2 b3 r where a: "a = a0 # a1 # a2 # a3 # b0 # b1 # b2 # b3 # r"
      by (rule eight_bytes)
    have "length r mod 8 = 0" using less.prems by (simp add: a)
    with less.hyps [of r] show ?thesis by (simp add: a assms(3))
  qed (simp add: assms(2))
qed

lemma cksum_total:
  assumes "length a mod 8 = 0" and "a \<noteq> []"
  shows "\<exists>c. walChecksumBytes n a s = Some c"
  using assms
proof (induction arbitrary: s rule: units_induct)
  case (Unit a0 a1 a2 a3 b0 b1 b2 b3 r)
  then show ?case by (cases s; cases "r = []") (auto simp: Let_def)
qed simp

lemma cksum_append:
  assumes "length a mod 8 = 0" and "a \<noteq> []" and "b \<noteq> []"
  shows "walChecksumBytes n (a @ b) s = Option.bind (walChecksumBytes n a s) (walChecksumBytes n b)"
  using assms
proof (induction arbitrary: s rule: units_induct)
  case (Unit a0 a1 a2 a3 b0 b1 b2 b3 r)
  then show ?case by (cases s; cases "r = []") (auto simp: Let_def)
qed simp

lemma cksum_start_inject:
  assumes "length a mod 8 = 0" and "walChecksumBytes n a s = walChecksumBytes n a t" and "a \<noteq> []"
  shows "s = t"
  using assms
proof (induction arbitrary: s t rule: units_induct)
  case (Unit a0 a1 a2 a3 b0 b1 b2 b3 r)
  obtain s1 s2 t1 t2 where st: "s = (s1, s2)" "t = (t1, t2)" by (cases s; cases t)
  let ?x = "aData n a0 a1 a2 a3" and ?y = "aData n b0 b1 b2 b3"
  have "(s1 + (?x + s2), s2 + (?y + (s1 + (?x + s2)))) = (t1 + (?x + t2), t2 + (?y + (t1 + (?x + t2))))"
  proof (cases "r = []")
    case True
    then show ?thesis using Unit.prems by (simp add: st Let_def)
  next
    case False
    then show ?thesis using Unit.prems by (intro Unit.IH) (simp_all add: st Let_def)
  qed
  then have 1: "s1 + (?x + s2) = t1 + (?x + t2)" and "s2 + (?y + (s1 + (?x + s2))) = t2 + (?y + (t1 + (?x + t2)))"
    by simp_all
  then have "(s1 + (?x + s2)) = (t1 + (?x + t2))" and "s2 + (?y + (t1 + (?x + t2))) = t2 + (?y + (t1 + (?x + t2)))"
    by (simp_all only: 1)
  then have "s2 = t2" by (simp only: add_right_cancel)
  then show ?case using 1 by (simp add: st)
qed simp

lemma cksum_unit_inject:
  assumes "walChecksumBytes n u s = walChecksumBytes n u' s" and "length u = 8" and "length u' = 8"
  shows "u = u'"
proof -
  obtain a0 a1 a2 a3 b0 b1 b2 b3 r where u: "u = a0 # a1 # a2 # a3 # b0 # b1 # b2 # b3 # r"
    using assms(2) by (metis eight_bytes order_refl)
  obtain c0 c1 c2 c3 d0 d1 d2 d3 r' where u': "u' = c0 # c1 # c2 # c3 # d0 # d1 # d2 # d3 # r'"
    using assms(3) by (metis eight_bytes order_refl)
  obtain s1 s2 where s: "s = (s1, s2)" by (cases s)
  have r: "r = []" "r' = []" using assms(2,3) by (simp_all add: u u')
  have x: "aData n a0 a1 a2 a3 = aData n c0 c1 c2 c3"
    using assms(1) by (simp add: u u' r s Let_def)
  then have "aData n b0 b1 b2 b3 = aData n d0 d1 d2 d3"
    using assms(1) by (simp add: u u' r s Let_def)
  with x show ?thesis by (auto simp: u u' r dest!: aData_inject)
qed

lemma cksum_local_change:
  assumes "walChecksumBytes n (p @ u @ q) s = walChecksumBytes n (p @ u' @ q) s"
    and "length p mod 8 = 0" and "length q mod 8 = 0" and "length u = 8" and "length u' = 8"
  shows "u = u'"
proof -
  have ne: "u \<noteq> []" "u' \<noteq> []" using assms(4,5) by auto
  have mid: "u = u'" if "walChecksumBytes n (u @ q) t = walChecksumBytes n (u' @ q) t" for t
  proof (cases "q = []")
    case True
    then show ?thesis using that assms(4,5) by (auto intro: cksum_unit_inject)
  next
    case False
    obtain c d where cd: "walChecksumBytes n u t = Some c" "walChecksumBytes n u' t = Some d"
      using cksum_total [of u n t] cksum_total [of u' n t] assms(4,5) ne by auto
    with that False assms(4,5) ne have "walChecksumBytes n q c = walChecksumBytes n q d"
      by (simp add: cksum_append)
    then have "c = d" using False assms(3) by (rule_tac cksum_start_inject)
    then show ?thesis using cd assms(4,5) cksum_unit_inject [of n u t u'] by simp
  qed
  show ?thesis
  proof (cases "p = []")
    case True
    then show ?thesis using assms(1) mid by simp
  next
    case False
    have "\<exists>t. walChecksumBytes n p s = Some t" using assms(2) False by (rule cksum_total)
    then obtain t where "walChecksumBytes n p s = Some t" ..
    then show ?thesis using assms(1,2) False ne mid by (simp add: cksum_append)
  qed
qed

section \<open>Valid frames\<close>

lemma Get4byte_total: "4 \<le> length p \<Longrightarrow> \<exists>v. sqlite3Get4byte p = Some v"
  by (cases "p = []") (simp_all add: sqlite3Get4byte_def rd_def)

lemma Get4byte_inject:
  assumes "sqlite3Get4byte p = sqlite3Get4byte q" and "4 \<le> length p" and "4 \<le> length q"
  shows "take 4 p = take 4 q"
proof -
  obtain a b c d r where p: "p = a # b # c # d # r"
    using assms(2) by (cases p; cases "tl p"; cases "tl (tl p)"; cases "tl (tl (tl p))") auto
  obtain a' b' c' d' r' where q: "q = a' # b' # c' # d' # r'"
    using assms(3) by (cases q; cases "tl q"; cases "tl (tl q)"; cases "tl (tl (tl q))") auto
  show ?thesis
    using assms(1) by (simp add: p q sqlite3Get4byte_def) (simp add: u32_bitwise u8_bitwise)
qed

lemma Get4byte_Put4byte [simp]: "sqlite3Get4byte (sqlite3Put4byte v @ q) = Some v" "sqlite3Get4byte (sqlite3Put4byte v) = Some v"
  using get4byte_put4byte [of v q] get4byte_put4byte [of v "[]"] by simp_all

lemma Get4byte_take [simp]: "4 \<le> n \<Longrightarrow> sqlite3Get4byte (take n p) = sqlite3Get4byte p"
  by (simp add: sqlite3Get4byte_def rd_def)

text \<open>A frame on disk is its header of 24 bytes and the page; \<open>content\<close> is what the checksum runs over.\<close>

definition content :: "u8 list \<Rightarrow> u8 list" where
  "content f = take 8 f @ drop 24 f"

definition frame_cksum :: "Wal \<Rightarrow> u8 list \<Rightarrow> (u32 \<times> u32) option" where
  "frame_cksum w f = walChecksumBytes (bigEndCksum (hdr w) = SQLITE_BIGENDIAN) (content f) (aFrameCksum (hdr w))"

definition frame_ok :: "Wal \<Rightarrow> u8 list \<Rightarrow> bool" where
  "frame_ok w f \<longleftrightarrow> aSalt (hdr w) = take 8 (drop 8 f) \<and> sqlite3Get4byte f \<noteq> Some 0 \<and>
     sqlite3Get4byte (drop 16 f) = map_option fst (frame_cksum w f) \<and>
     sqlite3Get4byte (drop 20 f) = map_option snd (frame_cksum w f)"

definition page_bytes :: "Wal \<Rightarrow> nat" where
  "page_bytes w = unat (szPage w)"

lemma frame_cksum_split:
  assumes "length f = 24 + page_bytes w" and "page_bytes w mod 8 = 0" and "0 < page_bytes w"
  obtains c where "frame_cksum w f = Some c"
    and "Option.bind (walChecksumBytes (bigEndCksum (hdr w) = SQLITE_BIGENDIAN) (take 8 f) (aFrameCksum (hdr w)))
           (walChecksumBytes (bigEndCksum (hdr w) = SQLITE_BIGENDIAN) (take (page_bytes w) (drop 24 f))) = Some c"
proof -
  have ne: "take 8 f \<noteq> []" "drop 24 f \<noteq> []" using assms by auto
  have l: "length (take 8 f) mod 8 = 0" "length (content f) mod 8 = 0" "content f \<noteq> []"
    using assms ne by (auto simp: content_def)
  obtain c where "frame_cksum w f = Some c"
    using cksum_total [OF l(2,3)] unfolding frame_cksum_def by blast
  moreover have "take (page_bytes w) (drop 24 f) = drop 24 f" using assms by simp
  ultimately show ?thesis
    using that cksum_append [OF l(1) ne] by (simp add: frame_cksum_def content_def)
qed

lemma decode_frame:
  assumes "length f = 24 + page_bytes w" and "page_bytes w mod 8 = 0" and "0 < page_bytes w"
  shows "frame_ok w f \<Longrightarrow> \<exists>pgno nT c. walDecodeFrame w (drop 24 f) (take 24 f) = Some (Some (pgno, nT), set_cksum c w) \<and>
      sqlite3Get4byte f = Some pgno \<and> sqlite3Get4byte (drop 4 f) = Some nT \<and> frame_cksum w f = Some c \<and> pgno \<noteq> 0"
    and "\<not> frame_ok w f \<Longrightarrow> \<exists>w'. walDecodeFrame w (drop 24 f) (take 24 f) = Some (None, w') \<and> (\<exists>c. w' = set_cksum c w)"
proof -
  obtain c where c: "frame_cksum w f = Some c"
    and b: "Option.bind (walChecksumBytes (bigEndCksum (hdr w) = SQLITE_BIGENDIAN) (take 8 f) (aFrameCksum (hdr w)))
      (walChecksumBytes (bigEndCksum (hdr w) = SQLITE_BIGENDIAN) (take (page_bytes w) (drop 24 f))) = Some c"
    using frame_cksum_split [OF assms] .
  obtain d where d: "walChecksumBytes (bigEndCksum (hdr w) = SQLITE_BIGENDIAN) (take 8 f) (aFrameCksum (hdr w)) = Some d"
      "walChecksumBytes (bigEndCksum (hdr w) = SQLITE_BIGENDIAN) (take (page_bytes w) (drop 24 f)) d = Some c"
    using b by (auto simp: bind_eq_Some_conv)
  have "\<exists>v. sqlite3Get4byte f = Some v" "\<exists>v. sqlite3Get4byte (drop 4 f) = Some v"
      "\<exists>v. sqlite3Get4byte (drop 16 f) = Some v" "\<exists>v. sqlite3Get4byte (drop 20 f) = Some v"
    using assms(1) by (simp_all add: Get4byte_total)
  then obtain v0 v4 v16 v20 where g: "sqlite3Get4byte f = Some v0" "sqlite3Get4byte (drop 4 f) = Some v4"
      "sqlite3Get4byte (drop 16 f) = Some v16" "sqlite3Get4byte (drop 20 f) = Some v20"
    by blast
  have t: "take 8 (drop 8 (take 24 f)) = take 8 (drop 8 f)" "take 8 (take 24 f) = take 8 f" 
      "sqlite3Get4byte (drop 4 (take 24 f)) = sqlite3Get4byte (drop 4 f)"
      "sqlite3Get4byte (drop 16 (take 24 f)) = sqlite3Get4byte (drop 16 f)"
      "sqlite3Get4byte (drop 20 (take 24 f)) = sqlite3Get4byte (drop 20 f)"
    by (simp_all add: drop_take)
  have triv: "w = set_cksum (aFrameCksum (hdr w)) w" by (simp add: set_cksum_def)
  have dec: "walDecodeFrame w (drop 24 f) (take 24 f) =
      (if aSalt (hdr w) \<noteq> take 8 (drop 8 f) \<or> v0 = 0 then Some (None, w)
       else if fst c \<noteq> v16 \<or> snd c \<noteq> v20 then Some (None, set_cksum c w) else Some (Some (v0, v4), set_cksum c w))"
    using assms(1) d g by (simp add: walDecodeFrame_def t page_bytes_def Let_def)
  have ok: "frame_ok w f \<longleftrightarrow> aSalt (hdr w) = take 8 (drop 8 f) \<and> v0 \<noteq> 0 \<and> v16 = fst c \<and> v20 = snd c"
    by (simp add: frame_ok_def g c)
  show "frame_ok w f \<Longrightarrow> \<exists>pgno nT c. walDecodeFrame w (drop 24 f) (take 24 f) = Some (Some (pgno, nT), set_cksum c w) \<and>
      sqlite3Get4byte f = Some pgno \<and> sqlite3Get4byte (drop 4 f) = Some nT \<and> frame_cksum w f = Some c \<and> pgno \<noteq> 0"
    using ok c g by (cases c) (simp add: dec)
  show "\<not> frame_ok w f \<Longrightarrow> \<exists>w'. walDecodeFrame w (drop 24 f) (take 24 f) = Some (None, w') \<and> (\<exists>c. w' = set_cksum c w)"
  proof -
    assume "\<not> frame_ok w f"
    then have "walDecodeFrame w (drop 24 f) (take 24 f) = Some (None, w) \<or>
        walDecodeFrame w (drop 24 f) (take 24 f) = Some (None, set_cksum c w)"
      unfolding ok dec by (simp split: if_split) metis
    with triv show ?thesis by metis
  qed
qed

lemma encode_frame_ok:
  assumes "walEncodeFrame w pgno nT d = Some (h, w')" and "pgno \<noteq> 0" and "length (aSalt (hdr w)) = 8"
    and "length d = page_bytes w" and "page_bytes w mod 8 = 0" and "0 < page_bytes w"
  shows "length h = 24 \<and> frame_ok w (h @ d) \<and> sqlite3Get4byte (h @ d) = Some pgno \<and>
    sqlite3Get4byte (drop 4 (h @ d)) = Some nT \<and> (\<exists>c. frame_cksum w (h @ d) = Some c \<and> w' = set_cksum c w)"
proof -
  let ?n = "bigEndCksum (hdr w) = SQLITE_BIGENDIAN" and ?a = "sqlite3Put4byte pgno @ sqlite3Put4byte nT"
  obtain c where c: "Option.bind (walChecksumBytes ?n ?a (aFrameCksum (hdr w))) (walChecksumBytes ?n d) = Some c"
    and h: "h = ?a @ aSalt (hdr w) @ sqlite3Put4byte (fst c) @ sqlite3Put4byte (snd c)" and w': "w' = set_cksum c w"
    using assms(1,4) by (auto simp: walEncodeFrame_def Let_def page_bytes_def bind_eq_Some_conv)
  have con: "content (h @ d) = ?a @ d" using assms(3) by (simp add: content_def h)
  have "d \<noteq> []" "?a \<noteq> []" using assms(4,6) by (auto simp: sqlite3Put4byte_def)
  then have ck: "frame_cksum w (h @ d) = Some c"
    unfolding frame_cksum_def con using c by (subst cksum_append) simp_all
  show ?thesis
    using assms(2,3) ck by (simp add: h w' frame_ok_def)
qed

section \<open>Damage to a frame\<close>

lemma frame_ok_local_change:
  assumes f: "frame_ok w (p @ u @ q)" "frame_ok w (p @ u' @ q)" and u: "length u = 8" "length u' = 8"
    and p: "length p mod 8 = 0" and l: "length (p @ u @ q) = 24 + page_bytes w" "page_bytes w mod 8 = 0" "0 < page_bytes w"
  shows "u = u'"
proof -
  let ?f = "p @ u @ q" and ?f' = "p @ u' @ q"
  have l': "length ?f' = 24 + page_bytes w" using l u by simp
  obtain c c' where c: "frame_cksum w ?f = Some c" "frame_cksum w ?f' = Some c'"
    using frame_cksum_split [OF l] frame_cksum_split [OF l' l(2,3)] by metis
  have q: "length q mod 8 = 0" using l u p by simp presburger
  have same: "c = c'" if "take 4 (drop 16 ?f) = take 4 (drop 16 ?f')" and "take 4 (drop 20 ?f) = take 4 (drop 20 ?f')"
  proof -
    have "sqlite3Get4byte (drop 16 ?f) = sqlite3Get4byte (drop 16 ?f')" "sqlite3Get4byte (drop 20 ?f) = sqlite3Get4byte (drop 20 ?f')"
      using that Get4byte_take [of 4 "drop 16 ?f"] Get4byte_take [of 4 "drop 16 ?f'"]
        Get4byte_take [of 4 "drop 20 ?f"] Get4byte_take [of 4 "drop 20 ?f'"] by simp_all
    then
    have "map_option fst (Some c) = map_option fst (Some c')" "map_option snd (Some c) = map_option snd (Some c')"
      using f by (simp_all only: frame_ok_def c [symmetric])
    then show ?thesis by (simp add: prod_eq_iff)
  qed
  consider "length p = 0" | "length p = 8" | "length p = 16" | "24 \<le> length p"
  proof -
    have "length p = 0 \<or> length p = 8 \<or> length p = 16 \<or> 24 \<le> length p" using p by presburger
    then show thesis using that by blast
  qed
  then show ?thesis
  proof cases
    case 1
    then have "content ?f = [] @ u @ drop 16 q" "content ?f' = [] @ u' @ drop 16 q"
      using u by (simp_all add: content_def)
    moreover have "length (drop 16 q) mod 8 = 0" using q l u 1 by simp
    moreover have "c = c'" using 1 u by (intro same) simp_all
    ultimately show ?thesis
      using c u cksum_local_change [of "bigEndCksum (hdr w) = SQLITE_BIGENDIAN" "[]" u "drop 16 q" "aFrameCksum (hdr w)" u']
      by (simp add: frame_cksum_def mod_0_imp_dvd)
  next
    case 2
    then show ?thesis using f u by (simp add: frame_ok_def)
  next
    case 3
    then have "content ?f = content ?f'" using u by (simp add: content_def)
    then have "frame_cksum w ?f = frame_cksum w ?f'" by (simp add: frame_cksum_def)
    then have "sqlite3Get4byte (drop 16 ?f) = sqlite3Get4byte (drop 16 ?f')" "sqlite3Get4byte (drop 20 ?f) = sqlite3Get4byte (drop 20 ?f')"
      using f by (simp_all only: frame_ok_def)
    then have "take 4 (drop 16 ?f) = take 4 (drop 16 ?f')" "take 4 (drop 20 ?f) = take 4 (drop 20 ?f')"
      using Get4byte_inject [of "drop 16 ?f" "drop 16 ?f'"] Get4byte_inject [of "drop 20 ?f" "drop 20 ?f'"] 3 u by simp_all
    then have "take 4 u = take 4 u'" "drop 4 u = drop 4 u'" using 3 u by simp_all
    then show ?thesis by (metis append_take_drop_id)
  next
    case 4
    then have "content ?f = (take 8 p @ drop 24 p) @ u @ q" "content ?f' = (take 8 p @ drop 24 p) @ u' @ q"
      by (simp_all add: content_def)
    moreover have "length (take 8 p @ drop 24 p) mod 8 = 0" using p 4 by simp presburger
    moreover have "c = c'" using 4 by (intro same) simp_all
    ultimately show ?thesis
      using c u q cksum_local_change [of "bigEndCksum (hdr w) = SQLITE_BIGENDIAN" "take 8 p @ drop 24 p" u q "aFrameCksum (hdr w)" u']
      by (simp add: frame_cksum_def)
  qed
qed

lemma walPagesize_pack:
  assumes "szPageHdr (hdr w) = pack_szPage sz" and "sz \<in> {512, 1024, 2048, 4096, 8192, 16384, 32768, 65536}"
  shows "walPagesize w = sz"
  using assms by (auto simp: walPagesize_def pack_szPage_def)

text \<open>
  C9: A frame of the log that differs from a valid frame within one aligned unit of eight bytes, be it in
  the page number and commit mark, in the salts, in the stored checksum or in the page, is not
  taken for a valid frame.
\<close>

theorem damaged_frame_rejected:
  assumes "walDecodeFrame w (drop 24 (p @ u @ q)) (take 24 (p @ u @ q)) = Some (Some x, w')"
    and "length u = 8" and "length u' = 8" and "u \<noteq> u'" and "length p mod 8 = 0"
    and "length (p @ u @ q) = 24 + unat (szPage w)" and "unat (szPage w) mod 8 = 0" and "0 < szPage w"
  shows "\<exists>w''. walDecodeFrame w (drop 24 (p @ u' @ q)) (take 24 (p @ u' @ q)) = Some (None, w'')"
proof -
  have l: "length (p @ u @ q) = 24 + page_bytes w" "length (p @ u' @ q) = 24 + page_bytes w"
      "page_bytes w mod 8 = 0" "0 < page_bytes w"
    using assms by (simp_all add: page_bytes_def unat_gt_0)
  have "frame_ok w (p @ u @ q)"
    using assms(1) decode_frame(2) [OF l(1,3,4)] by fastforce
  then have "\<not> frame_ok w (p @ u' @ q)"
    using frame_ok_local_change [OF _ _ assms(2,3,5) l(1,3,4)] assms(4) by blast
  then show ?thesis using decode_frame(2) [OF l(2,3,4)] by blast
qed

definition sample_wal :: Wal where
  "sample_wal = \<lparr>iCallback = 0, mxWalSize = -1, apWiData = [], szPage = 8, readLock = -1, exclusiveMode = WAL_NORMAL_MODE,
     writeLock = True, ckptLock = False, readOnly = (False, False), truncateOnCommit = False, syncHeader = True,
     padToSectorBoundary = False,
     hdr = \<lparr>iVersion = WALINDEX_MAX_VERSION, unused = 0, iChange = 0, isInitHdr = 1, bigEndCksum = 0, szPageHdr = 0,
       mxFrame = 0, nPage = 0, aFrameCksum = (3, 4), aSalt = [1, 2, 3, 4, 5, 6, 7, 8], aCksum = (0, 0)\<rparr>, nCkpt = 0\<rparr>"

theorem damaged_frame_rejected_witness:
  "\<exists>f x w'. walDecodeFrame sample_wal (drop 24 f) (take 24 f) = Some (Some x, w') \<and>
     (\<exists>w''. walDecodeFrame sample_wal (drop 24 (take 24 f @ [9, 9, 9, 9, 9, 9, 9, 9]))
        (take 24 (take 24 f @ [9, 9, 9, 9, 9, 9, 9, 9])) = Some (None, w''))"
proof -
  let ?d = "[1, 0, 0, 0, 2, 0, 0, 0] :: u8 list"
  obtain h w' where e: "walEncodeFrame sample_wal 7 5 ?d = Some (h, w')"
    by (simp add: walEncodeFrame_def sample_wal_def sqlite3Put4byte_def Let_def)
  have b: "page_bytes sample_wal = 8" "unat (szPage sample_wal) = 8" "0 < szPage sample_wal" "length (aSalt (hdr sample_wal)) = 8"
    by (simp_all add: page_bytes_def sample_wal_def)
  have h: "length h = 24" "frame_ok sample_wal (h @ ?d)"
    using encode_frame_ok [OF e] b by auto
  obtain x w2 where d: "walDecodeFrame sample_wal (drop 24 (h @ ?d)) (take 24 (h @ ?d)) = Some (Some x, w2)"
    using decode_frame(1) [of "h @ ?d" sample_wal] h b by auto
  moreover have "\<exists>w''. walDecodeFrame sample_wal (drop 24 (h @ [9, 9, 9, 9, 9, 9, 9, 9] @ []))
      (take 24 (h @ [9, 9, 9, 9, 9, 9, 9, 9] @ [])) = Some (None, w'')"
    using d h b by (intro damaged_frame_rejected [where u = ?d and x = x and w' = w2]) simp_all
  ultimately show ?thesis using h by (intro exI [of _ "h @ ?d"] exI [of _ x] exI [of _ w2]) simp
qed

end
