(* ===== verification/WalBlock.thy ===== *)
theory WalBlock
  imports Prelude
begin

text \<open>
  One page of the wal-index of \<^verbatim>\<open>src/wal.c\<close>: an array of page numbers, one for each frame of the
  log that the page covers, and a hash table of 8192 slots that holds one-based indices into the array. A slot
  that is in use is reached from the hash of its page number over slots that were filled before it: this is
  what makes a look-up see the frames of a page in the order in which they were appended, and what
  survives when the newest entries are removed. The operations are shown to maintain the sequence of
  page numbers that the block stands for.
\<close>

definition HASHTABLE_NPAGE :: nat where "HASHTABLE_NPAGE = 4096"
definition HASHTABLE_NSLOT :: nat where "HASHTABLE_NSLOT = 8192"
definition WALINDEX_HDR_SIZE :: nat where "WALINDEX_HDR_SIZE = 48 * 2 + (4 + 4 * 5) + 16"
definition HASHTABLE_NPAGE_ONE :: nat where "HASHTABLE_NPAGE_ONE = 4096 - WALINDEX_HDR_SIZE div 4"

lemmas block_consts = HASHTABLE_NPAGE_def HASHTABLE_NSLOT_def WALINDEX_HDR_SIZE_def HASHTABLE_NPAGE_ONE_def

text \<open>
  The C pointer to the array points one entry before it, so the code's \<open>aPgno[i]\<close> is entry \<open>i - 1\<close> of the
  list. The first page of the wal-index has fewer entries, since the header comes before them.
\<close>

record wpage =
  aPgno :: "u32 list"
  aHash :: "u16 list"

definition zero_page :: "nat \<Rightarrow> wpage" where
  "zero_page iHash = \<lparr>aPgno = replicate (if iHash = 0 then HASHTABLE_NPAGE_ONE else HASHTABLE_NPAGE) 0,
     aHash = replicate HASHTABLE_NSLOT 0\<rparr>"

definition walHash :: "u32 \<Rightarrow> nat" where
  "walHash iPage = unat ((iPage * 383) AND 8191)"

definition walNextHash :: "nat \<Rightarrow> nat" where
  "walNextHash iPriorHash = (iPriorHash + 1) AND 8191"

text \<open>
  The search for a free slot of \<open>walIndexAppend\<close>: \<open>nCollide\<close> counts the collisions that are left; the result
  is \<open>Inl\<close> of the error code or the slot.
\<close>

abbreviation (input) SQLITE_CORRUPT :: int where "SQLITE_CORRUPT \<equiv> 11"

fun append_slot :: "u16 list \<Rightarrow> nat \<Rightarrow> nat \<Rightarrow> (int + nat) option" where
  "append_slot hs iKey nCollide = do {
     s \<leftarrow> rd hs iKey;
     if s = 0 then Some (Inr iKey)
     else case nCollide of 0 \<Rightarrow> Some (Inl SQLITE_CORRUPT) | Suc n \<Rightarrow> append_slot hs (walNextHash iKey) n
   }"

declare append_slot.simps [simp del]

text \<open>
  The entry of a frame, and the part of \<open>walIndexAppend\<close> that writes it; \<open>idx\<close> is the position in the block.
\<close>

definition put_entry :: "nat \<Rightarrow> u32 \<Rightarrow> wpage \<Rightarrow> (int \<times> wpage) option" where
  "put_entry idx iPage p = do {
     r \<leftarrow> append_slot (aHash p) (walHash iPage) idx;
     (case r of
        Inl rc \<Rightarrow> Some (rc, p)
      | Inr iKey \<Rightarrow>
          if idx \<le> length (aPgno p)
          then Some (SQLITE_OK, p\<lparr>aPgno := (aPgno p)[idx - 1 := iPage], aHash := (aHash p)[iKey := of_nat idx]\<rparr>)
          else None)
   }"

text \<open>\<^verbatim>\<open>memset\<close> of both arrays, and the removal of the entries above \<open>iLimit\<close> by \<open>walCleanupHash\<close>.\<close>

definition clear_block :: "wpage \<Rightarrow> wpage" where
  "clear_block p = p\<lparr>aPgno := replicate (length (aPgno p)) 0, aHash := replicate (length (aHash p)) 0\<rparr>"

definition cleanup_block :: "nat \<Rightarrow> wpage \<Rightarrow> wpage" where
  "cleanup_block iLimit p =
     p\<lparr>aPgno := take iLimit (aPgno p) @ replicate (length (aPgno p) - iLimit) 0,
       aHash := map (\<lambda>s. if unat s > iLimit then 0 else s) (aHash p)\<rparr>"

text \<open>
  The inner loop of \<open>sqlite3WalFindFrame\<close> over the slots from \<open>iKey\<close> on: \<open>iRead\<close> is the last match so far.
\<close>

fun find_slot :: "wpage \<Rightarrow> u32 \<Rightarrow> u32 \<Rightarrow> u32 \<Rightarrow> nat \<Rightarrow> nat \<Rightarrow> u32 \<Rightarrow> (int + u32) option" where
  "find_slot p pgno iZero iLast iKey nCollide iRead = do {
     s \<leftarrow> rd (aHash p) iKey;
     if s = 0 then Some (Inr iRead)
     else do {
       let iFrame = ucast s + iZero;
       iRead \<leftarrow> (if iFrame \<le> iLast
         then do { g \<leftarrow> rd (aPgno p) (unat s - 1); Some (if g = pgno then iFrame else iRead) }
         else Some iRead);
       (case nCollide of 0 \<Rightarrow> Some (Inl SQLITE_CORRUPT) | Suc n \<Rightarrow> find_slot p pgno iZero iLast (walNextHash iKey) n iRead)
     }
   }"

declare find_slot.simps [simp del]

section \<open>Slots\<close>

definition slot :: "wpage \<Rightarrow> nat \<Rightarrow> nat" where
  "slot p k = unat (aHash p ! (k mod 8192))"

lemma and_8191: "(k :: nat) AND 8191 = k mod 8192"
proof -
  have m: "(8191 :: nat) = mask 13" by (simp add: mask_eq_exp_minus_1)
  show ?thesis unfolding m take_bit_eq_mask [symmetric] by (simp add: take_bit_eq_mod)
qed

lemma walNextHash_mod [simp]: "walNextHash (k mod 8192) = Suc k mod 8192"
  by (simp add: walNextHash_def and_8191 mod_Suc_eq)

lemma mod_add_inject:
  fixes h :: nat
  assumes "(h + x) mod n = (h + y) mod n" and "x < n" and "y < n"
  shows "x = y"
proof -
  have *: "x = y" if "(h + x) mod n = (h + y) mod n" "y < n" "x \<le> y" for x y
  proof -
    have "n dvd (h + y) - (h + x)" using that mod_eq_dvd_iff_nat [of "h + x" "h + y" n] by simp
    then have "n dvd y - x" by simp
    moreover have "y - x < n" using that by simp
    ultimately have "y - x = 0" using dvd_imp_le [of n "y - x"] by (cases "y - x = 0") auto
    then show ?thesis using that(3) by simp
  qed
  show ?thesis
  proof (cases "x \<le> y")
    case True
    then show ?thesis using * [of x y] assms by simp
  next
    case False
    then show ?thesis using * [of y x] assms by simp
  qed
qed

lemma walHash_less: "walHash g < 8192"
proof -
  have m: "(8191 :: u32) = mask 13" by (simp add: mask_eq_exp_minus_1)
  show ?thesis unfolding walHash_def m take_bit_eq_mask [symmetric] unsigned_take_bit_eq by (simp add: take_bit_eq_mod)
qed

lemma slot_mod [simp]: "slot p (k mod 8192) = slot p k"
  by (simp add: slot_def)

definition reach :: "wpage \<Rightarrow> nat \<Rightarrow> nat \<Rightarrow> nat \<Rightarrow> bool" where
  "reach p h d i \<longleftrightarrow> slot p (h + d) = i \<and> (\<forall>e<d. 0 < slot p (h + e) \<and> slot p (h + e) < i)"

definition page_shape :: "nat \<Rightarrow> wpage \<Rightarrow> bool" where
  "page_shape cap p \<longleftrightarrow> length (aHash p) = 8192 \<and> length (aPgno p) = cap \<and> cap \<le> 4096"

text \<open>The block stands for the page numbers \<open>es\<close> of its frames, oldest first.\<close>

definition block_ok :: "nat \<Rightarrow> u32 list \<Rightarrow> wpage \<Rightarrow> bool" where
  "block_ok cap es p \<longleftrightarrow> page_shape cap p \<and> length es \<le> cap \<and> 0 \<notin> set es \<and>
     aPgno p = es @ replicate (cap - length es) 0 \<and> (\<forall>k. slot p k \<le> length es) \<and>
     (\<forall>k<8192. \<forall>k'<8192. slot p k = slot p k' \<and> slot p k \<noteq> 0 \<longrightarrow> k = k') \<and>
     (\<forall>i<length es. \<exists>d<8192. reach p (walHash (es ! i)) d (Suc i))"

lemma block_ok_shape: "block_ok cap es p \<Longrightarrow> page_shape cap p"
  by (simp add: block_ok_def)

lemma block_ok_reach:
  assumes "block_ok cap es p" and "i < length es"
  obtains d where "d < 8192" and "reach p (walHash (es ! i)) d (Suc i)"
  using assms unfolding block_ok_def by blast

lemma block_ok_inject:
  assumes "block_ok cap es p" and "slot p k = slot p k'" and "slot p k \<noteq> 0"
  shows "k mod 8192 = k' mod 8192"
proof -
  have "k mod 8192 < 8192" "k' mod 8192 < 8192" by simp_all
  moreover have "slot p (k mod 8192) = slot p (k' mod 8192) \<and> slot p (k mod 8192) \<noteq> 0" using assms(2,3) by simp
  ultimately show ?thesis using assms(1) unfolding block_ok_def by blast
qed

lemma first_free_slot:
  assumes "block_ok cap es p"
  obtains D where "D \<le> length es" and "slot p (h + D) = 0" and "\<And>e. e < D \<Longrightarrow> slot p (h + e) \<noteq> 0"
proof -
  let ?n = "length es"
  have n: "?n \<le> 4096" using assms by (simp add: block_ok_def page_shape_def)
  have "\<exists>e\<le>?n. slot p (h + e) = 0"
  proof (rule ccontr)
    assume a: "\<not> (\<exists>e\<le>?n. slot p (h + e) = 0)"
    have "inj_on (\<lambda>e. slot p (h + e)) {..?n}"
    proof (rule inj_onI)
      fix x y
      assume xy: "x \<in> {..?n}" "y \<in> {..?n}" "slot p (h + x) = slot p (h + y)"
      then have "(h + x) mod 8192 = (h + y) mod 8192"
        using a by (intro block_ok_inject [OF assms]) simp_all
      then show "x = y" using xy n by (intro mod_add_inject [of h x 8192 y]) simp_all
    qed
    moreover have "(\<lambda>e. slot p (h + e)) ` {..?n} \<subseteq> {1..?n}"
      using a assms by (auto simp: block_ok_def Suc_le_eq)
    ultimately have "card {..?n} \<le> card {1..?n}"
      by (metis card_image card_mono finite_atLeastAtMost)
    then show False by simp
  qed
  then obtain e where e: "e \<le> ?n" "slot p (h + e) = 0" by blast
  let ?D = "LEAST e. slot p (h + e) = 0"
  show ?thesis
  proof (rule that)
    show "?D \<le> ?n" using e by (meson Least_le order_trans)
    show "slot p (h + ?D) = 0" using e(2) by (rule LeastI)
    show "slot p (h + e) \<noteq> 0" if "e < ?D" for e using that by (rule not_less_Least)
  qed
qed

section \<open>Insertion\<close>

lemma rd_slot:
  assumes "length (aHash p) = 8192"
  shows "rd (aHash p) (k mod 8192) = Some (aHash p ! (k mod 8192))" and "aHash p ! (k mod 8192) = 0 \<longleftrightarrow> slot p k = 0"
  using assms by (simp_all add: rd_nth slot_def unat_eq_zero)

lemma append_slot_free:
  assumes "length (aHash p) = 8192" and "slot p (h + D) = 0" and "\<And>e. e < D \<Longrightarrow> slot p (h + e) \<noteq> 0" and "D \<le> n"
  shows "append_slot (aHash p) (h mod 8192) n = Some (Inr ((h + D) mod 8192))"
  using assms(2-4)
proof (induction D arbitrary: h n)
  case 0
  then show ?case using rd_slot [OF assms(1), of h] by (simp add: append_slot.simps)
next
  case (Suc D)
  then obtain m where n: "n = Suc m" by (cases n) auto
  have "slot p h \<noteq> 0" using Suc.prems(2) [of 0] by simp
  moreover have "append_slot (aHash p) (Suc h mod 8192) m = Some (Inr ((Suc h + D) mod 8192))"
    using Suc.prems Suc.prems(2) [of "Suc _"] by (intro Suc.IH) (auto simp: n)
  ultimately show ?case
    using rd_slot [OF assms(1), of h] by (subst append_slot.simps) (simp add: n)
qed

lemma slot_update:
  assumes "length (aHash p) = 8192" and "i < 65536"
  shows "slot (p\<lparr>aPgno := a, aHash := (aHash p)[k mod 8192 := of_nat i]\<rparr>) j = (if j mod 8192 = k mod 8192 then i else slot p j)"
  using assms by (simp add: slot_def nth_list_update take_bit_nat_eq_self unsigned_of_nat)

lemma put_entry_ok:
  assumes ok: "block_ok cap es p" and "length es < cap" and "g \<noteq> 0"
  shows "\<exists>p'. put_entry (Suc (length es)) g p = Some (SQLITE_OK, p') \<and> block_ok cap (es @ [g]) p'"
proof -
  let ?n = "length es" and ?h = "walHash g"
  have sh: "length (aHash p) = 8192" "length (aPgno p) = cap" "cap \<le> 4096" and pg: "aPgno p = es @ replicate (cap - ?n) 0"
    and le: "\<And>k. slot p k \<le> ?n"
    using ok by (simp_all add: block_ok_def page_shape_def)
  obtain D where D: "D \<le> ?n" "slot p (?h + D) = 0" "\<And>e. e < D \<Longrightarrow> slot p (?h + e) \<noteq> 0"
    using first_free_slot [OF ok] by metis
  let ?k = "(?h + D) mod 8192"
  define p' where "p' = p\<lparr>aPgno := (aPgno p)[?n := g], aHash := (aHash p)[?k := of_nat (Suc ?n)]\<rparr>"
  have "append_slot (aHash p) (?h mod 8192) (Suc ?n) = Some (Inr ?k)"
    using D sh by (intro append_slot_free) auto
  then have put: "put_entry (Suc ?n) g p = Some (SQLITE_OK, p')"
    using assms(2) sh by (simp add: put_entry_def p'_def walHash_less)
  have slot': "slot p' j = (if j mod 8192 = ?k then Suc ?n else slot p j)" for j
    using sh assms(2) unfolding p'_def by (intro slot_update) simp_all
  have n: "?n < 4096" using assms(2) sh by simp
  have "block_ok cap (es @ [g]) p'"
    unfolding block_ok_def
  proof (intro conjI allI impI)
    show "page_shape cap p'" using sh by (simp add: page_shape_def p'_def)
    show "aPgno p' = (es @ [g]) @ replicate (cap - length (es @ [g])) 0"
      using assms(2) by (simp add: p'_def pg list_update_append Suc_diff_Suc [symmetric] del: replicate_Suc) (simp add: replicate_Suc)
    show "0 \<notin> set (es @ [g])" using ok assms(3) by (simp add: block_ok_def)
    show "slot p' k \<le> length (es @ [g])" for k using le [of k] by (simp add: slot')
    show "k = k'" if "k < 8192" "k' < 8192" "slot p' k = slot p' k' \<and> slot p' k \<noteq> 0" for k k'
    proof -
      have inj: "slot p k = slot p k' \<Longrightarrow> slot p k \<noteq> 0 \<Longrightarrow> k = k'"
        using ok that(1,2) unfolding block_ok_def by blast
      show ?thesis
        using that inj le [of k] le [of k'] unfolding slot' by (auto split: if_splits)
    qed
    show "\<exists>d<8192. reach p' (walHash ((es @ [g]) ! i)) d (Suc i)" if i: "i < length (es @ [g])" for i
    proof (cases "i < ?n")
      case True
      then obtain d where d: "d < 8192" "reach p (walHash (es ! i)) d (Suc i)"
        using ok by (auto simp: block_ok_def)
      have "slot p' (walHash (es ! i) + e) = slot p (walHash (es ! i) + e)" if "e \<le> d" for e
      proof -
        have "slot p (walHash (es ! i) + e) \<noteq> 0"
          using d(2) that unfolding reach_def by (cases "e = d") auto
        moreover have "slot p ?k = 0" using D(2) by simp
        ultimately show ?thesis using slot' slot_mod by metis
      qed
      then have "reach p' (walHash (es ! i)) d (Suc i)" using d(2) by (simp add: reach_def)
      then show ?thesis using d(1) True by (auto simp: nth_append)
    next
      case False
      then have i: "i = ?n" using i by simp
      have "slot p' (?h + e) = slot p (?h + e)" if "e < D" for e
        using D that slot' slot_mod by metis
      then have "reach p' ?h D (Suc ?n)"
        using D le by (auto simp: reach_def slot' less_Suc_eq_le)
      then show ?thesis using D(1) n by (intro exI [of _ D]) (simp add: i)
    qed
  qed (use assms(2) in simp)
  with put show ?thesis by blast
qed

section \<open>Removal\<close>

lemma clear_block_ok: "page_shape cap p \<Longrightarrow> block_ok cap [] (clear_block p)"
  by (auto simp: block_ok_def page_shape_def clear_block_def slot_def)

lemma zero_page_ok: "block_ok (if i = 0 then HASHTABLE_NPAGE_ONE else HASHTABLE_NPAGE) [] (zero_page i)"
  by (auto simp: block_ok_def page_shape_def zero_page_def slot_def block_consts)

lemma cleanup_block_ok:
  assumes ok: "block_ok cap es p" and "m \<le> length es"
  shows "block_ok cap (take m es) (cleanup_block m p)"
proof -
  let ?p = "cleanup_block m p"
  have sh: "length (aHash p) = 8192" "length (aPgno p) = cap" "cap \<le> 4096" and pg: "aPgno p = es @ replicate (cap - length es) 0"
    and le: "length es \<le> cap"
    using ok by (simp_all add: block_ok_def page_shape_def)
  have slot': "slot ?p k = (if slot p k > m then 0 else slot p k)" for k
    using sh by (simp add: slot_def cleanup_block_def)
  have reach': "\<exists>d<8192. reach ?p (walHash (take m es ! i)) d (Suc i)" if i: "i < m" for i
  proof -
    obtain d where d: "d < 8192" "reach p (walHash (es ! i)) d (Suc i)"
      using ok i assms(2) unfolding block_ok_def by (meson less_le_trans)
    have "reach ?p (walHash (es ! i)) d (Suc i)"
      using d(2) i by (auto simp: reach_def slot')
    with d(1) i show ?thesis by auto
  qed
  show ?thesis
    unfolding block_ok_def
  proof (intro conjI allI impI)
    show "page_shape cap ?p" using sh le assms(2) by (simp add: page_shape_def cleanup_block_def)
    show "aPgno ?p = take m es @ replicate (cap - length (take m es)) 0"
      using assms(2) le by (simp add: cleanup_block_def pg)
    show "0 \<notin> set (take m es)" using ok by (auto simp: block_ok_def dest: in_set_takeD)
    show "k = k'" if "k < 8192" "k' < 8192" "slot ?p k = slot ?p k' \<and> slot ?p k \<noteq> 0" for k k'
    proof -
      have inj: "slot p k = slot p k' \<Longrightarrow> slot p k \<noteq> 0 \<Longrightarrow> k = k'"
        using ok that(1,2) unfolding block_ok_def by blast
      show ?thesis using that inj unfolding slot' by (auto split: if_splits)
    qed
  qed (use assms(2) le reach' in \<open>auto simp: slot'\<close>)
qed

section \<open>Look-up\<close>

text \<open>The specification: the last frame, counted from 1, that holds page \<open>g\<close>; 0 if there is none.\<close>

primrec latest_rev :: "u32 list \<Rightarrow> u32 \<Rightarrow> nat" where
  "latest_rev [] g = 0"
| "latest_rev (x # xs) g = (if x = g then Suc (length xs) else latest_rev xs g)"

definition latest :: "u32 list \<Rightarrow> u32 \<Rightarrow> nat" where
  "latest fs g = latest_rev (rev fs) g"

lemma latest_Nil [simp]: "latest [] g = 0"
  by (simp add: latest_def)

lemma latest_snoc [simp]: "latest (fs @ [x]) g = (if x = g then Suc (length fs) else latest fs g)"
  by (simp add: latest_def)

lemma latest_le: "latest fs g \<le> length fs"
  by (induction fs rule: rev_induct) auto

lemma latest_append: "latest (fs @ gs) g = (if g \<in> set gs then length fs + latest gs g else latest fs g)"
proof (induction gs rule: rev_induct)
  case (snoc x gs)
  then show ?case by (auto simp flip: append_assoc)
qed simp

lemma latest_zero_iff: "latest fs g = 0 \<longleftrightarrow> g \<notin> set fs"
  by (induction fs rule: rev_induct) auto

lemma latest_Suc:
  assumes "latest fs g = Suc i"
  shows "i < length fs" and "fs ! i = g" and "\<And>j. i < j \<Longrightarrow> j < length fs \<Longrightarrow> fs ! j \<noteq> g"
  using assms
proof (induction fs rule: rev_induct)
  case (snoc x fs)
  { case 1 then show ?case using snoc(1) by (auto split: if_splits) }
  { case 2 then show ?case using snoc(1,2) by (auto simp: nth_append split: if_splits) }
  { case 3 then show ?case using snoc(3) by (auto simp: nth_append less_Suc_eq split: if_splits) }
qed simp_all

lemma reach_order:
  assumes "reach p h d i" and "reach p h d' i'" and "i < i'"
  shows "d < d'"
proof (rule ccontr)
  assume "\<not> d < d'"
  then consider "d' < d" | "d' = d" by fastforce
  then show False using assms by cases (auto simp: reach_def)
qed

definition match_step :: "u32 list \<Rightarrow> u32 \<Rightarrow> u32 \<Rightarrow> u32 \<Rightarrow> nat \<Rightarrow> u32 \<Rightarrow> u32" where
  "match_step es g iZero iLast s r =
     (if s + unat iZero \<le> unat iLast \<and> es ! (s - 1) = g then of_nat s + iZero else r)"

lemma find_slot_scan:
  assumes ok: "block_ok cap es p" and big: "unat iZero + cap < 2 ^ 32"
    and "slot p (h + D) = 0" and "\<And>e. e < D \<Longrightarrow> slot p (h + e) \<noteq> 0" and "D \<le> n"
  shows "find_slot p g iZero iLast (h mod 8192) n r =
    Some (Inr (fold (match_step es g iZero iLast) (map (\<lambda>e. slot p (h + e)) [0..<D]) r))"
  using assms(3-)
proof (induction D arbitrary: h n r)
  case 0
  then show ?case
    using ok rd_slot [of p h] by (simp add: find_slot.simps block_ok_def page_shape_def)
next
  case (Suc D)
  have sh: "length (aHash p) = 8192" "length (aPgno p) = cap" "length es \<le> cap" "aPgno p = es @ replicate (cap - length es) 0"
    and le: "slot p h \<le> length es" and cap: "cap \<le> 4096"
    using ok by (simp_all add: block_ok_def page_shape_def)
  obtain m where n: "n = Suc m" using Suc.prems by (cases n) auto
  have nz: "slot p h \<noteq> 0" using Suc.prems(2) [of 0] by simp
  let ?s = "aHash p ! (h mod 8192)"
  have s: "unat ?s = slot p h" by (simp add: slot_def)
  have us: "unat (ucast ?s + iZero :: u32) = slot p h + unat iZero"
    using le sh(3) big by (simp add: unat_word_ariths s unsigned_ucast_eq take_bit_nat_eq_self)
  have pg: "rd (aPgno p) (slot p h - 1) = Some (es ! (slot p h - 1))"
  proof -
    have "slot p h - 1 < length es" using nz le by linarith
    then show ?thesis using sh by (simp add: rd_def nth_append)
  qed
  have w: "ucast ?s + iZero = of_nat (slot p h) + iZero"
    by (simp add: slot_def)
  have "find_slot p g iZero iLast (Suc h mod 8192) m (match_step es g iZero iLast (slot p h) r) =
      Some (Inr (fold (match_step es g iZero iLast) (map (\<lambda>e. slot p (Suc h + e)) [0..<D]) (match_step es g iZero iLast (slot p h) r)))"
    using Suc.prems Suc.prems(2) [of "Suc _"] by (intro Suc.IH) (auto simp: n)
  moreover have "map (\<lambda>e. slot p (h + e)) [0..<Suc D] = slot p h # map (\<lambda>e. slot p (Suc h + e)) [0..<D]"
    by (simp add: upt_conv_Cons map_Suc_upt [symmetric] del: upt_Suc)
  moreover have "find_slot p g iZero iLast (h mod 8192) n r =
      find_slot p g iZero iLast (Suc h mod 8192) m (match_step es g iZero iLast (slot p h) r)"
    using rd_slot [OF sh(1), of h] nz pg
    by (subst find_slot.simps) (simp add: n s us [unfolded w] w match_step_def word_le_nat_alt Let_def)
  ultimately show ?case by simp
qed

lemma find_slot_latest:
  assumes ok: "block_ok cap es p" and big: "unat iZero + cap < 2 ^ 32" and last: "unat iZero \<le> unat iLast"
  shows "find_slot p g iZero iLast (walHash g) HASHTABLE_NSLOT r =
    Some (Inr (let m = latest (take (unat iLast - unat iZero) es) g in if m = 0 then r else of_nat m + iZero))"
proof -
  let ?h = "walHash g" and ?L = "unat iLast - unat iZero" and ?step = "match_step es g iZero iLast"
  let ?m = "latest (take ?L es) g"
  obtain D where D: "D \<le> length es" "slot p (?h + D) = 0" "\<And>e. e < D \<Longrightarrow> slot p (?h + e) \<noteq> 0"
    using first_free_slot [OF ok] by metis
  have n: "length es \<le> 4096" and le: "\<And>k. slot p k \<le> length es" using ok by (auto simp: block_ok_def page_shape_def)
  let ?ss = "\<lambda>a b. map (\<lambda>e. slot p (?h + e)) [a..<b]"
  have find: "find_slot p g iZero iLast (?h mod 8192) 8192 r = Some (Inr (fold ?step (?ss 0 D) r))"
    using D n by (intro find_slot_scan [OF ok big]) auto
  have none: "fold ?step (?ss a b) x = x" if "\<And>e. a \<le> e \<Longrightarrow> e < b \<Longrightarrow> \<not> (slot p (?h + e) \<le> ?L \<and> es ! (slot p (?h + e) - 1) = g)" for a b x
    using that
  proof (induction b)
    case (Suc b)
    then show ?case using last by (cases "a \<le> b") (auto simp: match_step_def)
  qed simp
  have "fold ?step (?ss 0 D) r = (if ?m = 0 then r else of_nat ?m + iZero)"
  proof (cases "?m")
    case 0
    have "\<not> (slot p (?h + e) \<le> ?L \<and> es ! (slot p (?h + e) - 1) = g)" if "e < D" for e
    proof
      assume s: "slot p (?h + e) \<le> ?L \<and> es ! (slot p (?h + e) - 1) = g"
      moreover have "slot p (?h + e) - 1 < length (take ?L es)"
        using s D(3) [OF that] le [of "?h + e"] by auto
      ultimately have "g \<in> set (take ?L es)" by (auto simp: in_set_conv_nth)
      then show False using 0 by (simp add: latest_zero_iff)
    qed
    then show ?thesis using 0 none [of 0 D] by simp
  next
    case (Suc i)
    note i = latest_Suc [OF Suc]
    have iL: "i < length es" "Suc i \<le> ?L" "es ! i = g" using i by simp_all
    then obtain d where d: "d < 8192" "reach p ?h d (Suc i)"
      using block_ok_reach [OF ok] by metis
    have "d < D"
    proof (rule ccontr)
      assume "\<not> d < D"
      then have "slot p (?h + D) \<noteq> 0" using d(2) unfolding reach_def by (cases "d = D") auto
      then show False using D(2) by simp
    qed
    then have split: "[0..<D] = [0..<d] @ d # [Suc d..<D]"
      using upt_add_eq_append [of 0 d "D - d"] by (simp add: upt_conv_Cons)
    have "\<not> (slot p (?h + e) \<le> ?L \<and> es ! (slot p (?h + e) - 1) = g)" if e: "Suc d \<le> e" "e < D" for e
    proof
      let ?j = "slot p (?h + e)"
      assume s: "?j \<le> ?L \<and> es ! (?j - 1) = g"
      have j: "0 < ?j" "?j \<le> length es" using D(3) [OF e(2)] le by auto
      have "?j - 1 < length es" using j by linarith
      then obtain d' where d': "d' < 8192" "reach p ?h d' (Suc (?j - 1))"
        using block_ok_reach [OF ok] s by metis
      then have sl: "slot p (?h + d') = ?j" using j by (simp add: reach_def)
      have "(?h + d') mod 8192 = (?h + e) mod 8192"
        using sl j by (intro block_ok_inject [OF ok]) simp_all
      then have "d' = e" using d'(1) e n D(1) by (intro mod_add_inject [of ?h d' 8192 e]) auto
      moreover have "\<not> Suc i < ?j"
      proof
        assume "Suc i < ?j"
        then have "take ?L es ! (?j - 1) \<noteq> g" using j s by (intro i(3)) auto
        moreover have "?j - 1 < ?L" using s j by linarith
        ultimately show False using s by simp
      qed
      moreover have "?j \<noteq> Suc i"
      proof
        assume "?j = Suc i"
        then have "(?h + d) mod 8192 = (?h + e) mod 8192"
          using d(2) by (intro block_ok_inject [OF ok]) (simp_all add: reach_def)
        then have "d = e" using d(1) e n D(1) by (intro mod_add_inject [of ?h d 8192 e]) auto
        then show False using e by simp
      qed
      ultimately have "?j < Suc i" "reach p ?h e ?j" using d'(2) j by simp_all
      then have "e < d" using reach_order [OF _ d(2)] by blast
      then show False using e by simp
    qed
    then have "fold ?step (?ss (Suc d) D) x = x" for x by (intro none) simp
    moreover have "slot p (?h + d) = Suc i" using d(2) by (simp add: reach_def)
    moreover have "Suc i + unat iZero \<le> unat iLast" using iL(2) last by linarith
    ultimately show ?thesis
      using iL Suc last by (simp add: split match_step_def)
  qed
  then show ?thesis using find by (simp add: walHash_less HASHTABLE_NSLOT_def Let_def)
qed

end
