(* ===== verification/WalShm.thy ===== *)
theory WalShm
  imports WalFormat WalBlock Prng
begin

text \<open>
  What a connection to a write-ahead log works on: its own object, the shared wal-index, the two
  files and the locks. The services of the operating system answer from a stream of outcomes: each call of
  the system or of the allocator takes the next one, and an empty stream means that every further call
  succeeds. The shared-memory locks and the mapping of the wal-index are those of \<^verbatim>\<open>src/os_unix.c\<close> for the
  connections of one process (\<open>unixShmLock\<close>, \<open>unixShmMap\<close>); the wrappers of \<^verbatim>\<open>src/wal.c\<close> follow.
\<close>

section \<open>The state\<close>

text \<open>A failing call has an error code and, if it writes, the number of bytes that it wrote before it failed.\<close>

datatype answer = Success | Failure int nat

record walst =
  pWal :: Wal
  shmHdr0 :: WalIndexHdr
  shmHdr1 :: WalIndexHdr
  nBackfill :: u32
  aReadMark :: "u32 list"
  regions :: "wpage list"
  shmSize :: nat
  shmReadonly :: bool
  ownLocks :: "u16 \<times> u16"
  siblings :: "(u16 \<times> u16) list"
  walFile :: "u8 list"
  dbFile :: "u8 list"
  answers :: "answer list"
  rng :: prng

text \<open>The locks of a connection are the pair of \<open>sharedMask\<close> and \<open>exclMask\<close>.\<close>

definition ask :: "walst \<Rightarrow> answer \<times> walst" where
  "ask s = (case answers s of [] \<Rightarrow> (Success, s) | a # as \<Rightarrow> (a, s\<lparr>answers := as\<rparr>))"

abbreviation (input) SQLITE_IOERR :: int where "SQLITE_IOERR \<equiv> 10"
abbreviation (input) SQLITE_BUSY :: int where "SQLITE_BUSY \<equiv> 5"
abbreviation (input) SQLITE_READONLY :: int where "SQLITE_READONLY \<equiv> 8"
definition SQLITE_IOERR_SHORT_READ :: int where "SQLITE_IOERR_SHORT_READ = 10 + 2 * 2 ^ 8"
definition SQLITE_IOERR_NOMEM :: int where "SQLITE_IOERR_NOMEM = 10 + 12 * 2 ^ 8"
definition SQLITE_IOERR_SHMSIZE :: int where "SQLITE_IOERR_SHMSIZE = 10 + 19 * 2 ^ 8"
definition SQLITE_IOERR_SHMMAP :: int where "SQLITE_IOERR_SHMMAP = 10 + 21 * 2 ^ 8"

definition fail_rc :: "int \<Rightarrow> int" where
  "fail_rc rc = (if rc = SQLITE_OK then SQLITE_IOERR else rc)"

lemma fail_rc_not_ok [simp]: "fail_rc rc \<noteq> SQLITE_OK"
  by (simp add: fail_rc_def)

section \<open>Files\<close>

text \<open>
  The methods of a file, as their documentation in \<^verbatim>\<open>src/sqlite.h.in\<close> has them: a write extends the
  file if need be, a read past the end is an error.
\<close>

definition write_at :: "nat \<Rightarrow> u8 list \<Rightarrow> u8 list \<Rightarrow> u8 list" where
  "write_at off bs f = (if bs = [] then f else take off (f @ replicate (off - length f) 0) @ bs @ drop (off + length bs) f)"

definition os_read :: "u8 list \<Rightarrow> nat \<Rightarrow> nat \<Rightarrow> walst \<Rightarrow> int \<times> u8 list \<times> walst" where
  "os_read f n off s =
     (case ask s of
        (Success, s) \<Rightarrow> if off + n \<le> length f then (SQLITE_OK, take n (drop off f), s) else (SQLITE_IOERR_SHORT_READ, [], s)
      | (Failure rc _, s) \<Rightarrow> (fail_rc rc, [], s))"

definition wal_write :: "nat \<Rightarrow> u8 list \<Rightarrow> walst \<Rightarrow> int \<times> walst" where
  "wal_write off bs s =
     (case ask s of
        (Success, s) \<Rightarrow> (SQLITE_OK, s\<lparr>walFile := write_at off bs (walFile s)\<rparr>)
      | (Failure rc n, s) \<Rightarrow> (fail_rc rc, s\<lparr>walFile := write_at off (take n bs) (walFile s)\<rparr>))"

definition db_write :: "nat \<Rightarrow> u8 list \<Rightarrow> walst \<Rightarrow> int \<times> walst" where
  "db_write off bs s =
     (case ask s of
        (Success, s) \<Rightarrow> (SQLITE_OK, s\<lparr>dbFile := write_at off bs (dbFile s)\<rparr>)
      | (Failure rc n, s) \<Rightarrow> (fail_rc rc, s\<lparr>dbFile := write_at off (take n bs) (dbFile s)\<rparr>))"

definition os_plain :: "walst \<Rightarrow> int \<times> walst" where
  "os_plain s = (case ask s of (Success, s) \<Rightarrow> (SQLITE_OK, s) | (Failure rc _, s) \<Rightarrow> (fail_rc rc, s))"

definition db_truncate :: "nat \<Rightarrow> walst \<Rightarrow> int \<times> walst" where
  "db_truncate n s = (case os_plain s of (rc, s) \<Rightarrow>
     if rc = SQLITE_OK then (rc, s\<lparr>dbFile := take n (dbFile s)\<rparr>) else (rc, s))"

definition wal_truncate :: "nat \<Rightarrow> walst \<Rightarrow> int \<times> walst" where
  "wal_truncate n s = (case os_plain s of (rc, s) \<Rightarrow>
     if rc = SQLITE_OK then (rc, s\<lparr>walFile := take n (walFile s)\<rparr>) else (rc, s))"

section \<open>Locks on the wal-index\<close>

datatype shm_lock = LOCK_SHARED | LOCK_EXCLUSIVE | UNLOCK_SHARED | UNLOCK_EXCLUSIVE

definition unixShmSystemLock :: "walst \<Rightarrow> int \<times> walst" where
  "unixShmSystemLock s = (case ask s of (Success, s) \<Rightarrow> (SQLITE_OK, s) | (Failure _ _, s) \<Rightarrow> (SQLITE_BUSY, s))"

definition lock_mask :: "nat \<Rightarrow> nat \<Rightarrow> u16" where
  "lock_mask ofst n = push_bit (ofst + n) 1 - push_bit ofst 1"

text \<open>
  The list of the connections holds the caller too; only the release leaves it out.
\<close>

definition unixShmLock :: "nat \<Rightarrow> nat \<Rightarrow> shm_lock \<Rightarrow> walst \<Rightarrow> int \<times> walst" where
  "unixShmLock ofst n flags s =
     (let m = lock_mask ofst n; (sharedMask, exclMask) = ownLocks s; conns = ownLocks s # siblings s in
      case flags of
        LOCK_SHARED \<Rightarrow>
          if \<exists>x \<in> set conns. snd x AND m \<noteq> 0 then (SQLITE_BUSY, s)
          else let allShared = foldr (\<lambda>x a. fst x OR a) conns 0;
                   (rc, s) = (if allShared AND m = 0 then unixShmSystemLock s else (SQLITE_OK, s))
               in if rc = SQLITE_OK then (rc, s\<lparr>ownLocks := (sharedMask OR m, exclMask)\<rparr>) else (rc, s)
      | LOCK_EXCLUSIVE \<Rightarrow>
          if \<exists>x \<in> set conns. snd x AND m \<noteq> 0 \<or> fst x AND m \<noteq> 0 then (SQLITE_BUSY, s)
          else let (rc, s) = unixShmSystemLock s
               in if rc = SQLITE_OK then (rc, s\<lparr>ownLocks := (sharedMask, exclMask OR m)\<rparr>) else (rc, s)
      | _ \<Rightarrow>
          let allMask = foldr (\<lambda>x a. fst x OR a) (siblings s) 0;
              (rc, s) = (if m AND allMask = 0 then unixShmSystemLock s else (SQLITE_OK, s))
          in if rc = SQLITE_OK then (rc, s\<lparr>ownLocks := (sharedMask AND NOT m, exclMask AND NOT m)\<rparr>) else (rc, s))"

definition walLockShared :: "nat \<Rightarrow> walst \<Rightarrow> int \<times> walst" where
  "walLockShared lockIdx s =
     (if exclusiveMode (pWal s) \<noteq> WAL_NORMAL_MODE then (SQLITE_OK, s) else unixShmLock lockIdx 1 LOCK_SHARED s)"

definition walUnlockShared :: "nat \<Rightarrow> walst \<Rightarrow> walst" where
  "walUnlockShared lockIdx s =
     (if exclusiveMode (pWal s) \<noteq> WAL_NORMAL_MODE then s else snd (unixShmLock lockIdx 1 UNLOCK_SHARED s))"

definition walLockExclusive :: "nat \<Rightarrow> nat \<Rightarrow> walst \<Rightarrow> int \<times> walst" where
  "walLockExclusive lockIdx n s =
     (if exclusiveMode (pWal s) \<noteq> WAL_NORMAL_MODE then (SQLITE_OK, s) else unixShmLock lockIdx n LOCK_EXCLUSIVE s)"

definition walUnlockExclusive :: "nat \<Rightarrow> nat \<Rightarrow> walst \<Rightarrow> walst" where
  "walUnlockExclusive lockIdx n s =
     (if exclusiveMode (pWal s) \<noteq> WAL_NORMAL_MODE then s else snd (unixShmLock lockIdx n UNLOCK_EXCLUSIVE s))"

definition WAL_WRITE_LOCK :: nat where "WAL_WRITE_LOCK = 0"
definition WAL_ALL_BUT_WRITE :: nat where "WAL_ALL_BUT_WRITE = 1"
definition WAL_CKPT_LOCK :: nat where "WAL_CKPT_LOCK = 1"
definition WAL_RECOVER_LOCK :: nat where "WAL_RECOVER_LOCK = 2"
definition WAL_READ_LOCK :: "nat \<Rightarrow> nat" where "WAL_READ_LOCK i = 3 + i"
definition SQLITE_SHM_NLOCK :: nat where "SQLITE_SHM_NLOCK = 8"
definition WAL_NREADER :: nat where "WAL_NREADER = SQLITE_SHM_NLOCK - 3"
definition READMARK_NOT_USED :: u32 where "READMARK_NOT_USED = 0xffffffff"

section \<open>Pages of the wal-index\<close>

text \<open>
  \<open>shmSize\<close> is the number of regions that the file of the shared memory has room for. The second
  component of the result says whether the pointer that is handed back is valid.
\<close>

definition unixShmMap :: "nat \<Rightarrow> bool \<Rightarrow> walst \<Rightarrow> int \<times> bool \<times> walst" where
  "unixShmMap iRegion bExtend s =
     (let out = (\<lambda>rc s. (if shmReadonly s \<and> rc = SQLITE_OK then SQLITE_READONLY else rc, iRegion < length (regions s), s)) in
      if iRegion < length (regions s) then out SQLITE_OK s
      else case ask s of
        (Failure _ _, s) \<Rightarrow> out SQLITE_IOERR_SHMSIZE s
      | (Success, s) \<Rightarrow>
          if shmSize s \<le> iRegion \<and> \<not> bExtend then out SQLITE_OK s
          else case (if shmSize s \<le> iRegion then ask s else (Success, s)) of
            (Failure _ k, s) \<Rightarrow> out SQLITE_IOERR_SHMSIZE (s\<lparr>shmSize := min iRegion (shmSize s + k)\<rparr>)
          | (Success, s) \<Rightarrow>
              let s = s\<lparr>shmSize := max (shmSize s) (iRegion + 1)\<rparr> in
              case ask s of
                (Failure _ _, s) \<Rightarrow> out SQLITE_IOERR_NOMEM s
              | (Success, s) \<Rightarrow>
                  case ask s of
                    (Failure _ k, s) \<Rightarrow> out SQLITE_IOERR_SHMMAP
                      (s\<lparr>regions := regions s @ map zero_page [length (regions s)..<min iRegion (length (regions s) + k)]\<rparr>)
                  | (Success, s) \<Rightarrow> out SQLITE_OK (s\<lparr>regions := regions s @ map zero_page [length (regions s)..<iRegion + 1]\<rparr>))"

definition set_mapped :: "nat \<Rightarrow> bool \<Rightarrow> walst \<Rightarrow> walst" where
  "set_mapped i b s = s\<lparr>pWal := (pWal s)\<lparr>apWiData := (apWiData (pWal s))[i := b]\<rparr>\<rparr>"

definition walIndexPage :: "nat \<Rightarrow> walst \<Rightarrow> int \<times> bool \<times> walst" where
  "walIndexPage iPage s =
     (let n = length (apWiData (pWal s)) in
      case (if n \<le> iPage then ask s else (Success, s)) of
        (Failure _ _, s) \<Rightarrow> (SQLITE_NOMEM, False, s)
      | (Success, s) \<Rightarrow>
          let s = s\<lparr>pWal := (pWal s)\<lparr>apWiData := apWiData (pWal s) @ replicate (iPage + 1 - n) False\<rparr>\<rparr> in
          if apWiData (pWal s) ! iPage then (SQLITE_OK, True, s)
          else if exclusiveMode (pWal s) = WAL_HEAPMEMORY_MODE then
            case ask s of
              (Failure _ _, s) \<Rightarrow> (SQLITE_NOMEM, False, s)
            | (Success, s) \<Rightarrow>
                (SQLITE_OK, True, set_mapped iPage True
                   (s\<lparr>regions := (regions s @ map zero_page [length (regions s)..<iPage + 1])[iPage := zero_page iPage]\<rparr>))
          else
            let (rc, p, s) = unixShmMap iPage (writeLock (pWal s)) s;
                s = set_mapped iPage p s
            in if rc = SQLITE_READONLY
               then (SQLITE_OK, p, s\<lparr>pWal := (pWal s)\<lparr>readOnly := (fst (readOnly (pWal s)), True)\<rparr>\<rparr>)
               else (rc, p, s))"

definition walFramePage :: "u32 \<Rightarrow> nat" where
  "walFramePage iFrame =
     unat ((iFrame + of_nat HASHTABLE_NPAGE - of_nat HASHTABLE_NPAGE_ONE - 1) div of_nat HASHTABLE_NPAGE)"

text \<open>
  The code hands out pointers to the hash table and the array of page \<open>iHash\<close>; both live in that page of
  \<open>regions\<close>. The result \<open>None\<close> is a null pointer that the callers would read through.
\<close>

definition walHashGet :: "nat \<Rightarrow> walst \<Rightarrow> (int \<times> u32 \<times> walst) option" where
  "walHashGet iHash s =
     (case walIndexPage iHash s of (rc, p, s) \<Rightarrow>
        if rc \<noteq> SQLITE_OK then Some (rc, 0, s)
        else if \<not> p then None
        else Some (rc, if iHash = 0 then 0 else of_nat HASHTABLE_NPAGE_ONE + of_nat (iHash - 1) * of_nat HASHTABLE_NPAGE, s))"

definition upd_region :: "nat \<Rightarrow> (wpage \<Rightarrow> wpage) \<Rightarrow> walst \<Rightarrow> walst" where
  "upd_region h f s = s\<lparr>regions := (regions s)[h := f (regions s ! h)]\<rparr>"

definition walFramePgno :: "u32 \<Rightarrow> walst \<Rightarrow> u32 option" where
  "walFramePgno iFrame s = do {
     let iHash = walFramePage iFrame;
     p \<leftarrow> rd (regions s) iHash;
     if iHash = 0 then rd (aPgno p) (unat (iFrame - 1))
     else rd (aPgno p) (unat ((iFrame - 1 - of_nat HASHTABLE_NPAGE_ONE) mod of_nat HASHTABLE_NPAGE))
   }"

definition walCleanupHash :: "walst \<Rightarrow> walst option" where
  "walCleanupHash s =
     (let mx = mxFrame (hdr (pWal s)); h = walFramePage mx in
      if mx = 0 then Some s
      else do {
        (rc, iZero, s) \<leftarrow> walHashGet h s;
        if rc \<noteq> SQLITE_OK then None else Some (upd_region h (cleanup_block (unat (mx - iZero))) s)
      })"

definition walIndexAppend :: "u32 \<Rightarrow> u32 \<Rightarrow> walst \<Rightarrow> (int \<times> walst) option" where
  "walIndexAppend iFrame iPage s = do {
     let h = walFramePage iFrame;
     (rc, iZero, s) \<leftarrow> walHashGet h s;
     if rc \<noteq> SQLITE_OK then Some (rc, s)
     else do {
       let idx = unat (iFrame - iZero);
       let s = (if idx = 1 then upd_region h clear_block s else s);
       g \<leftarrow> rd (aPgno (regions s ! h)) (idx - 1);
       s \<leftarrow> (if g \<noteq> 0 then walCleanupHash s else Some s);
       (rc, p) \<leftarrow> put_entry idx iPage (regions s ! h);
       Some (rc, upd_region h (\<lambda>_. p) s)
     }
   }"

text \<open>The loop of \<open>sqlite3WalFindFrame\<close> over the pages of the wal-index, from page \<open>n - 1\<close> down while nothing is found.\<close>

fun find_pages :: "nat \<Rightarrow> u32 \<Rightarrow> u32 \<Rightarrow> walst \<Rightarrow> (int \<times> u32 \<times> walst) option" where
  "find_pages 0 pgno iLast s = Some (SQLITE_OK, 0, s)"
| "find_pages (Suc iHash) pgno iLast s = do {
     (rc, iZero, s) \<leftarrow> walHashGet iHash s;
     if rc \<noteq> SQLITE_OK then Some (rc, 0, s)
     else do {
       r \<leftarrow> find_slot (regions s ! iHash) pgno iZero iLast (walHash pgno) HASHTABLE_NSLOT 0;
       (case r of
          Inl rc \<Rightarrow> Some (rc, 0, s)
        | Inr iRead \<Rightarrow> if iRead = 0 then find_pages iHash pgno iLast s else Some (SQLITE_OK, iRead, s))
     }
   }"

definition sqlite3WalFindFrame :: "u32 \<Rightarrow> walst \<Rightarrow> (int \<times> u32 \<times> walst) option" where
  "sqlite3WalFindFrame pgno s =
     (let iLast = mxFrame (hdr (pWal s)) in
      if iLast = 0 \<or> readLock (pWal s) = 0 then Some (SQLITE_OK, 0, s)
      else find_pages (walFramePage iLast + 1) pgno iLast s)"

end
