(* ===== verification/WalIndex.thy ===== *)
theory WalIndex
  imports WalShm
begin

text \<open>
  The wal-index as a whole: the pages together stand for the sequence of the page numbers of all frames of
  the log (\<open>index_ok\<close>). Appending extends the sequence, after cutting off what a writer that
  disappeared left behind; cleaning up cuts it at \<open>mxFrame\<close>; and a look-up at a snapshot
  \<open>mxFrame\<close> finds the last frame of a page up to there, whatever has been appended since.
\<close>

section \<open>The shape of the wal-index\<close>

definition blk_cap :: "nat \<Rightarrow> nat" where
  "blk_cap h = (if h = 0 then HASHTABLE_NPAGE_ONE else HASHTABLE_NPAGE)"

definition blk_zero :: "nat \<Rightarrow> nat" where
  "blk_zero h = (if h = 0 then 0 else HASHTABLE_NPAGE_ONE + (h - 1) * HASHTABLE_NPAGE)"

definition blk :: "nat \<Rightarrow> u32 list \<Rightarrow> u32 list" where
  "blk h fs = take (blk_cap h) (drop (blk_zero h) fs)"

definition mapped :: "walst \<Rightarrow> nat \<Rightarrow> bool" where
  "mapped s h \<longleftrightarrow> h < length (apWiData (pWal s)) \<and> apWiData (pWal s) ! h"

text \<open>In heap-memory mode the pages belong to the connection, and a page it has no pointer to does not exist.\<close>

definition shm_ok :: "walst \<Rightarrow> bool" where
  "shm_ok s \<longleftrightarrow> (\<forall>h<length (regions s). page_shape (blk_cap h) (regions s ! h)) \<and> (\<forall>h. mapped s h \<longrightarrow> h < length (regions s)) \<and>
     (exclusiveMode (pWal s) = WAL_HEAPMEMORY_MODE \<longrightarrow> (\<forall>h<length (regions s). mapped s h \<or> regions s ! h = zero_page h))"

text \<open>What obtaining a page may change.\<close>

definition map_step :: "walst \<Rightarrow> walst \<Rightarrow> bool" where
  "map_step s s' \<longleftrightarrow> (\<exists>a aw ro r z.
     s' = s\<lparr>answers := a, pWal := (pWal s)\<lparr>apWiData := aw, readOnly := (fst (readOnly (pWal s)), ro)\<rparr>, regions := r, shmSize := z\<rparr> \<and>
     (\<exists>t. r = regions s @ t) \<and> (\<forall>h. mapped s h \<longrightarrow> h < length aw \<and> aw ! h) \<and> (answers s = [] \<longrightarrow> a = []))"

lemma map_step_refl: "map_step s s"
  unfolding map_step_def by (rule exI [of _ "answers s"], rule exI [of _ "apWiData (pWal s)"],
      rule exI [of _ "snd (readOnly (pWal s))"], rule exI [of _ "regions s"], rule exI [of _ "shmSize s"]) (simp add: mapped_def)

lemma map_step_trans:
  assumes "map_step s s'" and "map_step s' s''"
  shows "map_step s s''"
proof -
  obtain a aw ro r z where 1: "s' = s\<lparr>answers := a, pWal := (pWal s)\<lparr>apWiData := aw, readOnly := (fst (readOnly (pWal s)), ro)\<rparr>, regions := r, shmSize := z\<rparr>"
      "\<exists>t. r = regions s @ t" "\<forall>h. mapped s h \<longrightarrow> h < length aw \<and> aw ! h" "answers s = [] \<longrightarrow> a = []"
    using assms(1) unfolding map_step_def by blast
  obtain a' aw' ro' r' z' where 2: "s'' = s'\<lparr>answers := a', pWal := (pWal s')\<lparr>apWiData := aw', readOnly := (fst (readOnly (pWal s')), ro')\<rparr>, regions := r', shmSize := z'\<rparr>"
      "\<exists>t. r' = regions s' @ t" "\<forall>h. mapped s' h \<longrightarrow> h < length aw' \<and> aw' ! h" "answers s' = [] \<longrightarrow> a' = []"
    using assms(2) unfolding map_step_def by blast
  have "s'' = s\<lparr>answers := a', pWal := (pWal s)\<lparr>apWiData := aw', readOnly := (fst (readOnly (pWal s)), ro')\<rparr>, regions := r', shmSize := z'\<rparr>"
    by (simp add: 1(1) 2(1))
  moreover have "\<exists>t. r' = regions s @ t" using 1 2(2) by auto
  moreover have "\<forall>h. mapped s h \<longrightarrow> h < length aw' \<and> aw' ! h" using 1 2(3) by (simp add: mapped_def)
  moreover have "answers s = [] \<longrightarrow> a' = []" using 1 2(4) by simp
  ultimately show ?thesis unfolding map_step_def by blast
qed

lemma map_step_simps:
  assumes "map_step s s'"
  shows "hdr (pWal s') = hdr (pWal s)" "szPage (pWal s') = szPage (pWal s)" "readLock (pWal s') = readLock (pWal s)"
    "exclusiveMode (pWal s') = exclusiveMode (pWal s)" "writeLock (pWal s') = writeLock (pWal s)" "nCkpt (pWal s') = nCkpt (pWal s)"
    "ckptLock (pWal s') = ckptLock (pWal s)"
    "shmHdr0 s' = shmHdr0 s" "shmHdr1 s' = shmHdr1 s" "nBackfill s' = nBackfill s" "aReadMark s' = aReadMark s" "ownLocks s' = ownLocks s"
    "siblings s' = siblings s" "walFile s' = walFile s" "dbFile s' = dbFile s" "rng s' = rng s" "answers s = [] \<Longrightarrow> answers s' = []"
    "h < length (regions s) \<Longrightarrow> regions s' ! h = regions s ! h" "length (regions s) \<le> length (regions s')"
    "mapped s h \<Longrightarrow> mapped s' h"
  using assms unfolding map_step_def by (auto simp: nth_append mapped_def)

lemma ask_cases:
  obtains (success) s' where "ask s = (Success, s')" "s' = s\<lparr>answers := tl (answers s)\<rparr>"
  | (failure) rc n s' where "ask s = (Failure rc n, s')" "s' = s\<lparr>answers := tl (answers s)\<rparr>" "answers s \<noteq> []"
proof (cases "answers s")
  case Nil
  then show ?thesis using success by (simp add: ask_def)
next
  case (Cons a as)
  then show ?thesis using success failure by (cases a) (auto simp: ask_def)
qed

lemma map_step_ask: "map_step s (s\<lparr>answers := tl (answers s)\<rparr>)"
  unfolding map_step_def by (rule exI [of _ "tl (answers s)"], rule exI [of _ "apWiData (pWal s)"],
      rule exI [of _ "snd (readOnly (pWal s))"], rule exI [of _ "regions s"], rule exI [of _ "shmSize s"]) (simp add: mapped_def)

text \<open>The relation between the states around a call that maps page \<open>i\<close>, with what the caller learns.\<close>

definition map_post :: "nat \<Rightarrow> walst \<Rightarrow> int \<Rightarrow> bool \<Rightarrow> walst \<Rightarrow> bool" where
  "map_post i s rc p s' \<longleftrightarrow> map_step s s' \<and> shm_ok s' \<and> (p \<longrightarrow> mapped s' i \<and> i < length (regions s')) \<and>
     (rc = SQLITE_OK \<and> (writeLock (pWal s) \<or> i < length (regions s) \<or> mapped s i) \<longrightarrow> p) \<and>
     (answers s = [] \<longrightarrow> rc = SQLITE_OK) \<and> (i < length (regions s) \<and> mapped s i \<longrightarrow> s' = s \<and> rc = SQLITE_OK)"

lemma zero_page_shape: "page_shape (blk_cap h) (zero_page h)"
  using block_ok_shape [OF zero_page_ok] by (simp add: blk_cap_def)

definition shm_map_post :: "nat \<Rightarrow> bool \<Rightarrow> walst \<Rightarrow> int \<Rightarrow> bool \<Rightarrow> walst \<Rightarrow> bool" where
  "shm_map_post i ext s rc p s' \<longleftrightarrow>
     (\<exists>a z k. s' = s\<lparr>answers := a, regions := regions s @ map zero_page [length (regions s)..<k], shmSize := z\<rparr> \<and>
        (answers s = [] \<longrightarrow> a = [])) \<and> p = (i < length (regions s')) \<and>
     ((rc = SQLITE_OK \<or> rc = SQLITE_READONLY) \<and> (ext \<or> i < length (regions s)) \<longrightarrow> p) \<and>
     (answers s = [] \<longrightarrow> rc = SQLITE_OK \<or> rc = SQLITE_READONLY)"

lemma shm_map_postI:
  assumes "s1 = s\<lparr>answers := a, regions := regions s @ map zero_page [length (regions s)..<k], shmSize := z\<rparr>"
    and "answers s = [] \<longrightarrow> a = [] \<and> (rc0 = SQLITE_OK \<or> rc0 = SQLITE_READONLY)"
    and "(rc0 = SQLITE_OK \<or> rc0 = SQLITE_READONLY) \<and> (ext \<or> i < length (regions s)) \<longrightarrow> i < length (regions s1)"
  shows "shm_map_post i ext s (if shmReadonly s1 \<and> rc0 = SQLITE_OK then SQLITE_READONLY else rc0) (i < length (regions s1)) s1"
  using assms unfolding shm_map_post_def by (intro conjI exI [of _ a] exI [of _ z] exI [of _ k]) auto

lemma unixShmMap_post:
  assumes "unixShmMap i ext s = (rc, p, s')"
  shows "shm_map_post i ext s rc p s'"
proof -
  note codes = SQLITE_IOERR_SHMSIZE_def SQLITE_IOERR_NOMEM_def SQLITE_IOERR_SHMMAP_def
  let ?out = "\<lambda>rc s. (if shmReadonly s \<and> rc = SQLITE_OK then SQLITE_READONLY else rc, i < length (regions s), s)"
  have out: "shm_map_post i ext s rc p s'"
    if "(rc, p, s') = ?out rc0 s1" "s1 = s\<lparr>answers := a, regions := regions s @ map zero_page [length (regions s)..<k], shmSize := z\<rparr>"
      "answers s = [] \<longrightarrow> a = [] \<and> (rc0 = SQLITE_OK \<or> rc0 = SQLITE_READONLY)"
      "(rc0 = SQLITE_OK \<or> rc0 = SQLITE_READONLY) \<and> (ext \<or> i < length (regions s)) \<longrightarrow> i < length (regions s1)"
    for rc0 s1 a k z
    using that(1) shm_map_postI [OF that(2-4)] by simp
  show ?thesis
  proof (cases "i < length (regions s)")
    case True
    then have "(rc, p, s') = ?out SQLITE_OK s" using assms by (auto simp: unixShmMap_def Let_def)
    then show ?thesis by (elim out [of _ _ "shmSize s" 0 "answers s"]) (simp_all add: True)
  next
    case False
    show ?thesis
    proof (cases rule: ask_cases [of s])
      case (failure rc0 n s1)
      then have "(rc, p, s') = ?out SQLITE_IOERR_SHMSIZE s1" using assms False by (auto simp: unixShmMap_def Let_def)
      then show ?thesis using failure by (elim out [of _ _ "shmSize s" 0 "tl (answers s)"]) (simp_all add: codes)
    next
      case (success s1)
      note s1 = success
      let ?ask = "if shmSize s1 \<le> i then ask s1 else (Success, s1)"
      have upto: "unixShmMap i ext s = (if shmSize s1 \<le> i \<and> \<not> ext then ?out SQLITE_OK s1
          else case ?ask of
            (Failure _ k, s) \<Rightarrow> ?out SQLITE_IOERR_SHMSIZE (s\<lparr>shmSize := min i (shmSize s + k)\<rparr>)
          | (Success, s) \<Rightarrow>
              let s = s\<lparr>shmSize := max (shmSize s) (i + 1)\<rparr> in
              case ask s of
                (Failure _ _, s) \<Rightarrow> ?out SQLITE_IOERR_NOMEM s
              | (Success, s) \<Rightarrow>
                  case ask s of
                    (Failure _ k, s) \<Rightarrow> ?out SQLITE_IOERR_SHMMAP
                      (s\<lparr>regions := regions s @ map zero_page [length (regions s)..<min i (length (regions s) + k)]\<rparr>)
                  | (Success, s) \<Rightarrow> ?out SQLITE_OK (s\<lparr>regions := regions s @ map zero_page [length (regions s)..<i + 1]\<rparr>))"
        unfolding unixShmMap_def Let_def by (simp only: success(1) False prod.case answer.case if_False)
      show ?thesis
      proof (cases "shmSize s1 \<le> i \<and> \<not> ext")
        case True
        then have "(rc, p, s') = ?out SQLITE_OK s1" using assms upto by simp
        then show ?thesis using True False success by (elim out [of _ _ "shmSize s" 0 "tl (answers s)"]) simp_all
      next
        case noexit: False
        obtain b s2 where q: "?ask = (b, s2)" by (cases ?ask)
        obtain as where s2: "s2 = s\<lparr>answers := as\<rparr>" "answers s = [] \<longrightarrow> as = [] \<and> b = Success"
        proof (cases "shmSize s1 \<le> i")
          case True
          show ?thesis
            by (cases rule: ask_cases [of s1]) (use True q s1 in \<open>auto intro: that [of "tl (tl (answers s))"]\<close>)
        next
          case False
          then show ?thesis using q s1 by (auto intro: that [of "tl (answers s)"])
        qed
        show ?thesis
        proof (cases b)
          case (Failure r k)
          then have "(rc, p, s') = ?out SQLITE_IOERR_SHMSIZE (s2\<lparr>shmSize := min i (shmSize s2 + k)\<rparr>)"
            using assms upto q noexit by auto
          then show ?thesis using s2(2) Failure
            by (elim out [of _ _ "min i (shmSize s2 + k)" 0 as]) (simp_all add: s2(1) codes)
        next
          case Success
          let ?s = "s2\<lparr>shmSize := max (shmSize s2) (i + 1)\<rparr>"
          show ?thesis
          proof (cases rule: ask_cases [of ?s])
            case (failure r k s3)
            then have "(rc, p, s') = ?out SQLITE_IOERR_NOMEM s3"
              using assms upto q noexit Success by (auto simp: Let_def)
            then show ?thesis using s2(2) failure
              by (elim out [of _ _ "shmSize ?s" 0 "tl as"]) (simp_all add: failure(2) s2(1) codes)
          next
            case s3: (success s3)
            show ?thesis
            proof (cases rule: ask_cases [of s3])
              case (failure r k s4)
              then have "(rc, p, s') = ?out SQLITE_IOERR_SHMMAP
                  (s4\<lparr>regions := regions s4 @ map zero_page [length (regions s4)..<min i (length (regions s4) + k)]\<rparr>)"
                using assms upto q noexit Success s3 by (auto simp: Let_def simp del: upt_Suc)
              moreover have "regions s4 = regions s" by (simp add: failure(2) s3(2) s2(1))
              ultimately show ?thesis using s2(2) s3 failure
                by (elim out [of _ _ "shmSize ?s" "min i (length (regions s4) + k)" "tl (tl as)"])
                  (auto simp: s3(2) s2(1) codes)
            next
              case (success s4)
              then have "(rc, p, s') = ?out SQLITE_OK (s4\<lparr>regions := regions s4 @ map zero_page [length (regions s4)..<i + 1]\<rparr>)"
                using assms upto q noexit Success s3 by (auto simp: Let_def simp del: upt_Suc)
              moreover have "regions s4 = regions s" by (simp add: success(2) s3(2) s2(1))
              ultimately show ?thesis using s2(2) s3 success
                by (elim out [of _ _ "shmSize ?s" "i + 1" "tl (tl as)"])
                  (simp_all add: s3(2) s2(1))
            qed
          qed
        qed
      qed
    qed
  qed
qed

lemma shm_map_post_ok:
  assumes "shm_map_post i ext s rc p s'" and "shm_ok s" and "exclusiveMode (pWal s) \<noteq> WAL_HEAPMEMORY_MODE"
  shows "map_step s s'" and "shm_ok s'" and "pWal s' = pWal s"
proof -
  obtain a z k where s': "s' = s\<lparr>answers := a, regions := regions s @ map zero_page [length (regions s)..<k], shmSize := z\<rparr>"
      "answers s = [] \<longrightarrow> a = []"
    using assms(1) by (auto simp: shm_map_post_def)
  show "pWal s' = pWal s" by (simp add: s')
  show "map_step s s'"
    unfolding map_step_def s'
    by (rule exI [of _ a], rule exI [of _ "apWiData (pWal s)"], rule exI [of _ "snd (readOnly (pWal s))"],
        rule exI [of _ "regions s @ map zero_page [length (regions s)..<k]"], rule exI [of _ z])
      (use s'(2) in \<open>auto simp: mapped_def\<close>)
  show "shm_ok s'"
    using assms(2,3) unfolding shm_ok_def mapped_def by (auto simp: s' nth_append zero_page_shape less_imp_diff_less)
qed

lemma map_step_mapped:
  assumes "map_step s s'" and "shm_ok s'" and "i < length (apWiData (pWal s'))" and "b \<longrightarrow> i < length (regions s')"
    and "\<not> apWiData (pWal s') ! i" and "exclusiveMode (pWal s') = WAL_HEAPMEMORY_MODE \<longrightarrow> b \<or> \<not> b"
  shows "map_step s (set_mapped i b s')" and "shm_ok (set_mapped i b s')"
proof -
  have m: "mapped (set_mapped i b s') h \<longleftrightarrow> (if h = i then b else mapped s' h)" for h
    using assms(3) by (auto simp: mapped_def set_mapped_def nth_list_update)
  have "map_step s' (set_mapped i b s')"
    unfolding map_step_def set_mapped_def
    by (rule exI [of _ "answers s'"], rule exI [of _ "(apWiData (pWal s'))[i := b]"], rule exI [of _ "snd (readOnly (pWal s'))"],
        rule exI [of _ "regions s'"], rule exI [of _ "shmSize s'"])
      (use assms(5) in \<open>auto simp: mapped_def nth_list_update_cases\<close>)
  then show "map_step s (set_mapped i b s')" using assms(1) by (rule map_step_trans [rotated])
  show "shm_ok (set_mapped i b s')"
    using assms unfolding shm_ok_def m by (auto simp: set_mapped_def mapped_def)
qed

lemma walIndexPage_post:
  assumes "walIndexPage i s = (rc, p, s')" and ok: "shm_ok s"
  shows "map_post i s rc p s'"
proof -
  let ?n = "length (apWiData (pWal s))"
  let ?ask = "if ?n \<le> i then ask s else (Success, s)"
  obtain b s1 where q: "?ask = (b, s1)" by (cases ?ask)
  have s1: "s1 = s\<lparr>answers := answers s1\<rparr>" "answers s = [] \<longrightarrow> answers s1 = [] \<and> b = Success" "b \<noteq> Success \<longrightarrow> ?n \<le> i" "?n > i \<longrightarrow> s1 = s"
    using q by (cases rule: ask_cases [of s]; auto split: if_splits)+
  have st: "map_step s s1" "shm_ok s1"
  proof -
    show "map_step s s1" unfolding map_step_def
      by (rule exI [of _ "answers s1"], rule exI [of _ "apWiData (pWal s)"], rule exI [of _ "snd (readOnly (pWal s))"],
          rule exI [of _ "regions s"], rule exI [of _ "shmSize s"], subst s1(1)) (use s1(2) in \<open>simp add: mapped_def\<close>)
    show "shm_ok s1" using ok by (subst s1(1)) (simp add: shm_ok_def mapped_def)
  qed
  show ?thesis
  proof (cases b)
    case (Failure r k)
    then have "rc = SQLITE_NOMEM" "\<not> p" "s' = s1" using assms(1) q by (auto simp: walIndexPage_def Let_def)
    then show ?thesis using st s1(2,3) Failure by (auto simp: map_post_def mapped_def)
  next
    case Success
    define s2 where "s2 = s1\<lparr>pWal := (pWal s1)\<lparr>apWiData := apWiData (pWal s1) @ replicate (i + 1 - ?n) False\<rparr>\<rparr>"
    have pw: "apWiData (pWal s1) = apWiData (pWal s)" by (subst s1(1)) simp
    have m2: "mapped s2 h \<longleftrightarrow> mapped s1 h" for h
      by (auto simp: mapped_def s2_def nth_append)
    have "map_step s1 s2" unfolding map_step_def s2_def
      by (rule exI [of _ "answers s1"], rule exI [of _ "apWiData (pWal s1) @ replicate (i + 1 - ?n) False"], rule exI [of _ "snd (readOnly (pWal s1))"],
          rule exI [of _ "regions s1"], rule exI [of _ "shmSize s1"]) (auto simp: mapped_def nth_append)
    then have st2: "map_step s s2" using st(1) map_step_trans by blast
    have ok2: "shm_ok s2" using st(2) unfolding shm_ok_def m2 by (simp add: s2_def)
    have l2: "i < length (apWiData (pWal s2))" by (simp add: s2_def pw)
    have res: "walIndexPage i s = (if apWiData (pWal s2) ! i then (SQLITE_OK, True, s2)
          else if exclusiveMode (pWal s2) = WAL_HEAPMEMORY_MODE then
            case ask s2 of
              (Failure _ _, s) \<Rightarrow> (SQLITE_NOMEM, False, s)
            | (Success, s) \<Rightarrow>
                (SQLITE_OK, True, set_mapped i True
                   (s\<lparr>regions := (regions s @ map zero_page [length (regions s)..<i + 1])[i := zero_page i]\<rparr>))
          else
            let (rc, p, s) = unixShmMap i (writeLock (pWal s2)) s2;
                s = set_mapped i p s
            in if rc = SQLITE_READONLY
               then (SQLITE_OK, p, s\<lparr>pWal := (pWal s)\<lparr>readOnly := (fst (readOnly (pWal s)), True)\<rparr>\<rparr>)
               else (rc, p, s))"
      using q Success unfolding walIndexPage_def Let_def by (simp add: s2_def)
    have em: "exclusiveMode (pWal s2) = exclusiveMode (pWal s)" "writeLock (pWal s2) = writeLock (pWal s)"
        "answers s = [] \<longrightarrow> answers s2 = []"
      using map_step_simps [OF st2] by simp_all
    have rg: "regions s2 = regions s" by (simp add: s2_def) (subst s1(1), simp)
    have em5: "mapped s2 h \<longleftrightarrow> mapped s h" for h
      unfolding m2 by (simp add: mapped_def pw)
    show ?thesis
    proof (cases "apWiData (pWal s2) ! i")
      case True
      then have "rc = SQLITE_OK" "p" "s' = s2" using assms(1) unfolding res by simp_all
      moreover have "mapped s2 i" using True l2 by (simp add: mapped_def)
      moreover have "s2 = s" if "mapped s i"
      proof -
        have "s1 = s" using that s1(4) by (simp add: mapped_def)
        then show ?thesis using that by (simp add: s2_def mapped_def)
      qed
      ultimately show ?thesis using st2 ok2 em by (auto simp: map_post_def shm_ok_def)
    next
      case unmapped: False
      then have nm: "\<not> mapped s i" using em5 by (auto simp: mapped_def)
      show ?thesis
      proof (cases "exclusiveMode (pWal s2) = WAL_HEAPMEMORY_MODE")
        case heap: True
        show ?thesis
        proof (cases rule: ask_cases [of s2])
          case (failure r k s3)
          then have r: "rc = SQLITE_NOMEM" "\<not> p" "s' = s3" using assms(1) unmapped heap unfolding res by simp_all
          have "map_step s2 s3" "shm_ok s3"
            using ok2 map_step_ask [of s2] unfolding failure(2) by (simp_all add: shm_ok_def mapped_def)
          then show ?thesis using r st2 map_step_trans nm failure(3) em(3) by (auto simp: map_post_def)
        next
          case (success s3)
          let ?r = "regions s3 @ map zero_page [length (regions s3)..<i + 1]"
          have rg3: "regions s3 = regions s" by (simp add: success(2) rg)
          have "?r ! i = zero_page i"
          proof (cases "i < length (regions s)")
            case True
            then have "regions s ! i = zero_page i" using ok heap nm em(1) unfolding shm_ok_def by auto
            then show ?thesis using True rg3 by (simp add: nth_append)
          qed (simp add: rg3 nth_append)
          then have r: "rc = SQLITE_OK" "p" "s' = set_mapped i True (s3\<lparr>regions := ?r\<rparr>)"
            using assms(1) unmapped heap success unfolding res by (simp_all del: upt_Suc) (metis list_update_id)
          let ?s4 = "s3\<lparr>regions := ?r\<rparr>"
          have m4: "mapped ?s4 h \<longleftrightarrow> mapped s2 h" for h by (simp add: mapped_def success(2))
          have st4: "map_step s2 ?s4" unfolding map_step_def
            by (rule exI [of _ "answers s3"], rule exI [of _ "apWiData (pWal s2)"], rule exI [of _ "snd (readOnly (pWal s2))"],
              rule exI [of _ ?r], rule exI [of _ "shmSize s2"]) (use success in \<open>auto simp: mapped_def\<close>)
          have ok4: "shm_ok ?s4" using ok2 unfolding shm_ok_def m4
            by (auto simp: success(2) nth_append zero_page_shape less_Suc_eq)
          have "map_step s s'" "shm_ok s'"
            using map_step_mapped [OF st4 ok4, of i True] l2 unmapped map_step_trans [OF st2] unfolding r by (simp_all add: success(2))
          moreover have "mapped s' i" "i < length (regions s')" using l2 by (simp_all add: r mapped_def set_mapped_def success(2))
          ultimately show ?thesis using r nm by (simp add: map_post_def)
        qed
      next
        case False
        obtain rc0 p0 s3 where m: "unixShmMap i (writeLock (pWal s2)) s2 = (rc0, p0, s3)" by (metis prod_cases3)
        note mp = unixShmMap_post [OF m] and mo = shm_map_post_ok [OF unixShmMap_post [OF m] ok2 False]
        have p0: "p0 \<longleftrightarrow> i < length (regions s3)" and o: "answers s = [] \<longrightarrow> rc0 = SQLITE_OK \<or> rc0 = SQLITE_READONLY"
          and x: "(rc0 = SQLITE_OK \<or> rc0 = SQLITE_READONLY) \<and> (writeLock (pWal s) \<or> i < length (regions s)) \<longrightarrow> p0"
          using mp em rg unfolding shm_map_post_def by auto
        let ?s4 = "set_mapped i p0 s3"
        have st4: "map_step s ?s4" "shm_ok ?s4"
          using map_step_mapped [OF map_step_trans [OF st2 mo(1)] mo(2), of i p0] l2 unmapped p0 by (simp_all add: mo(3))
        have mi: "p0 \<longrightarrow> mapped ?s4 i \<and> i < length (regions ?s4)"
          using p0 l2 by (auto simp: mapped_def set_mapped_def mo(3))
        show ?thesis
        proof (cases "rc0 = SQLITE_READONLY")
          case True
          then have r: "rc = SQLITE_OK" "p = p0" "s' = ?s4\<lparr>pWal := (pWal ?s4)\<lparr>readOnly := (fst (readOnly (pWal ?s4)), True)\<rparr>\<rparr>"
            using assms(1) unmapped False m unfolding res by (auto simp: Let_def)
          have "map_step ?s4 s'" unfolding map_step_def r
            by (rule exI [of _ "answers ?s4"], rule exI [of _ "apWiData (pWal ?s4)"], rule exI [of _ True],
              rule exI [of _ "regions ?s4"], rule exI [of _ "shmSize ?s4"]) (simp add: mapped_def)
          then have "map_step s s'" using st4 map_step_trans by blast
          moreover have "shm_ok s'" using st4(2) by (simp add: r shm_ok_def mapped_def)
          ultimately show ?thesis using mi nm x True by (simp add: map_post_def r) (simp add: mapped_def)
        next
          case rc0: False
          then have r: "rc = rc0" "p = p0" "s' = ?s4"
            using assms(1) unmapped False m unfolding res by (auto simp: Let_def split: if_splits)
          then show ?thesis using st4 mi nm x o rc0 by (simp add: map_post_def)
        qed
      qed
    qed
  qed
qed

section \<open>Blocks of the sequence\<close>

lemma blk_zero_Suc: "blk_zero (Suc h) = blk_zero h + blk_cap h"
  by (cases h) (simp_all add: blk_zero_def blk_cap_def block_consts)

lemma blk_cap_bounds: "0 < blk_cap h" "blk_cap h \<le> 4096"
  by (simp_all add: blk_cap_def block_consts)

lemma blk_zero_mono: "h < h' \<Longrightarrow> blk_zero h + blk_cap h \<le> blk_zero h'"
proof (induction h')
  case (Suc h')
  then show ?case using blk_cap_bounds(1) [of h'] by (cases "h = h'") (auto simp: blk_zero_Suc)
qed simp

lemma walFramePage_nat:
  assumes "0 < n" and "n + 33 < 2 ^ 32"
  shows "walFramePage (of_nat n) = (n + 33) div 4096"
proof -
  have "(of_nat n :: u32) + of_nat HASHTABLE_NPAGE - of_nat HASHTABLE_NPAGE_ONE - 1 = of_nat (n + 33)"
    by (simp add: block_consts)
  moreover have "unat (of_nat (n + 33) :: u32) = n + 33" using assms(2) unfolding unsigned_of_nat by (simp add: take_bit_nat_eq_self del: of_nat_add)
  ultimately show ?thesis
    unfolding walFramePage_def by (simp add: unat_div HASHTABLE_NPAGE_def del: of_nat_add)
qed

definition page_of :: "nat \<Rightarrow> nat" where
  "page_of n = (n + 33) div 4096"

text \<open>Frame \<open>n + 1\<close> is in block \<open>page_of (n + 1)\<close>.\<close>

lemma page_of_bounds: "blk_zero (page_of (Suc n)) \<le> n" "n < blk_zero (page_of (Suc n)) + blk_cap (page_of (Suc n))"
proof -
  let ?h = "page_of (Suc n)"
  have "4096 * ?h \<le> n + 34" "n + 34 < 4096 * ?h + 4096" by (simp_all add: page_of_def)
  then show "blk_zero ?h \<le> n" "n < blk_zero ?h + blk_cap ?h"
    by (cases "?h = 0"; simp add: blk_zero_def blk_cap_def block_consts diff_mult_distrib; linarith)+
qed

lemma page_of_unique: "blk_zero h \<le> n \<Longrightarrow> n < blk_zero h + blk_cap h \<Longrightarrow> page_of (Suc n) = h"
  using page_of_bounds [of n] blk_zero_mono [of h "page_of (Suc n)"] blk_zero_mono [of "page_of (Suc n)" h]
  by (cases h "page_of (Suc n)" rule: linorder_cases) auto

lemma blk_zero_le_iff: "blk_zero h \<le> n \<longleftrightarrow> h \<le> page_of (Suc n)"
  using page_of_bounds [of n] blk_zero_mono [of h "page_of (Suc n)"] blk_zero_mono [of "page_of (Suc n)" h]
  by (cases h "page_of (Suc n)" rule: linorder_cases) auto

definition index_ok :: "u32 list \<Rightarrow> walst \<Rightarrow> bool" where
  "index_ok fs s \<longleftrightarrow> shm_ok s \<and>
     (\<forall>h. blk_zero h < length fs \<longrightarrow> h < length (regions s) \<and> block_ok (blk_cap h) (blk h fs) (regions s ! h))"

lemma index_okD:
  assumes "index_ok fs s" and "blk_zero h < length fs"
  shows "h < length (regions s)" and "block_ok (blk_cap h) (blk h fs) (regions s ! h)"
  using assms by (simp_all add: index_ok_def)

lemma index_ok_map_step:
  assumes "index_ok fs s" and "map_step s s'" and "shm_ok s'"
  shows "index_ok fs s'"
  unfolding index_ok_def
proof (intro conjI allI impI)
  fix h
  assume h: "blk_zero h < length fs"
  show "h < length (regions s')" "block_ok (blk_cap h) (blk h fs) (regions s' ! h)"
    using index_okD [OF assms(1) h] map_step_simps(19,18) [OF assms(2)] by (auto simp: le_trans less_le_trans)
qed (rule assms(3))

lemma walHashGet_post:
  assumes "shm_ok s"
  shows "walHashGet i s = Some (rc, z, s') \<Longrightarrow> map_step s s' \<and> shm_ok s' \<and>
      (rc = SQLITE_OK \<longrightarrow> z = of_nat (blk_zero i) \<and> mapped s' i \<and> i < length (regions s')) \<and>
      (answers s = [] \<longrightarrow> rc = SQLITE_OK) \<and> (mapped s i \<longrightarrow> s' = s \<and> rc = SQLITE_OK)"
    and "writeLock (pWal s) \<or> i < length (regions s) \<Longrightarrow> \<exists>rc z s'. walHashGet i s = Some (rc, z, s')"
proof -
  obtain rc' p s1 where w: "walIndexPage i s = (rc', p, s1)" by (metis prod_cases3)
  have m: "map_post i s rc' p s1" using walIndexPage_post [OF w assms] .
  have z: "of_nat (blk_zero i) = (if i = 0 then 0 else of_nat HASHTABLE_NPAGE_ONE + of_nat (i - 1) * of_nat HASHTABLE_NPAGE :: u32)"
    by (simp add: blk_zero_def)
  have mp: "mapped s i \<Longrightarrow> i < length (regions s)" using assms by (simp add: shm_ok_def)
  show "map_step s s' \<and> shm_ok s' \<and> (rc = SQLITE_OK \<longrightarrow> z = of_nat (blk_zero i) \<and> mapped s' i \<and> i < length (regions s')) \<and>
      (answers s = [] \<longrightarrow> rc = SQLITE_OK) \<and> (mapped s i \<longrightarrow> s' = s \<and> rc = SQLITE_OK)"
    if "walHashGet i s = Some (rc, z, s')"
    using that m w mp unfolding walHashGet_def z map_post_def by (auto split: if_splits)
  show "\<exists>rc z s'. walHashGet i s = Some (rc, z, s')" if "writeLock (pWal s) \<or> i < length (regions s)"
    using that m w unfolding walHashGet_def map_post_def by auto
qed

section \<open>Clean-up and insertion\<close>

definition idx_step :: "walst \<Rightarrow> walst \<Rightarrow> bool" where
  "idx_step s s' \<longleftrightarrow> (\<exists>a aw ro r z.
     s' = s\<lparr>answers := a, pWal := (pWal s)\<lparr>apWiData := aw, readOnly := (fst (readOnly (pWal s)), ro)\<rparr>, regions := r, shmSize := z\<rparr> \<and>
     (\<forall>h. mapped s h \<longrightarrow> h < length aw \<and> aw ! h) \<and> (answers s = [] \<longrightarrow> a = []) \<and> length (regions s) \<le> length r)"

lemma map_step_idx_step: "map_step s s' \<Longrightarrow> idx_step s s'"
  unfolding map_step_def idx_step_def by (metis le_add1 length_append)

lemma idx_step_simps:
  assumes "idx_step s s'"
  shows "hdr (pWal s') = hdr (pWal s)" "szPage (pWal s') = szPage (pWal s)" "readLock (pWal s') = readLock (pWal s)"
    "exclusiveMode (pWal s') = exclusiveMode (pWal s)" "writeLock (pWal s') = writeLock (pWal s)" "nCkpt (pWal s') = nCkpt (pWal s)"
    "ckptLock (pWal s') = ckptLock (pWal s)" "truncateOnCommit (pWal s') = truncateOnCommit (pWal s)"
    "shmHdr0 s' = shmHdr0 s" "shmHdr1 s' = shmHdr1 s" "nBackfill s' = nBackfill s" "aReadMark s' = aReadMark s" "ownLocks s' = ownLocks s"
    "siblings s' = siblings s" "walFile s' = walFile s" "dbFile s' = dbFile s" "rng s' = rng s" "answers s = [] \<Longrightarrow> answers s' = []"
    "mapped s h \<Longrightarrow> mapped s' h" "length (regions s) \<le> length (regions s')"
  using assms unfolding idx_step_def by (auto simp: mapped_def)

lemma idx_step_trans:
  assumes "idx_step s s'" and "idx_step s' s''"
  shows "idx_step s s''"
proof -
  obtain a aw ro r z where 1: "s' = s\<lparr>answers := a, pWal := (pWal s)\<lparr>apWiData := aw, readOnly := (fst (readOnly (pWal s)), ro)\<rparr>, regions := r, shmSize := z\<rparr>"
      "\<forall>h. mapped s h \<longrightarrow> h < length aw \<and> aw ! h" "answers s = [] \<longrightarrow> a = []" "length (regions s) \<le> length r"
    using assms(1) unfolding idx_step_def by blast
  obtain a' aw' ro' r' z' where 2: "s'' = s'\<lparr>answers := a', pWal := (pWal s')\<lparr>apWiData := aw', readOnly := (fst (readOnly (pWal s')), ro')\<rparr>, regions := r', shmSize := z'\<rparr>"
      "\<forall>h. mapped s' h \<longrightarrow> h < length aw' \<and> aw' ! h" "answers s' = [] \<longrightarrow> a' = []" "length (regions s') \<le> length r'"
    using assms(2) unfolding idx_step_def by blast
  have "s'' = s\<lparr>answers := a', pWal := (pWal s)\<lparr>apWiData := aw', readOnly := (fst (readOnly (pWal s)), ro')\<rparr>, regions := r', shmSize := z'\<rparr>"
    by (simp add: 1(1) 2(1))
  moreover have "\<forall>h. mapped s h \<longrightarrow> h < length aw' \<and> aw' ! h" using 1 2(2) by (simp add: mapped_def)
  moreover have "answers s = [] \<longrightarrow> a' = []" "length (regions s) \<le> length r'" using 1 2(3,4) by simp_all
  ultimately show ?thesis unfolding idx_step_def by blast
qed

lemma idx_step_upd: "idx_step s (upd_region h f s)"
  unfolding idx_step_def upd_region_def
  by (rule exI [of _ "answers s"], rule exI [of _ "apWiData (pWal s)"], rule exI [of _ "snd (readOnly (pWal s))"],
      rule exI [of _ "(regions s)[h := f (regions s ! h)]"], rule exI [of _ "shmSize s"]) (simp add: mapped_def)

lemma shm_ok_upd:
  assumes "shm_ok s" and "mapped s h" and "page_shape (blk_cap h) (f (regions s ! h))"
  shows "shm_ok (upd_region h f s)"
proof -
  have m: "mapped (upd_region h f s) i \<longleftrightarrow> mapped s i" for i by (simp add: mapped_def upd_region_def)
  show ?thesis
    using assms unfolding shm_ok_def m by (auto simp: upd_region_def nth_list_update_cases)
qed

lemma upd_region_simps [simp]:
  "length (regions (upd_region h f s)) = length (regions s)" "pWal (upd_region h f s) = pWal s"
  "h < length (regions s) \<Longrightarrow> regions (upd_region h f s) ! h = f (regions s ! h)"
  "i \<noteq> h \<Longrightarrow> regions (upd_region h f s) ! i = regions s ! i" "mapped (upd_region h f s) i = mapped s i"
  by (simp_all add: upd_region_def mapped_def)

text \<open>
  The invariant after block \<open>h\<close> has become the last one: the blocks before it are as they were.
\<close>

lemma index_ok_cut:
  assumes "index_ok gs s" and "n \<le> length gs" and "blk_zero h < n" and "n \<le> blk_zero h + blk_cap h"
    and "mapped s h" and "f (regions s ! h) = p" and "block_ok (blk_cap h) (take (n - blk_zero h) (blk h gs)) p"
  shows "index_ok (take n gs) (upd_region h f s)"
  unfolding index_ok_def
proof (intro conjI allI impI)
  have h: "h < length (regions s)" using assms(1,5) by (simp add: index_ok_def shm_ok_def)
  show "shm_ok (upd_region h f s)"
    using assms(1,5,6) block_ok_shape [OF assms(7)] by (intro shm_ok_upd) (simp_all add: index_ok_def)
  fix i
  assume i: "blk_zero i < length (take n gs)"
  then have old: "i < length (regions s)" "block_ok (blk_cap i) (blk i gs) (regions s ! i)"
    using index_okD [OF assms(1), of i] by simp_all
  show "i < length (regions (upd_region h f s))" using old(1) by simp
  have "i \<le> h" using i assms(2,4) blk_zero_mono [of h i] by (cases "i \<le> h") auto
  show "block_ok (blk_cap i) (blk i (take n gs)) (regions (upd_region h f s) ! i)"
  proof (cases "i = h")
    case True
    have "blk h (take n gs) = take (n - blk_zero h) (blk h gs)"
      using assms(4) by (simp add: blk_def drop_take min_def)
    then show ?thesis using True h assms(6,7) by simp
  next
    case False
    then have "blk_zero i + blk_cap i \<le> n" using \<open>i \<le> h\<close> assms(3) blk_zero_mono [of i h] by simp
    then have "blk i (take n gs) = blk i gs" by (simp add: blk_def drop_take min_def)
    then show ?thesis using False old(2) by simp
  qed
qed

lemma page_of_fits: "Suc n + 33 < 2 ^ 32 \<Longrightarrow> walFramePage (of_nat (Suc n)) = page_of (Suc n)"
  using walFramePage_nat [of "Suc n"] by (simp add: page_of_def)

lemma frame_minus_zero:
  assumes "blk_zero h \<le> n" and "n < 2 ^ 32"
  shows "unat (of_nat n - of_nat (blk_zero h) :: u32) = n - blk_zero h"
proof -
  have "(of_nat n - of_nat (blk_zero h) :: u32) = of_nat (n - blk_zero h)" using assms(1) by simp
  then show ?thesis using assms(2) by (simp only: unsigned_of_nat) (simp add: take_bit_nat_eq_self)
qed

text \<open>
  The entries above \<open>mxFrame\<close> go; the page of \<open>mxFrame\<close> is mapped, since the index covers it.
\<close>

lemma walCleanupHash_mapped:
  assumes ok: "index_ok gs s" and n: "unat (mxFrame (hdr (pWal s))) = n" "n \<le> length gs" "0 < n" "n + 33 < 2 ^ 32"
    and m: "mapped s (page_of n)"
  shows "walCleanupHash s = Some (upd_region (page_of n) (cleanup_block (n - blk_zero (page_of n))) s)"
    and "index_ok (take n gs) (upd_region (page_of n) (cleanup_block (n - blk_zero (page_of n))) s)"
proof -
  let ?mx = "mxFrame (hdr (pWal s))"
  obtain n' where n': "n = Suc n'" using n(3) by (cases n) auto
  have mx: "?mx = of_nat n" "?mx \<noteq> 0" using n(1,3) by (auto simp flip: n(1))
  have pg: "walFramePage ?mx = page_of n" using page_of_fits [of n'] n(4) unfolding mx n' by simp
  note b = page_of_bounds [of n', folded n']
  have u: "unat (of_nat n - of_nat (blk_zero (page_of n)) :: u32) = n - blk_zero (page_of n)"
    using b n(4) by (intro frame_minus_zero) (simp_all add: n')
  have okh: "shm_ok s" using ok by (simp add: index_ok_def)
  obtain rc z s' where g: "walHashGet (page_of n) s = Some (rc, z, s')"
    using walHashGet_post(2) [OF okh] m okh by (metis shm_ok_def)
  have g': "s' = s" "rc = SQLITE_OK" "z = of_nat (blk_zero (page_of n))"
    using walHashGet_post(1) [OF okh g] m by simp_all
  show "walCleanupHash s = Some (upd_region (page_of n) (cleanup_block (n - blk_zero (page_of n))) s)"
    using mx(2) g g' u unfolding walCleanupHash_def Let_def pg by (simp add: mx(1))
  show "index_ok (take n gs) (upd_region (page_of n) (cleanup_block (n - blk_zero (page_of n))) s)"
  proof (rule index_ok_cut [OF ok n(2) _ _ m refl])
    show "blk_zero (page_of n) < n" "n \<le> blk_zero (page_of n) + blk_cap (page_of n)" using b by (simp_all add: n')
    have z: "blk_zero (page_of n) < length gs" using b n(2) by (simp add: n')
    have "n - blk_zero (page_of n) \<le> length (blk (page_of n) gs)"
      using b n(2) by (simp add: blk_def n') linarith
    then show "block_ok (blk_cap (page_of n)) (take (n - blk_zero (page_of n)) (blk (page_of n) gs))
        (cleanup_block (n - blk_zero (page_of n)) (regions s ! page_of n))"
      using index_okD(2) [OF ok z] by (rule cleanup_block_ok [rotated])
  qed
qed

lemma index_ok_snoc:
  assumes "index_ok fs s" and "blk_zero h \<le> length fs" and "length fs < blk_zero h + blk_cap h" and "mapped s h"
    and "block_ok (blk_cap h) (blk h fs @ [g]) p"
  shows "index_ok (fs @ [g]) (upd_region h (\<lambda>_. p) s)"
  unfolding index_ok_def
proof (intro conjI allI impI)
  have h: "h < length (regions s)" using assms(1,4) by (simp add: index_ok_def shm_ok_def)
  show "shm_ok (upd_region h (\<lambda>_. p) s)"
    using assms(1,4) block_ok_shape [OF assms(5)] by (intro shm_ok_upd) (simp_all add: index_ok_def)
  fix i
  assume i: "blk_zero i < length (fs @ [g])"
  have "i \<le> h" using i assms(3) blk_zero_mono [of h i] by (cases "i \<le> h") auto
  have "i < length (regions s) \<and> block_ok (blk_cap i) (blk i (fs @ [g])) (regions (upd_region h (\<lambda>_. p) s) ! i)"
  proof (cases "i = h")
    case True
    have "blk h (fs @ [g]) = blk h fs @ [g]" using assms(2,3) by (simp add: blk_def)
    then show ?thesis using True h assms(5) by simp
  next
    case False
    then have z: "blk_zero i + blk_cap i \<le> length fs" using \<open>i \<le> h\<close> assms(2) blk_zero_mono [of i h] by simp
    then have "blk i (fs @ [g]) = blk i fs" by (simp add: blk_def)
    then show ?thesis using False index_okD [OF assms(1), of i] z blk_cap_bounds(1) [of i] by simp
  qed
  then show "i < length (regions (upd_region h (\<lambda>_. p) s))" "block_ok (blk_cap i) (blk i (fs @ [g])) (regions (upd_region h (\<lambda>_. p) s) ! i)"
    by simp_all
qed

lemma index_ok_take:
  assumes "index_ok gs s" and "\<And>h. blk_zero h < n \<Longrightarrow> blk_zero h + blk_cap h \<le> n"
  shows "index_ok (take n gs) s"
  unfolding index_ok_def
proof (intro conjI allI impI)
  show "shm_ok s" using assms(1) by (simp add: index_ok_def)
  fix h
  assume h: "blk_zero h < length (take n gs)"
  then have "blk_cap h \<le> n - blk_zero h" using assms(2) [of h] by simp
  then have "blk h (take n gs) = blk h gs" by (simp add: blk_def drop_take min_absorb1)
  then show "h < length (regions s)" "block_ok (blk_cap h) (blk h (take n gs)) (regions s ! h)"
    using index_okD [OF assms(1), of h] h by simp_all
qed

text \<open>
  Appending frame \<open>n + 1\<close>. What the index holds beyond frame \<open>n\<close> is the trace of a writer that disappeared; it
  is cut off if \<open>n\<close> is the \<open>mxFrame\<close> of this connection.
\<close>

lemma walIndexAppend_post:
  assumes ok: "index_ok gs s" and n: "n \<le> length gs" "n = length gs \<or> unat (mxFrame (hdr (pWal s))) = n" "n + 34 < 2 ^ 32"
    and g: "g \<noteq> 0" and wr: "writeLock (pWal s)"
  shows "\<exists>rc s'. walIndexAppend (of_nat (Suc n)) g s = Some (rc, s') \<and> idx_step s s' \<and>
    (answers s = [] \<longrightarrow> rc = SQLITE_OK) \<and>
    (if rc = SQLITE_OK then index_ok (take n gs @ [g]) s' \<and> mapped s' (page_of (Suc n)) else index_ok gs s')"
proof -
  let ?h = "page_of (Suc n)"
  note b = page_of_bounds [of n]
  have okh: "shm_ok s" using ok by (simp add: index_ok_def)
  have pg: "walFramePage (of_nat (Suc n)) = ?h" using n(3) by (intro page_of_fits) simp
  obtain rc z s1 where hg: "walHashGet ?h s = Some (rc, z, s1)" using walHashGet_post(2) [OF okh] wr by metis
  have s1: "map_step s s1" "shm_ok s1" "answers s = [] \<longrightarrow> rc = SQLITE_OK" using walHashGet_post(1) [OF okh hg] by simp_all
  have ok1: "index_ok gs s1" using index_ok_map_step [OF ok s1(1,2)] .
  show ?thesis
  proof (cases "rc = SQLITE_OK")
    case False
    then have "walIndexAppend (of_nat (Suc n)) g s = Some (rc, s1)"
      unfolding walIndexAppend_def Let_def pg hg by simp
    then show ?thesis using False ok1 s1 map_step_idx_step by auto
  next
    case True
    then have z: "z = of_nat (blk_zero ?h)" and m: "mapped s1 ?h" and hr: "?h < length (regions s1)"
      using walHashGet_post(1) [OF okh hg] by simp_all
    let ?idx = "Suc n - blk_zero ?h"
    have idx: "unat (of_nat (Suc n) - z) = ?idx"
      unfolding z using b n(3) by (intro frame_minus_zero) simp_all
    define s2 where "s2 = (if ?idx = 1 then upd_region ?h clear_block s1 else s1)"
    have step2: "idx_step s s2" using s1(1) idx_step_upd map_step_idx_step idx_step_trans by (simp add: s2_def) blast
    have m2: "mapped s2 ?h" "?h < length (regions s2)" using m hr by (simp_all add: s2_def)
    \<comment> \<open>the state in which the entry is written\<close>
    have "\<exists>g0 s3. rd (aPgno (regions s2 ! ?h)) (?idx - 1) = Some g0 \<and>
        (if g0 \<noteq> 0 then walCleanupHash s2 else Some s2) = Some s3 \<and> idx_step s s3 \<and> index_ok (take n gs) s3 \<and>
        mapped s3 ?h \<and> ?h < length (regions s3) \<and> block_ok (blk_cap ?h) (blk ?h (take n gs)) (regions s3 ! ?h)"
    proof (cases "?idx = 1")
      case True
      then have zn: "blk_zero ?h = n" using b by simp
      have s2: "s2 = upd_region ?h clear_block s1" using True by (simp add: s2_def)
      have cl: "block_ok (blk_cap ?h) [] (regions s2 ! ?h)"
        using s1(2) hr unfolding s2 by (simp add: shm_ok_def clear_block_ok)
      have cut: "blk_zero i + blk_cap i \<le> n" if "blk_zero i < n" for i
        using that blk_zero_mono [of i ?h] blk_zero_mono [of ?h i] zn by (cases i ?h rule: linorder_cases) auto
      have "index_ok (take n gs) s1" using ok1 cut by (rule index_ok_take)
      then have "index_ok (take n gs) s2" unfolding index_ok_def
      proof (intro conjI allI impI)
        show "shm_ok s2" using s1(2) m cl unfolding s2 by (intro shm_ok_upd) (auto dest: block_ok_shape simp: hr)
        fix i assume i: "blk_zero i < length (take n gs)"
        then have "i \<noteq> ?h" using zn by auto
        then show "i < length (regions s2)" "block_ok (blk_cap i) (blk i (take n gs)) (regions s2 ! i)"
          using index_okD [OF \<open>index_ok (take n gs) s1\<close> i] by (simp_all add: s2)
      qed
      moreover have "blk ?h (take n gs) = []" using zn by (simp add: blk_def)
      moreover have "rd (aPgno (regions s2 ! ?h)) (?idx - 1) = Some 0"
        using cl True blk_cap_bounds(1) [of ?h] by (simp add: block_ok_def rd_def)
      ultimately show ?thesis using step2 m2 cl by auto
    next
      case False
      then have zn: "blk_zero ?h < n" and s2: "s2 = s1" using b by (simp_all add: s2_def)
      then have zl: "blk_zero ?h < length gs" using n(1) by simp
      have bo: "block_ok (blk_cap ?h) (blk ?h gs) (regions s2 ! ?h)" using index_okD(2) [OF ok1 zl] by (simp add: s2)
      have nb: "blk ?h (take n gs) = take (n - blk_zero ?h) (blk ?h gs)" using b by (simp add: blk_def drop_take min_def)
      have i1: "?idx - 1 = n - blk_zero ?h" using zn by simp
      have len: "n - blk_zero ?h < blk_cap ?h" using b by simp
      have pgno: "aPgno (regions s2 ! ?h) = blk ?h gs @ replicate (blk_cap ?h - length (blk ?h gs)) 0" and nz: "0 \<notin> set (blk ?h gs)"
        and le: "length (blk ?h gs) \<le> blk_cap ?h"
        using bo by (simp_all add: block_ok_def)
      show ?thesis
      proof (cases "n = length gs")
        case True
        then have "length (blk ?h gs) = n - blk_zero ?h" using b by (simp add: blk_def)
        then have "rd (aPgno (regions s2 ! ?h)) (?idx - 1) = Some 0" using len unfolding i1 pgno by (simp add: rd_def nth_append)
        then show ?thesis using step2 m2 bo ok1 True by (simp add: s2)
      next
        case lt: False
        then have mx: "unat (mxFrame (hdr (pWal s2))) = n" "n < length gs"
          using n map_step_simps(1) [OF s1(1)] by (simp_all add: s2)
        have ph: "page_of n = ?h" using zn b page_of_unique [of ?h "n - 1"] by simp
        have "n - blk_zero ?h < length (blk ?h gs)" using b mx(2) zn by (simp add: blk_def) linarith
        then have rd: "rd (aPgno (regions s2 ! ?h)) (?idx - 1) = Some (blk ?h gs ! (n - blk_zero ?h))" "blk ?h gs ! (n - blk_zero ?h) \<noteq> 0"
          using nz le unfolding i1 pgno by (auto simp: rd_def nth_append) (metis nth_mem)
        have ok2: "index_ok gs s2" using ok1 by (simp add: s2)
        note cl = walCleanupHash_mapped [OF ok2 mx(1) n(1), unfolded ph]
        let ?s3 = "upd_region ?h (cleanup_block (n - blk_zero ?h)) s2"
        have c: "walCleanupHash s2 = Some ?s3" "index_ok (take n gs) ?s3" using cl zn n(3) m2(1) by simp_all
        have "block_ok (blk_cap ?h) (blk ?h (take n gs)) (regions ?s3 ! ?h)"
          using index_okD(2) [OF c(2), of ?h] zn n(1) by simp
        then show ?thesis using rd c m2 idx_step_trans [OF step2 idx_step_upd] by auto
      qed
    qed
    then obtain g0 s3 where s3: "rd (aPgno (regions s2 ! ?h)) (?idx - 1) = Some g0"
        "(if g0 \<noteq> 0 then walCleanupHash s2 else Some s2) = Some s3" "idx_step s s3" "index_ok (take n gs) s3"
        "mapped s3 ?h" "?h < length (regions s3)" "block_ok (blk_cap ?h) (blk ?h (take n gs)) (regions s3 ! ?h)"
      by blast
    have lb: "length (blk ?h (take n gs)) = n - blk_zero ?h" using b n(1) by (simp add: blk_def)
    then have "length (blk ?h (take n gs)) < blk_cap ?h" using b by simp
    then obtain p where p: "put_entry (Suc (length (blk ?h (take n gs)))) g (regions s3 ! ?h) = Some (SQLITE_OK, p)"
        "block_ok (blk_cap ?h) (blk ?h (take n gs) @ [g]) p"
      using put_entry_ok [OF s3(7) _ g] by blast
    have "Suc (length (blk ?h (take n gs))) = ?idx" using b by (simp add: lb)
    moreover have "walIndexAppend (of_nat (Suc n)) g s = do {
        g' \<leftarrow> rd (aPgno (regions s2 ! ?h)) (?idx - 1);
        s \<leftarrow> (if g' \<noteq> 0 then walCleanupHash s2 else Some s2);
        (rc, p) \<leftarrow> put_entry ?idx g (regions s ! ?h);
        Some (rc, upd_region ?h (\<lambda>_. p) s)
      }"
      unfolding walIndexAppend_def Let_def pg hg s2_def True by (simp only: bind.bind_lunit prod.case idx simp_thms if_False)
    ultimately have "walIndexAppend (of_nat (Suc n)) g s = Some (SQLITE_OK, upd_region ?h (\<lambda>_. p) s3)"
      using p(1) s3(1,2) by simp
    moreover have "index_ok (take n gs @ [g]) (upd_region ?h (\<lambda>_. p) s3)"
      using b n(1) by (intro index_ok_snoc [OF s3(4) _ _ s3(5) p(2)]) simp_all
    ultimately show ?thesis using s3(3,5) idx_step_upd idx_step_trans by auto
  qed
qed

section \<open>Look-up\<close>

lemma find_pages_post:
  assumes "index_ok gs s" and "unat iLast = n" and "n \<le> length gs" and "n + 4096 < 2 ^ 32" and "\<And>h. h < k \<Longrightarrow> blk_zero h < n"
  shows "\<exists>rc r s'. find_pages k g iLast s = Some (rc, r, s') \<and> map_step s s' \<and> shm_ok s' \<and> (answers s = [] \<longrightarrow> rc = SQLITE_OK) \<and>
    (rc = SQLITE_OK \<longrightarrow> unat r = latest (take (min n (blk_zero k)) gs) g)"
  using assms
proof (induction k arbitrary: s)
  case 0
  then show ?case by (simp add: map_step_refl blk_zero_def index_ok_def)
next
  case (Suc h)
  have ok: "shm_ok s" using Suc.prems(1) by (simp add: index_ok_def)
  have zh: "blk_zero h < n" using Suc.prems(5) by simp
  then have zl: "blk_zero h < length gs" using Suc.prems(3) by simp
  obtain rc z s1 where hg: "walHashGet h s = Some (rc, z, s1)"
    using walHashGet_post(2) [OF ok] index_okD(1) [OF Suc.prems(1) zl] by metis
  have s1: "map_step s s1" "shm_ok s1" "answers s = [] \<longrightarrow> rc = SQLITE_OK" using walHashGet_post(1) [OF ok hg] by simp_all
  have ok1: "index_ok gs s1" using index_ok_map_step [OF Suc.prems(1) s1(1,2)] .
  show ?case
  proof (cases "rc = SQLITE_OK")
    case False
    then show ?thesis using hg s1 by simp
  next
    case True
    then have z: "z = of_nat (blk_zero h)" using walHashGet_post(1) [OF ok hg] by simp
    then have uz: "unat z = blk_zero h"
      using zh Suc.prems(4) by (simp add: unsigned_of_nat take_bit_nat_eq_self)
    let ?m = "latest (take (n - blk_zero h) (blk h gs)) g"
    have fb: "find_slot (regions s1 ! h) g z iLast (walHash g) HASHTABLE_NSLOT 0 =
        Some (Inr (if ?m = 0 then 0 else of_nat ?m + z))"
      using find_slot_latest [OF index_okD(2) [OF ok1 zl], of z iLast g 0] zh Suc.prems(2,4) blk_cap_bounds(2) [of h]
      by (simp add: uz Let_def)
    have split: "take (min n (blk_zero (Suc h))) gs = take (blk_zero h) gs @ take (n - blk_zero h) (blk h gs)"
    proof -
      have "min n (blk_zero (Suc h)) = blk_zero h + min (n - blk_zero h) (blk_cap h)" using zh by (simp add: blk_zero_Suc)
      then show ?thesis by (simp add: take_add blk_def min.commute)
    qed
    have mle: "?m \<le> n - blk_zero h" using latest_le [of "take (n - blk_zero h) (blk h gs)" g] by simp
    show ?thesis
    proof (cases "?m = 0")
      case True
      obtain rc' r s' where "find_pages h g iLast s1 = Some (rc', r, s')" "map_step s1 s'" "shm_ok s'" "answers s1 = [] \<longrightarrow> rc' = SQLITE_OK"
          "rc' = SQLITE_OK \<longrightarrow> unat r = latest (take (min n (blk_zero h)) gs) g"
        using Suc.IH [OF ok1] Suc.prems by auto
      moreover have "latest (take (min n (blk_zero (Suc h))) gs) g = latest (take (min n (blk_zero h)) gs) g"
        using True zh unfolding split by (simp add: latest_append latest_zero_iff)
      ultimately show ?thesis
        using hg fb True s1 map_step_trans [OF s1(1)] map_step_simps(17) [OF s1(1)] \<open>rc = SQLITE_OK\<close> by simp
    next
      case False
      have u: "unat (of_nat ?m + z :: u32) = ?m + blk_zero h"
      proof -
        have "(of_nat ?m + z :: u32) = of_nat (?m + blk_zero h)" by (simp add: z)
        then show ?thesis using mle zh Suc.prems(4) by (simp only: unsigned_of_nat) (simp add: take_bit_nat_eq_self)
      qed
      then have "of_nat ?m + z \<noteq> 0" using False by (metis add_is_0 unsigned_0)
      then have fp: "find_pages (Suc h) g iLast s = Some (SQLITE_OK, of_nat ?m + z, s1)"
        using hg fb False True by simp
      moreover have "unat (of_nat ?m + z :: u32) = latest (take (min n (blk_zero (Suc h))) gs) g"
        using False zh Suc.prems(3) unfolding u split by (simp add: latest_append latest_zero_iff)
      ultimately show ?thesis using s1 by blast
    qed
  qed
qed

lemma sqlite3WalFindFrame_post:
  assumes ok: "index_ok gs s" and n: "unat (mxFrame (hdr (pWal s))) = n" "n \<le> length gs" "n + 4096 < 2 ^ 32" and rl: "readLock (pWal s) \<noteq> 0"
  shows "\<exists>rc r s'. sqlite3WalFindFrame g s = Some (rc, r, s') \<and> map_step s s' \<and> shm_ok s' \<and> (answers s = [] \<longrightarrow> rc = SQLITE_OK) \<and>
    (rc = SQLITE_OK \<longrightarrow> unat r = latest (take n gs) g)"
proof (cases "n = 0")
  case True
  then have "mxFrame (hdr (pWal s)) = 0" using n(1) by (simp add: unat_eq_zero)
  then show ?thesis using ok by (simp add: sqlite3WalFindFrame_def Let_def map_step_refl True index_ok_def)
next
  case False
  then obtain n' where n': "n = Suc n'" by (cases n) auto
  let ?mx = "mxFrame (hdr (pWal s))"
  have mx: "?mx = of_nat n" "?mx \<noteq> 0" using n(1) False by (auto simp flip: n(1))
  have pg: "walFramePage ?mx = page_of n" using page_of_fits [of n'] n(3) unfolding mx n' by simp
  have z: "blk_zero h < n" if "h < page_of n + 1" for h
    using that blk_zero_le_iff [of h n'] by (simp add: n' less_Suc_eq_le)
  have "n \<le> blk_zero (page_of n + 1)" using page_of_bounds(2) [of n'] by (simp add: n' blk_zero_Suc)
  then have "take (min n (blk_zero (page_of n + 1))) gs = take n gs" by (simp add: min_absorb1)
  moreover have "sqlite3WalFindFrame g s = find_pages (page_of n + 1) g ?mx s"
    using mx(2) rl by (simp add: sqlite3WalFindFrame_def Let_def pg)
  ultimately show ?thesis using find_pages_post [OF ok n z, of "page_of n + 1" g] by simp
qed

end
