(* ===== verification/WalRead.thy ===== *)
theory WalRead
  imports WalIndex
begin

text \<open>
  Recovery of the wal-index from the log and the start of transactions, \<^verbatim>\<open>src/wal.c\<close>. A routine
  returns its result code and the state; \<open>None\<close> stands for an access outside the memory it was given. The call
  that waits between attempts (\<^verbatim>\<open>sqlite3OsSleep\<close>) and the memory barrier have no effect on the state.
\<close>

abbreviation (input) SQLITE_CANTOPEN :: int where "SQLITE_CANTOPEN \<equiv> 14"
abbreviation (input) SQLITE_PROTOCOL :: int where "SQLITE_PROTOCOL \<equiv> 15"
definition SQLITE_BUSY_RECOVERY :: int where "SQLITE_BUSY_RECOVERY = 5 + 2 ^ 8"
definition SQLITE_READONLY_RECOVERY :: int where "SQLITE_READONLY_RECOVERY = 8 + 2 ^ 8"
definition SQLITE_READONLY_CANTLOCK :: int where "SQLITE_READONLY_CANTLOCK = 8 + 2 * 2 ^ 8"
definition WAL_RETRY :: int where "WAL_RETRY = -1"
definition SQLITE_MAX_PAGE_SIZE :: u32 where "SQLITE_MAX_PAGE_SIZE = 65536"

definition upd_wal :: "(Wal \<Rightarrow> Wal) \<Rightarrow> walst \<Rightarrow> walst" where
  "upd_wal f s = s\<lparr>pWal := f (pWal s)\<rparr>"

definition upd_hdr :: "(WalIndexHdr \<Rightarrow> WalIndexHdr) \<Rightarrow> walst \<Rightarrow> walst" where
  "upd_hdr f s = s\<lparr>pWal := (pWal s)\<lparr>hdr := f (hdr (pWal s))\<rparr>\<rparr>"

definition zero_hdr :: WalIndexHdr where
  "zero_hdr = \<lparr>iVersion = 0, unused = 0, iChange = 0, isInitHdr = 0, bigEndCksum = 0, szPageHdr = 0, mxFrame = 0, nPage = 0,
     aFrameCksum = (0, 0), aSalt = replicate 8 0, aCksum = (0, 0)\<rparr>"

definition walIndexWriteHdr :: "walst \<Rightarrow> walst option" where
  "walIndexWriteHdr s =
     (if \<not> mapped s 0 then None
      else do {
        let h = (hdr (pWal s))\<lparr>isInitHdr := 1, iVersion := WALINDEX_MAX_VERSION\<rparr>;
        c \<leftarrow> walChecksumBytes True (hdr_bytes h) (0, 0);
        let h = h\<lparr>aCksum := c\<rparr>;
        Some ((upd_hdr (\<lambda>_. h) s)\<lparr>shmHdr1 := h, shmHdr0 := h\<rparr>)
      })"

section \<open>Recovery\<close>

text \<open>
  The loop over the frames of the log: \<open>k\<close> of them fit in the rest of the file, \<open>iFrame\<close> have been read, and
  \<open>c\<close> is the checksum of the last commit frame.
\<close>

fun recover_loop :: "nat \<Rightarrow> nat \<Rightarrow> u32 \<times> u32 \<Rightarrow> walst \<Rightarrow> (int \<times> (u32 \<times> u32) \<times> walst) option" where
  "recover_loop 0 iFrame c s = Some (SQLITE_OK, c, s)"
| "recover_loop (Suc k) iFrame c s =
     (let szFrame = page_bytes (pWal s) + WAL_FRAME_HDRSIZE;
          iOffset = WAL_HDRSIZE + iFrame * szFrame;
          iFrame = iFrame + 1;
          (rc, aFrame, s) = os_read (walFile s) szFrame iOffset s
      in if rc \<noteq> SQLITE_OK then Some (rc, c, s)
         else do {
           (isValid, w) \<leftarrow> walDecodeFrame (pWal s) (drop WAL_FRAME_HDRSIZE aFrame) (take WAL_FRAME_HDRSIZE aFrame);
           let s = s\<lparr>pWal := w\<rparr>;
           (case isValid of
              None \<Rightarrow> Some (SQLITE_OK, c, s)
            | Some (pgno, nTruncate) \<Rightarrow> do {
                (rc, s) \<leftarrow> walIndexAppend (of_nat iFrame) pgno s;
                if rc \<noteq> SQLITE_OK then Some (rc, c, s)
                else if nTruncate \<noteq> 0
                then let s = upd_hdr (\<lambda>h. h\<lparr>mxFrame := of_nat iFrame, nPage := nTruncate, szPageHdr := pack_szPage (szPage (pWal s))\<rparr>) s
                     in recover_loop k iFrame (aFrameCksum (hdr (pWal s))) s
                else recover_loop k iFrame c s
              })
         })"

text \<open>
  The part between the reading of the header and the label \<^verbatim>\<open>finished\<close>. The result is the code, whether control
  goes to \<^verbatim>\<open>finished\<close> (or else to \<^verbatim>\<open>recovery_error\<close>), and the checksum of the last commit. As an unsigned
  number a page size is refused in the same cases as in the code, where it is an \<^verbatim>\<open>int\<close>.
\<close>

definition recover_log :: "walst \<Rightarrow> (int \<times> bool \<times> (u32 \<times> u32) \<times> walst) option" where
  "recover_log s =
     (let nSize = length (walFile s); (rc, aBuf, s) = os_read (walFile s) WAL_HDRSIZE 0 s in
      if rc \<noteq> SQLITE_OK then Some (rc, False, (0, 0), s)
      else do {
        magic \<leftarrow> sqlite3Get4byte aBuf;
        sz \<leftarrow> sqlite3Get4byte (drop 8 aBuf);
        if magic AND 0xFFFFFFFE \<noteq> WAL_MAGIC \<or> sz AND (sz - 1) \<noteq> 0 \<or> sz > SQLITE_MAX_PAGE_SIZE \<or> sz < 512
        then Some (SQLITE_OK, True, (0, 0), s)
        else do {
          ckpt \<leftarrow> sqlite3Get4byte (drop 12 aBuf);
          let big = ucast (magic AND 1);
          c \<leftarrow> walChecksumBytes (big = SQLITE_BIGENDIAN) (take (WAL_HDRSIZE - 2 * 4) aBuf) (0, 0);
          let s = upd_wal (\<lambda>w. w\<lparr>szPage := sz, nCkpt := ckpt,
            hdr := (hdr w)\<lparr>bigEndCksum := big, aSalt := take 8 (drop 16 aBuf), aFrameCksum := c\<rparr>\<rparr>) s;
          c0 \<leftarrow> sqlite3Get4byte (drop 24 aBuf);
          c1 \<leftarrow> sqlite3Get4byte (drop 28 aBuf);
          version \<leftarrow> sqlite3Get4byte (drop 4 aBuf);
          if fst c \<noteq> c0 \<or> snd c \<noteq> c1 then Some (SQLITE_OK, True, (0, 0), s)
          else if version \<noteq> WAL_MAX_VERSION then Some (SQLITE_CANTOPEN, True, (0, 0), s)
          else case ask s of
            (Failure _ _, s) \<Rightarrow> Some (SQLITE_NOMEM, False, (0, 0), s)
          | (Success, s) \<Rightarrow> do {
              (rc, c, s) \<leftarrow> recover_loop ((nSize - WAL_HDRSIZE) div (unat sz + WAL_FRAME_HDRSIZE)) 0 (0, 0) s;
              Some (rc, True, c, s)
            }
        }
      })"

definition recover_finish :: "u32 \<times> u32 \<Rightarrow> walst \<Rightarrow> walst option" where
  "recover_finish c s = do {
     s \<leftarrow> walIndexWriteHdr (upd_hdr (\<lambda>h. h\<lparr>aFrameCksum := c\<rparr>) s);
     Some (s\<lparr>nBackfill := 0,
       aReadMark := [0, if mxFrame (hdr (pWal s)) \<noteq> 0 then mxFrame (hdr (pWal s)) else READMARK_NOT_USED] @
         replicate (WAL_NREADER - 2) READMARK_NOT_USED\<rparr>)
   }"

definition walIndexRecover :: "walst \<Rightarrow> (int \<times> walst) option" where
  "walIndexRecover s =
     (let iLock = WAL_ALL_BUT_WRITE + (if ckptLock (pWal s) then 1 else 0);
          nLock = SQLITE_SHM_NLOCK - iLock;
          (rc, s) = walLockExclusive iLock nLock s
      in if rc \<noteq> SQLITE_OK then Some (rc, s)
         else let s = upd_hdr (\<lambda>_. zero_hdr) s; (rc, s) = os_plain s
         in if rc \<noteq> SQLITE_OK then Some (rc, walUnlockExclusive iLock nLock s)
         else do {
           (rc, fin, c, s) \<leftarrow> (if length (walFile s) > WAL_HDRSIZE then recover_log s else Some (rc, True, (0, 0), s));
           s \<leftarrow> (if fin \<and> rc = SQLITE_OK then recover_finish c s else Some s);
           Some (rc, walUnlockExclusive iLock nLock s)
         })"

section \<open>Reading the header of the wal-index\<close>

text \<open>The components of the result: whether the header is bad, and \<^verbatim>\<open>*pChanged\<close>.\<close>

definition walIndexTryHdr :: "bool \<Rightarrow> walst \<Rightarrow> (bool \<times> bool \<times> walst) option" where
  "walIndexTryHdr pChanged s =
     (if \<not> mapped s 0 then None
      else let h1 = shmHdr0 s; h2 = shmHdr1 s in
      if h1 \<noteq> h2 then Some (True, pChanged, s)
      else if isInitHdr h1 = 0 then Some (True, pChanged, s)
      else do {
        c \<leftarrow> walChecksumBytes True (hdr_bytes h1) (0, 0);
        if c \<noteq> aCksum h1 then Some (True, pChanged, s)
        else if hdr (pWal s) \<noteq> h1
        then let s = upd_hdr (\<lambda>_. h1) s in Some (False, True, upd_wal (\<lambda>w. w\<lparr>szPage := walPagesize w\<rparr>) s)
        else Some (False, pChanged, s)
      })"

definition set_writeLock :: "bool \<Rightarrow> walst \<Rightarrow> walst" where
  "set_writeLock b = upd_wal (\<lambda>w. w\<lparr>writeLock := b\<rparr>)"

definition walIndexReadHdr :: "bool \<Rightarrow> walst \<Rightarrow> (int \<times> bool \<times> walst) option" where
  "walIndexReadHdr pChanged s =
     (case walIndexPage 0 s of (rc, page0, s) \<Rightarrow>
      if rc \<noteq> SQLITE_OK then Some (rc, pChanged, s)
      else do {
        (badHdr, pChanged, s) \<leftarrow> (if page0 then walIndexTryHdr pChanged s else Some (True, pChanged, s));
        (rc, badHdr, pChanged, s) \<leftarrow>
          (if badHdr then
             if snd (readOnly (pWal s)) then
               (case walLockShared WAL_WRITE_LOCK s of (rc, s) \<Rightarrow>
                  if rc = SQLITE_OK then Some (SQLITE_READONLY_RECOVERY, badHdr, pChanged, walUnlockShared WAL_WRITE_LOCK s)
                  else Some (rc, badHdr, pChanged, s))
             else
               (case walLockExclusive WAL_WRITE_LOCK 1 s of (rc, s) \<Rightarrow>
                  if rc = SQLITE_OK then do {
                    let s = set_writeLock True s;
                    (rc, badHdr, pChanged, s) \<leftarrow>
                      (case walIndexPage 0 s of (rc, page0, s) \<Rightarrow>
                         if rc = SQLITE_OK then do {
                           (badHdr, pChanged, s) \<leftarrow> walIndexTryHdr pChanged s;
                           if badHdr then do {
                             (rc, s) \<leftarrow> walIndexRecover s;
                             Some (rc, badHdr, True, s)
                           } else Some (rc, badHdr, pChanged, s)
                         } else Some (rc, badHdr, pChanged, s));
                    Some (rc, badHdr, pChanged, walUnlockExclusive WAL_WRITE_LOCK 1 (set_writeLock False s))
                  }
                  else Some (rc, badHdr, pChanged, s))
           else Some (rc, badHdr, pChanged, s));
        Some (if \<not> badHdr \<and> iVersion (hdr (pWal s)) \<noteq> WALINDEX_MAX_VERSION then SQLITE_CANTOPEN else rc, pChanged, s)
      })"

section \<open>Read transactions\<close>

text \<open>The largest mark that does not exceed \<open>mxFrame\<close>, with its index.\<close>

definition best_mark :: "walst \<Rightarrow> u32 \<times> nat" where
  "best_mark s = fold (\<lambda>i (mxReadMark, mxI).
     let thisMark = aReadMark s ! i
     in if mxReadMark \<le> thisMark \<and> thisMark \<le> mxFrame (hdr (pWal s)) then (thisMark, i) else (mxReadMark, mxI))
     [1..<WAL_NREADER] (0, 0)"

text \<open>
  The loop that takes the first mark whose lock it can get and sets it to \<open>mxFrame\<close>; the result is \<open>Inl\<close> of the
  code with which the caller returns, or the code of the last attempt with the chosen mark, if any.
\<close>

fun grab_mark :: "nat list \<Rightarrow> int \<Rightarrow> walst \<Rightarrow> (int + int \<times> nat option) \<times> walst" where
  "grab_mark [] rc s = (Inr (rc, None), s)"
| "grab_mark (i # rest) rc s =
     (case walLockExclusive (WAL_READ_LOCK i) 1 s of (rc, s) \<Rightarrow>
        if rc = SQLITE_OK
        then (Inr (rc, Some i), walUnlockExclusive (WAL_READ_LOCK i) 1 (s\<lparr>aReadMark := (aReadMark s)[i := mxFrame (hdr (pWal s))]\<rparr>))
        else if rc \<noteq> SQLITE_BUSY then (Inl rc, s)
        else grab_mark rest rc s)"

definition set_readLock :: "int \<Rightarrow> walst \<Rightarrow> walst" where
  "set_readLock i = upd_wal (\<lambda>w. w\<lparr>readLock := i\<rparr>)"

text \<open>The second half of \<open>walTryBeginRead\<close>, from the choice of a mark on.\<close>

definition begin_with_mark :: "int \<Rightarrow> walst \<Rightarrow> int \<times> walst" where
  "begin_with_mark rc s =
     (let (mxReadMark, mxI) = best_mark s;
          (r, s) = (if \<not> snd (readOnly (pWal s)) \<and> (mxReadMark < mxFrame (hdr (pWal s)) \<or> mxI = 0)
                    then grab_mark [1..<WAL_NREADER] rc s else (Inr (rc, None), s))
      in case r of
           Inl rc \<Rightarrow> (rc, s)
         | Inr (rc, new) \<Rightarrow>
             let (mxReadMark, mxI) = (case new of None \<Rightarrow> (mxReadMark, mxI) | Some i \<Rightarrow> (mxFrame (hdr (pWal s)), i))
             in if mxI = 0 then (if rc = SQLITE_BUSY then WAL_RETRY else SQLITE_READONLY_CANTLOCK, s)
                else case walLockShared (WAL_READ_LOCK mxI) s of (rc, s) \<Rightarrow>
                  if rc \<noteq> SQLITE_OK then (if rc = SQLITE_BUSY then WAL_RETRY else rc, s)
                  else if aReadMark s ! mxI \<noteq> mxReadMark \<or> shmHdr0 s \<noteq> hdr (pWal s)
                  then (WAL_RETRY, walUnlockShared (WAL_READ_LOCK mxI) s)
                  else (rc, set_readLock (int mxI) s))"

text \<open>A \<^verbatim>\<open>SQLITE_BUSY\<close> from the header: does another connection recover the index?\<close>

definition busy_header :: "walst \<Rightarrow> int \<times> walst" where
  "busy_header s =
     (if \<not> mapped s 0 then (WAL_RETRY, s)
      else case walLockShared WAL_RECOVER_LOCK s of (rc, s) \<Rightarrow>
        if rc = SQLITE_OK then (WAL_RETRY, walUnlockShared WAL_RECOVER_LOCK s)
        else if rc = SQLITE_BUSY then (SQLITE_BUSY_RECOVERY, s)
        else (rc, s))"

definition walTryBeginRead :: "bool \<Rightarrow> bool \<Rightarrow> nat \<Rightarrow> walst \<Rightarrow> (int \<times> bool \<times> walst) option" where
  "walTryBeginRead pChanged useWal cnt s =
     (if cnt > 100 then Some (SQLITE_PROTOCOL, pChanged, s)
      else do {
        (rc, pChanged, s) \<leftarrow>
          (if \<not> useWal then do {
             (rc, pChanged, s) \<leftarrow> walIndexReadHdr pChanged s;
             let (rc, s) = (if rc = SQLITE_BUSY then busy_header s else (rc, s));
             Some (rc, pChanged, s)
           } else Some (SQLITE_OK, pChanged, s));
        if rc \<noteq> SQLITE_OK then Some (rc, pChanged, s)
        else if \<not> mapped s 0 then None
        else if \<not> useWal \<and> nBackfill s = mxFrame (hdr (pWal s)) then
          (case walLockShared (WAL_READ_LOCK 0) s of (rc, s) \<Rightarrow>
             if rc = SQLITE_OK then
               if shmHdr0 s \<noteq> hdr (pWal s) then Some (WAL_RETRY, pChanged, walUnlockShared (WAL_READ_LOCK 0) s)
               else Some (SQLITE_OK, pChanged, set_readLock 0 s)
             else if rc \<noteq> SQLITE_BUSY then Some (rc, pChanged, s)
             else (case begin_with_mark rc s of (rc, s) \<Rightarrow> Some (rc, pChanged, s)))
        else (case begin_with_mark rc s of (rc, s) \<Rightarrow> Some (rc, pChanged, s))
      })"

lemma walTryBeginRead_protocol: "100 < cnt \<Longrightarrow> walTryBeginRead pChanged useWal cnt s = Some (SQLITE_PROTOCOL, pChanged, s)"
  by (simp add: walTryBeginRead_def)

text \<open>The loop of \<open>sqlite3WalBeginReadTransaction\<close> and of \<open>walRestartLog\<close>; \<open>cnt\<close> attempts have been made.\<close>

function begin_loop :: "bool \<Rightarrow> bool \<Rightarrow> nat \<Rightarrow> walst \<Rightarrow> (int \<times> bool \<times> walst) option" where
  "begin_loop pChanged useWal cnt s =
     (case walTryBeginRead pChanged useWal (cnt + 1) s of
        None \<Rightarrow> None
      | Some (rc, pChanged, s) \<Rightarrow> if rc = WAL_RETRY then begin_loop pChanged useWal (cnt + 1) s else Some (rc, pChanged, s))"
  by pat_completeness auto

termination
proof (relation "measure (\<lambda>(pChanged, useWal, cnt, s). 101 - cnt)")
  fix pChanged useWal cnt s x2 x y xa ya
  assume "walTryBeginRead pChanged useWal (cnt + 1) s = Some x2" "(x, y) = x2" "(xa, ya) = y" "x = WAL_RETRY"
  then have "\<not> 100 < cnt + 1" using walTryBeginRead_protocol [of "cnt + 1" pChanged useWal s] by (auto simp: WAL_RETRY_def)
  then show "((xa, useWal, cnt + 1, ya), pChanged, useWal, cnt, s) \<in> measure (\<lambda>(pChanged, useWal, cnt, s). 101 - cnt)"
    by simp
qed simp

declare begin_loop.simps [simp del]

definition sqlite3WalBeginReadTransaction :: "bool \<Rightarrow> walst \<Rightarrow> (int \<times> bool \<times> walst) option" where
  "sqlite3WalBeginReadTransaction pChanged s = begin_loop pChanged False 0 s"

section \<open>Write transactions and the end of transactions\<close>

definition sqlite3WalBeginWriteTransaction :: "walst \<Rightarrow> (int \<times> walst) option" where
  "sqlite3WalBeginWriteTransaction s =
     (if readOnly (pWal s) \<noteq> (False, False) then Some (SQLITE_READONLY, s)
      else case walLockExclusive WAL_WRITE_LOCK 1 s of (rc, s) \<Rightarrow>
        if rc \<noteq> SQLITE_OK then Some (rc, s)
        else if \<not> mapped s 0 then None
        else let s = set_writeLock True s
          in if hdr (pWal s) \<noteq> shmHdr0 s
             then Some (SQLITE_BUSY, set_writeLock False (walUnlockExclusive WAL_WRITE_LOCK 1 s))
             else Some (rc, s))"

definition sqlite3WalEndWriteTransaction :: "walst \<Rightarrow> walst" where
  "sqlite3WalEndWriteTransaction s =
     (if writeLock (pWal s)
      then upd_wal (\<lambda>w. w\<lparr>writeLock := False, truncateOnCommit := False\<rparr>) (walUnlockExclusive WAL_WRITE_LOCK 1 s)
      else s)"

definition sqlite3WalEndReadTransaction :: "walst \<Rightarrow> walst" where
  "sqlite3WalEndReadTransaction s =
     (let s = sqlite3WalEndWriteTransaction s
      in if readLock (pWal s) \<ge> 0
         then set_readLock (-1) (walUnlockShared (WAL_READ_LOCK (nat (readLock (pWal s)))) s)
         else s)"

definition sqlite3WalDbsize :: "walst \<Rightarrow> u32" where
  "sqlite3WalDbsize s = (if readLock (pWal s) \<ge> 0 then nPage (hdr (pWal s)) else 0)"

definition sqlite3WalReadFrame :: "u32 \<Rightarrow> nat \<Rightarrow> walst \<Rightarrow> int \<times> u8 list \<times> walst" where
  "sqlite3WalReadFrame iRead nOut s =
     (let sz = walPagesize (pWal s)
      in os_read (walFile s) (if nOut > unat sz then unat sz else nOut) (walFrameOffset iRead sz + WAL_FRAME_HDRSIZE) s)"

end
