(* ===== verification/WalWrite.thy ===== *)
theory WalWrite
  imports WalRead
begin

text \<open>
  Writing to the log, \<^verbatim>\<open>src/wal.c\<close>: restarting the log, the frames of a transaction with their
  padding and the update of the wal-index, rolling back to the start of the transaction or to a savepoint. A page
  to be written is the pair of its number and its content; the codec that encrypts a page before it is written
  (\<^verbatim>\<open>sqlite3PagerCodec\<close>, null when it fails) is the parameter \<open>E\<close>.
\<close>

definition SQLITE_SYNC_MASK :: nat where "SQLITE_SYNC_MASK = 0x13"
definition WAL_SYNC_TRANSACTIONS :: nat where "WAL_SYNC_TRANSACTIONS = 0x20"

section \<open>Restarting the log\<close>

text \<open>The seed of the random number generator is the parameter \<open>k\<close>.\<close>

definition walRestartLog :: "u8 list \<Rightarrow> walst \<Rightarrow> (int \<times> walst) option" where
  "walRestartLog k s =
     (if readLock (pWal s) \<noteq> 0 then Some (SQLITE_OK, s)
      else if \<not> mapped s 0 then None
      else do {
        (rc, s) \<leftarrow>
          (if nBackfill s > 0 then
             (case sqlite3_randomness k 4 (rng s) of (salt1, r) \<Rightarrow>
              case walLockExclusive (WAL_READ_LOCK 1) (WAL_NREADER - 1) (s\<lparr>rng := r\<rparr>) of (rc, s) \<Rightarrow>
                if rc = SQLITE_OK then do {
                  salt0 \<leftarrow> sqlite3Get4byte (aSalt (hdr (pWal s)));
                  s \<leftarrow> walIndexWriteHdr (upd_wal (\<lambda>w. w\<lparr>nCkpt := nCkpt w + 1,
                    hdr := (hdr w)\<lparr>mxFrame := 0, aSalt := sqlite3Put4byte (1 + salt0) @ salt1\<rparr>\<rparr>) s);
                  let s = s\<lparr>nBackfill := 0, aReadMark := [aReadMark s ! 0, 0] @ replicate (WAL_NREADER - 2) READMARK_NOT_USED\<rparr>;
                  Some (SQLITE_OK, walUnlockExclusive (WAL_READ_LOCK 1) (WAL_NREADER - 1) s)
                }
                else if rc \<noteq> SQLITE_BUSY then Some (rc, s)
                else Some (SQLITE_OK, s))
           else Some (SQLITE_OK, s));
        if rc \<noteq> SQLITE_OK then Some (rc, s)
        else do {
          (rc, _, s) \<leftarrow> begin_loop False True 0 (set_readLock (-1) (walUnlockShared (WAL_READ_LOCK 0) s));
          Some (rc, s)
        }
      })"

section \<open>Writing frames\<close>

record WalWriter =
  iSyncPoint :: nat
  wSyncFlags :: nat
  wSzPage :: nat

definition walWriteToLog :: "WalWriter \<Rightarrow> u8 list \<Rightarrow> nat \<Rightarrow> walst \<Rightarrow> int \<times> walst" where
  "walWriteToLog p bs iOffset s =
     (if iOffset < iSyncPoint p \<and> iOffset + length bs \<ge> iSyncPoint p then
        (let iFirstAmt = iSyncPoint p - iOffset; (rc, s) = wal_write iOffset (take iFirstAmt bs) s
         in if rc \<noteq> SQLITE_OK then (rc, s)
            else let (rc, s) = os_plain s
              in if length bs - iFirstAmt = 0 \<or> rc \<noteq> SQLITE_OK then (rc, s)
                 else wal_write (iOffset + iFirstAmt) (drop iFirstAmt bs) s)
      else wal_write iOffset bs s)"

definition walWriteOneFrame ::
  "(u32 \<Rightarrow> u8 list \<Rightarrow> u8 list option) \<Rightarrow> WalWriter \<Rightarrow> u32 \<times> u8 list \<Rightarrow> u32 \<Rightarrow> nat \<Rightarrow> walst \<Rightarrow> (int \<times> walst) option" where
  "walWriteOneFrame E p pPage nTruncate iOffset s =
     (case E (fst pPage) (snd pPage) of
        None \<Rightarrow> Some (SQLITE_NOMEM, s)
      | Some pData \<Rightarrow> do {
          (aFrame, w) \<leftarrow> walEncodeFrame (pWal s) (fst pPage) nTruncate pData;
          let (rc, s) = walWriteToLog p aFrame iOffset (s\<lparr>pWal := w\<rparr>);
          if rc \<noteq> SQLITE_OK then Some (rc, s)
          else Some (walWriteToLog p (take (wSzPage p) pData) (iOffset + length aFrame) s)
        })"

text \<open>The loop over the list of dirty pages; the last frame of a commit carries the size of the database.\<close>

fun write_frames ::
  "(u32 \<Rightarrow> u8 list \<Rightarrow> u8 list option) \<Rightarrow> WalWriter \<Rightarrow> (u32 \<times> u8 list) list \<Rightarrow> bool \<Rightarrow> u32 \<Rightarrow> nat \<Rightarrow> walst \<Rightarrow> (int \<times> nat \<times> walst) option" where
  "write_frames E p [] isCommit nTruncate iOffset s = Some (SQLITE_OK, iOffset, s)"
| "write_frames E p (pg # rest) isCommit nTruncate iOffset s = do {
     (rc, s) \<leftarrow> walWriteOneFrame E p pg (if isCommit \<and> rest = [] then nTruncate else 0) iOffset s;
     if rc \<noteq> SQLITE_OK then Some (rc, iOffset, s)
     else write_frames E p rest isCommit nTruncate (iOffset + (wSzPage p + WAL_FRAME_HDRSIZE)) s
   }"

text \<open>
  The padding to a sector boundary: copies of the last frame until the synchronization point is reached. The loop ends,
  as the offset grows in every round.
\<close>

function pad_frames ::
  "(u32 \<Rightarrow> u8 list \<Rightarrow> u8 list option) \<Rightarrow> WalWriter \<Rightarrow> u32 \<times> u8 list \<Rightarrow> u32 \<Rightarrow> nat \<Rightarrow> nat \<Rightarrow> walst \<Rightarrow> (int \<times> nat \<times> nat \<times> walst) option" where
  "pad_frames E p pLast nTruncate iOffset nExtra s =
     (if iOffset < iSyncPoint p then
        (case walWriteOneFrame E p pLast nTruncate iOffset s of
           None \<Rightarrow> None
         | Some (rc, s) \<Rightarrow>
             if rc \<noteq> SQLITE_OK then Some (rc, iOffset, nExtra, s)
             else pad_frames E p pLast nTruncate (iOffset + (wSzPage p + WAL_FRAME_HDRSIZE)) (nExtra + 1) s)
      else Some (SQLITE_OK, iOffset, nExtra, s))"
  by pat_completeness auto

termination
  by (relation "measure (\<lambda>(E, p, pLast, nTruncate, iOffset, nExtra, s). iSyncPoint p - iOffset)")
    (auto simp: WAL_FRAME_HDRSIZE_def)

declare pad_frames.simps [simp del]

definition walLimitSize :: "nat \<Rightarrow> walst \<Rightarrow> walst" where
  "walLimitSize nMax s =
     (case os_plain s of (rx, s) \<Rightarrow>
        if rx = SQLITE_OK \<and> length (walFile s) > nMax then snd (wal_truncate nMax s) else s)"

text \<open>The entries of the wal-index for the pages of the list, from frame \<open>iFrame + 1\<close> on.\<close>

fun append_pages :: "u32 list \<Rightarrow> u32 \<Rightarrow> walst \<Rightarrow> (int \<times> u32 \<times> walst) option" where
  "append_pages [] iFrame s = Some (SQLITE_OK, iFrame, s)"
| "append_pages (pgno # rest) iFrame s = do {
     let iFrame = iFrame + 1;
     (rc, s) \<leftarrow> walIndexAppend iFrame pgno s;
     if rc \<noteq> SQLITE_OK then Some (rc, iFrame, s) else append_pages rest iFrame s
   }"

text \<open>The header of a log whose first frame is to be written.\<close>

definition write_log_header :: "u8 list \<Rightarrow> u32 \<Rightarrow> nat \<Rightarrow> walst \<Rightarrow> (int \<times> walst) option" where
  "write_log_header k sz sync_flags s = do {
     let (salts, r) = (if nCkpt (pWal s) = 0 then sqlite3_randomness k 8 (rng s) else (aSalt (hdr (pWal s)), rng s));
     let h0 = sqlite3Put4byte (WAL_MAGIC OR ucast SQLITE_BIGENDIAN) @ sqlite3Put4byte WAL_MAX_VERSION @ sqlite3Put4byte sz @
       sqlite3Put4byte (nCkpt (pWal s)) @ salts;
     c \<leftarrow> walChecksumBytes True (take (WAL_HDRSIZE - 2 * 4) h0) (0, 0);
     let aWalHdr = h0 @ sqlite3Put4byte (fst c) @ sqlite3Put4byte (snd c);
     let s = upd_wal (\<lambda>w. w\<lparr>szPage := sz, truncateOnCommit := True,
       hdr := (hdr w)\<lparr>aSalt := salts, bigEndCksum := SQLITE_BIGENDIAN, aFrameCksum := c\<rparr>\<rparr>) (s\<lparr>rng := r\<rparr>);
     let (rc, s) = wal_write 0 aWalHdr s;
     Some (if rc \<noteq> SQLITE_OK then (rc, s)
           else if syncHeader (pWal s) \<and> sync_flags \<noteq> 0 then os_plain s
           else (rc, s))
   }"

text \<open>
  The writing part of \<open>sqlite3WalFrames\<close>: frames, padding and synchronization. The result tells whether the caller returns
  at once, which it does when a frame could not be written, and the number \<open>nExtra\<close> of copies.
\<close>

definition write_log ::
  "(u32 \<Rightarrow> u8 list \<Rightarrow> u8 list option) \<Rightarrow> nat \<Rightarrow> u32 \<Rightarrow> (u32 \<times> u8 list) list \<Rightarrow> u32 \<Rightarrow> bool \<Rightarrow> nat \<Rightarrow> walst \<Rightarrow> (int \<times> bool \<times> nat \<times> walst) option" where
  "write_log E sectorSize sz pList nTruncate isCommit sync_flags s = do {
     let w = \<lparr>iSyncPoint = 0, wSyncFlags = sync_flags, wSzPage = unat sz\<rparr>;
     (rc, iOffset, s) \<leftarrow> write_frames E w pList isCommit nTruncate (walFrameOffset (mxFrame (hdr (pWal s)) + 1) sz) s;
     if rc \<noteq> SQLITE_OK then Some (rc, True, 0, s)
     else if isCommit \<and> sync_flags AND WAL_SYNC_TRANSACTIONS \<noteq> 0 then
       (if padToSectorBoundary (pWal s) then do {
          let w = w\<lparr>iSyncPoint := ((iOffset + sectorSize - 1) div sectorSize) * sectorSize\<rparr>;
          (rc, _, nExtra, s) \<leftarrow> pad_frames E w (last pList) nTruncate iOffset 0 s;
          Some (rc, rc \<noteq> SQLITE_OK, nExtra, s)
        }
        else (case os_plain s of (rc, s) \<Rightarrow> Some (rc, False, 0, s)))
     else Some (rc, False, 0, s)
   }"

definition limit_log :: "bool \<Rightarrow> u32 \<Rightarrow> nat \<Rightarrow> walst \<Rightarrow> walst" where
  "limit_log isCommit szPg nFrames s =
     (if isCommit \<and> truncateOnCommit (pWal s) \<and> mxWalSize (pWal s) \<ge> 0 then
        (let off = walFrameOffset (mxFrame (hdr (pWal s)) + of_nat nFrames + 1) szPg;
             sz = (if int off > mxWalSize (pWal s) then off else nat (mxWalSize (pWal s)))
         in upd_wal (\<lambda>w. w\<lparr>truncateOnCommit := False\<rparr>) (walLimitSize sz s))
      else s)"

text \<open>
  Of \<open>sqlite3WalFrames\<close>, \<open>sz\<close> is \<^verbatim>\<open>szPage\<close> and \<open>sectorSize\<close> what the file reports as the size of a sector. The copies
  that pad the log are entered into the wal-index like frames of their own. After a failing
  \<^verbatim>\<open>fsync\<close> the log may be cut to its limit all the same, but the wal-index is not touched.
\<close>

definition sqlite3WalFrames ::
  "u8 list \<Rightarrow> (u32 \<Rightarrow> u8 list \<Rightarrow> u8 list option) \<Rightarrow> nat \<Rightarrow> u32 \<Rightarrow> (u32 \<times> u8 list) list \<Rightarrow> u32 \<Rightarrow> bool \<Rightarrow> nat \<Rightarrow> walst \<Rightarrow> (int \<times> walst) option" where
  "sqlite3WalFrames k E sectorSize sz pList nTruncate isCommit sync_flags s = do {
     (rc, s) \<leftarrow> walRestartLog k s;
     if rc \<noteq> SQLITE_OK then Some (rc, s)
     else do {
       (rc, s) \<leftarrow> (if mxFrame (hdr (pWal s)) = 0 then write_log_header k sz sync_flags s else Some (SQLITE_OK, s));
       if rc \<noteq> SQLITE_OK then Some (rc, s)
       else do {
         (rc, stop, nExtra, s) \<leftarrow> write_log E sectorSize sz pList nTruncate isCommit sync_flags s;
         if stop then Some (rc, s)
         else let s = limit_log isCommit sz (length pList + nExtra) s in
         if rc \<noteq> SQLITE_OK then Some (rc, s)
         else do {
           (rc, iFrame, s) \<leftarrow> append_pages (map fst pList @ replicate nExtra (fst (last pList))) (mxFrame (hdr (pWal s))) s;
           if rc \<noteq> SQLITE_OK then Some (rc, s)
           else do {
             let s = upd_hdr (\<lambda>h. h\<lparr>szPageHdr := pack_szPage sz, mxFrame := iFrame\<rparr>) s;
             if isCommit then do {
               s \<leftarrow> walIndexWriteHdr (upd_hdr (\<lambda>h. h\<lparr>iChange := iChange h + 1, nPage := nTruncate\<rparr>) s);
               Some (rc, upd_wal (\<lambda>w. w\<lparr>iCallback := iFrame\<rparr>) s)
             }
             else Some (rc, s)
           }
         }
       }
     }
   }"

section \<open>Rolling back\<close>

text \<open>
  \<open>xUndo\<close> is the callback of the pager, on its own state \<open>'c\<close>; \<open>undo_loop\<close> calls it for the frames \<open>iFrame\<close> to \<open>iMax\<close>. It stops after frame
  \<open>iMax\<close> also where the unsigned counter of the code would wrap around, after frame \<open>2\<^sup>3\<^sup>2 - 1\<close>.
\<close>

function undo_loop :: "('c \<Rightarrow> u32 \<Rightarrow> int \<times> 'c) \<Rightarrow> u32 \<Rightarrow> u32 \<Rightarrow> walst \<Rightarrow> 'c \<Rightarrow> (int \<times> 'c) option" where
  "undo_loop xUndo iFrame iMax s ctx =
     (if iFrame \<le> iMax then
        (case walFramePgno iFrame s of
           None \<Rightarrow> None
         | Some pgno \<Rightarrow> (case xUndo ctx pgno of (rc, ctx) \<Rightarrow>
             if rc \<noteq> SQLITE_OK \<or> iFrame = iMax then Some (rc, ctx) else undo_loop xUndo (iFrame + 1) iMax s ctx))
      else Some (SQLITE_OK, ctx))"
  by pat_completeness auto

termination
proof (relation "measure (\<lambda>(xUndo, iFrame, iMax, s, ctx). unat iMax - unat iFrame)")
  fix xUndo :: "'c \<Rightarrow> u32 \<Rightarrow> int \<times> 'c" and iFrame iMax :: u32 and s and ctx :: 'c and x2 x :: "32 word" and y :: 'c and z :: int
  assume "iFrame \<le> iMax" "\<not> (z \<noteq> SQLITE_OK \<or> iFrame = iMax)"
  then have lt: "unat iFrame < unat iMax" by (auto simp: word_le_nat_alt word_unat_eq_iff)
  moreover have "unat iMax < 2 ^ 32" using unsigned_less [of iMax] by simp
  ultimately have "unat (iFrame + 1) = unat iFrame + 1" by (simp add: unat_word_ariths)
  with lt show "((xUndo, iFrame + 1, iMax, s, y), xUndo, iFrame, iMax, s, ctx)
      \<in> measure (\<lambda>(xUndo, iFrame, iMax, s, ctx). unat iMax - unat iFrame)" by simp
qed simp

declare undo_loop.simps [simp del]

definition sqlite3WalUndo :: "('c \<Rightarrow> u32 \<Rightarrow> int \<times> 'c) \<Rightarrow> walst \<Rightarrow> 'c \<Rightarrow> (int \<times> 'c \<times> walst) option" where
  "sqlite3WalUndo xUndo s ctx =
     (if \<not> writeLock (pWal s) then Some (SQLITE_OK, ctx, s)
      else if \<not> mapped s 0 then None
      else do {
        let iMax = mxFrame (hdr (pWal s));
        let s = upd_hdr (\<lambda>_. shmHdr0 s) s;
        (rc, ctx) \<leftarrow> undo_loop xUndo (mxFrame (hdr (pWal s)) + 1) iMax s ctx;
        s \<leftarrow> (if iMax \<noteq> mxFrame (hdr (pWal s)) then walCleanupHash s else Some s);
        Some (rc, ctx, s)
      })"

definition sqlite3WalSavepoint :: "walst \<Rightarrow> u32 list" where
  "sqlite3WalSavepoint s =
     (let h = hdr (pWal s) in [mxFrame h, fst (aFrameCksum h), snd (aFrameCksum h), nCkpt (pWal s)])"

text \<open>The array that the savepoint filled is part of the result, since the code may update it.\<close>

definition sqlite3WalSavepointUndo :: "u32 list \<Rightarrow> walst \<Rightarrow> (int \<times> u32 list \<times> walst) option" where
  "sqlite3WalSavepointUndo aWalData s = do {
     d3 \<leftarrow> rd aWalData 3;
     let aWalData = (if d3 \<noteq> nCkpt (pWal s) then aWalData[0 := 0, 3 := nCkpt (pWal s)] else aWalData);
     d0 \<leftarrow> rd aWalData 0; d1 \<leftarrow> rd aWalData 1; d2 \<leftarrow> rd aWalData 2;
     if d0 < mxFrame (hdr (pWal s)) then do {
       s \<leftarrow> walCleanupHash (upd_hdr (\<lambda>h. h\<lparr>mxFrame := d0, aFrameCksum := (d1, d2)\<rparr>) s);
       Some (SQLITE_OK, aWalData, s)
     }
     else Some (SQLITE_OK, aWalData, s)
   }"

end
