(* ===== verification/WalSort.thy ===== *)
theory WalSort
  imports Prelude
begin

text \<open>
  The sort of a segment of the wal-index, \<^verbatim>\<open>walMerge\<close> and \<^verbatim>\<open>walMergesort\<close> of \<^verbatim>\<open>src/wal.c\<close>: indices into the
  array \<open>aContent\<close> of page numbers are sorted by the page number; of several indices of a page the largest one stays. The sort is a binary counter:
  the list number \<open>i\<close> of \<open>aSub\<close> covers \<open>2\<^sup>i\<close> indices. The lists are values here, where the code keeps them in the array that it sorts.
\<close>

section \<open>Definitions\<close>

text \<open>The second step of a round of \<open>walMerge\<close>: the left list is rid of the page that has just been written.\<close>

definition skip_page :: "u32 list \<Rightarrow> u32 \<Rightarrow> nat list \<Rightarrow> nat list" where
  "skip_page aContent dbpage aLeft = (case aLeft of [] \<Rightarrow> [] | l # ls \<Rightarrow> if aContent ! l = dbpage then ls else aLeft)"

lemma length_skip_page: "length (skip_page c g ls) \<le> length ls"
  by (simp add: skip_page_def split: list.split)

function walMerge :: "u32 list \<Rightarrow> nat list \<Rightarrow> nat list \<Rightarrow> nat list" where
  "walMerge aContent aLeft aRight =
     (if aLeft = [] \<and> aRight = [] then []
      else if aLeft \<noteq> [] \<and> (aRight = [] \<or> aContent ! hd aLeft < aContent ! hd aRight)
      then hd aLeft # walMerge aContent (skip_page aContent (aContent ! hd aLeft) (tl aLeft)) aRight
      else hd aRight # walMerge aContent (skip_page aContent (aContent ! hd aRight) aLeft) (tl aRight))"
  by pat_completeness auto

termination
proof (relation "measure (\<lambda>(c, ls, rs). length ls + length rs)")
  fix c :: "u32 list" and ls rs :: "nat list"
  assume "\<not> (ls = [] \<and> rs = [])"
  {
    assume "ls \<noteq> [] \<and> (rs = [] \<or> c ! hd ls < c ! hd rs)"
    then show "((c, skip_page c (c ! hd ls) (tl ls), rs), c, ls, rs) \<in> measure (\<lambda>(c, ls, rs). length ls + length rs)"
      using length_skip_page [of c "c ! hd ls" "tl ls"] by (cases ls) auto
  next
    assume "\<not> (ls \<noteq> [] \<and> (rs = [] \<or> c ! hd ls < c ! hd rs))"
    with \<open>\<not> (ls = [] \<and> rs = [])\<close> show "((c, skip_page c (c ! hd rs) ls, tl rs), c, ls, rs) \<in> measure (\<lambda>(c, ls, rs). length ls + length rs)"
      using length_skip_page [of c "c ! hd rs" ls] by (cases rs) auto
  }
qed simp

declare walMerge.simps [simp del]

text \<open>The inner loop of \<open>walMergesort\<close>: the carries of the binary counter.\<close>

function merge_carry :: "u32 list \<Rightarrow> nat \<Rightarrow> nat \<Rightarrow> nat list list \<Rightarrow> nat list \<Rightarrow> nat \<times> nat list" where
  "merge_carry aContent iList iSub aSub aMerge =
     (if bit iList iSub then merge_carry aContent iList (iSub + 1) aSub (walMerge aContent (aSub ! iSub) aMerge) else (iSub, aMerge))"
  by pat_completeness auto

termination
proof (relation "measure (\<lambda>(c, iList, iSub, aSub, aMerge). iList div 2 ^ iSub)")
  fix c :: "u32 list" and iList iSub :: nat and aSub :: "nat list list" and aMerge :: "nat list"
  assume "bit iList iSub"
  then have "odd (iList div 2 ^ iSub)" by (simp add: bit_iff_odd)
  then have "iList div 2 ^ iSub div 2 < iList div 2 ^ iSub" by (cases "iList div 2 ^ iSub") auto
  then show "((c, iList, iSub + 1, aSub, walMerge c (aSub ! iSub) aMerge), c, iList, iSub, aSub, aMerge)
      \<in> measure (\<lambda>(c, iList, iSub, aSub, aMerge). iList div 2 ^ iSub)" by (simp add: power_Suc2 div_mult2_eq del: power_Suc)
qed simp

declare merge_carry.simps [simp del]

text \<open>The loop over the indices: the state is the array of sublists and what the inner loop has left.\<close>

primrec sort_loop :: "u32 list \<Rightarrow> nat \<Rightarrow> nat list list \<times> nat \<times> nat list" where
  "sort_loop aContent 0 = (replicate 13 [], 0, [])"
| "sort_loop aContent (Suc iList) =
     (let (aSub, _, _) = sort_loop aContent iList;
          (iSub, aMerge) = merge_carry aContent iList 0 aSub [iList]
      in (aSub[iSub := aMerge], iSub, aMerge))"

text \<open>The list to be sorted is \<open>[0..<nList]\<close>, as the only caller has it.\<close>

definition walMergesort :: "u32 list \<Rightarrow> nat \<Rightarrow> nat list" where
  "walMergesort aContent nList =
     (case sort_loop aContent nList of (aSub, iSub, aMerge) \<Rightarrow>
        fold (\<lambda>i aMerge. if bit nList i then walMerge aContent (aSub ! i) aMerge else aMerge) [iSub + 1..<13] aMerge)"

section \<open>What the lists hold\<close>

text \<open>The last index of every page among the indices \<open>a\<close> to \<open>b - 1\<close>, in the order of the pages.\<close>

definition lasts :: "u32 list \<Rightarrow> nat \<Rightarrow> nat \<Rightarrow> nat list \<Rightarrow> bool" where
  "lasts c a b xs \<longleftrightarrow> sorted_wrt (\<lambda>i j. c ! i < c ! j) xs \<and> set xs = {i. a \<le> i \<and> i < b \<and> (\<forall>j. i < j \<and> j < b \<longrightarrow> c ! j \<noteq> c ! i)}"

lemma lasts_single: "lasts c a (Suc a) [a]"
  by (auto simp: lasts_def)

text \<open>What \<open>walMerge\<close> does with two sorted lists: the elements of the right one, and those of the left one for other pages.\<close>

lemma walMerge_post:
  assumes "sorted_wrt (\<lambda>i j. c ! i < c ! j) ls" and "sorted_wrt (\<lambda>i j. c ! i < c ! j) rs"
  shows "sorted_wrt (\<lambda>i j. c ! i < c ! j) (walMerge c ls rs) \<and> set (walMerge c ls rs) = set rs \<union> {l \<in> set ls. \<forall>r \<in> set rs. c ! l \<noteq> c ! r}"
  using assms
proof (induction c ls rs rule: walMerge.induct)
  case (1 c ls rs)
  have sk: "sorted_wrt (\<lambda>i j. c ! i < c ! j) (skip_page c g xs) \<and> set (skip_page c g xs) = {x \<in> set xs. c ! x \<noteq> g}"
    if "sorted_wrt (\<lambda>i j. c ! i < c ! j) xs" "\<forall>x \<in> set xs. g \<le> c ! x" for g xs
    using that by (cases xs) (auto simp: skip_page_def)
  show ?case
  proof (cases "ls = [] \<and> rs = []")
    case True
    then show ?thesis by (simp add: walMerge.simps)
  next
    case ne: False
    show ?thesis
    proof (cases "ls \<noteq> [] \<and> (rs = [] \<or> c ! hd ls < c ! hd rs)")
      case True
      then obtain l ls' where l: "ls = l # ls'" by (cases ls) auto
      have s: "sorted_wrt (\<lambda>i j. c ! i < c ! j) ls'" "\<forall>x \<in> set ls'. c ! l < c ! x" using 1(3) l by simp_all
      have k: "sorted_wrt (\<lambda>i j. c ! i < c ! j) (skip_page c (c ! l) ls') \<and> set (skip_page c (c ! l) ls') = {x \<in> set ls'. c ! x \<noteq> c ! l}"
        using sk [OF s(1), of "c ! l"] s(2) by fastforce
      have r: "\<forall>r \<in> set rs. c ! l < c ! r" using True 1(4) l by (cases rs) auto
      have "walMerge c ls rs = l # walMerge c (skip_page c (c ! l) ls') rs" by (subst walMerge.simps) (use True l in simp)
      then show ?thesis using 1(1) [OF ne True] 1(4) k s(2) r l by (auto simp: less_le)
    next
      case False
      then obtain r rs' where r: "rs = r # rs'" using ne by (cases rs) auto
      have s: "sorted_wrt (\<lambda>i j. c ! i < c ! j) rs'" "\<forall>x \<in> set rs'. c ! r < c ! x" using 1(4) r by simp_all
      have le: "\<forall>l \<in> set ls. c ! r \<le> c ! l" using False r 1(3) by (cases ls) (auto simp: not_less dest: order.strict_implies_order order.trans)
      have k: "sorted_wrt (\<lambda>i j. c ! i < c ! j) (skip_page c (c ! r) ls) \<and> set (skip_page c (c ! r) ls) = {x \<in> set ls. c ! x \<noteq> c ! r}"
        using sk [OF 1(3) le] .
      have "walMerge c ls rs = r # walMerge c (skip_page c (c ! r) ls) rs'" by (subst walMerge.simps) (use False r in auto)
      then show ?thesis using 1(2) [OF ne False] k s le r by (auto simp: less_le)
    qed
  qed
qed

lemma lasts_merge:
  assumes "lasts c a m ls" and "lasts c m b rs" and "a \<le> m" and "m \<le> b"
  shows "lasts c a b (walMerge c ls rs)"
proof -
  note w = walMerge_post [of c ls rs]
  have rs: "i \<in> set rs \<longleftrightarrow> m \<le> i \<and> i < b \<and> (\<forall>j. i < j \<and> j < b \<longrightarrow> c ! j \<noteq> c ! i)" for i using assms(2) by (simp add: lasts_def)
  have ls: "i \<in> set ls \<longleftrightarrow> a \<le> i \<and> i < m \<and> (\<forall>j. i < j \<and> j < m \<longrightarrow> c ! j \<noteq> c ! i)" for i using assms(1) by (simp add: lasts_def)
  have ex: "\<exists>r. r \<in> set rs \<and> c ! r = c ! j" if "m \<le> j" "j < b" for j
  proof -
    define J where "J = {i. m \<le> i \<and> i < b \<and> c ! i = c ! j}"
    have "finite J" unfolding J_def by (rule finite_subset [of _ "{..<b}"]) auto
    moreover have "j \<in> J" using that by (simp add: J_def)
    ultimately have "Max J \<in> J" "\<forall>i \<in> J. i \<le> Max J" by (auto intro: Max_in Max_ge)
    then obtain x where x: "x \<in> J" "\<forall>i \<in> J. i \<le> x" by blast
    have "c ! i \<noteq> c ! x" if "x < i" "i < b" for i
    proof
      assume "c ! i = c ! x"
      then have "i \<in> J" using x(1) that by (simp add: J_def)
      then show False using x(2) that(1) by fastforce
    qed
    then have "x \<in> set rs" using x(1) unfolding rs by (simp add: J_def)
    then show ?thesis using x(1) by (intro exI [of _ x]) (simp add: J_def)
  qed
  have new: "(\<forall>r \<in> set rs. c ! i \<noteq> c ! r) \<longleftrightarrow> (\<forall>j. m \<le> j \<and> j < b \<longrightarrow> c ! j \<noteq> c ! i)" for i
  proof (intro iffI allI impI ballI)
    fix j assume a: "\<forall>r \<in> set rs. c ! i \<noteq> c ! r" "m \<le> j \<and> j < b"
    then obtain r where "r \<in> set rs" "c ! r = c ! j" using ex by blast
    then show "c ! j \<noteq> c ! i" using a(1) by (metis (no_types))
  next
    fix r assume "\<forall>j. m \<le> j \<and> j < b \<longrightarrow> c ! j \<noteq> c ! i" "r \<in> set rs"
    then show "c ! i \<noteq> c ! r" unfolding rs by (metis (no_types))
  qed
  have "i \<in> set rs \<or> i \<in> set ls \<and> (\<forall>r \<in> set rs. c ! i \<noteq> c ! r) \<longleftrightarrow> a \<le> i \<and> i < b \<and> (\<forall>j. i < j \<and> j < b \<longrightarrow> c ! j \<noteq> c ! i)" for i
  proof (cases "i < m")
    case True
    have "(\<forall>j. i < j \<and> j < b \<longrightarrow> P j) \<longleftrightarrow> (\<forall>j. i < j \<and> j < m \<longrightarrow> P j) \<and> (\<forall>j. m \<le> j \<and> j < b \<longrightarrow> P j)" for P
    proof (intro iffI conjI allI impI)
      fix j assume "\<forall>j. i < j \<and> j < b \<longrightarrow> P j" "i < j \<and> j < m"
      then show "P j" using assms(4) by simp
    next
      fix j assume "\<forall>j. i < j \<and> j < b \<longrightarrow> P j" "m \<le> j \<and> j < b"
      then show "P j" using True by simp
    next
      fix j assume "(\<forall>j. i < j \<and> j < m \<longrightarrow> P j) \<and> (\<forall>j. m \<le> j \<and> j < b \<longrightarrow> P j)" "i < j \<and> j < b"
      then show "P j" by (cases "j < m") simp_all
    qed
    then show ?thesis unfolding rs ls new using True assms(4) by simp
  next
    case False
    then show ?thesis unfolding rs ls using assms(3) by simp
  qed
  then have "set (walMerge c ls rs) = {i. a \<le> i \<and> i < b \<and> (\<forall>j. i < j \<and> j < b \<longrightarrow> c ! j \<noteq> c ! i)}"
    using w assms(1,2) by (intro set_eqI) (simp add: lasts_def)
  then show ?thesis using w assms(1,2) by (simp add: lasts_def)
qed

section \<open>The binary counter\<close>

text \<open>
  After \<open>n\<close> indices the sublist number \<open>i\<close> is in use if bit \<open>i\<close> of \<open>n\<close> is set, and covers the \<open>2\<^sup>i\<close> indices below \<open>n div 2\<^sup>i * 2\<^sup>i\<close>.
\<close>

definition counter :: "u32 list \<Rightarrow> nat \<Rightarrow> nat list list \<Rightarrow> bool" where
  "counter c n aSub \<longleftrightarrow> length aSub = 13 \<and>
     (\<forall>i<13. odd (n div 2 ^ i) \<longrightarrow> lasts c ((n div 2 ^ i - 1) * 2 ^ i) (n div 2 ^ i * 2 ^ i) (aSub ! i))"

lemma bit_bound: "odd (n div 2 ^ i) \<Longrightarrow> n < 2 ^ k \<Longrightarrow> i < (k :: nat)" for n :: nat
proof (rule ccontr)
  assume "odd (n div 2 ^ i)" "n < 2 ^ k" "\<not> i < k"
  moreover from this have "2 ^ k \<le> (2 :: nat) ^ i" by (intro power_increasing) simp_all
  ultimately have "n < 2 ^ i" by linarith
  then show False using \<open>odd (n div 2 ^ i)\<close> by simp
qed

lemma merge_carry_post:
  assumes "counter c n aSub" and "n < 4096" and "Suc n mod 2 ^ i = 0" and "lasts c (Suc n - 2 ^ i) (Suc n) m"
  shows "\<exists>j m'. merge_carry c n i aSub m = (j, m') \<and> even (n div 2 ^ j) \<and> Suc n mod 2 ^ j = 0 \<and> lasts c (Suc n - 2 ^ j) (Suc n) m'"
  using assms
proof (induction c n i aSub m rule: merge_carry.induct)
  case (1 c n i aSub m)
  show ?case
  proof (cases "bit n i")
    case False
    then show ?thesis using 1(4,5) by (subst merge_carry.simps) (simp add: bit_iff_odd)
  next
    case True
    then have o: "odd (n div 2 ^ i)" by (simp add: bit_iff_odd)
    define q where "q = n div 2 ^ i"
    obtain k where k: "Suc n = k * 2 ^ i" using 1(4) by (auto simp: mod_eq_0_iff_dvd dvd_def mult.commute)
    have kp: "0 < k" using k by (cases k) auto
    have "q = k - 1"
    proof -
      have "n = (k - 1) * 2 ^ i + (2 ^ i - 1)" using k kp by (cases k) auto
      then show ?thesis unfolding q_def by (metis add.commute add_0 div_less div_mult_self3 less_numeral_extra(1) diff_less power_eq_0_iff zero_less_numeral zero_less_power zero_neq_numeral)
    qed
    then have kq: "k = Suc q" using kp by simp
    have i13: "i < 13" using bit_bound [OF o, of 12] 1(3) by simp
    have S: "lasts c ((q - 1) * 2 ^ i) (q * 2 ^ i) (aSub ! i)" using 1(2) i13 o by (simp add: counter_def q_def)
    have M: "lasts c (q * 2 ^ i) (Suc n) m" using 1(5) k kq by simp
    have q1: "1 \<le> q" using o by (cases q) (simp_all add: q_def)
    have L: "lasts c (Suc n - 2 ^ (i + 1)) (Suc n) (walMerge c (aSub ! i) m)"
    proof -
      have "Suc n - 2 ^ (i + 1) = (q - 1) * 2 ^ i" using k kq q1 by (cases q) auto
      then show ?thesis using lasts_merge [OF S M] k kq by simp
    qed
    have "even k" using o kq by (simp add: q_def)
    then have "Suc n mod 2 ^ (i + 1) = 0" using k by (auto elim!: evenE)
    then have "\<exists>j m'. merge_carry c n (i + 1) aSub (walMerge c (aSub ! i) m) = (j, m') \<and> even (n div 2 ^ j) \<and> Suc n mod 2 ^ j = 0 \<and>
        lasts c (Suc n - 2 ^ j) (Suc n) m'" using 1(1) [OF True 1(2,3) _ L] by simp
    then obtain j m' where "merge_carry c n (i + 1) aSub (walMerge c (aSub ! i) m) = (j, m')" "even (n div 2 ^ j)" "Suc n mod 2 ^ j = 0"
        "lasts c (Suc n - 2 ^ j) (Suc n) m'" by (elim exE conjE) (rule that; assumption)
    then show ?thesis using True by (subst merge_carry.simps) simp
  qed
qed

lemma sort_loop_post:
  assumes "n \<le> 4096"
  shows "\<exists>aSub iSub aMerge. sort_loop c n = (aSub, iSub, aMerge) \<and> counter c n aSub \<and>
    (0 < n \<longrightarrow> odd (n div 2 ^ iSub) \<and> n mod 2 ^ iSub = 0 \<and> lasts c (n - 2 ^ iSub) n aMerge)"
  using assms
proof (induction n)
  case (Suc n)
  then obtain aSub x y where l: "sort_loop c n = (aSub, x, y)" "counter c n aSub" by auto
  have n: "n < 4096" using Suc.prems by simp
  obtain j m where m: "merge_carry c n 0 aSub [n] = (j, m)" "even (n div 2 ^ j)" "Suc n mod 2 ^ j = 0" "lasts c (Suc n - 2 ^ j) (Suc n) m"
    using merge_carry_post [OF l(2) n, of 0 "[n]"] lasts_single [of c n] by auto
  obtain k where k: "Suc n = k * 2 ^ j" using m(3) by (auto simp: mod_eq_0_iff_dvd dvd_def mult.commute)
  have kd: "Suc n div 2 ^ j = k" "0 < k" using k by (simp, cases k) auto
  have nd: "n div 2 ^ j = k - 1"
  proof -
    have "n = (2 ^ j - 1) + 2 ^ j * (k - 1)"
    proof -
      obtain k' where k': "k = Suc k'" using kd(2) by (cases k) auto
      have "0 < (2 :: nat) ^ j" by simp
      then have "Suc n = Suc ((2 ^ j - 1) + 2 ^ j * k')" using k unfolding k' by (simp add: mult.commute)
      then show ?thesis unfolding k' by simp
    qed
    then have "n div 2 ^ j = (2 ^ j - 1) div 2 ^ j + (k - 1)" by (metis div_mult_self2 power_eq_0_iff zero_neq_numeral add.commute)
    then show ?thesis by simp
  qed
  then have ok: "odd k" using m(2) kd(2) by (cases k) auto
  have j13: "j < 13" using bit_bound [of "Suc n" j 13] ok kd(1) n by simp
  have "counter c (Suc n) (aSub[j := m])" unfolding counter_def
  proof (intro conjI allI impI)
    show "length (aSub[j := m]) = 13" using l(2) by (simp add: counter_def)
    fix i :: nat assume i: "i < 13" "odd (Suc n div 2 ^ i)"
    show "lasts c ((Suc n div 2 ^ i - 1) * 2 ^ i) (Suc n div 2 ^ i * 2 ^ i) (aSub[j := m] ! i)"
    proof (cases i j rule: linorder_cases)
      case less
      then have "2 ^ j = 2 ^ i * (2 ^ (j - i) :: nat)" by (simp flip: power_add)
      then have "Suc n div 2 ^ i = k * 2 ^ (j - i)" using k by simp
      then show ?thesis using i(2) less by simp
    next
      case equal
      have "(k - 1) * 2 ^ j = Suc n - 2 ^ j" using k by (simp add: diff_mult_distrib)
      then show ?thesis using m(4) equal j13 l(2) kd k by (simp add: counter_def)
    next
      case greater
      have p: "2 ^ i = 2 ^ j * (2 * 2 ^ (i - j - 1) :: nat)" using greater by (simp flip: power_Suc power_add)
      have "Suc n div 2 ^ i = k div 2 div 2 ^ (i - j - 1)" "n div 2 ^ i = (k - 1) div 2 div 2 ^ (i - j - 1)"
        using kd(1) nd unfolding p by (simp_all only: div_mult2_eq)
      moreover have "k div 2 = (k - 1) div 2" using ok by (auto elim!: oddE)
      ultimately have "Suc n div 2 ^ i = n div 2 ^ i" by simp
      then show ?thesis using l(2) i greater by (simp add: counter_def)
    qed
  qed
  then show ?case using l(1) m ok kd(1) by simp
qed (simp add: counter_def)

lemma finish_sort:
  assumes "counter c n aSub" and "i \<le> 13" and "lasts c (n div 2 ^ i * 2 ^ i) n m"
  shows "lasts c (n div 2 ^ 13 * 2 ^ 13) n (fold (\<lambda>i m. if bit n i then walMerge c (aSub ! i) m else m) [i..<13] m)"
  using assms(2,3)
proof (induction "13 - i" arbitrary: i m)
  case (Suc d)
  then have i: "i < 13" by simp
  let ?q = "n div 2 ^ i" and ?m = "if bit n i then walMerge c (aSub ! i) m else m"
  have d: "n div 2 ^ Suc i = ?q div 2" by (simp add: power_Suc2 div_mult2_eq del: power_Suc)
  have "lasts c (n div 2 ^ Suc i * 2 ^ Suc i) n ?m"
  proof (cases "bit n i")
    case True
    then have o: "odd ?q" by (simp add: bit_iff_odd)
    then have e: "n div 2 ^ Suc i * 2 ^ Suc i = (?q - 1) * 2 ^ i" unfolding d by (auto elim!: oddE)
    have "lasts c ((?q - 1) * 2 ^ i) (?q * 2 ^ i) (aSub ! i)" using assms(1) i o by (simp add: counter_def)
    then show ?thesis using lasts_merge [OF _ Suc.prems(2)] True unfolding e by (simp add: div_times_less_eq_dividend)
  next
    case False
    then have "even ?q" by (simp add: bit_iff_odd)
    then have e: "n div 2 ^ Suc i * 2 ^ Suc i = ?q * 2 ^ i" unfolding d by (auto elim!: evenE)
    show ?thesis unfolding e using False Suc.prems(2) by simp
  qed
  moreover have "[i..<13] = i # [Suc i..<13]" using i by (rule upt_conv_Cons)
  ultimately show ?case using Suc.hyps(1) [of "Suc i"] Suc.hyps(2) i by simp
qed simp

lemma walMergesort_post:
  assumes "0 < n" and "n \<le> 4096"
  shows "lasts c 0 n (walMergesort c n)"
proof -
  obtain aSub iSub aMerge where l: "sort_loop c n = (aSub, iSub, aMerge)" "counter c n aSub" "odd (n div 2 ^ iSub)" "n mod 2 ^ iSub = 0"
      "lasts c (n - 2 ^ iSub) n aMerge" using sort_loop_post [OF assms(2), of c] assms(1) by auto
  have i: "iSub + 1 \<le> 13" using bit_bound [OF l(3), of 13] assms(2) by simp
  obtain k where k: "n = k * 2 ^ iSub" using l(4) by (auto simp: mod_eq_0_iff_dvd dvd_def mult.commute)
  have "n div 2 ^ (iSub + 1) = k div 2" using k by (simp add: power_Suc2 div_mult2_eq del: power_Suc)
  moreover have "odd k" using l(3) k by simp
  ultimately have "n div 2 ^ (iSub + 1) * 2 ^ (iSub + 1) = n - 2 ^ iSub" using k by (auto elim!: oddE)
  then have "lasts c (n div 2 ^ 13 * 2 ^ 13) n (walMergesort c n)"
    using finish_sort [OF l(2) i, of aMerge] l(1,5) by (simp add: walMergesort_def)
  then show ?thesis using assms(2) by simp
qed

end
