(* ===== verification/WalCkpt.thy ===== *)
theory WalCkpt
  imports WalWrite WalSort
begin

text \<open>
  Checkpoints and the management of connections, \<^verbatim>\<open>src/wal.c\<close>: the iterator over the pages of the
  log in the order of their numbers, \<open>walCheckpoint\<close>, \<open>sqlite3WalCheckpoint\<close>, opening and closing, and the locking modes. The
  busy handler is the list of its further answers, or a null pointer; a handler whose answers are used up gives up.
\<close>

section \<open>The iterator\<close>

text \<open>
  A segment holds the array of page numbers of its page of the wal-index; the entries that the
  segment uses do not change while the checkpoint lock is held.
\<close>

record WalSegment =
  iNext :: nat
  aIndex :: "nat list"
  segPgno :: "u32 list"
  nEntry :: nat
  segZero :: u32

record WalIterator =
  iPrior :: u32
  aSegment :: "WalSegment list"

text \<open>The loop over the entries of a segment: the pages up to \<open>iMin\<close> are passed over.\<close>

function next_entry :: "u32 \<Rightarrow> WalSegment \<Rightarrow> WalSegment" where
  "next_entry iMin seg =
     (if iNext seg < nEntry seg \<and> \<not> segPgno seg ! (aIndex seg ! iNext seg) > iMin
      then next_entry iMin (seg\<lparr>iNext := iNext seg + 1\<rparr>) else seg)"
  by pat_completeness auto

termination
  by (relation "measure (\<lambda>(iMin, seg). nEntry seg - iNext seg)") auto

declare next_entry.simps [simp del]

text \<open>The segments are gone through from the last one to the first; the result is the page, the frame and the new segments.\<close>

fun next_segments :: "u32 \<Rightarrow> WalSegment list \<Rightarrow> u32 \<times> u32 \<times> WalSegment list" where
  "next_segments iMin [] = (0xFFFFFFFF, 0, [])"
| "next_segments iMin (seg # segs) =
     (let (iRet, iFrame, segs) = next_segments iMin segs; seg = next_entry iMin seg
      in if iNext seg < nEntry seg \<and> segPgno seg ! (aIndex seg ! iNext seg) < iRet
         then (segPgno seg ! (aIndex seg ! iNext seg), segZero seg + of_nat (aIndex seg ! iNext seg), seg # segs)
         else (iRet, iFrame, seg # segs))"

text \<open>The result is \<open>None\<close> where the code returns 1. The frame is left alone there, and not used by the caller.\<close>

definition walIteratorNext :: "WalIterator \<Rightarrow> (u32 \<times> u32) option \<times> WalIterator" where
  "walIteratorNext p =
     (case next_segments (iPrior p) (aSegment p) of (iRet, iFrame, segs) \<Rightarrow>
        (if iRet = 0xFFFFFFFF then None else Some (iRet, iFrame), \<lparr>iPrior = iRet, aSegment = segs\<rparr>))"

text \<open>The loop of \<open>walIteratorInit\<close> over the pages of the wal-index, from page \<open>i\<close> on.\<close>

fun init_segments :: "nat \<Rightarrow> nat list \<Rightarrow> u32 \<Rightarrow> walst \<Rightarrow> (int \<times> WalSegment list \<times> walst) option" where
  "init_segments nSegment [] iLast s = Some (SQLITE_OK, [], s)"
| "init_segments nSegment (i # is) iLast s = do {
     (rc, iZero, s) \<leftarrow> walHashGet i s;
     if rc \<noteq> SQLITE_OK then Some (rc, [], s)
     else do {
       let nEntry = (if i + 1 = nSegment then unat (iLast - iZero) else if i = 0 then HASHTABLE_NPAGE_ONE else HASHTABLE_NPAGE);
       let xs = walMergesort (aPgno (regions s ! i)) nEntry;
       let seg = \<lparr>iNext = 0, aIndex = xs, segPgno = aPgno (regions s ! i), nEntry = length xs, segZero = iZero + 1\<rparr>;
       (rc, segs, s) \<leftarrow> init_segments nSegment is iLast s;
       Some (rc, seg # segs, s)
     }
   }"

definition walIteratorInit :: "walst \<Rightarrow> (int \<times> WalIterator \<times> walst) option" where
  "walIteratorInit s =
     (let iLast = mxFrame (hdr (pWal s)); nSegment = walFramePage iLast + 1; none = \<lparr>iPrior = 0, aSegment = []\<rparr> in
      case ask s of
        (Failure _ _, s) \<Rightarrow> Some (SQLITE_NOMEM, none, s)
      | (Success, s) \<Rightarrow>
          (case ask s of
             (Failure _ _, s) \<Rightarrow> Some (SQLITE_NOMEM, none, s)
           | (Success, s) \<Rightarrow> do {
               (rc, segs, s) \<leftarrow> init_segments nSegment [0..<nSegment] iLast s;
               Some (rc, \<lparr>iPrior = 0, aSegment = segs\<rparr>, s)
             }))"

section \<open>Checkpoints\<close>

datatype ckpt_mode = CHECKPOINT_PASSIVE | CHECKPOINT_FULL | CHECKPOINT_RESTART

text \<open>The busy handler is called once for every failed attempt, until it answers 0.\<close>

fun walBusyLock :: "bool list option \<Rightarrow> nat \<Rightarrow> nat \<Rightarrow> walst \<Rightarrow> int \<times> bool list option \<times> walst" where
  "walBusyLock None lockIdx n s = (case walLockExclusive lockIdx n s of (rc, s) \<Rightarrow> (rc, None, s))"
| "walBusyLock (Some []) lockIdx n s = (case walLockExclusive lockIdx n s of (rc, s) \<Rightarrow> (rc, Some [], s))"
| "walBusyLock (Some (b # bs)) lockIdx n s =
     (case walLockExclusive lockIdx n s of (rc, s) \<Rightarrow>
        if rc = SQLITE_BUSY then if b then walBusyLock (Some bs) lockIdx n s else (rc, Some bs, s)
        else (rc, Some (b # bs), s))"

text \<open>
  The loop that finds the last frame that may be copied; the result is \<open>Inl\<close> of the code with which the
  checkpoint ends, or the last frame. A mark in use by a reader stops the busy handler for the rest.
\<close>

fun safe_frame :: "nat list \<Rightarrow> u32 \<Rightarrow> int \<Rightarrow> bool list option \<Rightarrow> walst \<Rightarrow> (int + u32 \<times> int) \<times> bool list option \<times> walst" where
  "safe_frame [] mxSafeFrame rc xBusy s = (Inr (mxSafeFrame, rc), xBusy, s)"
| "safe_frame (i # is) mxSafeFrame rc xBusy s =
     (let y = aReadMark s ! i in
      if mxSafeFrame > y then
        case walBusyLock xBusy (WAL_READ_LOCK i) 1 s of (rc, xBusy, s) \<Rightarrow>
          if rc = SQLITE_OK then
            safe_frame is mxSafeFrame rc xBusy
              (walUnlockExclusive (WAL_READ_LOCK i) 1 (s\<lparr>aReadMark := (aReadMark s)[i := if i = 1 then mxSafeFrame else READMARK_NOT_USED]\<rparr>))
          else if rc = SQLITE_BUSY then safe_frame is y rc None s
          else (Inl rc, xBusy, s)
      else safe_frame is mxSafeFrame rc xBusy s)"

lemma next_entry_stops: "iNext (next_entry m x) < nEntry (next_entry m x) \<Longrightarrow> m < segPgno (next_entry m x) ! (aIndex (next_entry m x) ! iNext (next_entry m x))"
proof (induction m x rule: next_entry.induct)
  case (1 m x)
  show ?case
  proof (cases "iNext x < nEntry x \<and> \<not> segPgno x ! (aIndex x ! iNext x) > m")
    case True
    then have e: "next_entry m x = next_entry m (x\<lparr>iNext := iNext x + 1\<rparr>)" by (subst next_entry.simps) simp
    show ?thesis using 1(1) [OF True] 1(2) unfolding e by simp
  next
    case False
    have "next_entry m x = x" by (subst next_entry.simps) (simp only: False if_False)
    then show ?thesis using 1(2) False by simp
  qed
qed

lemma next_segments_mono:
  assumes "next_segments iMin segs = (iRet, iFrame, segs')" and "iRet \<noteq> 0xFFFFFFFF"
  shows "iMin < iRet"
  using assms
proof (induction segs arbitrary: iRet iFrame segs')
  case (Cons seg segs)
  obtain r f ss where n: "next_segments iMin segs = (r, f, ss)" by (cases "next_segments iMin segs")
  show ?case using Cons.prems Cons.IH [OF n] next_entry_stops [of iMin seg] by (auto simp: n Let_def split: if_splits)
qed simp

text \<open>The loop that copies: pages that are behind \<open>nBackfill\<close>, not safe, or cut off from the database are left out.\<close>

lemma walIteratorNext_mono:
  assumes "walIteratorNext p = (Some (pg, fr), p')"
  shows "iPrior p < iPrior p'" and "iPrior p' = pg"
  using assms next_segments_mono [of "iPrior p" "aSegment p"] by (auto simp: walIteratorNext_def split: prod.splits if_splits)

lemma iterator_measure:
  assumes "(Some x, p') = walIteratorNext p"
  shows "2 ^ 32 - unat (iPrior p') < 2 ^ 32 - unat (iPrior p)"
proof -
  have "iPrior p < iPrior p'" using walIteratorNext_mono(1) assms [symmetric] by (cases x) blast
  then have "unat (iPrior p) < unat (iPrior p')" "unat (iPrior p') < 2 ^ 32"
    using unsigned_less [of "iPrior p'"] by (simp_all add: word_less_nat_alt)
  then show ?thesis by linarith
qed

function copy_pages :: "u32 \<Rightarrow> u32 \<Rightarrow> u32 \<Rightarrow> u32 \<Rightarrow> WalIterator \<Rightarrow> walst \<Rightarrow> int \<times> walst" where
  "copy_pages sz backfilled mxSafeFrame mxPage p s =
     (case walIteratorNext p of
        (None, _) \<Rightarrow> (SQLITE_OK, s)
      | (Some (iDbpage, iFrame), p') \<Rightarrow>
          if iFrame \<le> backfilled \<or> iFrame > mxSafeFrame \<or> iDbpage > mxPage then copy_pages sz backfilled mxSafeFrame mxPage p' s
          else (case os_read (walFile s) (unat sz) (walFrameOffset iFrame sz + WAL_FRAME_HDRSIZE) s of (rc, zBuf, s) \<Rightarrow>
            if rc \<noteq> SQLITE_OK then (rc, s)
            else case db_write (unat (iDbpage - 1) * unat sz) zBuf s of (rc, s) \<Rightarrow>
              if rc \<noteq> SQLITE_OK then (rc, s) else copy_pages sz backfilled mxSafeFrame mxPage p' s))"
  by pat_completeness auto

termination
  by (relation "measure (\<lambda>(sz, backfilled, mxSafeFrame, mxPage, p, s). 2 ^ 32 - unat (iPrior p))")
    (simp_all add: iterator_measure [simplified])

declare copy_pages.simps [simp del]

text \<open>
  The part of \<open>walCheckpoint\<close> that runs under the lock of the readers that ignore the log. The hint about the size
  of the database, of which the code ignores the result, has no effect in the model.
\<close>

definition backfill :: "nat \<Rightarrow> u32 \<Rightarrow> u32 \<Rightarrow> WalIterator \<Rightarrow> walst \<Rightarrow> int \<times> walst" where
  "backfill sync_flags mxSafeFrame mxPage pIter s =
     (let sz = walPagesize (pWal s); backfilled = nBackfill s;
          (rc, s) = (if sync_flags \<noteq> 0 then os_plain s else (SQLITE_OK, s));
          (rc, s) = (if rc = SQLITE_OK then os_plain s else (rc, s));
          (rc, s) = (if rc = SQLITE_OK then copy_pages sz backfilled mxSafeFrame mxPage pIter s else (rc, s));
          (rc, s) =
            (if rc = SQLITE_OK then
               let (rc, s) =
                 (if mxSafeFrame = mxFrame (shmHdr0 s) then
                    let (rc, s) = db_truncate (unat (nPage (hdr (pWal s))) * unat sz) s
                    in if rc = SQLITE_OK \<and> sync_flags \<noteq> 0 then os_plain s else (rc, s)
                  else (rc, s))
               in if rc = SQLITE_OK then (rc, s\<lparr>nBackfill := mxSafeFrame\<rparr>) else (rc, s)
             else (rc, s))
      in (rc, walUnlockExclusive (WAL_READ_LOCK 0) 1 s))"

definition walCheckpoint :: "ckpt_mode \<Rightarrow> bool list option \<Rightarrow> nat \<Rightarrow> walst \<Rightarrow> (int \<times> walst) option" where
  "walCheckpoint eMode xBusyCall sync_flags s =
     (if \<not> mapped s 0 then None
      else if nBackfill s \<ge> mxFrame (hdr (pWal s)) then Some (SQLITE_OK, s)
      else do {
        (rc, pIter, s) \<leftarrow> walIteratorInit s;
        if rc \<noteq> SQLITE_OK then Some (rc, s)
        else do {
          let xBusy = (if eMode \<noteq> CHECKPOINT_PASSIVE then xBusyCall else None);
          let mxPage = nPage (hdr (pWal s));
          let (r, xBusy, s) = safe_frame [1..<WAL_NREADER] (mxFrame (hdr (pWal s))) rc xBusy s;
          (case r of
             Inl rc \<Rightarrow> Some (rc, s)
           | Inr (mxSafeFrame, rc) \<Rightarrow>
               let (rc, xBusy, s) =
                 (if nBackfill s < mxSafeFrame then
                    let (rc, xBusy, s) = walBusyLock xBusy (WAL_READ_LOCK 0) 1 s
                    in if rc = SQLITE_OK then let (rc, s) = backfill sync_flags mxSafeFrame mxPage pIter s in (rc, xBusy, s)
                       else (rc, xBusy, s)
                  else (rc, xBusy, s));
                   rc = (if rc = SQLITE_BUSY then SQLITE_OK else rc)
               in Some
                 (if rc = SQLITE_OK \<and> eMode \<noteq> CHECKPOINT_PASSIVE then
                    if nBackfill s < mxFrame (hdr (pWal s)) then (SQLITE_BUSY, s)
                    else if eMode = CHECKPOINT_RESTART then
                      (case walBusyLock xBusy (WAL_READ_LOCK 1) (WAL_NREADER - 1) s of (rc, xBusy, s) \<Rightarrow>
                         if rc = SQLITE_OK then (rc, walUnlockExclusive (WAL_READ_LOCK 1) (WAL_NREADER - 1) s) else (rc, s))
                    else (rc, s)
                  else (rc, s)))
        }
      })"

text \<open>
  The two counters for the caller are \<open>None\<close> where the code leaves them alone; a \<open>pChanged\<close> header tells the database file to drop its mapping,
  which is not modelled. The busy handler of a blocking checkpoint is asked for the writer lock first.
\<close>

definition sqlite3WalCheckpoint ::
  "ckpt_mode \<Rightarrow> bool list option \<Rightarrow> nat \<Rightarrow> nat \<Rightarrow> walst \<Rightarrow> (int \<times> (u32 \<times> u32) option \<times> walst) option" where
  "sqlite3WalCheckpoint eMode xBusy sync_flags nBuf s =
     (if readOnly (pWal s) \<noteq> (False, False) then Some (SQLITE_READONLY, None, s)
      else case walLockExclusive WAL_CKPT_LOCK 1 s of (rc, s) \<Rightarrow>
        if rc \<noteq> SQLITE_OK then Some (rc, None, s)
        else do {
          let s = upd_wal (\<lambda>w. w\<lparr>ckptLock := True\<rparr>) s;
          let (rc, eMode2, xBusy, s) =
            (if eMode \<noteq> CHECKPOINT_PASSIVE then
               let (rc, xBusy, s) = walBusyLock xBusy WAL_WRITE_LOCK 1 s
               in if rc = SQLITE_OK then (rc, eMode, xBusy, set_writeLock True s)
                  else if rc = SQLITE_BUSY then (SQLITE_OK, CHECKPOINT_PASSIVE, xBusy, s)
                  else (rc, eMode, xBusy, s)
             else (SQLITE_OK, eMode, xBusy, s));
          (rc, isChanged, s) \<leftarrow> (if rc = SQLITE_OK then walIndexReadHdr False s else Some (rc, False, s));
          (rc, counts, s) \<leftarrow>
            (if rc = SQLITE_OK then do {
               (rc, s) \<leftarrow>
                 (if mxFrame (hdr (pWal s)) \<noteq> 0 \<and> unat (walPagesize (pWal s)) \<noteq> nBuf then Some (SQLITE_CORRUPT, s)
                  else walCheckpoint eMode2 xBusy sync_flags s);
               Some (rc, if rc = SQLITE_OK \<or> rc = SQLITE_BUSY then Some (mxFrame (hdr (pWal s)), nBackfill s) else None, s)
             }
             else Some (rc, None, s));
          let s = (if isChanged then upd_hdr (\<lambda>_. zero_hdr) s else s);
          let s = upd_wal (\<lambda>w. w\<lparr>ckptLock := False\<rparr>) (walUnlockExclusive WAL_CKPT_LOCK 1 (sqlite3WalEndWriteTransaction s));
          Some (if rc = SQLITE_OK \<and> eMode \<noteq> eMode2 then SQLITE_BUSY else rc, counts, s)
        })"

section \<open>Opening, closing and locking modes\<close>

text \<open>
  Of \<open>sqlite3WalOpen\<close>, the state \<open>s\<close> is what other connections have left, with the file that has been opened or created; \<open>rdonly\<close> is whether
  the system could open it for reading only, \<open>sequential\<close> and \<open>powersafe\<close> are characteristics of the device. A failure hands back no connection.
\<close>

definition sqlite3WalOpen :: "bool \<Rightarrow> bool \<Rightarrow> bool \<Rightarrow> bool \<Rightarrow> int \<Rightarrow> walst \<Rightarrow> int \<times> bool \<times> walst" where
  "sqlite3WalOpen rdonly sequential powersafe bNoShm mxSize s =
     (case ask s of
        (Failure _ _, s) \<Rightarrow> (SQLITE_NOMEM, False, s)
      | (Success, s) \<Rightarrow>
          let w = \<lparr>iCallback = 0, mxWalSize = mxSize, apWiData = [], szPage = 0, readLock = -1,
                exclusiveMode = (if bNoShm then WAL_HEAPMEMORY_MODE else WAL_NORMAL_MODE), writeLock = False, ckptLock = False,
                readOnly = (False, False), truncateOnCommit = False, syncHeader = True, padToSectorBoundary = True, hdr = zero_hdr, nCkpt = 0\<rparr>;
              (rc, s) = os_plain s
          in if rc \<noteq> SQLITE_OK then (rc, False, s)
             else (rc, True, s\<lparr>pWal := w\<lparr>readOnly := (rdonly, False), syncHeader := \<not> sequential, padToSectorBoundary := \<not> powersafe\<rparr>\<rparr>))"

definition sqlite3WalLimit :: "int \<Rightarrow> walst \<Rightarrow> walst" where
  "sqlite3WalLimit iLimit = upd_wal (\<lambda>w. w\<lparr>mxWalSize := iLimit\<rparr>)"

text \<open>The return value, which is an \<^verbatim>\<open>int\<close>, is the same word.\<close>

definition sqlite3WalCallback :: "walst \<Rightarrow> u32 \<times> walst" where
  "sqlite3WalCallback s = (iCallback (pWal s), upd_wal (\<lambda>w. w\<lparr>iCallback := 0\<rparr>) s)"

definition sqlite3WalExclusiveMode :: "int \<Rightarrow> walst \<Rightarrow> bool \<times> walst" where
  "sqlite3WalExclusiveMode op s =
     (let set_mode = (\<lambda>m. upd_wal (\<lambda>w. w\<lparr>exclusiveMode := m\<rparr>)); normal = (\<lambda>s. exclusiveMode (pWal s) = WAL_NORMAL_MODE) in
      if op = 0 then
        if \<not> normal s then
          (case walLockShared (WAL_READ_LOCK (nat (readLock (pWal s)))) (set_mode WAL_NORMAL_MODE s) of (rc, s) \<Rightarrow>
             let s = (if rc \<noteq> SQLITE_OK then set_mode WAL_EXCLUSIVE_MODE s else s) in (normal s, s))
        else (False, s)
      else if op > 0 then (True, set_mode WAL_EXCLUSIVE_MODE (walUnlockShared (WAL_READ_LOCK (nat (readLock (pWal s)))) s))
      else (normal s, s))"

definition sqlite3WalHeapMemory :: "walst \<Rightarrow> bool" where
  "sqlite3WalHeapMemory s \<longleftrightarrow> exclusiveMode (pWal s) = WAL_HEAPMEMORY_MODE"

text \<open>
  Closing the wal-index gives up the locks and the mapping; the last connection purges the shared memory, and deletes its file on demand.
\<close>

definition walIndexClose :: "bool \<Rightarrow> walst \<Rightarrow> walst" where
  "walIndexClose isDelete s =
     (let s = upd_wal (\<lambda>w. w\<lparr>apWiData := []\<rparr>) s in
      if exclusiveMode (pWal s) = WAL_HEAPMEMORY_MODE then s\<lparr>regions := []\<rparr>
      else if isDelete \<and> siblings s = [] then s\<lparr>ownLocks := (0, 0), regions := [], shmSize := 0\<rparr>
      else s\<lparr>ownLocks := (0, 0)\<rparr>)"

text \<open>
  \<open>persist\<close> is whether the file asks to keep the log. The result \<open>Some\<close> holds the code and whether the log file is deleted.
\<close>

definition sqlite3WalClose :: "bool \<Rightarrow> nat \<Rightarrow> nat \<Rightarrow> walst \<Rightarrow> (int \<times> bool \<times> walst) option" where
  "sqlite3WalClose persist sync_flags nBuf s = do {
     let (rc, s) = os_plain s;
     (rc, isDelete, s) \<leftarrow>
       (if rc = SQLITE_OK then do {
          let s = (if exclusiveMode (pWal s) = WAL_NORMAL_MODE then upd_wal (\<lambda>w. w\<lparr>exclusiveMode := WAL_EXCLUSIVE_MODE\<rparr>) s else s);
          (rc, _, s) \<leftarrow> sqlite3WalCheckpoint CHECKPOINT_PASSIVE None sync_flags nBuf s;
          Some (if rc = SQLITE_OK then
                  if \<not> persist then (rc, True, s)
                  else (rc, False, if mxWalSize (pWal s) \<ge> 0 then walLimitSize 0 s else s)
                else (rc, False, s))
        }
        else Some (rc, False, s));
     let s = walIndexClose isDelete s;
     let (rx, s) = (if isDelete then os_plain s else (SQLITE_IOERR, s));
     Some (rc, isDelete, if isDelete \<and> rx = SQLITE_OK then s\<lparr>walFile := []\<rparr> else s)
   }"

end
