(* ===== verification/WalLog.thy ===== *)
theory WalLog
  imports WalWrite
begin

text \<open>
  What the log file says: a header, frames that continue its checksum, and whatever follows
  the first frame that does not. Recovery of the wal-index finds the last commit among the valid frames.
\<close>

section \<open>Page sizes\<close>

definition valid_size :: "u32 \<Rightarrow> bool" where
  "valid_size sz \<longleftrightarrow> sz AND (sz - 1) = 0 \<and> 512 \<le> sz \<and> sz \<le> SQLITE_MAX_PAGE_SIZE"

lemma half_and_pred:
  assumes "(n :: nat) AND (n - 1) = 0" and "2 \<le> n"
  shows "even n \<and> n div 2 AND (n div 2 - 1) = 0"
proof (cases "even n")
  case True
  then have "(n - 1) div 2 = n div 2 - 1" using assms(2) by presburger
  then show ?thesis using assms(1) True and_rec [of n "n - 1"] by simp
next
  case False
  then have "(n - 1) div 2 = n div 2" "even (n - 1)" by presburger+
  then have "n div 2 = 0" using assms(1) False and_rec [of n "n - 1"] by simp
  then show ?thesis using assms(2) False by presburger
qed

lemma valid_size_bytes:
  assumes "valid_size sz"
  shows "unat sz mod 8 = 0" and "0 < unat sz" and "512 \<le> unat sz"
proof -
  let ?n = "unat sz"
  have big: "512 \<le> ?n" using assms by (simp add: valid_size_def word_le_nat_alt)
  have "unat (sz - 1) = ?n - 1" using big by (intro unat_minus_one) auto
  then have "?n AND (?n - 1) = unat (sz AND (sz - 1))" by (simp add: unsigned_and_eq)
  then have "?n AND (?n - 1) = 0" using assms by (simp add: valid_size_def)
  then have 1: "even ?n" "?n div 2 AND (?n div 2 - 1) = 0" using half_and_pred [of ?n] big by auto
  then have 2: "even (?n div 2)" "?n div 2 div 2 AND (?n div 2 div 2 - 1) = 0" using half_and_pred [of "?n div 2"] big by auto
  then have "even (?n div 2 div 2)" using half_and_pred [of "?n div 2 div 2"] big by auto
  then show "?n mod 8 = 0" using 1(1) 2(1) by presburger
  show "0 < ?n" "512 \<le> ?n" using big by simp_all
qed

section \<open>The log as a sequence of frames\<close>

definition fpgno :: "u8 list \<Rightarrow> u32" where "fpgno f = the (sqlite3Get4byte f)"
definition ftrunc :: "u8 list \<Rightarrow> u32" where "ftrunc f = the (sqlite3Get4byte (drop 4 f))"

definition next_wal :: "u8 list \<Rightarrow> Wal \<Rightarrow> Wal" where
  "next_wal f w = set_cksum (the (frame_cksum w f)) w"

primrec chain :: "Wal \<Rightarrow> u8 list list \<Rightarrow> bool" where
  "chain w [] \<longleftrightarrow> True"
| "chain w (f # frs) \<longleftrightarrow> length f = page_bytes w + 24 \<and> frame_ok w f \<and> chain (next_wal f w) frs"

definition after :: "Wal \<Rightarrow> u8 list list \<Rightarrow> Wal" where
  "after w frs = fold next_wal frs w"

text \<open>No valid frame follows.\<close>

definition stops :: "Wal \<Rightarrow> u8 list \<Rightarrow> bool" where
  "stops w rest \<longleftrightarrow> length rest < page_bytes w + 24 \<or> \<not> frame_ok w (take (page_bytes w + 24) rest)"

definition log_header :: "u8 list \<Rightarrow> Wal \<Rightarrow> bool" where
  "log_header H w \<longleftrightarrow> length H = WAL_HDRSIZE \<and> valid_size (szPage w) \<and>
     (\<exists>magic. sqlite3Get4byte H = Some magic \<and> magic AND 0xFFFFFFFE = WAL_MAGIC \<and> bigEndCksum (hdr w) = ucast (magic AND 1)) \<and>
     sqlite3Get4byte (drop 4 H) = Some WAL_MAX_VERSION \<and> sqlite3Get4byte (drop 8 H) = Some (szPage w) \<and>
     sqlite3Get4byte (drop 12 H) = Some (nCkpt w) \<and> aSalt (hdr w) = take 8 (drop 16 H) \<and>
     walChecksumBytes (bigEndCksum (hdr w) = SQLITE_BIGENDIAN) (take 24 H) (0, 0) = Some (aFrameCksum (hdr w)) \<and>
     sqlite3Get4byte (drop 24 H) = Some (fst (aFrameCksum (hdr w))) \<and> sqlite3Get4byte (drop 28 H) = Some (snd (aFrameCksum (hdr w)))"

text \<open>The last commit: its frame, counted from 1, the size of the database, and the checksum there.\<close>

definition commit_len :: "u8 list list \<Rightarrow> nat" where
  "commit_len frs = latest (map (\<lambda>f. if ftrunc f \<noteq> 0 then 1 else 0) frs) 1"

definition commit_size :: "u8 list list \<Rightarrow> u32" where
  "commit_size frs = (if commit_len frs = 0 then 0 else ftrunc (frs ! (commit_len frs - 1)))"

definition commit_cksum :: "Wal \<Rightarrow> u8 list list \<Rightarrow> u32 \<times> u32" where
  "commit_cksum w frs = (if commit_len frs = 0 then (0, 0) else aFrameCksum (hdr (after w (take (commit_len frs) frs))))"

lemma after_simps [simp]: "after w [] = w" "after w (frs @ [f]) = next_wal f (after w frs)" "after w (f # frs) = after (next_wal f w) frs"
  by (simp_all add: after_def)

lemma next_wal_simps [simp]:
  "szPage (next_wal f w) = szPage w" "page_bytes (next_wal f w) = page_bytes w" "aSalt (hdr (next_wal f w)) = aSalt (hdr w)"
  "bigEndCksum (hdr (next_wal f w)) = bigEndCksum (hdr w)"
  by (simp_all add: next_wal_def set_cksum_def page_bytes_def)

lemma after_fields [simp]:
  "szPage (after w frs) = szPage w" "page_bytes (after w frs) = page_bytes w" "aSalt (hdr (after w frs)) = aSalt (hdr w)"
  "bigEndCksum (hdr (after w frs)) = bigEndCksum (hdr w)"
  by (induction frs arbitrary: w) simp_all

lemma after_append: "after w (xs @ ys) = after (after w xs) ys"
  by (simp add: after_def)

lemma chain_append: "chain w (xs @ ys) \<longleftrightarrow> chain w xs \<and> chain (after w xs) ys"
  by (induction xs arbitrary: w) auto

lemma chain_lengths: "chain w frs \<Longrightarrow> f \<in> set frs \<Longrightarrow> length f = page_bytes w + 24"
  by (induction frs arbitrary: w) auto

lemma chain_length_concat: "chain w frs \<Longrightarrow> length (concat frs) = length frs * (page_bytes w + 24)"
  by (induction frs arbitrary: w) auto

lemma commit_len_le: "commit_len frs \<le> length frs"
  using latest_le [of "map (\<lambda>f. if ftrunc f \<noteq> 0 then 1 else 0) frs" 1] by (simp add: commit_len_def)

lemma commit_snoc:
  "commit_len (frs @ [f]) = (if ftrunc f \<noteq> 0 then Suc (length frs) else commit_len frs)"
  "commit_size (frs @ [f]) = (if ftrunc f \<noteq> 0 then ftrunc f else commit_size frs)"
  "commit_cksum w (frs @ [f]) = (if ftrunc f \<noteq> 0 then aFrameCksum (hdr (after w (frs @ [f]))) else commit_cksum w frs)"
proof -
  show 1: "commit_len (frs @ [f]) = (if ftrunc f \<noteq> 0 then Suc (length frs) else commit_len frs)"
    by (simp add: commit_len_def)
  show "commit_size (frs @ [f]) = (if ftrunc f \<noteq> 0 then ftrunc f else commit_size frs)"
    "commit_cksum w (frs @ [f]) = (if ftrunc f \<noteq> 0 then aFrameCksum (hdr (after w (frs @ [f]))) else commit_cksum w frs)"
    using commit_len_le [of frs] by (auto simp: commit_size_def commit_cksum_def 1 nth_append)
qed

lemma commit_Nil [simp]: "commit_len [] = 0" "commit_size [] = 0" "commit_cksum w [] = (0, 0)"
  by (simp_all add: commit_len_def commit_size_def commit_cksum_def)

text \<open>Only the fields that the format uses matter to whether a frame is valid.\<close>

definition same_log :: "Wal \<Rightarrow> Wal \<Rightarrow> bool" where
  "same_log w w' \<longleftrightarrow> szPage w = szPage w' \<and> bigEndCksum (hdr w) = bigEndCksum (hdr w') \<and> aSalt (hdr w) = aSalt (hdr w') \<and>
     aFrameCksum (hdr w) = aFrameCksum (hdr w')"

lemma same_log_frame:
  assumes "same_log w w'"
  shows "frame_cksum w f = frame_cksum w' f" "frame_ok w f = frame_ok w' f" "page_bytes w = page_bytes w'"
    "same_log (next_wal f w) (next_wal f w')"
proof -
  show c: "frame_cksum w f = frame_cksum w' f" using assms by (simp add: same_log_def frame_cksum_def)
  show "frame_ok w f = frame_ok w' f" using assms c by (simp add: same_log_def frame_ok_def)
  show "page_bytes w = page_bytes w'" using assms by (simp add: same_log_def page_bytes_def)
  show "same_log (next_wal f w) (next_wal f w')" using assms c by (simp add: same_log_def next_wal_def set_cksum_def)
qed

section \<open>Recovery\<close>

text \<open>
  What is known when the frames \<open>frs\<close> have been read: the private header is that of the log at the last commit among
  them, up to its checksum, and the wal-index holds their page numbers.
\<close>

definition rec_done :: "Wal \<Rightarrow> u8 list list \<Rightarrow> walst \<Rightarrow> bool" where
  "rec_done w0 frs s \<longleftrightarrow> index_ok (map fpgno frs) s \<and> writeLock (pWal s) \<and> szPage (pWal s) = szPage w0 \<and>
     bigEndCksum (hdr (pWal s)) = bigEndCksum (hdr w0) \<and> aSalt (hdr (pWal s)) = aSalt (hdr w0) \<and>
     mxFrame (hdr (pWal s)) = of_nat (commit_len frs) \<and> nPage (hdr (pWal s)) = commit_size frs \<and> iChange (hdr (pWal s)) = 0 \<and>
     (commit_len frs \<noteq> 0 \<longrightarrow> szPageHdr (hdr (pWal s)) = pack_szPage (szPage w0))"

definition rec_frame :: "walst \<Rightarrow> walst \<Rightarrow> bool" where
  "rec_frame s s' \<longleftrightarrow> walFile s' = walFile s \<and> dbFile s' = dbFile s \<and> siblings s' = siblings s \<and> ownLocks s' = ownLocks s \<and>
     exclusiveMode (pWal s') = exclusiveMode (pWal s) \<and> ckptLock (pWal s') = ckptLock (pWal s) \<and> readLock (pWal s') = readLock (pWal s) \<and>
     (mapped s 0 \<longrightarrow> mapped s' 0) \<and> (answers s = [] \<longrightarrow> answers s' = []) \<and> rng s' = rng s"

lemma rec_frame_trans: "rec_frame s s' \<Longrightarrow> rec_frame s' s'' \<Longrightarrow> rec_frame s s''"
  by (simp add: rec_frame_def)

lemma rec_frame_idx_step: "idx_step s s' \<Longrightarrow> rec_frame s s'"
  by (simp add: rec_frame_def idx_step_simps)

lemma shm_ok_cong:
  assumes "regions s' = regions s" and "apWiData (pWal s') = apWiData (pWal s)" and "exclusiveMode (pWal s') = exclusiveMode (pWal s)"
  shows "shm_ok s' = shm_ok s" and "index_ok gs s' = index_ok gs s" and "mapped s' h = mapped s h"
  using assms by (simp_all add: index_ok_def shm_ok_def mapped_def)

lemma set_cksum_simps [simp]:
  "apWiData (set_cksum c w) = apWiData w" "exclusiveMode (set_cksum c w) = exclusiveMode w" "writeLock (set_cksum c w) = writeLock w"
  "szPage (set_cksum c w) = szPage w" "ckptLock (set_cksum c w) = ckptLock w" "readLock (set_cksum c w) = readLock w"
  "hdr (set_cksum c w) = (hdr w)\<lparr>aFrameCksum := c\<rparr>"
  by (simp_all add: set_cksum_def)

lemma nth_frame:
  assumes "\<And>f. f \<in> set frs \<Longrightarrow> length f = k" and "i < length frs"
  shows "take k (drop (i * k) (concat frs @ rest)) = frs ! i"
  using assms
proof (induction frs arbitrary: i)
  case (Cons f frs)
  then have k: "length f = k" by simp
  show ?case
  proof (cases i)
    case (Suc j)
    have "take k (drop (j * k) (concat frs @ rest)) = frs ! j" using Cons Suc by (intro Cons.IH) auto
    then show ?thesis using k by (simp add: Suc add.commute)
  qed (simp add: k)
qed simp

lemma chain_nth:
  assumes "chain w frs" and "i < length frs"
  shows "frame_ok (after w (take i frs)) (frs ! i)"
proof -
  have "chain w (take i frs @ frs ! i # drop (Suc i) frs)" using assms by (simp add: id_take_nth_drop [symmetric])
  then show ?thesis by (simp add: chain_append)
qed

lemma recover_loop_post:
  assumes log: "chain w0 frs" "stops (after w0 frs) rest" "length frs + 4096 < 2 ^ 32"
    and pb: "page_bytes w0 mod 8 = 0" "0 < page_bytes w0"
    and "walFile s = H @ concat frs @ rest" and "length H = WAL_HDRSIZE"
    and "rec_done w0 (take i frs) s" and "aFrameCksum (hdr (pWal s)) = aFrameCksum (hdr (after w0 (take i frs)))"
    and "i + k = length (concat frs @ rest) div (page_bytes w0 + 24)" and "i \<le> length frs" and "c = commit_cksum w0 (take i frs)"
  shows "\<exists>rc c' s'. recover_loop k i c s = Some (rc, c', s') \<and> rec_frame s s' \<and> shm_ok s' \<and> (answers s = [] \<longrightarrow> rc = SQLITE_OK) \<and>
    (rc = SQLITE_OK \<longrightarrow> rec_done w0 frs s' \<and> c' = commit_cksum w0 frs)"
  using assms(6-)
proof (induction k arbitrary: i c s)
  case 0
  have "length frs \<le> length (concat frs @ rest) div (page_bytes w0 + 24)"
    using chain_length_concat [OF log(1)] by simp
  then have "i = length frs" using 0 by simp
  then show ?case using 0 by (auto simp: rec_frame_def rec_done_def index_ok_def)
next
  case (Suc k)
  let ?k = "page_bytes w0 + 24"
  have pbs: "page_bytes (pWal s) = page_bytes w0" using Suc.prems(3) by (simp add: rec_done_def page_bytes_def)
  have ok: "shm_ok s" using Suc.prems(3) by (simp add: rec_done_def index_ok_def)
  have fits: "WAL_HDRSIZE + i * ?k + ?k \<le> length (walFile s)"
  proof -
    have "(i + 1) * ?k \<le> (length (concat frs @ rest) div ?k) * ?k" using Suc.prems(5) by (intro mult_le_mono1) simp
    also have "\<dots> \<le> length (concat frs @ rest)" by (rule div_times_less_eq_dividend)
    finally show ?thesis using Suc.prems(1,2) by simp
  qed
  let ?f = "take ?k (drop (i * ?k) (concat frs @ rest))"
  have f: "take ?k (drop (WAL_HDRSIZE + i * ?k) (walFile s)) = ?f" using Suc.prems(1,2) by simp
  have lf: "length ?f = ?k" using fits f by (metis le_diff_conv2 length_drop length_take min_absorb2 add.commute add_leD1)
  show ?case
  proof (cases rule: ask_cases [of s])
    case (failure rc n s1)
    have "recover_loop (Suc k) i c s = Some (fail_rc rc, c, s1)"
      using failure(1) by (simp add: Let_def os_read_def)
    moreover have "rec_frame s s1" "shm_ok s1"
      using ok failure by (simp_all add: rec_frame_def mapped_def shm_ok_def)
    ultimately show ?thesis using failure(3) by simp
  next
    case (success s1)
    have rd: "os_read (walFile s) (page_bytes (pWal s) + WAL_FRAME_HDRSIZE) (WAL_HDRSIZE + i * (page_bytes (pWal s) + WAL_FRAME_HDRSIZE)) s =
        (SQLITE_OK, ?f, s1)"
      using success(1) fits f by (simp add: os_read_def pbs WAL_FRAME_HDRSIZE_def)
    have s1: "pWal s1 = pWal s" "walFile s1 = walFile s" "rec_frame s s1" "regions s1 = regions s" "answers s = [] \<Longrightarrow> answers s1 = []"
      by (simp_all add: success(2) rec_frame_def mapped_def)
    have w: "same_log (after w0 (take i frs)) (pWal s)" using Suc.prems(3,4) by (simp add: same_log_def rec_done_def)
    have lf': "length ?f = 24 + page_bytes (pWal s)" using lf pbs by simp
    note dec = decode_frame [OF lf' pb [folded pbs]]
    show ?thesis
    proof (cases "frame_ok (pWal s) ?f")
      case False
      obtain c0 where "walDecodeFrame (pWal s) (drop 24 ?f) (take 24 ?f) = Some (None, set_cksum c0 (pWal s))" using dec(2) [OF False] by blast
      then have r: "recover_loop (Suc k) i c s = Some (SQLITE_OK, c, s1\<lparr>pWal := set_cksum c0 (pWal s)\<rparr>)"
        using rd by (simp add: Let_def s1 WAL_FRAME_HDRSIZE_def)
      have "i = length frs"
      proof (rule ccontr)
        assume "i \<noteq> length frs"
        then have i: "i < length frs" using Suc.prems(6) by simp
        then have "?f = frs ! i" using chain_lengths [OF log(1)] by (intro nth_frame) auto
        then show False using chain_nth [OF log(1) i] same_log_frame(2) [OF w] False by simp
      qed
      moreover have "rec_done w0 (take i frs) (s1\<lparr>pWal := set_cksum c0 (pWal s)\<rparr>)"
        using Suc.prems(3) shm_ok_cong(2) [of "s1\<lparr>pWal := set_cksum c0 (pWal s)\<rparr>" s] by (simp add: rec_done_def s1)
      ultimately show ?thesis
        using r Suc.prems(7) by (auto simp: success(2) rec_frame_def mapped_def rec_done_def index_ok_def)
    next
      case True
      obtain pgno nT c0 where d: "walDecodeFrame (pWal s) (drop 24 ?f) (take 24 ?f) = Some (Some (pgno, nT), set_cksum c0 (pWal s))"
          "sqlite3Get4byte ?f = Some pgno" "sqlite3Get4byte (drop 4 ?f) = Some nT" "frame_cksum (pWal s) ?f = Some c0" "pgno \<noteq> 0"
        using dec(1) [OF True] by blast
      have i: "i < length frs"
      proof (rule ccontr)
        assume "\<not> i < length frs"
        then have i: "i = length frs" using Suc.prems(6) by simp
        then have "?f = take ?k rest" using chain_length_concat [OF log(1)] by simp
        moreover from this have "?k \<le> length rest" using lf by simp
        moreover have "frame_ok (after w0 frs) ?f" using True same_log_frame(2) [OF w] i by simp
        ultimately show False using log(2) unfolding stops_def by simp
      qed
      then have fi: "?f = frs ! i" using chain_lengths [OF log(1)] by (intro nth_frame) auto
      have tk: "take (Suc i) frs = take i frs @ [frs ! i]" using i by (rule take_Suc_conv_app_nth)
      have pn: "pgno = fpgno (frs ! i)" "nT = ftrunc (frs ! i)" using d(2,3) unfolding fi by (simp_all add: fpgno_def ftrunc_def)
      let ?s2 = "s1\<lparr>pWal := set_cksum c0 (pWal s)\<rparr>"
      have ok2: "index_ok (map fpgno (take i frs)) ?s2"
        using Suc.prems(3) shm_ok_cong(2) [of ?s2 s] by (simp add: rec_done_def s1)
      have wr2: "writeLock (pWal ?s2)" using Suc.prems(3) by (simp add: rec_done_def)
      have n2: "i \<le> length (map fpgno (take i frs))" "i = length (map fpgno (take i frs)) \<or> unat (mxFrame (hdr (pWal ?s2))) = i" "i + 34 < 2 ^ 32"
        using i log(3) by simp_all
      obtain rc s3 where ap: "walIndexAppend (of_nat (Suc i)) pgno ?s2 = Some (rc, s3)" "idx_step ?s2 s3" "answers ?s2 = [] \<longrightarrow> rc = SQLITE_OK"
          "if rc = SQLITE_OK then index_ok (take i (map fpgno (take i frs)) @ [pgno]) s3 \<and> mapped s3 (page_of (Suc i)) else index_ok (map fpgno (take i frs)) s3"
        using walIndexAppend_post [OF ok2 n2 d(5) wr2] by blast
      have fr3: "rec_frame s s3"
        using rec_frame_trans [OF _ rec_frame_idx_step [OF ap(2)], of s] by (simp add: success(2) rec_frame_def mapped_def)
      note i3 = idx_step_simps [OF ap(2)]
      show ?thesis
      proof (cases "rc = SQLITE_OK")
        case False
        then have "recover_loop (Suc k) i c s = Some (rc, c, s3)"
          using rd d(1) ap(1) by (simp add: Let_def s1 WAL_FRAME_HDRSIZE_def)
        then show ?thesis using False fr3 ap(3,4) success(2) by (auto simp: index_ok_def)
      next
        case rc: True
        define s4 where "s4 = (if nT \<noteq> 0 then upd_hdr (\<lambda>h. h\<lparr>mxFrame := of_nat (Suc i), nPage := nT, szPageHdr := pack_szPage (szPage (pWal s3))\<rparr>) s3 else s3)"
        let ?c = "if nT \<noteq> 0 then aFrameCksum (hdr (pWal s4)) else c"
        have step: "recover_loop (Suc k) i c s = recover_loop k (Suc i) ?c s4"
          using rd d(1) ap(1) rc by (simp add: Let_def s1 WAL_FRAME_HDRSIZE_def s4_def)
        have ck3: "aFrameCksum (hdr (pWal s3)) = aFrameCksum (hdr (after w0 (take (Suc i) frs)))"
          using d(4) [unfolded fi] same_log_frame(1) [OF w, of "frs ! i"] by (simp add: i3 tk next_wal_def)
        have sz3: "szPage (pWal s3) = szPage w0" using Suc.prems(3) by (simp add: i3 rec_done_def)
        have fr4: "rec_frame s s4" using fr3 by (simp add: s4_def upd_hdr_def rec_frame_def mapped_def)
        have ok4: "index_ok (map fpgno (take (Suc i) frs)) s4"
        proof -
          have "index_ok (map fpgno (take (Suc i) frs)) s3" using ap(4) rc i by (simp add: tk pn)
          then show ?thesis using shm_ok_cong(2) [of s4 s3] by (simp add: s4_def upd_hdr_def)
        qed
        have ih: "\<exists>rc c' s'. recover_loop k (Suc i) ?c s4 = Some (rc, c', s') \<and> rec_frame s4 s' \<and> shm_ok s' \<and> (answers s4 = [] \<longrightarrow> rc = SQLITE_OK) \<and>
            (rc = SQLITE_OK \<longrightarrow> rec_done w0 frs s' \<and> c' = commit_cksum w0 frs)"
        proof (rule Suc.IH)
          show "walFile s4 = H @ concat frs @ rest" using fr4 Suc.prems(1) by (simp add: rec_frame_def)
          show "length H = WAL_HDRSIZE" by (rule Suc.prems(2))
          show "aFrameCksum (hdr (pWal s4)) = aFrameCksum (hdr (after w0 (take (Suc i) frs)))"
            using ck3 by (simp add: s4_def upd_hdr_def)
          show "rec_done w0 (take (Suc i) frs) s4"
            using ok4 Suc.prems(3) i sz3 unfolding rec_done_def tk commit_snoc
            by (simp add: pn [symmetric]) (auto simp: s4_def upd_hdr_def i3 min_absorb2)
          show "Suc i + k = length (concat frs @ rest) div (page_bytes w0 + 24)" using Suc.prems(5) by simp
          show "Suc i \<le> length frs" using i by simp
          show "?c = commit_cksum w0 (take (Suc i) frs)"
            using ck3 Suc.prems(7) unfolding tk commit_snoc by (auto simp: pn [symmetric] tk [symmetric] s4_def upd_hdr_def)
        qed
        have "answers s = [] \<Longrightarrow> answers s4 = []" using fr4 by (simp add: rec_frame_def)
        then show ?thesis unfolding step using ih rec_frame_trans [OF fr4] by blast
      qed
    qed
  qed
qed

section \<open>Locks and headers\<close>

definition lock_step :: "walst \<Rightarrow> walst \<Rightarrow> bool" where
  "lock_step s s' \<longleftrightarrow> (\<exists>l a. s' = s\<lparr>ownLocks := l, answers := a\<rparr> \<and> (answers s = [] \<longrightarrow> a = []))"

lemma lock_stepI: "s' = s\<lparr>ownLocks := l, answers := a\<rparr> \<Longrightarrow> answers s = [] \<longrightarrow> a = [] \<Longrightarrow> lock_step s s'"
  unfolding lock_step_def by blast

lemma lock_step_refl: "lock_step s s"
  by (rule lock_stepI [where l = "ownLocks s" and a = "answers s"]) simp_all

lemma unixShmSystemLock_cases:
  obtains as where "unixShmSystemLock s = (SQLITE_OK, s\<lparr>answers := as\<rparr>)" "answers s = [] \<longrightarrow> as = []"
  | as where "unixShmSystemLock s = (SQLITE_BUSY, s\<lparr>answers := as\<rparr>)" "answers s \<noteq> []"
proof (cases rule: ask_cases [of s])
  case (success s')
  then show ?thesis using that(1) [of "tl (answers s)"] by (simp add: unixShmSystemLock_def)
next
  case (failure rc n s')
  then show ?thesis using that(2) [of "tl (answers s)"] by (simp add: unixShmSystemLock_def)
qed

lemma unixShmLock_step: "lock_step s (snd (unixShmLock ofst n flags s))"
proof -
  obtain rc as where sys: "unixShmSystemLock s = (rc, s\<lparr>answers := as\<rparr>)" "answers s = [] \<longrightarrow> as = []"
    by (cases rule: unixShmSystemLock_cases [of s]) auto
  obtain sh ex where l: "ownLocks s = (sh, ex)" by (cases "ownLocks s")
  have "lock_step s s" "lock_step s (s\<lparr>answers := as\<rparr>)" "lock_step s (s\<lparr>ownLocks := m\<rparr>)" "lock_step s (s\<lparr>answers := as, ownLocks := m\<rparr>)" for m
    using sys(2) by (auto intro: lock_step_refl lock_stepI [where l = "ownLocks s" and a = as] lock_stepI [where l = m and a = "answers s"]
        lock_stepI [where l = m and a = as])
  then show ?thesis
    by (cases flags) (simp_all add: unixShmLock_def Let_def sys l)
qed

lemma wal_lock_step:
  "walLockShared i s = (rc, s') \<Longrightarrow> lock_step s s'" "walLockExclusive i n s = (rc, s') \<Longrightarrow> lock_step s s'"
  "lock_step s (walUnlockShared i s)" "lock_step s (walUnlockExclusive i n s)"
  using unixShmLock_step [of s] lock_step_refl [of s]
  unfolding walLockShared_def walLockExclusive_def walUnlockShared_def walUnlockExclusive_def
  by (auto split: if_splits) (metis snd_conv)+

lemma lock_step_simps:
  assumes "lock_step s s'"
  shows "pWal s' = pWal s" "regions s' = regions s" "walFile s' = walFile s" "dbFile s' = dbFile s" "shmHdr0 s' = shmHdr0 s"
    "shmHdr1 s' = shmHdr1 s" "nBackfill s' = nBackfill s" "aReadMark s' = aReadMark s" "siblings s' = siblings s" "rng s' = rng s"
    "answers s = [] \<Longrightarrow> answers s' = []" "shmReadonly s' = shmReadonly s" "shmSize s' = shmSize s"
    "mapped s' h = mapped s h" "shm_ok s' = shm_ok s" "index_ok gs s' = index_ok gs s"
proof -
  show p: "pWal s' = pWal s" "regions s' = regions s" using assms unfolding lock_step_def by auto
  show "mapped s' h = mapped s h" "shm_ok s' = shm_ok s" "index_ok gs s' = index_ok gs s"
    using shm_ok_cong [of s' s] p by simp_all
qed (use assms in \<open>auto simp: lock_step_def\<close>)

definition hdr_valid :: "WalIndexHdr \<Rightarrow> bool" where
  "hdr_valid h \<longleftrightarrow> isInitHdr h = 1 \<and> iVersion h = WALINDEX_MAX_VERSION \<and> length (aSalt h) = 8 \<and>
     walChecksumBytes True (hdr_bytes h) (0, 0) = Some (aCksum h)"

lemma hdr_cksum_total:
  assumes "length (aSalt h) = 8"
  shows "\<exists>c. walChecksumBytes True (hdr_bytes h) (0, 0) = Some c"
proof (rule cksum_total)
  show "length (hdr_bytes h) mod 8 = 0" "hdr_bytes h \<noteq> []" using assms by (simp_all add: hdr_bytes_def)
qed

lemma walIndexWriteHdr_post:
  assumes "mapped s 0" and "length (aSalt (hdr (pWal s))) = 8"
  shows "\<exists>c. let h = (hdr (pWal s))\<lparr>isInitHdr := 1, iVersion := WALINDEX_MAX_VERSION, aCksum := c\<rparr> in
    walIndexWriteHdr s = Some ((upd_hdr (\<lambda>_. h) s)\<lparr>shmHdr1 := h, shmHdr0 := h\<rparr>) \<and> hdr_valid h"
proof -
  let ?h = "(hdr (pWal s))\<lparr>isInitHdr := 1, iVersion := WALINDEX_MAX_VERSION\<rparr>"
  obtain c where c: "walChecksumBytes True (hdr_bytes ?h) (0, 0) = Some c"
    using hdr_cksum_total [of ?h] assms(2) by auto
  have "hdr_bytes (?h\<lparr>aCksum := c\<rparr>) = hdr_bytes ?h" by (simp add: hdr_bytes_def)
  then have "hdr_valid (?h\<lparr>aCksum := c\<rparr>)" using c assms(2) by (simp add: hdr_valid_def)
  then show ?thesis using c assms(1) by (intro exI [of _ c]) (simp add: walIndexWriteHdr_def Let_def)
qed

section \<open>The result of recovery\<close>

text \<open>The state of the connection and the wal-index that stands for the log \<open>frs\<close> on the header \<open>w0\<close>.\<close>

definition recovered :: "Wal \<Rightarrow> u8 list list \<Rightarrow> walst \<Rightarrow> bool" where
  "recovered w0 frs s \<longleftrightarrow> index_ok (map fpgno frs) s \<and> hdr_valid (hdr (pWal s)) \<and> shmHdr0 s = hdr (pWal s) \<and> shmHdr1 s = hdr (pWal s) \<and>
     mxFrame (hdr (pWal s)) = of_nat (commit_len frs) \<and> nPage (hdr (pWal s)) = commit_size frs \<and>
     aFrameCksum (hdr (pWal s)) = commit_cksum w0 frs \<and> nBackfill s = 0 \<and>
     (commit_len frs \<noteq> 0 \<longrightarrow> szPage (pWal s) = szPage w0 \<and> bigEndCksum (hdr (pWal s)) = bigEndCksum (hdr w0) \<and>
        aSalt (hdr (pWal s)) = aSalt (hdr w0) \<and> szPageHdr (hdr (pWal s)) = pack_szPage (szPage w0)) \<and>
     aReadMark s = [0, if commit_len frs = 0 then READMARK_NOT_USED else of_nat (commit_len frs)] @ replicate 3 READMARK_NOT_USED"

lemma recover_finish_post:
  assumes "rec_done w0 frs s" and "mapped s 0" and "length frs < 2 ^ 32" and "length (aSalt (hdr w0)) = 8"
  shows "\<exists>s'. recover_finish (commit_cksum w0 frs) s = Some s' \<and> recovered w0 frs s' \<and> walFile s' = walFile s \<and> dbFile s' = dbFile s \<and>
    siblings s' = siblings s \<and> ownLocks s' = ownLocks s \<and> answers s' = answers s"
proof -
  let ?s = "upd_hdr (\<lambda>h. h\<lparr>aFrameCksum := commit_cksum w0 frs\<rparr>) s"
  have "mapped ?s 0" "length (aSalt (hdr (pWal ?s))) = 8" using assms by (simp_all add: upd_hdr_def mapped_def rec_done_def)
  then obtain c where c: "let h = (hdr (pWal ?s))\<lparr>isInitHdr := 1, iVersion := WALINDEX_MAX_VERSION, aCksum := c\<rparr> in
      walIndexWriteHdr ?s = Some ((upd_hdr (\<lambda>_. h) ?s)\<lparr>shmHdr1 := h, shmHdr0 := h\<rparr>) \<and> hdr_valid h"
    using walIndexWriteHdr_post by blast
  define h where "h = (hdr (pWal ?s))\<lparr>isInitHdr := 1, iVersion := WALINDEX_MAX_VERSION, aCksum := c\<rparr>"
  define s1 where "s1 = (upd_hdr (\<lambda>_. h) ?s)\<lparr>shmHdr1 := h, shmHdr0 := h\<rparr>"
  have w: "walIndexWriteHdr ?s = Some s1" "hdr_valid h" using c by (simp_all add: h_def s1_def Let_def)
  define s' where "s' = s1\<lparr>nBackfill := 0, aReadMark := [0, if mxFrame (hdr (pWal s1)) \<noteq> 0 then mxFrame (hdr (pWal s1)) else READMARK_NOT_USED] @
      replicate (WAL_NREADER - 2) READMARK_NOT_USED\<rparr>"
  have f: "recover_finish (commit_cksum w0 frs) s = Some s'" by (simp add: recover_finish_def w(1) s'_def)
  have z: "(of_nat (commit_len frs) = (0 :: u32)) = (commit_len frs = 0)"
  proof -
    have "unat (of_nat (commit_len frs) :: u32) = commit_len frs"
      using assms(3) commit_len_le [of frs] by (simp add: unsigned_of_nat take_bit_nat_eq_self)
    then show ?thesis using unat_eq_zero [of "of_nat (commit_len frs) :: u32"] by simp
  qed
  have same: "regions s' = regions s" "apWiData (pWal s') = apWiData (pWal s)" "exclusiveMode (pWal s') = exclusiveMode (pWal s)"
      "hdr (pWal s') = h" "shmHdr0 s' = h" "shmHdr1 s' = h" "szPage (pWal s') = szPage (pWal s)"
      "walFile s' = walFile s" "dbFile s' = dbFile s" "siblings s' = siblings s" "ownLocks s' = ownLocks s" "answers s' = answers s"
      "nBackfill s' = 0" "aReadMark s' = [0, if mxFrame h \<noteq> 0 then mxFrame h else READMARK_NOT_USED] @ replicate 3 READMARK_NOT_USED"
    by (simp_all add: s'_def s1_def upd_hdr_def WAL_NREADER_def SQLITE_SHM_NLOCK_def)
  have "index_ok (map fpgno frs) s'" using assms(1) shm_ok_cong(2) [OF same(1-3)] by (simp add: rec_done_def)
  then have "recovered w0 frs s'"
    using assms(1) w(2) unfolding recovered_def same by (simp add: rec_done_def h_def upd_hdr_def z)
  then show ?thesis using f same by blast
qed

lemma lock_exclusive_free:
  assumes "answers s = []" and "\<forall>x \<in> set (ownLocks s # siblings s). fst x AND lock_mask i n = 0 \<and> snd x AND lock_mask i n = 0"
  shows "fst (walLockExclusive i n s) = SQLITE_OK"
  using assms by (auto simp: walLockExclusive_def unixShmLock_def Let_def unixShmSystemLock_def ask_def split: prod.split)

text \<open>The ranges of locks that recovery takes: all but the one it has been called with.\<close>

definition recover_mask :: "walst \<Rightarrow> u16" where
  "recover_mask s = (let i = WAL_ALL_BUT_WRITE + (if ckptLock (pWal s) then 1 else 0) in lock_mask i (SQLITE_SHM_NLOCK - i))"

lemma index_ok_Nil: "index_ok [] s = shm_ok s"
  by (simp add: index_ok_def)

lemma recover_log_post:
  assumes wf: "walFile s = H @ concat frs @ rest" and hd: "log_header H w0"
    and log: "chain w0 frs" "stops (after w0 frs) rest" "length frs + 4096 < 2 ^ 32"
    and st: "shm_ok s" "writeLock (pWal s)" "hdr (pWal s) = zero_hdr"
  shows "\<exists>rc fin c s'. recover_log s = Some (rc, fin, c, s') \<and> rec_frame s s' \<and> shm_ok s' \<and> (answers s = [] \<longrightarrow> rc = SQLITE_OK) \<and>
    (rc = SQLITE_OK \<longrightarrow> fin \<and> rec_done w0 frs s' \<and> c = commit_cksum w0 frs)"
proof -
  let ?w = "\<lambda>w. w\<lparr>szPage := szPage w0, nCkpt := nCkpt w0, hdr := (hdr w)\<lparr>bigEndCksum := bigEndCksum (hdr w0),
    aSalt := aSalt (hdr w0), aFrameCksum := aFrameCksum (hdr w0)\<rparr>\<rparr>"
  have len: "length H = WAL_HDRSIZE" and vs: "valid_size (szPage w0)" using hd by (simp_all add: log_header_def)
  obtain magic where magic: "sqlite3Get4byte H = Some magic" "magic AND 0xFFFFFFFE = WAL_MAGIC" "bigEndCksum (hdr w0) = ucast (magic AND 1)"
    using hd by (auto simp: log_header_def)
  show ?thesis
  proof (cases rule: ask_cases [of s])
    case (failure rc n s1)
    then have "recover_log s = Some (fail_rc rc, False, (0, 0), s1)" by (simp add: recover_log_def os_read_def)
    moreover have "rec_frame s s1" "shm_ok s1" using st failure by (simp_all add: rec_frame_def mapped_def shm_ok_def)
    ultimately show ?thesis using failure(3) by (intro exI [of _ "fail_rc rc"] exI [of _ False] exI [of _ "(0, 0)"] exI [of _ s1]) simp
  next
    case s1: (success s1)
    have rd: "os_read (walFile s) WAL_HDRSIZE 0 s = (SQLITE_OK, H, s1)"
      using s1(1) len by (simp add: os_read_def wf)
    let ?s2 = "upd_wal ?w s1"
    let ?k = "(length (walFile s) - WAL_HDRSIZE) div (unat (szPage w0) + WAL_FRAME_HDRSIZE)"
    have ck: "walChecksumBytes (ucast (magic AND 1) = SQLITE_BIGENDIAN) (take 24 H) (0, 0) = Some (aFrameCksum (hdr w0))"
      using hd magic(3) by (simp add: log_header_def)
    have nl: "\<not> SQLITE_MAX_PAGE_SIZE < szPage w0" "\<not> szPage w0 < 512" using vs by (simp_all add: valid_size_def not_less)
    have r: "recover_log s = (case ask ?s2 of
            (Failure _ _, s) \<Rightarrow> Some (SQLITE_NOMEM, False, (0, 0), s)
          | (Success, s) \<Rightarrow> do {
              (rc, c, s) \<leftarrow> recover_loop ?k 0 (0, 0) s;
              Some (rc, True, c, s)
            })"
      using hd magic vs ck unfolding recover_log_def Let_def rd
      by (simp add: log_header_def valid_size_def WAL_HDRSIZE_def nl)
    show ?thesis
    proof (cases rule: ask_cases [of ?s2])
      case (failure rc n s3)
      then have "recover_log s = Some (SQLITE_NOMEM, False, (0, 0), s3)" unfolding r by simp
      moreover have "rec_frame s s3" using failure s1 by (simp add: rec_frame_def mapped_def upd_wal_def)
      moreover have "shm_ok s3" using st(1) shm_ok_cong(1) [of s3 s] failure s1 by (simp add: upd_wal_def)
      ultimately show ?thesis using failure(3) s1
        by (intro exI [of _ SQLITE_NOMEM] exI [of _ False] exI [of _ "(0, 0)"] exI [of _ s3]) (auto simp: upd_wal_def)
    next
      case s3: (success s3)
      have f3: "rec_frame s s3" "shm_ok s3" "answers s = [] \<Longrightarrow> answers s3 = []"
        using st(1) shm_ok_cong(1) [of s3 s] s3 s1 by (simp_all add: rec_frame_def mapped_def upd_wal_def)
      have pw: "pWal s3 = ?w (pWal s)" by (simp add: s3(2) s1(2) upd_wal_def)
      have "length (concat frs @ rest) = length (walFile s) - WAL_HDRSIZE" using len by (simp add: wf)
      then have k: "0 + ?k = length (concat frs @ rest) div (page_bytes w0 + 24)" by (simp add: page_bytes_def WAL_FRAME_HDRSIZE_def)
      have "\<exists>rc c' s'. recover_loop ?k 0 (0, 0) s3 = Some (rc, c', s') \<and> rec_frame s3 s' \<and> shm_ok s' \<and> (answers s3 = [] \<longrightarrow> rc = SQLITE_OK) \<and>
          (rc = SQLITE_OK \<longrightarrow> rec_done w0 frs s' \<and> c' = commit_cksum w0 frs)"
      proof (rule recover_loop_post [OF log _ _ _ len])
        show "page_bytes w0 mod 8 = 0" "0 < page_bytes w0" using valid_size_bytes [OF vs] by (simp_all add: page_bytes_def)
        show "walFile s3 = H @ concat frs @ rest" using f3(1) wf by (simp add: rec_frame_def)
        show "rec_done w0 (take 0 frs) s3"
          using f3(2) st(2,3) by (simp add: rec_done_def index_ok_Nil pw zero_hdr_def)
        show "aFrameCksum (hdr (pWal s3)) = aFrameCksum (hdr (after w0 (take 0 frs)))" by (simp add: pw)
      qed (use k in simp_all)
      then obtain rc c' s' where l: "recover_loop ?k 0 (0, 0) s3 = Some (rc, c', s')" "rec_frame s3 s'" "shm_ok s'" "answers s3 = [] \<longrightarrow> rc = SQLITE_OK"
          "rc = SQLITE_OK \<longrightarrow> rec_done w0 frs s' \<and> c' = commit_cksum w0 frs"
        by blast
      have "recover_log s = Some (rc, True, c', s')" unfolding r using s3(1) l(1) by simp
      then show ?thesis using l f3 rec_frame_trans [OF f3(1) l(2)]
        by (intro exI [of _ rc] exI [of _ True] exI [of _ c'] exI [of _ s']) simp
    qed
  qed
qed

lemma walIndexRecover_post:
  assumes wf: "walFile s = H @ concat frs @ rest" and hd: "log_header H w0"
    and log: "chain w0 frs" "stops (after w0 frs) rest" "length frs + 4096 < 2 ^ 32"
    and st: "shm_ok s" "writeLock (pWal s)" "mapped s 0"
  shows "\<exists>rc s'. walIndexRecover s = Some (rc, s') \<and> walFile s' = walFile s \<and> dbFile s' = dbFile s \<and>
    (answers s = [] \<and> (\<forall>x \<in> set (ownLocks s # siblings s). fst x AND recover_mask s = 0 \<and> snd x AND recover_mask s = 0) \<longrightarrow> rc = SQLITE_OK) \<and>
    (rc = SQLITE_OK \<longrightarrow> recovered w0 frs s')"
proof -
  let ?i = "WAL_ALL_BUT_WRITE + (if ckptLock (pWal s) then 1 else 0)"
  let ?n = "SQLITE_SHM_NLOCK - ?i"
  obtain rc1 s1 where lk: "walLockExclusive ?i ?n s = (rc1, s1)" by (cases "walLockExclusive ?i ?n s")
  note l1 = lock_step_simps [OF wal_lock_step(2) [OF lk]]
  show ?thesis
  proof (cases "rc1 = SQLITE_OK")
    case False
    then have r: "walIndexRecover s = Some (rc1, s1)" by (simp add: walIndexRecover_def lk)
    have "\<not> (answers s = [] \<and> (\<forall>x \<in> set (ownLocks s # siblings s). fst x AND recover_mask s = 0 \<and> snd x AND recover_mask s = 0))"
    proof
      assume a: "answers s = [] \<and> (\<forall>x \<in> set (ownLocks s # siblings s). fst x AND recover_mask s = 0 \<and> snd x AND recover_mask s = 0)"
      have b: "answers s = []" using a by (rule conjunct1)
      have "fst (walLockExclusive ?i ?n s) = SQLITE_OK"
        using a [THEN conjunct2] unfolding recover_mask_def Let_def by (rule lock_exclusive_free [OF b])
      then show False using lk False by simp
    qed
    then show ?thesis using l1 False unfolding r by blast
  next
    case True
    let ?s2 = "upd_hdr (\<lambda>_. zero_hdr) s1"
    obtain rc3 s3 where pl: "os_plain ?s2 = (rc3, s3)" by (cases "os_plain ?s2")
    have s3: "\<exists>a. s3 = ?s2\<lparr>answers := a\<rparr>" "answers s = [] \<Longrightarrow> rc3 = SQLITE_OK \<and> answers s3 = []"
      using pl l1(11) by (cases rule: ask_cases [of ?s2]; auto simp: os_plain_def upd_hdr_def)+
    have f3: "regions s3 = regions s" "apWiData (pWal s3) = apWiData (pWal s)" "exclusiveMode (pWal s3) = exclusiveMode (pWal s)"
        "walFile s3 = walFile s" "dbFile s3 = dbFile s" "hdr (pWal s3) = zero_hdr" "writeLock (pWal s3)"
      using s3(1) l1 st(2) by (auto simp: upd_hdr_def)
    have ok3: "shm_ok s3" "mapped s3 0" using shm_ok_cong [OF f3(1-3)] st by simp_all
    let ?u = "walUnlockExclusive ?i ?n"
    have u: "walFile (?u x) = walFile x" "dbFile (?u x) = dbFile x" "recovered w0 frs (?u x) = recovered w0 frs x" for x
      using lock_step_simps [OF wal_lock_step(4) [of x ?i ?n]] by (simp_all add: recovered_def)
    show ?thesis
    proof (cases "rc3 = SQLITE_OK")
      case False
      then have r: "walIndexRecover s = Some (rc3, ?u s3)" using True by (simp add: walIndexRecover_def lk pl Let_def)
      show ?thesis using False f3 s3(2) unfolding r by (auto simp: u)
    next
      case rc3: True
      have aS: "length (aSalt (hdr w0)) = 8" using hd by (auto simp: log_header_def WAL_HDRSIZE_def)
      have "\<exists>rc fin c s'. (if length (walFile s3) > WAL_HDRSIZE then recover_log s3 else Some (rc3, True, (0, 0), s3)) = Some (rc, fin, c, s') \<and>
          walFile s' = walFile s \<and> dbFile s' = dbFile s \<and> (answers s = [] \<longrightarrow> rc = SQLITE_OK) \<and>
          (rc = SQLITE_OK \<longrightarrow> fin \<and> (\<exists>s''. recover_finish c s' = Some s'' \<and> recovered w0 frs s'' \<and> walFile s'' = walFile s \<and> dbFile s'' = dbFile s))"
      proof (cases "length (walFile s3) > WAL_HDRSIZE")
        case big: True
        obtain rc fin c s' where r: "recover_log s3 = Some (rc, fin, c, s')" "rec_frame s3 s'" "answers s3 = [] \<longrightarrow> rc = SQLITE_OK"
            "rc = SQLITE_OK \<longrightarrow> fin \<and> rec_done w0 frs s' \<and> c = commit_cksum w0 frs"
          using recover_log_post [OF wf [folded f3(4)] hd log ok3(1) f3(7,6)] by blast
        then have "mapped s' 0" "walFile s' = walFile s" "dbFile s' = dbFile s" using ok3(2) f3 by (simp_all add: rec_frame_def)
        moreover have "rc = SQLITE_OK \<longrightarrow> fin \<and> (\<exists>s''. recover_finish c s' = Some s'' \<and> recovered w0 frs s'' \<and> walFile s'' = walFile s \<and> dbFile s'' = dbFile s)"
        proof
          assume "rc = SQLITE_OK"
          then have d: "fin" "rec_done w0 frs s'" "c = commit_cksum w0 frs" using r(4) by simp_all
          obtain s'' where "recover_finish (commit_cksum w0 frs) s' = Some s'' \<and> recovered w0 frs s'' \<and> walFile s'' = walFile s' \<and> dbFile s'' = dbFile s'"
            using recover_finish_post [OF d(2) \<open>mapped s' 0\<close> _ aS] log(3) by auto
          then show "fin \<and> (\<exists>s''. recover_finish c s' = Some s'' \<and> recovered w0 frs s'' \<and> walFile s'' = walFile s \<and> dbFile s'' = dbFile s)"
            using d \<open>walFile s' = walFile s\<close> \<open>dbFile s' = dbFile s\<close> by auto
        qed
        ultimately show ?thesis using big r(1,3) s3(2) by simp
      next
        case small: False
        then have "frs = []"
          using wf hd f3(4) chain_lengths [OF log(1), of "hd frs"] by (cases frs) (auto simp: log_header_def)
        have "\<exists>s''. recover_finish (0, 0) s3 = Some s'' \<and> recovered w0 [] s'' \<and> walFile s'' = walFile s3 \<and> dbFile s'' = dbFile s3"
        proof -
          have d: "rec_done (pWal s3) [] s3" using ok3(1) f3(6,7) by (simp add: rec_done_def index_ok_Nil zero_hdr_def)
          obtain s'' where "recover_finish (commit_cksum (pWal s3) []) s3 = Some s''" "recovered (pWal s3) [] s''" "walFile s'' = walFile s3" "dbFile s'' = dbFile s3"
            using recover_finish_post [OF d ok3(2)] f3(6) by (auto simp: zero_hdr_def)
          then show ?thesis by (simp add: recovered_def)
        qed
        then show ?thesis using small rc3 f3 \<open>frs = []\<close> by auto
      qed
      then obtain rc fin c s' where r: "(if length (walFile s3) > WAL_HDRSIZE then recover_log s3 else Some (rc3, True, (0, 0), s3)) = Some (rc, fin, c, s')"
          "walFile s' = walFile s" "dbFile s' = dbFile s" "answers s = [] \<longrightarrow> rc = SQLITE_OK"
          "rc = SQLITE_OK \<longrightarrow> fin \<and> (\<exists>s''. recover_finish c s' = Some s'' \<and> recovered w0 frs s'' \<and> walFile s'' = walFile s \<and> dbFile s'' = dbFile s)"
        by blast
      have w: "walIndexRecover s = do {
           s \<leftarrow> (if fin \<and> rc = SQLITE_OK then recover_finish c s' else Some s');
           Some (rc, ?u s)
         }"
        using True r(1) [unfolded rc3] unfolding walIndexRecover_def Let_def lk by (simp add: pl rc3 split del: if_split)
      show ?thesis
      proof (cases "rc = SQLITE_OK")
        case False
        then show ?thesis using r unfolding w by (auto simp: u)
      next
        case ok: True
        then obtain s'' where "recover_finish c s' = Some s''" "recovered w0 frs s''" "walFile s'' = walFile s" "dbFile s'' = dbFile s" "fin"
          using r(5) by blast
        then show ?thesis using ok unfolding w by (simp add: u)
      qed
    qed
  qed
qed

end
