(* ===== verification/WalCommit.thy ===== *)
theory WalCommit
  imports WalLog
begin

text \<open>
  Writing a transaction to the log. The bytes that \<open>sqlite3WalFrames\<close> writes are described as the sequence of frames that
  the checksum of the log determines; whatever call fails, the file consists of the old frames, some of the new
  ones and a torn rest. With the facts on recovery: after a crash at any point the log holds the old
  commit or the new one, and after a successful return the new one.
\<close>

section \<open>Writing bytes\<close>

lemma write_at_append: "length A = off \<Longrightarrow> write_at off bs (A @ r) = A @ bs @ drop (length bs) r"
  by (simp add: write_at_def)

text \<open>A step that changes the log file and the answers of the system only.\<close>

definition file_step :: "walst \<Rightarrow> walst \<Rightarrow> bool" where
  "file_step s s' \<longleftrightarrow> (\<exists>f a. s' = s\<lparr>walFile := f, answers := a\<rparr> \<and> (answers s = [] \<longrightarrow> a = []))"

lemma file_stepI: "s' = s\<lparr>walFile := f, answers := a\<rparr> \<Longrightarrow> (answers s = [] \<longrightarrow> a = []) \<Longrightarrow> file_step s s'"
  unfolding file_step_def by blast

lemma file_step_trans:
  assumes "file_step s s'" and "file_step s' s''"
  shows "file_step s s''"
proof -
  obtain f a where 1: "s' = s\<lparr>walFile := f, answers := a\<rparr>" "answers s = [] \<longrightarrow> a = []" using assms(1) unfolding file_step_def by blast
  obtain f' a' where 2: "s'' = s'\<lparr>walFile := f', answers := a'\<rparr>" "answers s' = [] \<longrightarrow> a' = []" using assms(2) unfolding file_step_def by blast
  show ?thesis by (rule file_stepI [where f = f' and a = a']) (use 1 2 in simp_all)
qed

lemma file_step_simps:
  assumes "file_step s s'"
  shows "pWal s' = pWal s" "regions s' = regions s" "dbFile s' = dbFile s" "shmHdr0 s' = shmHdr0 s"
    "shmHdr1 s' = shmHdr1 s" "nBackfill s' = nBackfill s" "aReadMark s' = aReadMark s" "siblings s' = siblings s" "ownLocks s' = ownLocks s"
    "rng s' = rng s" "answers s = [] \<Longrightarrow> answers s' = []" "shmReadonly s' = shmReadonly s" "shmSize s' = shmSize s"
    "mapped s' h = mapped s h" "shm_ok s' = shm_ok s" "index_ok gs s' = index_ok gs s"
proof -
  show p: "pWal s' = pWal s" "regions s' = regions s" using assms unfolding file_step_def by auto
  show "mapped s' h = mapped s h" "shm_ok s' = shm_ok s" "index_ok gs s' = index_ok gs s"
    using shm_ok_cong [of s' s] p by simp_all
qed (use assms in \<open>auto simp: file_step_def\<close>)

lemma wal_write_post:
  assumes "walFile s = A @ r" and "length A = off" and "wal_write off bs s = (rc, s')"
  shows "file_step s s'" and "rc = SQLITE_OK \<Longrightarrow> walFile s' = A @ bs @ drop (length bs) r" and "\<exists>r'. walFile s' = A @ r'"
    and "answers s = [] \<Longrightarrow> rc = SQLITE_OK"
proof -
  have "file_step s s' \<and> (rc = SQLITE_OK \<longrightarrow> walFile s' = A @ bs @ drop (length bs) r) \<and> (\<exists>r'. walFile s' = A @ r') \<and>
      (answers s = [] \<longrightarrow> rc = SQLITE_OK)"
  proof (cases rule: ask_cases [of s])
    case (success s1)
    then have "rc = SQLITE_OK" "s' = s\<lparr>walFile := A @ bs @ drop (length bs) r, answers := tl (answers s)\<rparr>"
      using assms by (auto simp: wal_write_def write_at_append)
    then show ?thesis by (auto intro: file_stepI)
  next
    case (failure e n s1)
    then have "rc \<noteq> SQLITE_OK" "s' = s\<lparr>walFile := A @ take n bs @ drop (length (take n bs)) r, answers := tl (answers s)\<rparr>"
      using assms by (auto simp: wal_write_def write_at_append)
    then show ?thesis using failure(3) by (auto intro: file_stepI)
  qed
  then show "file_step s s'" "rc = SQLITE_OK \<Longrightarrow> walFile s' = A @ bs @ drop (length bs) r" "\<exists>r'. walFile s' = A @ r'"
    "answers s = [] \<Longrightarrow> rc = SQLITE_OK" by blast+
qed

lemma os_plain_post:
  assumes "os_plain s = (rc, s')"
  shows "file_step s s'" and "walFile s' = walFile s" and "answers s = [] \<Longrightarrow> rc = SQLITE_OK"
proof -
  have "s' = s\<lparr>walFile := walFile s, answers := tl (answers s)\<rparr> \<and> (answers s = [] \<longrightarrow> rc = SQLITE_OK)"
    using assms by (cases rule: ask_cases [of s]) (auto simp: os_plain_def)
  then show "file_step s s'" "walFile s' = walFile s" "answers s = [] \<Longrightarrow> rc = SQLITE_OK"
    using file_stepI [where s = s and s' = s' and f = "walFile s" and a = "tl (answers s)"] by auto
qed

lemma walWriteToLog_post:
  assumes f: "walFile s = A @ r" "length A = off" and w: "walWriteToLog p bs off s = (rc, s')"
  shows "file_step s s'" and "rc = SQLITE_OK \<Longrightarrow> walFile s' = A @ bs @ drop (length bs) r" and "\<exists>r'. walFile s' = A @ r'"
    and "answers s = [] \<Longrightarrow> rc = SQLITE_OK"
proof -
  have "file_step s s' \<and> (rc = SQLITE_OK \<longrightarrow> walFile s' = A @ bs @ drop (length bs) r) \<and> (\<exists>r'. walFile s' = A @ r') \<and>
      (answers s = [] \<longrightarrow> rc = SQLITE_OK)"
  proof (cases "off < iSyncPoint p \<and> off + length bs \<ge> iSyncPoint p")
    case False
    then have "wal_write off bs s = (rc, s')" using w unfolding walWriteToLog_def by (simp split: if_splits)
    then show ?thesis using wal_write_post [OF f] by blast
  next
    case True
    let ?k = "iSyncPoint p - off"
    obtain rc1 s1 where w1: "wal_write off (take ?k bs) s = (rc1, s1)" by (cases "wal_write off (take ?k bs) s")
    note p1 = wal_write_post [OF f w1]
    show ?thesis
    proof (cases "rc1 = SQLITE_OK")
      case False
      then have "rc = rc1" "s' = s1" using w True w1 by (simp_all add: walWriteToLog_def Let_def)
      then show ?thesis using p1 False by auto
    next
      case ok1: True
      obtain rc2 s2 where w2: "os_plain s1 = (rc2, s2)" by (cases "os_plain s1")
      note p2 = os_plain_post [OF w2]
      have k: "?k \<le> length bs" using True by linarith
      have f2: "walFile s2 = (A @ take ?k bs) @ drop ?k r" using p1(2) [OF ok1] p2(2) k by (simp add: min_absorb2)
      show ?thesis
      proof (cases "length bs - ?k = 0 \<or> rc2 \<noteq> SQLITE_OK")
        case stop: True
        then have "rc = rc2" "s' = s2" using w True w1 w2 ok1 by (auto simp: walWriteToLog_def Let_def)
        moreover have "length bs = ?k \<Longrightarrow> walFile s2 = A @ bs @ drop (length bs) r" using f2 by simp
        ultimately show ?thesis using stop k f2 p1(1) p2 file_step_trans file_step_simps(11) [OF p1(1)] by auto
      next
        case False
        then have w3: "wal_write (off + ?k) (drop ?k bs) s2 = (rc, s')"
          using w True w1 w2 ok1 by (auto simp: walWriteToLog_def Let_def)
        have l: "length (A @ take ?k bs) = off + ?k" using f(2) k by simp
        note p3 = wal_write_post [OF f2 l w3]
        have "walFile s' = A @ bs @ drop (length bs) r" if "rc = SQLITE_OK"
        proof -
          have "bs = take ?k bs @ drop ?k bs" by simp
          then show ?thesis using p3(2) [OF that] k by (metis append.assoc drop_drop le_add_diff_inverse2 length_drop)
        qed
        then show ?thesis
          using p3 file_step_trans [OF file_step_trans [OF p1(1) p2(1)] p3(1)] file_step_simps(11) [OF p1(1)] file_step_simps(11) [OF p2(1)] by auto
      qed
    qed
  qed
  then show "file_step s s'" "rc = SQLITE_OK \<Longrightarrow> walFile s' = A @ bs @ drop (length bs) r" "\<exists>r'. walFile s' = A @ r'"
    "answers s = [] \<Longrightarrow> rc = SQLITE_OK" by blast+
qed

section \<open>The frames of a transaction\<close>

text \<open>
  A frame to be written is its page number, its commit mark and the content as it goes to the file; \<open>frames_of\<close> is their encoding
  from the state \<open>w\<close> of the log on.
\<close>

definition frame_of :: "Wal \<Rightarrow> u32 \<times> u32 \<times> u8 list \<Rightarrow> u8 list" where
  "frame_of w = (\<lambda>(pgno, nT, d). (case walEncodeFrame w pgno nT d of Some (h, _) \<Rightarrow> h @ d | None \<Rightarrow> []))"

primrec frames_of :: "Wal \<Rightarrow> (u32 \<times> u32 \<times> u8 list) list \<Rightarrow> u8 list list" where
  "frames_of w [] = []"
| "frames_of w (x # xs) = frame_of w x # frames_of (next_wal (frame_of w x) w) xs"

definition item_ok :: "nat \<Rightarrow> u32 \<times> u32 \<times> u8 list \<Rightarrow> bool" where
  "item_ok n = (\<lambda>(pgno, nT, d). pgno \<noteq> 0 \<and> length d = n)"

definition wal_ok :: "Wal \<Rightarrow> bool" where
  "wal_ok w \<longleftrightarrow> length (aSalt (hdr w)) = 8 \<and> page_bytes w mod 8 = 0 \<and> 0 < page_bytes w"

lemma wal_ok_next [simp]: "wal_ok (next_wal f w) = wal_ok w"
  by (simp add: wal_ok_def)

lemma encode_total:
  assumes "wal_ok w" and "length d = page_bytes w"
  shows "\<exists>h w'. walEncodeFrame w pgno nT d = Some (h, w')"
proof -
  let ?n = "bigEndCksum (hdr w) = SQLITE_BIGENDIAN" and ?a = "sqlite3Put4byte pgno @ sqlite3Put4byte nT"
  have "\<exists>c. walChecksumBytes ?n ?a (aFrameCksum (hdr w)) = Some c" by (rule cksum_total) (simp_all add: sqlite3Put4byte_def)
  then obtain c where c: "walChecksumBytes ?n ?a (aFrameCksum (hdr w)) = Some c" ..
  have "\<exists>c'. walChecksumBytes ?n d c = Some c'"
    using assms by (intro cksum_total) (auto simp: wal_ok_def)
  then obtain c' where "walChecksumBytes ?n d c = Some c'" ..
  then show ?thesis using assms(2) c by (simp add: walEncodeFrame_def Let_def page_bytes_def)
qed

lemma frame_of_ok:
  assumes "wal_ok w" and "item_ok (page_bytes w) (pgno, nT, d)"
  shows "\<exists>h. walEncodeFrame w pgno nT d = Some (h, next_wal (frame_of w (pgno, nT, d)) w) \<and> frame_of w (pgno, nT, d) = h @ d \<and> length h = 24 \<and>
    frame_ok w (h @ d) \<and> fpgno (h @ d) = pgno \<and> ftrunc (h @ d) = nT"
proof -
  have l: "length d = page_bytes w" "pgno \<noteq> 0" using assms(2) by (simp_all add: item_ok_def)
  obtain h w' where e: "walEncodeFrame w pgno nT d = Some (h, w')"
    using encode_total [OF assms(1) l(1)] by blast
  have f: "frame_of w (pgno, nT, d) = h @ d" by (simp add: frame_of_def e)
  have ok: "length h = 24 \<and> frame_ok w (h @ d) \<and> sqlite3Get4byte (h @ d) = Some pgno \<and>
    sqlite3Get4byte (drop 4 (h @ d)) = Some nT \<and> (\<exists>c. frame_cksum w (h @ d) = Some c \<and> w' = set_cksum c w)"
    using assms l by (intro encode_frame_ok [OF e]) (simp_all add: wal_ok_def)
  then obtain c where c: "frame_cksum w (h @ d) = Some c" "w' = set_cksum c w" by blast
  then have "w' = next_wal (h @ d) w" by (simp add: next_wal_def)
  moreover have "fpgno (h @ d) = pgno" "ftrunc (h @ d) = nT" using ok unfolding fpgno_def ftrunc_def by (simp_all only: option.sel)
  ultimately show ?thesis using ok e unfolding f by blast
qed

lemma frame_of_simps:
  assumes "wal_ok w" and "item_ok (page_bytes w) x"
  shows "length (frame_of w x) = page_bytes w + 24" and "frame_ok w (frame_of w x)"
    and "fpgno (frame_of w x) = fst x" and "ftrunc (frame_of w x) = fst (snd x)" and "drop 24 (frame_of w x) = snd (snd x)"
proof -
  obtain pgno nT d where x: "x = (pgno, nT, d)" by (cases x)
  obtain h where "frame_of w x = h @ d" "length h = 24" "frame_ok w (h @ d)" "fpgno (h @ d) = pgno" "ftrunc (h @ d) = nT"
    using frame_of_ok [OF assms(1), of pgno nT d] assms(2) unfolding x by blast
  moreover have "length d = page_bytes w" using assms(2) by (simp add: x item_ok_def)
  ultimately show "length (frame_of w x) = page_bytes w + 24" "frame_ok w (frame_of w x)"
    "fpgno (frame_of w x) = fst x" "ftrunc (frame_of w x) = fst (snd x)" "drop 24 (frame_of w x) = snd (snd x)"
    by (simp_all add: x)
qed

lemma length_frames_of [simp]: "length (frames_of w xs) = length xs"
  by (induction xs arbitrary: w) simp_all

lemma frames_of_append: "frames_of w (xs @ ys) = frames_of w xs @ frames_of (after w (frames_of w xs)) ys"
  by (induction xs arbitrary: w) simp_all

lemma frames_of_ok:
  assumes "wal_ok w" and "\<forall>x \<in> set xs. item_ok (page_bytes w) x"
  shows "chain w (frames_of w xs) \<and> map fpgno (frames_of w xs) = map fst xs \<and> map ftrunc (frames_of w xs) = map (fst \<circ> snd) xs \<and>
    map (drop 24) (frames_of w xs) = map (snd \<circ> snd) xs"
  using assms
proof (induction xs arbitrary: w)
  case (Cons x xs)
  then have x: "item_ok (page_bytes w) x" by simp
  show ?case
    using Cons.IH [of "next_wal (frame_of w x) w"] Cons.prems frame_of_simps [OF Cons.prems(1) x] by simp
qed simp

section \<open>Writing the frames\<close>

type_synonym codec = "u32 \<Rightarrow> u8 list \<Rightarrow> u8 list option"

text \<open>The codec keeps the size of a page; the page numbers are not 0.\<close>

definition pages_ok :: "codec \<Rightarrow> nat \<Rightarrow> (u32 \<times> u8 list) list \<Rightarrow> bool" where
  "pages_ok E n pgs \<longleftrightarrow> (\<forall>pg \<in> set pgs. fst pg \<noteq> 0 \<and> (\<forall>d. E (fst pg) (snd pg) = Some d \<longrightarrow> length d = n))"

definition item :: "codec \<Rightarrow> u32 \<Rightarrow> u32 \<times> u8 list \<Rightarrow> u32 \<times> u32 \<times> u8 list" where
  "item E nT pg = (fst pg, nT, the (E (fst pg) (snd pg)))"

primrec items :: "codec \<Rightarrow> (u32 \<times> u8 list) list \<Rightarrow> bool \<Rightarrow> u32 \<Rightarrow> (u32 \<times> u32 \<times> u8 list) list" where
  "items E [] c nT = []"
| "items E (pg # rest) c nT = item E (if c \<and> rest = [] then nT else 0) pg # items E rest c nT"

lemma length_items [simp]: "length (items E pgs c nT) = length pgs"
  by (induction pgs) simp_all

text \<open>A step that writes to the log: the file, the answers and the running checksum change.\<close>

definition write_step :: "walst \<Rightarrow> walst \<Rightarrow> bool" where
  "write_step s s' \<longleftrightarrow> (\<exists>f a c. s' = s\<lparr>walFile := f, answers := a, pWal := set_cksum c (pWal s)\<rparr> \<and> (answers s = [] \<longrightarrow> a = []))"

lemma write_stepI: "s' = s\<lparr>walFile := f, answers := a, pWal := set_cksum c (pWal s)\<rparr> \<Longrightarrow> (answers s = [] \<longrightarrow> a = []) \<Longrightarrow> write_step s s'"
  unfolding write_step_def by blast

lemma set_cksum_same [simp]: "set_cksum c (set_cksum c' w) = set_cksum c w" "set_cksum (aFrameCksum (hdr w)) w = w"
  by (simp_all add: set_cksum_def)

lemma write_step_trans:
  assumes "write_step s s'" and "write_step s' s''"
  shows "write_step s s''"
proof -
  obtain f a c where 1: "s' = s\<lparr>walFile := f, answers := a, pWal := set_cksum c (pWal s)\<rparr>" "answers s = [] \<longrightarrow> a = []"
    using assms(1) unfolding write_step_def by blast
  obtain f' a' c' where 2: "s'' = s'\<lparr>walFile := f', answers := a', pWal := set_cksum c' (pWal s')\<rparr>" "answers s' = [] \<longrightarrow> a' = []"
    using assms(2) unfolding write_step_def by blast
  show ?thesis by (rule write_stepI [where f = f' and a = a' and c = c']) (use 1 2 in simp_all)
qed

lemma file_step_write_step:
  assumes "file_step s s'"
  shows "write_step s s'"
proof -
  obtain f a where 1: "s' = s\<lparr>walFile := f, answers := a\<rparr>" "answers s = [] \<longrightarrow> a = []" using assms(1) unfolding file_step_def by blast
  show ?thesis by (rule write_stepI [where f = f and a = a and c = "aFrameCksum (hdr (pWal s))"]) (use 1 in simp_all)
qed

lemma write_step_refl: "write_step s s"
  by (rule write_stepI [where f = "walFile s" and a = "answers s" and c = "aFrameCksum (hdr (pWal s))"]) simp_all

lemma write_step_simps:
  assumes "write_step s s'"
  shows "\<exists>c. pWal s' = set_cksum c (pWal s)" "regions s' = regions s" "dbFile s' = dbFile s" "shmHdr0 s' = shmHdr0 s"
    "shmHdr1 s' = shmHdr1 s" "nBackfill s' = nBackfill s" "aReadMark s' = aReadMark s" "siblings s' = siblings s" "ownLocks s' = ownLocks s"
    "rng s' = rng s" "answers s = [] \<Longrightarrow> answers s' = []" "writeLock (pWal s') = writeLock (pWal s)" "page_bytes (pWal s') = page_bytes (pWal s)"
    "mapped s' h = mapped s h" "shm_ok s' = shm_ok s" "index_ok gs s' = index_ok gs s" "wal_ok (pWal s') = wal_ok (pWal s)"
    "mxFrame (hdr (pWal s')) = mxFrame (hdr (pWal s))" "truncateOnCommit (pWal s') = truncateOnCommit (pWal s)"
    "padToSectorBoundary (pWal s') = padToSectorBoundary (pWal s)" "readLock (pWal s') = readLock (pWal s)" "szPage (pWal s') = szPage (pWal s)"
    "exclusiveMode (pWal s') = exclusiveMode (pWal s)"
proof -
  obtain f a c where s': "s' = s\<lparr>walFile := f, answers := a, pWal := set_cksum c (pWal s)\<rparr>" "answers s = [] \<longrightarrow> a = []"
    using assms unfolding write_step_def by blast
  have c: "pWal s' = set_cksum c (pWal s)" by (simp add: s')
  then show "\<exists>c. pWal s' = set_cksum c (pWal s)" ..
  show p: "regions s' = regions s" by (simp add: s')
  show "mapped s' h = mapped s h" "shm_ok s' = shm_ok s" "index_ok gs s' = index_ok gs s"
    using shm_ok_cong [of s' s] p c by simp_all
  show "writeLock (pWal s') = writeLock (pWal s)" "page_bytes (pWal s') = page_bytes (pWal s)" "wal_ok (pWal s') = wal_ok (pWal s)"
    "mxFrame (hdr (pWal s')) = mxFrame (hdr (pWal s))" "truncateOnCommit (pWal s') = truncateOnCommit (pWal s)"
    "padToSectorBoundary (pWal s') = padToSectorBoundary (pWal s)" "readLock (pWal s') = readLock (pWal s)" "szPage (pWal s') = szPage (pWal s)"
    "exclusiveMode (pWal s') = exclusiveMode (pWal s)"
    unfolding c by (simp_all add: page_bytes_def wal_ok_def set_cksum_def)
qed (use assms in \<open>auto simp: write_step_def\<close>)

lemma set_cksum_next: "next_wal f w = set_cksum (the (frame_cksum w f)) w"
  by (simp add: next_wal_def)

lemma walWriteOneFrame_post:
  assumes f: "walFile s = A @ r" "length A = off" and w: "wal_ok (pWal s)" and pg: "pages_ok E (page_bytes (pWal s)) [pg]" and n: "wSzPage p = page_bytes (pWal s)"
  shows "\<exists>rc s'. walWriteOneFrame E p pg nT off s = Some (rc, s') \<and> write_step s s' \<and> (\<exists>r'. walFile s' = A @ r') \<and>
    (answers s = [] \<and> E (fst pg) (snd pg) \<noteq> None \<longrightarrow> rc = SQLITE_OK) \<and>
    (rc = SQLITE_OK \<longrightarrow> E (fst pg) (snd pg) \<noteq> None \<and> (let f = frame_of (pWal s) (item E nT pg)
       in walFile s' = A @ f @ drop (length f) r \<and> pWal s' = next_wal f (pWal s)))"
proof (cases "E (fst pg) (snd pg)")
  case None
  then show ?thesis using f by (simp add: walWriteOneFrame_def write_step_refl)
next
  case (Some d)
  have d: "length d = page_bytes (pWal s)" "fst pg \<noteq> 0" using pg Some by (simp_all add: pages_ok_def)
  let ?x = "(fst pg, nT, d)" and ?w = "pWal s"
  have x: "item E nT pg = ?x" by (simp add: item_def Some)
  obtain h where h: "walEncodeFrame ?w (fst pg) nT d = Some (h, next_wal (frame_of ?w ?x) ?w)" "frame_of ?w ?x = h @ d" "length h = 24"
    using frame_of_ok [OF w, of "fst pg" nT d] d by (auto simp: item_ok_def)
  define w' where "w' = next_wal (h @ d) ?w"
  let ?s1 = "s\<lparr>pWal := w'\<rparr>"
  have st1: "write_step s ?s1"
    by (rule write_stepI [where f = "walFile s" and a = "answers s" and c = "the (frame_cksum ?w (h @ d))"]) (simp_all add: w'_def next_wal_def)
  obtain rc2 s2 where w2: "walWriteToLog p h off ?s1 = (rc2, s2)" by (cases "walWriteToLog p h off ?s1")
  have f1: "walFile ?s1 = A @ r" using f by simp
  note p2 = walWriteToLog_post [OF f1 f(2) w2]
  have st2: "write_step s s2" using write_step_trans [OF st1 file_step_write_step [OF p2(1)]] .
  have pb: "page_bytes (pWal s2) = page_bytes ?w" using file_step_simps(1) [OF p2(1)] by (simp add: w'_def)
  have e: "walWriteOneFrame E p pg nT off s = (if rc2 \<noteq> SQLITE_OK then Some (rc2, s2) else Some (walWriteToLog p d (off + 24) s2))"
    using h w2 d n by (simp add: walWriteOneFrame_def Some w'_def Let_def)
  show ?thesis
  proof (cases "rc2 = SQLITE_OK")
    case False
    then show ?thesis using e st2 p2 by auto
  next
    case True
    obtain rc3 s3 where w3: "walWriteToLog p d (off + 24) s2 = (rc3, s3)" by (cases "walWriteToLog p d (off + 24) s2")
    have f2: "walFile s2 = (A @ h) @ drop 24 r" using p2(2) [OF True] h(3) by simp
    have l: "length (A @ h) = off + 24" using f(2) h(3) by simp
    note p3 = walWriteToLog_post [OF f2 l w3]
    have "write_step s s3" using write_step_trans [OF st2 file_step_write_step [OF p3(1)]] .
    moreover have "\<exists>r'. walFile s3 = A @ r'" using p3(3) by auto
    moreover have "pWal s3 = next_wal (frame_of ?w ?x) ?w"
      using file_step_simps(1) [OF p3(1)] file_step_simps(1) [OF p2(1)] by (simp add: w'_def h(2))
    moreover have "walFile s3 = A @ frame_of ?w ?x @ drop (length (frame_of ?w ?x)) r" if "rc3 = SQLITE_OK"
      using p3(2) [OF that] h by (simp add: add.commute)
    moreover have "answers s = [] \<longrightarrow> rc3 = SQLITE_OK" using p3(4) file_step_simps(11) [OF p2(1)] by auto
    ultimately show ?thesis using e True w3 Some unfolding x by (simp add: Let_def)
  qed
qed

definition codec_total :: "codec \<Rightarrow> (u32 \<times> u8 list) list \<Rightarrow> bool" where
  "codec_total E pgs \<longleftrightarrow> (\<forall>pg \<in> set pgs. E (fst pg) (snd pg) \<noteq> None)"

lemma write_frames_post:
  assumes "walFile s = A @ r" and "length A = off" and "wal_ok (pWal s)" and "pages_ok E (page_bytes (pWal s)) pgs" and "wSzPage p = page_bytes (pWal s)"
  shows "\<exists>rc off' s'. write_frames E p pgs c nT off s = Some (rc, off', s') \<and> write_step s s' \<and>
    (let F = frames_of (pWal s) (items E pgs c nT) in
      (\<exists>j\<le>length F. codec_total E (take j pgs) \<and> (\<exists>r'. walFile s' = A @ concat (take j F) @ r')) \<and>
      (answers s = [] \<and> (\<forall>pg \<in> set pgs. E (fst pg) (snd pg) \<noteq> None) \<longrightarrow> rc = SQLITE_OK) \<and>
      (rc = SQLITE_OK \<longrightarrow> (\<forall>pg \<in> set pgs. E (fst pg) (snd pg) \<noteq> None) \<and> off' = off + length (concat F) \<and>
         walFile s' = A @ concat F @ drop (length (concat F)) r \<and> pWal s' = after (pWal s) F))"
  using assms
proof (induction pgs arbitrary: A off r s)
  case Nil
  then show ?case by (auto simp: write_step_refl codec_total_def)
next
  case (Cons pg pgs)
  let ?nT = "if c \<and> pgs = [] then nT else 0"
  let ?f = "frame_of (pWal s) (item E ?nT pg)"
  let ?F = "frames_of (pWal s) (items E (pg # pgs) c nT)"
  have pg: "pages_ok E (page_bytes (pWal s)) [pg]" "pages_ok E (page_bytes (pWal s)) pgs" using Cons.prems(4) by (simp_all add: pages_ok_def)
  obtain rc1 s1 where 1: "walWriteOneFrame E p pg ?nT off s = Some (rc1, s1)" "write_step s s1" "\<exists>r'. walFile s1 = A @ r'"
      "answers s = [] \<and> E (fst pg) (snd pg) \<noteq> None \<longrightarrow> rc1 = SQLITE_OK"
      "rc1 = SQLITE_OK \<longrightarrow> E (fst pg) (snd pg) \<noteq> None \<and> walFile s1 = A @ ?f @ drop (length ?f) r \<and> pWal s1 = next_wal ?f (pWal s)"
    using walWriteOneFrame_post [OF Cons.prems(1-3) pg(1) Cons.prems(5), of ?nT] by (auto simp: Let_def)
  show ?case
  proof (cases "rc1 = SQLITE_OK")
    case False
    then have "write_frames E p (pg # pgs) c nT off s = Some (rc1, off, s1)" using 1(1) by simp
    moreover have "\<exists>j\<le>length ?F. codec_total E (take j (pg # pgs)) \<and> (\<exists>r'. walFile s1 = A @ concat (take j ?F) @ r')"
      using 1(3) by (intro exI [of _ 0]) (auto simp: codec_total_def)
    ultimately show ?thesis using False 1 by (auto simp: Let_def)
  next
    case True
    then have s1: "E (fst pg) (snd pg) \<noteq> None" "walFile s1 = (A @ ?f) @ drop (length ?f) r" "pWal s1 = next_wal ?f (pWal s)" using 1(5) by simp_all
    have io: "item_ok (page_bytes (pWal s)) (item E ?nT pg)" using pg(1) s1(1) by (auto simp: item_ok_def item_def pages_ok_def)
    have lf: "length ?f = page_bytes (pWal s) + 24" using frame_of_simps(1) [OF Cons.prems(3) io] .
    let ?G = "frames_of (pWal s1) (items E pgs c nT)"
    have F: "?F = ?f # ?G" by (simp add: s1(3))
    have l1: "length (A @ ?f) = off + (page_bytes (pWal s) + 24)" using Cons.prems(2) lf by simp
    have h1: "wal_ok (pWal s1)" "pages_ok E (page_bytes (pWal s1)) pgs" "wSzPage p = page_bytes (pWal s1)"
      using write_step_simps(13,17) [OF 1(2)] Cons.prems(3,5) pg(2) by simp_all
    obtain rc off' s' where 2: "write_frames E p pgs c nT (off + (page_bytes (pWal s) + 24)) s1 = Some (rc, off', s')" "write_step s1 s'"
        "\<exists>j\<le>length ?G. codec_total E (take j pgs) \<and> (\<exists>r'. walFile s' = (A @ ?f) @ concat (take j ?G) @ r')"
        "answers s1 = [] \<and> (\<forall>pg \<in> set pgs. E (fst pg) (snd pg) \<noteq> None) \<longrightarrow> rc = SQLITE_OK"
        "rc = SQLITE_OK \<longrightarrow> (\<forall>pg \<in> set pgs. E (fst pg) (snd pg) \<noteq> None) \<and> off' = off + (page_bytes (pWal s) + 24) + length (concat ?G) \<and>
         walFile s' = (A @ ?f) @ concat ?G @ drop (length (concat ?G)) (drop (length ?f) r) \<and> pWal s' = after (pWal s1) ?G"
      using Cons.IH [OF s1(2) l1 h1] unfolding Let_def by blast
    have e: "write_frames E p (pg # pgs) c nT off s = Some (rc, off', s')"
      using 1(1) True 2(1) Cons.prems(5) by (simp add: WAL_FRAME_HDRSIZE_def)
    have "\<exists>j\<le>length ?F. codec_total E (take j (pg # pgs)) \<and> (\<exists>r'. walFile s' = A @ concat (take j ?F) @ r')"
    proof -
      obtain j r' where "j \<le> length ?G" "codec_total E (take j pgs)" "walFile s' = (A @ ?f) @ concat (take j ?G) @ r'" using 2(3) by blast
      then show ?thesis using s1(1) unfolding F by (intro exI [of _ "Suc j"]) (auto simp: codec_total_def)
    qed
    moreover have "write_step s s'" using write_step_trans [OF 1(2) 2(2)] .
    moreover have "answers s = [] \<and> (\<forall>pg \<in> set (pg # pgs). E (fst pg) (snd pg) \<noteq> None) \<longrightarrow> rc = SQLITE_OK"
      using 2(4) write_step_simps(11) [OF 1(2)] by simp
    moreover have "rc = SQLITE_OK \<longrightarrow> (\<forall>pg \<in> set (pg # pgs). E (fst pg) (snd pg) \<noteq> None) \<and> off' = off + length (concat ?F) \<and>
         walFile s' = A @ concat ?F @ drop (length (concat ?F)) r \<and> pWal s' = after (pWal s) ?F"
      using 2(5) s1(1,3) lf unfolding F by (simp add: add.commute add.left_commute)
    ultimately show ?thesis unfolding Let_def using e by blast
  qed
qed

lemma pad_frames_post:
  assumes "walFile s = A @ r" and "length A = off" and "wal_ok (pWal s)" and "pages_ok E (page_bytes (pWal s)) [pg]" and "wSzPage p = page_bytes (pWal s)"
  shows "\<exists>rc off' k s'. pad_frames E p pg nT off n s = Some (rc, off', n + k, s') \<and> write_step s s' \<and> k \<le> iSyncPoint p - off \<and>
    (let F = frames_of (pWal s) (replicate k (item E nT pg)) in
      (\<exists>r'. walFile s' = A @ concat F @ r') \<and> (k \<noteq> 0 \<longrightarrow> E (fst pg) (snd pg) \<noteq> None) \<and>
      (answers s = [] \<and> E (fst pg) (snd pg) \<noteq> None \<longrightarrow> rc = SQLITE_OK) \<and>
      (rc = SQLITE_OK \<longrightarrow> walFile s' = A @ concat F @ drop (length (concat F)) r \<and> pWal s' = after (pWal s) F))"
  using assms
proof (induction "iSyncPoint p - off" arbitrary: A off r s n rule: less_induct)
  case less
  show ?case
  proof (cases "off < iSyncPoint p")
    case False
    then have "pad_frames E p pg nT off n s = Some (SQLITE_OK, off, n + 0, s)" by (simp add: pad_frames.simps)
    moreover have "write_step s s" by (rule write_step_refl)
    ultimately show ?thesis using less.prems(1) unfolding Let_def
      by (intro exI [of _ SQLITE_OK] exI [of _ off] exI [of _ "0 :: nat"] exI [of _ s]) simp
  next
    case True
    let ?x = "item E nT pg" and ?f = "frame_of (pWal s) (item E nT pg)"
    obtain rc1 s1 where 1: "walWriteOneFrame E p pg nT off s = Some (rc1, s1)" "write_step s s1" "\<exists>r'. walFile s1 = A @ r'"
        "answers s = [] \<and> E (fst pg) (snd pg) \<noteq> None \<longrightarrow> rc1 = SQLITE_OK"
        "rc1 = SQLITE_OK \<longrightarrow> E (fst pg) (snd pg) \<noteq> None \<and> walFile s1 = A @ ?f @ drop (length ?f) r \<and> pWal s1 = next_wal ?f (pWal s)"
      using walWriteOneFrame_post [OF less.prems, of nT] by (auto simp: Let_def)
    show ?thesis
    proof (cases "rc1 = SQLITE_OK")
      case False
      then have "pad_frames E p pg nT off n s = Some (rc1, off, n + 0, s1)" using 1(1) True by (simp add: pad_frames.simps)
      then show ?thesis using 1 False unfolding Let_def
        by (intro exI [of _ rc1] exI [of _ off] exI [of _ "0 :: nat"] exI [of _ s1]) simp
    next
      case ok1: True
      then have s1: "E (fst pg) (snd pg) \<noteq> None" "walFile s1 = (A @ ?f) @ drop (length ?f) r" "pWal s1 = next_wal ?f (pWal s)" using 1(5) by simp_all
      have io: "item_ok (page_bytes (pWal s)) ?x" using less.prems(4) s1(1) by (auto simp: item_ok_def item_def pages_ok_def)
      have lf: "length ?f = page_bytes (pWal s) + 24" using frame_of_simps(1) [OF less.prems(3) io] .
      let ?off = "off + (page_bytes (pWal s) + 24)"
      have l1: "length (A @ ?f) = ?off" using less.prems(2) lf by simp
      have h1: "wal_ok (pWal s1)" "pages_ok E (page_bytes (pWal s1)) [pg]" "wSzPage p = page_bytes (pWal s1)"
        using write_step_simps(13,17) [OF 1(2)] less.prems(3-5) by simp_all
      have dec: "iSyncPoint p - ?off < iSyncPoint p - off" using True by simp
      obtain rc off' k s' where 2: "pad_frames E p pg nT ?off (n + 1) s1 = Some (rc, off', (n + 1) + k, s')" "write_step s1 s'" "k \<le> iSyncPoint p - ?off"
          "\<exists>r'. walFile s' = (A @ ?f) @ concat (frames_of (pWal s1) (replicate k ?x)) @ r'"
          "answers s1 = [] \<and> E (fst pg) (snd pg) \<noteq> None \<longrightarrow> rc = SQLITE_OK"
          "rc = SQLITE_OK \<longrightarrow> walFile s' = (A @ ?f) @ concat (frames_of (pWal s1) (replicate k ?x)) @
             drop (length (concat (frames_of (pWal s1) (replicate k ?x)))) (drop (length ?f) r) \<and> pWal s' = after (pWal s1) (frames_of (pWal s1) (replicate k ?x))"
        using less.hyps [OF dec s1(2) l1 h1, of "n + 1"] unfolding Let_def by blast
      have e: "pad_frames E p pg nT off n s = Some (rc, off', n + Suc k, s')"
        using 1(1) ok1 2(1) True less.prems(5) by (simp add: pad_frames.simps [of E p pg nT off] WAL_FRAME_HDRSIZE_def)
      have F: "frames_of (pWal s) (replicate (Suc k) ?x) = ?f # frames_of (pWal s1) (replicate k ?x)" by (simp add: s1(3))
      have st: "write_step s s'" using write_step_trans [OF 1(2) 2(2)] .
      have an: "answers s = [] \<and> E (fst pg) (snd pg) \<noteq> None \<longrightarrow> rc = SQLITE_OK" using 2(5) write_step_simps(11) [OF 1(2)] by simp
      have kb: "Suc k \<le> iSyncPoint p - off" using 2(3) dec by simp
      have fl: "\<exists>r'. walFile s' = A @ concat (frames_of (pWal s) (replicate (Suc k) ?x)) @ r'" using 2(4) unfolding F by auto
      have okc: "rc = SQLITE_OK \<longrightarrow> walFile s' = A @ concat (frames_of (pWal s) (replicate (Suc k) ?x)) @
            drop (length (concat (frames_of (pWal s) (replicate (Suc k) ?x)))) r \<and> pWal s' = after (pWal s) (frames_of (pWal s) (replicate (Suc k) ?x))"
        using 2(6) s1(3) unfolding F by (simp add: add.commute)
      show ?thesis unfolding Let_def using e st kb fl an okc s1(1) by blast
    qed
  qed
qed

lemma next_sector: "0 < m \<Longrightarrow> ((off + m - 1) div m) * m - off \<le> (m :: nat)"
proof -
  assume "0 < m"
  have "((off + m - 1) div m) * m \<le> off + m - 1" by (rule div_times_less_eq_dividend)
  then show ?thesis by linarith
qed

text \<open>All frames of a call: those of the pages, then \<open>k\<close> copies of the last one.\<close>

definition all_frames :: "codec \<Rightarrow> Wal \<Rightarrow> (u32 \<times> u8 list) list \<Rightarrow> bool \<Rightarrow> u32 \<Rightarrow> nat \<Rightarrow> u8 list list" where
  "all_frames E w pgs c nT k = frames_of w (items E pgs c nT @ replicate k (item E nT (last pgs)))"

lemma write_log_post:
  assumes f: "walFile s = A @ r" "length A = walFrameOffset (mxFrame (hdr (pWal s)) + 1) sz" and w: "wal_ok (pWal s)"
    and pg: "pages_ok E (page_bytes (pWal s)) pgs" "pgs \<noteq> []" and sz: "sz = szPage (pWal s)" and m: "0 < m"
  shows "\<exists>rc stop k s'. write_log E m sz pgs nT c fl s = Some (rc, stop, k, s') \<and> write_step s s' \<and> k \<le> m \<and> (k \<noteq> 0 \<longrightarrow> c) \<and>
    (let F = all_frames E (pWal s) pgs c nT k in
      (\<exists>j\<le>length F. \<exists>r'. walFile s' = A @ concat (take j F) @ r' \<and> (k \<noteq> 0 \<longrightarrow> length pgs \<le> j) \<and> codec_total E (take j pgs)) \<and>
      (answers s = [] \<and> codec_total E pgs \<longrightarrow> rc = SQLITE_OK) \<and> (rc = SQLITE_OK \<longrightarrow> \<not> stop) \<and>
      (\<not> stop \<longrightarrow> codec_total E pgs \<and> walFile s' = A @ concat F @ drop (length (concat F)) r \<and> pWal s' = after (pWal s) F))"
proof -
  let ?p = "\<lparr>iSyncPoint = 0, wSyncFlags = fl, wSzPage = unat sz\<rparr>"
  let ?F = "frames_of (pWal s) (items E pgs c nT)"
  have n: "wSzPage ?p = page_bytes (pWal s)" by (simp add: page_bytes_def sz)
  obtain rc1 off1 s1 where 1: "write_frames E ?p pgs c nT (walFrameOffset (mxFrame (hdr (pWal s)) + 1) sz) s = Some (rc1, off1, s1)" "write_step s s1"
      "\<exists>j\<le>length ?F. codec_total E (take j pgs) \<and> (\<exists>r'. walFile s1 = A @ concat (take j ?F) @ r')"
      "answers s = [] \<and> (\<forall>pg \<in> set pgs. E (fst pg) (snd pg) \<noteq> None) \<longrightarrow> rc1 = SQLITE_OK"
      "rc1 = SQLITE_OK \<longrightarrow> (\<forall>pg \<in> set pgs. E (fst pg) (snd pg) \<noteq> None) \<and> off1 = walFrameOffset (mxFrame (hdr (pWal s)) + 1) sz + length (concat ?F) \<and>
         walFile s1 = A @ concat ?F @ drop (length (concat ?F)) r \<and> pWal s1 = after (pWal s) ?F"
    using write_frames_post [OF f w pg(1) n, of c nT] unfolding Let_def by blast
  have F0: "all_frames E (pWal s) pgs c nT 0 = ?F" by (simp add: all_frames_def)
  have lF: "length ?F = length pgs"
    by simp
  show ?thesis
  proof (cases "rc1 = SQLITE_OK")
    case False
    have "write_log E m sz pgs nT c fl s = Some (rc1, True, 0, s1)" using 1(1) False by (simp add: write_log_def Let_def)
    then show ?thesis using 1 False unfolding Let_def
      by (intro exI [of _ rc1] exI [of _ True] exI [of _ "0 :: nat"] exI [of _ s1]) (auto simp: F0 codec_total_def)
  next
    case ok1: True
    then have s1: "codec_total E pgs" "walFile s1 = (A @ concat ?F) @ drop (length (concat ?F)) r" "pWal s1 = after (pWal s) ?F"
      "length (A @ concat ?F) = off1" using 1(5) f(2) by (simp_all add: codec_total_def)
    have whole: "\<exists>j\<le>length ?F. \<exists>r'. walFile s2 = A @ concat (take j ?F) @ r' \<and> (0 \<noteq> (0 :: nat) \<longrightarrow> length pgs \<le> j) \<and> codec_total E (take j pgs)"
      if "walFile s2 = walFile s1" for s2
      using that s1(1,2) by (intro exI [of _ "length ?F"]) (simp add: lF)
    show ?thesis
    proof (cases "c \<and> fl AND WAL_SYNC_TRANSACTIONS \<noteq> 0")
      case False
      have "write_log E m sz pgs nT c fl s = Some (SQLITE_OK, False, 0, s1)" using 1(1) ok1 False by (auto simp: write_log_def Let_def)
      then show ?thesis using 1(2) s1 whole [of s1] unfolding Let_def
        by (intro exI [of _ SQLITE_OK] exI [of _ False] exI [of _ "0 :: nat"] exI [of _ s1]) (simp add: F0)
    next
      case sync: True
      show ?thesis
      proof (cases "padToSectorBoundary (pWal s1)")
        case False
        obtain rc2 s2 where 2: "os_plain s1 = (rc2, s2)" by (cases "os_plain s1")
        note p2 = os_plain_post [OF 2]
        have "write_log E m sz pgs nT c fl s = Some (rc2, False, 0, s2)" using 1(1) ok1 sync False 2 by (simp add: write_log_def Let_def)
        moreover have "write_step s s2" using write_step_trans [OF 1(2) file_step_write_step [OF p2(1)]] .
        moreover have "pWal s2 = pWal s1" using file_step_simps(1) [OF p2(1)] .
        moreover have "answers s = [] \<longrightarrow> rc2 = SQLITE_OK" using p2(3) write_step_simps(11) [OF 1(2)] by simp
        ultimately show ?thesis using s1 whole [OF p2(2)] p2(2) unfolding Let_def
          by (intro exI [of _ rc2] exI [of _ False] exI [of _ "0 :: nat"] exI [of _ s2]) (simp add: F0)
      next
        case True
        let ?q = "?p\<lparr>iSyncPoint := ((off1 + m - 1) div m) * m\<rparr>"
        have h: "wal_ok (pWal s1)" "pages_ok E (page_bytes (pWal s1)) [last pgs]" "wSzPage ?q = page_bytes (pWal s1)"
          using write_step_simps(13,17) [OF 1(2)] w pg(1) n last_in_set [OF pg(2)] by (simp_all add: pages_ok_def)
        obtain rc2 off2 k s2 where 2: "pad_frames E ?q (last pgs) nT off1 0 s1 = Some (rc2, off2, 0 + k, s2)" "write_step s1 s2" "k \<le> iSyncPoint ?q - off1"
            "\<exists>r'. walFile s2 = (A @ concat ?F) @ concat (frames_of (pWal s1) (replicate k (item E nT (last pgs)))) @ r'"
            "answers s1 = [] \<and> E (fst (last pgs)) (snd (last pgs)) \<noteq> None \<longrightarrow> rc2 = SQLITE_OK"
            "rc2 = SQLITE_OK \<longrightarrow> walFile s2 = (A @ concat ?F) @ concat (frames_of (pWal s1) (replicate k (item E nT (last pgs)))) @
               drop (length (concat (frames_of (pWal s1) (replicate k (item E nT (last pgs)))))) (drop (length (concat ?F)) r) \<and>
               pWal s2 = after (pWal s1) (frames_of (pWal s1) (replicate k (item E nT (last pgs))))"
          using pad_frames_post [OF s1(2,4) h, of nT 0] unfolding Let_def by blast
        have F: "all_frames E (pWal s) pgs c nT k = ?F @ frames_of (pWal s1) (replicate k (item E nT (last pgs)))"
          by (simp add: all_frames_def frames_of_append s1(3))
        have "write_log E m sz pgs nT c fl s = Some (rc2, rc2 \<noteq> SQLITE_OK, k, s2)"
          using 1(1) ok1 sync True 2(1) by (simp add: write_log_def Let_def)
        moreover have "write_step s s2" using write_step_trans [OF 1(2) 2(2)] .
        moreover have "k \<le> m" using 2(3) next_sector [OF m, of off1] by simp
        moreover have "answers s = [] \<and> codec_total E pgs \<longrightarrow> rc2 = SQLITE_OK"
          using 2(5) write_step_simps(11) [OF 1(2)] last_in_set [OF pg(2)] by (simp add: codec_total_def)
        moreover have "\<exists>j\<le>length (all_frames E (pWal s) pgs c nT k). \<exists>r'. walFile s2 = A @ concat (take j (all_frames E (pWal s) pgs c nT k)) @ r' \<and> (k \<noteq> 0 \<longrightarrow> length pgs \<le> j) \<and> codec_total E (take j pgs)"
          using 2(4) lF s1(1) unfolding F by (intro exI [of _ "length ?F + k"]) auto
        moreover have "rc2 = SQLITE_OK \<longrightarrow> walFile s2 = A @ concat (all_frames E (pWal s) pgs c nT k) @ drop (length (concat (all_frames E (pWal s) pgs c nT k))) r \<and>
            pWal s2 = after (pWal s) (all_frames E (pWal s) pgs c nT k)"
          using 2(6) s1(3) unfolding F by (simp add: after_append add.commute)
        ultimately show ?thesis using s1(1) sync unfolding Let_def
          by (intro exI [of _ rc2] exI [of _ "rc2 \<noteq> SQLITE_OK"] exI [of _ k] exI [of _ s2]) simp
      qed
    qed
  qed
qed

end
