(* ===== verification/WalTxn.thy ===== *)
theory WalTxn
  imports WalCommit
begin

text \<open>
  Transactions on the log. A sequence of frames stands for the pages that it holds (\<open>overlay\<close>): of several frames of
  a page the last one counts. Writing a transaction extends the log by frames for its pages, and whatever step fails, what recovery finds in the
  file is the old contents or those with all pages of the transaction.
\<close>

section \<open>The pages that a log holds\<close>

definition overlay :: "u8 list list \<Rightarrow> u32 \<Rightarrow> u8 list option" where
  "overlay frs = map_of (rev (map (\<lambda>f. (fpgno f, drop 24 f)) frs))"

text \<open>The frames up to the last commit, which are those that a reader may see.\<close>

definition committed :: "u8 list list \<Rightarrow> u8 list list" where
  "committed frs = take (commit_len frs) frs"

text \<open>The pages of a transaction, as the codec encrypts them.\<close>

definition tx_pages :: "codec \<Rightarrow> (u32 \<times> u8 list) list \<Rightarrow> u32 \<Rightarrow> u8 list option" where
  "tx_pages E pgs = map_of (rev (map (\<lambda>pg. (fst pg, the (E (fst pg) (snd pg)))) pgs))"

lemma overlay_simps [simp]:
  "overlay [] = Map.empty" "overlay (frs @ [f]) = (overlay frs)(fpgno f \<mapsto> drop 24 f)"
  by (simp_all add: overlay_def)

lemma overlay_append: "overlay (frs @ fs) = overlay frs ++ overlay fs"
  by (simp add: overlay_def)

text \<open>The page of a frame is found through its number, as the wal-index does it.\<close>

lemma overlay_latest:
  "overlay frs g = (case latest (map fpgno frs) g of 0 \<Rightarrow> None | Suc i \<Rightarrow> Some (drop 24 (frs ! i)))"
proof (induction frs rule: rev_induct)
  case (snoc f frs)
  have "latest (map fpgno frs) g \<le> length frs" using latest_le [of "map fpgno frs" g] by simp
  then show ?case using snoc by (auto simp: nth_append split: nat.splits)
qed simp

lemma map_of_copies: "xs \<noteq> [] \<Longrightarrow> map_of (rev (xs @ replicate k (last xs))) = map_of (rev xs)"
proof (induction k)
  case (Suc k)
  then obtain ys x where xs: "xs = ys @ [x]" by (metis append_butlast_last_id)
  have c: "map_of (replicate n x) = (if n = 0 then Map.empty else [fst x \<mapsto> snd x])" for n
    by (induction n) (auto simp: fun_eq_iff)
  then show ?case unfolding xs by (auto simp: fun_eq_iff map_add_def c)
qed simp

lemma commit_len_append:
  "commit_len (frs @ fs) = (if \<exists>f \<in> set fs. ftrunc f \<noteq> 0 then length frs + commit_len fs else commit_len frs)"
  by (auto simp: commit_len_def latest_append)

lemma items_simps:
  "map fst (items E pgs c nT) = map fst pgs"
  "map (snd \<circ> snd) (items E pgs c nT) = map (\<lambda>pg. the (E (fst pg) (snd pg))) pgs"
  "pgs \<noteq> [] \<Longrightarrow> map (fst \<circ> snd) (items E pgs c nT) = replicate (length pgs - 1) 0 @ [if c then nT else 0]"
proof -
  show "map fst (items E pgs c nT) = map fst pgs"
    "map (snd \<circ> snd) (items E pgs c nT) = map (\<lambda>pg. the (E (fst pg) (snd pg))) pgs"
    by (induction pgs) (simp_all add: item_def)
  show "pgs \<noteq> [] \<Longrightarrow> map (fst \<circ> snd) (items E pgs c nT) = replicate (length pgs - 1) 0 @ [if c then nT else 0]"
  proof (induction pgs)
    case (Cons pg rest)
    then show ?case by (cases rest) (simp_all add: item_def)
  qed simp
qed

lemma items_ok:
  assumes "pages_ok E n pgs" and "codec_total E pgs"
  shows "\<forall>x \<in> set (items E pgs c nT). item_ok n x"
  using assms by (induction pgs) (auto simp: pages_ok_def codec_total_def item_def item_ok_def)

section \<open>The frames of a transaction\<close>

lemma all_items_ok:
  assumes "pages_ok E n pgs" and "codec_total E pgs" and "pgs \<noteq> []"
  shows "\<forall>x \<in> set (items E pgs c nT @ replicate k (item E nT (last pgs))). item_ok n x"
proof -
  have "last pgs \<in> set pgs" using assms(3) by simp
  then have "item_ok n (item E nT (last pgs))" using assms(1,2) by (auto simp: pages_ok_def codec_total_def item_def item_ok_def)
  then show ?thesis using items_ok [OF assms(1,2), of c nT] by auto
qed

lemma all_frames_props:
  fixes k :: nat and c :: bool and nT :: u32
  assumes "wal_ok w" and pg: "pages_ok E (page_bytes w) pgs" "codec_total E pgs" "pgs \<noteq> []"
  defines "F \<equiv> all_frames E w pgs c nT k"
  shows "chain w F" and "length F = length pgs + k" and "map fpgno F = map fst pgs @ replicate k (fst (last pgs))"
    and "map ftrunc F = replicate (length pgs - 1) 0 @ [if c then nT else 0] @ replicate k nT"
    and "map (drop 24) F = map (\<lambda>pg. the (E (fst pg) (snd pg))) pgs @ replicate k (the (E (fst (last pgs)) (snd (last pgs))))"
proof -
  note ok = frames_of_ok [OF assms(1) all_items_ok [OF pg, of c nT k]]
  show "chain w F" "length F = length pgs + k" using ok by (simp_all add: F_def all_frames_def)
  show "map fpgno F = map fst pgs @ replicate k (fst (last pgs))"
    using ok items_simps(1) [of E pgs c nT] by (simp add: F_def all_frames_def item_def)
  show "map ftrunc F = replicate (length pgs - 1) 0 @ [if c then nT else 0] @ replicate k nT"
    using ok items_simps(3) [OF pg(3), of E c nT] by (simp add: F_def all_frames_def item_def)
  show "map (drop 24) F = map (\<lambda>pg. the (E (fst pg) (snd pg))) pgs @ replicate k (the (E (fst (last pgs)) (snd (last pgs))))"
    using ok items_simps(2) [of E pgs c nT] by (simp add: F_def all_frames_def item_def)
qed

lemma overlay_pair: "overlay frs = map_of (rev (zip (map fpgno frs) (map (drop 24) frs)))"
  by (simp add: overlay_def zip_map_map zip_same_conv_map comp_def)

lemma frames_of_take: "take j (frames_of w xs) = frames_of w (take j xs)"
proof (induction xs arbitrary: w j)
  case (Cons x xs)
  then show ?case by (cases j) simp_all
qed simp

lemma all_frames_take: "take (length pgs + i) (all_frames E w pgs c nT (i + k)) = all_frames E w pgs c nT i"
  by (simp add: all_frames_def frames_of_take)

text \<open>All pages of the transaction are in the first \<open>j\<close> frames: they are a commit that holds the pages.\<close>

lemma new_commit:
  fixes nT :: u32
  assumes "wal_ok w" and pg: "pages_ok E (page_bytes w) pgs" "codec_total E pgs" "pgs \<noteq> []" and j: "length pgs \<le> j" "j \<le> length pgs + k"
  defines "G \<equiv> take j (all_frames E w pgs True nT k)"
  shows "overlay (frs @ G) = overlay frs ++ tx_pages E pgs"
    and "nT \<noteq> 0 \<Longrightarrow> commit_len (frs @ G) = length (frs @ G)" and "nT \<noteq> 0 \<Longrightarrow> commit_size (frs @ G) = nT"
proof -
  let ?i = "j - length pgs"
  have G: "G = all_frames E w pgs True nT ?i"
    using all_frames_take [of pgs ?i E w True nT "k - ?i"] j by (simp add: G_def)
  note p = all_frames_props [OF assms(1) pg, of True nT ?i, folded G]
  have "overlay G = tx_pages E pgs"
  proof -
    let ?xs = "map (\<lambda>pg. (fst pg, the (E (fst pg) (snd pg)))) pgs"
    have "zip (map fpgno G) (map (drop 24) G) = ?xs @ replicate ?i (last ?xs)"
      unfolding p(3,5) using pg(3) by (simp add: zip_append zip_replicate last_map zip_map_map zip_same_conv_map)
    then show ?thesis using map_of_copies [of ?xs ?i] pg(3) by (simp add: overlay_pair tx_pages_def)
  qed
  then show "overlay (frs @ G) = overlay frs ++ tx_pages E pgs" by (simp add: overlay_append)
  have ne: "G \<noteq> []" using p(2) pg(3) by auto
  have "ftrunc (last G) = last (map ftrunc G)" using ne by (simp add: last_map)
  also have "\<dots> = nT" unfolding p(4) by (cases ?i) (simp_all add: replicate_append_same flip: replicate_Suc)
  finally have l: "ftrunc (last G) = nT" .
  have s: "frs @ G = (frs @ butlast G) @ [last G]" using ne by simp
  show "nT \<noteq> 0 \<Longrightarrow> commit_len (frs @ G) = length (frs @ G)" "nT \<noteq> 0 \<Longrightarrow> commit_size (frs @ G) = nT"
    unfolding s commit_snoc using l by simp_all
qed

text \<open>Some page is missing: there is no new commit.\<close>

lemma items_take: "j < length pgs \<Longrightarrow> take j (items E pgs c nT) = items E (take j pgs) False 0"
proof (induction pgs arbitrary: j)
  case (Cons pg rest)
  then show ?case by (cases j) auto
qed simp

lemma old_commit:
  assumes "wal_ok w" and "pages_ok E (page_bytes w) pgs" and "codec_total E (take j pgs)" and "j < length pgs"
  shows "committed (frs @ take j (all_frames E w pgs c nT k)) = committed frs"
    and "commit_size (frs @ take j (all_frames E w pgs c nT k)) = commit_size frs"
proof -
  let ?G = "take j (all_frames E w pgs c nT k)"
  have G: "?G = frames_of w (items E (take j pgs) False 0)"
    using assms(4) by (simp add: all_frames_def frames_of_take items_take)
  have "pages_ok E (page_bytes w) (take j pgs)" using assms(2) by (auto simp: pages_ok_def dest: in_set_takeD)
  then have "map ftrunc ?G = map (fst \<circ> snd) (items E (take j pgs) False 0)"
    using frames_of_ok [OF assms(1) items_ok [OF _ assms(3)]] unfolding G by blast
  also have "\<dots> = replicate (length (take j pgs)) 0"
    using items_simps(3) [of "take j pgs" E False 0] by (cases "take j pgs") (auto simp: replicate_append_same)
  finally have "set (map ftrunc ?G) \<subseteq> {0}" by (metis set_replicate_conv_if subset_insertI empty_subsetI order_refl)
  then have "commit_len (frs @ ?G) = commit_len frs" by (auto simp: commit_len_append)
  then show "committed (frs @ ?G) = committed frs" "commit_size (frs @ ?G) = commit_size frs"
    using commit_len_le [of frs] by (auto simp: committed_def commit_size_def nth_append)
qed

section \<open>The wal-index and the length of the log\<close>

lemma append_pages_post:
  assumes "index_ok gs s" and "n \<le> length gs" and "n = length gs \<or> unat (mxFrame (hdr (pWal s))) = n" and "writeLock (pWal s)"
    and "0 \<notin> set qs" and "n + length qs + 34 < 2 ^ 32"
  shows "\<exists>rc i s' gs'. append_pages qs (of_nat n) s = Some (rc, i, s') \<and> idx_step s s' \<and> (answers s = [] \<longrightarrow> rc = SQLITE_OK) \<and>
    index_ok gs' s' \<and> n \<le> length gs' \<and> take n gs' = take n gs \<and>
    (rc = SQLITE_OK \<longrightarrow> i = of_nat (n + length qs) \<and> n + length qs \<le> length gs' \<and> take (n + length qs) gs' = take n gs @ qs)"
  using assms
proof (induction qs arbitrary: gs n s)
  case Nil
  moreover have "idx_step s s" by (rule map_step_idx_step [OF map_step_refl])
  ultimately show ?case by (intro exI [of _ SQLITE_OK] exI [of _ "of_nat n"] exI [of _ s] exI [of _ gs]) simp
next
  case (Cons g qs)
  have g: "g \<noteq> 0" "0 \<notin> set qs" "n + 34 < 2 ^ 32" using Cons.prems(5,6) by auto
  obtain rc s1 where 1: "walIndexAppend (of_nat (Suc n)) g s = Some (rc, s1)" "idx_step s s1" "answers s = [] \<longrightarrow> rc = SQLITE_OK"
      "if rc = SQLITE_OK then index_ok (take n gs @ [g]) s1 \<and> mapped s1 (page_of (Suc n)) else index_ok gs s1"
    using walIndexAppend_post [OF Cons.prems(1-3) g(3,1) Cons.prems(4)] by blast
  have n1: "of_nat n + 1 = (of_nat (Suc n) :: u32)" by simp
  show ?case
  proof (cases "rc = SQLITE_OK")
    case False
    then have "append_pages (g # qs) (of_nat n) s = Some (rc, of_nat (Suc n), s1)" unfolding append_pages.simps n1 using 1(1) by simp
    then show ?thesis using 1(2-4) False Cons.prems(2)
      by (intro exI [of _ rc] exI [of _ "of_nat (Suc n)"] exI [of _ s1] exI [of _ gs]) simp
  next
    case True
    let ?gs = "take n gs @ [g]"
    have h: "index_ok ?gs s1" "Suc n \<le> length ?gs" "Suc n = length ?gs \<or> unat (mxFrame (hdr (pWal s1))) = Suc n" "writeLock (pWal s1)"
        "Suc n + length qs + 34 < 2 ^ 32"
      using 1(4) True Cons.prems(2,4,6) idx_step_simps(5) [OF 1(2)] by simp_all
    obtain rc' i s' gs' where 2: "append_pages qs (of_nat (Suc n)) s1 = Some (rc', i, s')" "idx_step s1 s'" "answers s1 = [] \<longrightarrow> rc' = SQLITE_OK"
        "index_ok gs' s'" "Suc n \<le> length gs'" "take (Suc n) gs' = take (Suc n) ?gs"
        "rc' = SQLITE_OK \<longrightarrow> i = of_nat (Suc n + length qs) \<and> Suc n + length qs \<le> length gs' \<and> take (Suc n + length qs) gs' = take (Suc n) ?gs @ qs"
      using Cons.IH [OF h(1-4) g(2) h(5)] by blast
    have e: "append_pages (g # qs) (of_nat n) s = Some (rc', i, s')" unfolding append_pages.simps n1 using 1(1) True 2(1) by simp
    have t: "take (Suc n) ?gs = take n gs @ [g]" using Cons.prems(2) by simp
    have "take n gs' = take n gs"
      using arg_cong [OF 2(6), of "take n"] Cons.prems(2) by simp
    moreover have "idx_step s s'" using idx_step_trans [OF 1(2) 2(2)] .
    moreover have "answers s = [] \<longrightarrow> rc' = SQLITE_OK" using 2(3) idx_step_simps(18) [OF 1(2)] by simp
    moreover have "rc' = SQLITE_OK \<longrightarrow> i = of_nat (n + length (g # qs)) \<and> n + length (g # qs) \<le> length gs' \<and>
        take (n + length (g # qs)) gs' = take n gs @ g # qs" using 2(7) unfolding t by simp
    ultimately show ?thesis using e 2(4,5) Suc_leD by blast
  qed
qed

lemma limit_log_post:
  assumes "walFile s = A @ r" and "walFrameOffset (mxFrame (hdr (pWal s)) + of_nat n + 1) sz = length A"
  shows "\<exists>r' a b. limit_log c sz n s = s\<lparr>walFile := A @ r', answers := a, pWal := (pWal s)\<lparr>truncateOnCommit := b\<rparr>\<rparr> \<and> (answers s = [] \<longrightarrow> a = [])"
proof (cases "c \<and> truncateOnCommit (pWal s) \<and> mxWalSize (pWal s) \<ge> 0")
  case False
  then have "limit_log c sz n s = s" by (auto simp: limit_log_def)
  then show ?thesis using assms(1) [symmetric]
    by (intro exI [of _ r] exI [of _ "answers s"] exI [of _ "truncateOnCommit (pWal s)"]) simp
next
  case True
  define N where "N = (if int (length A) > mxWalSize (pWal s) then length A else nat (mxWalSize (pWal s)))"
  have N: "length A \<le> N" by (auto simp: N_def)
  have "limit_log c sz n s = upd_wal (\<lambda>w. w\<lparr>truncateOnCommit := False\<rparr>) (walLimitSize N s)"
    using True assms(2) by (simp add: limit_log_def Let_def N_def)
  moreover have "\<exists>r' a. walLimitSize N s = s\<lparr>walFile := A @ r', answers := a\<rparr> \<and> (answers s = [] \<longrightarrow> a = [])"
  proof -
    have p: "\<exists>a. os_plain t = (rc, t\<lparr>answers := a\<rparr>) \<and> (answers t = [] \<longrightarrow> a = [])" if "fst (os_plain t) = rc" for t rc
      using that by (cases rule: ask_cases [of t]) (auto simp: os_plain_def)
    obtain rx a where 1: "os_plain s = (rx, s\<lparr>answers := a\<rparr>)" "answers s = [] \<longrightarrow> a = []" using p [of s] by blast
    obtain ry b where 2: "os_plain (s\<lparr>answers := a\<rparr>) = (ry, s\<lparr>answers := b\<rparr>)" "a = [] \<longrightarrow> b = []" using p [of "s\<lparr>answers := a\<rparr>"] by auto
    have "walLimitSize N s = (if rx = SQLITE_OK \<and> length (walFile s) > N
        then if ry = SQLITE_OK then s\<lparr>walFile := take N (walFile s), answers := b\<rparr> else s\<lparr>answers := b\<rparr> else s\<lparr>answers := a\<rparr>)"
      using 1(1) 2(1) by (simp add: walLimitSize_def wal_truncate_def)
    moreover have "take N (walFile s) = A @ take (N - length A) r" using N assms(1) by simp
    ultimately have e: "walLimitSize N s = s\<lparr>walFile := A @ (if rx = SQLITE_OK \<and> length (walFile s) > N \<and> ry = SQLITE_OK then take (N - length A) r else r),
        answers := (if rx = SQLITE_OK \<and> length (walFile s) > N then b else a)\<rparr>" using assms(1) [symmetric] by simp
    show ?thesis using 1(2) 2(2) unfolding e by (intro exI conjI) (rule refl, simp)
  qed
  ultimately obtain r' a where "limit_log c sz n s = s\<lparr>walFile := A @ r', answers := a, pWal := (pWal s)\<lparr>truncateOnCommit := False\<rparr>\<rparr>"
      "answers s = [] \<longrightarrow> a = []" by (auto simp: upd_wal_def)
  then show ?thesis by (intro exI [of _ r'] exI [of _ a] exI [of _ False]) simp
qed

section \<open>A writer on the log\<close>

text \<open>
  The writer has the frames \<open>frs\<close> behind it, those of earlier commits and those of its own transaction that have been written
  already; \<open>rest\<close> and the entries of the wal-index beyond the frames are left over from other writers.
\<close>

text \<open>The wal-index has the frames, and perhaps more.\<close>

definition indexed :: "u8 list list \<Rightarrow> walst \<Rightarrow> bool" where
  "indexed frs s \<longleftrightarrow> (\<exists>gs. index_ok gs s \<and> length frs \<le> length gs \<and> take (length frs) gs = map fpgno frs)"

lemma indexedI: "index_ok gs s \<Longrightarrow> length frs \<le> length gs \<Longrightarrow> take (length frs) gs = map fpgno frs \<Longrightarrow> indexed frs s"
  unfolding indexed_def by blast

lemma indexed_prefix: "indexed (frs @ fs) s \<Longrightarrow> indexed frs s"
proof -
  assume "indexed (frs @ fs) s"
  then obtain gs where "index_ok gs s" "length (frs @ fs) \<le> length gs" "take (length (frs @ fs)) gs = map fpgno (frs @ fs)"
    unfolding indexed_def by blast
  moreover from this(3) have "take (length frs) (take (length (frs @ fs)) gs) = take (length frs) (map fpgno (frs @ fs))" by (rule arg_cong)
  then have "take (length frs) gs = map fpgno frs" by (simp add: min_absorb1)
  ultimately show ?thesis by (intro indexedI [of gs]) simp_all
qed

definition log_inv :: "u8 list \<Rightarrow> Wal \<Rightarrow> u8 list list \<Rightarrow> walst \<Rightarrow> bool" where
  "log_inv H w0 frs s \<longleftrightarrow> log_header H w0 \<and> chain w0 frs \<and> same_log (after w0 frs) (pWal s) \<and>
     (\<exists>rest. walFile s = H @ concat frs @ rest) \<and>
     indexed frs s \<and> mxFrame (hdr (pWal s)) = of_nat (length frs) \<and> mapped s 0 \<and> writeLock (pWal s)"

lemma log_inv_indexed: "log_inv H w0 (frs @ fs) s \<Longrightarrow> indexed frs s"
  unfolding log_inv_def by (blast intro: indexed_prefix)

lemma same_log_frames:
  assumes "same_log w w'"
  shows "frames_of w xs = frames_of w' xs" and "wal_ok w = wal_ok w'"
proof -
  have f: "frame_of w x = frame_of w' x" if "same_log w w'" for w w' x
  proof -
    have "map_option fst (walEncodeFrame w p n d) = map_option fst (walEncodeFrame w' p n d)" for p n d
      using that by (simp add: walEncodeFrame_def same_log_def Let_def split: Option.bind_split)
    moreover have "frame_of w x = (case x of (p, n, d) \<Rightarrow> case map_option fst (walEncodeFrame w p n d) of Some h \<Rightarrow> h @ d | None \<Rightarrow> [])" for w
      by (simp add: frame_of_def split: prod.split option.split)
    ultimately show ?thesis by (simp only:)
  qed
  show "frames_of w xs = frames_of w' xs" using assms
  proof (induction xs arbitrary: w w')
    case (Cons x xs)
    then show ?case using f [OF Cons.prems] same_log_frame(4) [OF Cons.prems] by simp
  qed simp
  show "wal_ok w = wal_ok w'" using assms same_log_frame(3) [OF assms] by (simp add: wal_ok_def same_log_def)
qed

lemma same_log_after: "same_log w w' \<Longrightarrow> same_log (after w xs) (after w' xs)"
  by (induction xs arbitrary: w w') (simp_all add: same_log_frame(4))

lemma log_header_ok:
  assumes "log_header H w"
  shows "wal_ok w" and "length H = 32" and "page_bytes w mod 8 = 0" and "0 < page_bytes w"
proof -
  have "length H = 32" "aSalt (hdr w) = take 8 (drop 16 H)" "valid_size (szPage w)"
    using assms by (auto simp: log_header_def WAL_HDRSIZE_def)
  then show "wal_ok w" "length H = 32" "page_bytes w mod 8 = 0" "0 < page_bytes w"
    using valid_size_bytes [of "szPage w"] by (simp_all add: wal_ok_def page_bytes_def)
qed

lemma frame_offset:
  assumes "log_header H w0" and "chain w0 frs" and "length frs < 2 ^ 32"
  shows "length (H @ concat frs) = walFrameOffset (of_nat (length frs) + 1) (szPage w0)"
  using log_header_ok [OF assms(1)] chain_length_concat [OF assms(2)] assms(3)
  by (simp add: walFrameOffset_def WAL_HDRSIZE_def WAL_FRAME_HDRSIZE_def page_bytes_def unsigned_of_nat take_bit_nat_eq_self)

text \<open>The header of the connection is the one that other connections find.\<close>

definition published :: "Wal \<Rightarrow> walst \<Rightarrow> bool" where
  "published w0 s \<longleftrightarrow> szPageHdr (hdr (pWal s)) = pack_szPage (szPage w0) \<and> hdr_valid (hdr (pWal s)) \<and> shmHdr0 s = hdr (pWal s) \<and> shmHdr1 s = hdr (pWal s)"

text \<open>What is known after the attempt to write the frames \<open>F\<close>: the wal-index still has the frames from before, the first \<open>j\<close> of the new ones
  are in the file, and with success all pages.\<close>

definition frames_written ::
  "codec \<Rightarrow> u8 list \<Rightarrow> Wal \<Rightarrow> u8 list list \<Rightarrow> u8 list list \<Rightarrow> (u32 \<times> u8 list) list \<Rightarrow> bool \<Rightarrow> u32 \<Rightarrow> int \<Rightarrow> walst \<Rightarrow> bool" where
  "frames_written E H w0 frs F pgs c nT rc s' \<longleftrightarrow> indexed frs s' \<and> (\<exists>j\<le>length F. codec_total E (take j pgs) \<and>
     (\<exists>r. walFile s' = H @ concat (frs @ take j F) @ r) \<and>
     (rc = SQLITE_OK \<longrightarrow> length pgs \<le> j \<and> log_inv H w0 (frs @ take j F) s' \<and> (c \<longrightarrow> published w0 s' \<and> nPage (hdr (pWal s')) = nT)))"

text \<open>The call leaves the database and the read lock alone, and where no call of the system is to fail none does later.\<close>

definition kept :: "walst \<Rightarrow> walst \<Rightarrow> bool" where
  "kept s s' \<longleftrightarrow> (answers s = [] \<longrightarrow> answers s' = []) \<and> readLock (pWal s') = readLock (pWal s) \<and> dbFile s' = dbFile s \<and> length (regions s) \<le> length (regions s') \<and>
     exclusiveMode (pWal s') = exclusiveMode (pWal s)"

lemma kept_trans: "kept s s' \<Longrightarrow> kept s' s'' \<Longrightarrow> kept s s''"
  by (simp add: kept_def)

lemma kept_step: "write_step s s' \<Longrightarrow> kept s s'" "idx_step s s' \<Longrightarrow> kept s s'"
  by (simp_all add: kept_def write_step_simps idx_step_simps)

text \<open>The end of \<open>sqlite3WalFrames\<close>, once the frames \<open>G\<close> are in the file and in the wal-index.\<close>

lemma finish_frames:
  assumes st: "log_header H w0" "chain w0 (frs @ G)" "same_log (after w0 (frs @ G)) (pWal s)" "walFile s = H @ concat (frs @ G) @ r"
      "index_ok gs s" "length (frs @ G) \<le> length gs" "take (length (frs @ G)) gs = map fpgno (frs @ G)" "mapped s 0" "writeLock (pWal s)"
    and i: "i = of_nat (length (frs @ G))"
  defines "t \<equiv> upd_hdr (\<lambda>h. h\<lparr>szPageHdr := pack_szPage (szPage w0), mxFrame := i\<rparr>) s"
  shows "log_inv H w0 (frs @ G) t"
    and "\<exists>u. walIndexWriteHdr (upd_hdr (\<lambda>h. h\<lparr>iChange := iChange h + 1, nPage := nT\<rparr>) t) = Some u \<and>
      walFile u = walFile s \<and> log_inv H w0 (frs @ G) (upd_wal (\<lambda>w. w\<lparr>iCallback := i\<rparr>) u) \<and>
      published w0 (upd_wal (\<lambda>w. w\<lparr>iCallback := i\<rparr>) u) \<and> nPage (hdr (pWal u)) = nT \<and> kept s (upd_wal (\<lambda>w. w\<lparr>iCallback := i\<rparr>) u)"
proof -
  have cong: "index_ok gs x = index_ok gs s \<and> mapped x 0 = mapped s 0"
    if "regions x = regions s" "apWiData (pWal x) = apWiData (pWal s)" "exclusiveMode (pWal x) = exclusiveMode (pWal s)" for x
    using shm_ok_cong [OF that] by blast
  have inv: "log_inv H w0 (frs @ G) x"
    if "regions x = regions s" "apWiData (pWal x) = apWiData (pWal s)" "exclusiveMode (pWal x) = exclusiveMode (pWal s)"
      "same_log (after w0 (frs @ G)) (pWal x)" "walFile x = walFile s" "mxFrame (hdr (pWal x)) = i" "writeLock (pWal x)" for x
    using st i that cong [OF that(1-3)] unfolding log_inv_def indexed_def by metis
  show t: "log_inv H w0 (frs @ G) t"
    by (rule inv) (use st(3,9) in \<open>simp_all add: t_def upd_hdr_def same_log_def\<close>)
  let ?t = "upd_hdr (\<lambda>h. h\<lparr>iChange := iChange h + 1, nPage := nT\<rparr>) t"
  have m: "mapped ?t 0" using st(8) by (simp add: t_def upd_hdr_def mapped_def)
  have sl: "length (aSalt (hdr (pWal ?t))) = 8"
  proof -
    have "aSalt (hdr (pWal ?t)) = aSalt (hdr w0)" using st(3) by (simp add: t_def upd_hdr_def same_log_def)
    then show ?thesis using log_header_ok(1) [OF st(1)] by (simp add: wal_ok_def)
  qed
  define h where "h c = (hdr (pWal ?t))\<lparr>isInitHdr := 1, iVersion := WALINDEX_MAX_VERSION, aCksum := c\<rparr>" for c
  obtain c where w: "walIndexWriteHdr ?t = Some ((upd_hdr (\<lambda>_. h c) ?t)\<lparr>shmHdr1 := h c, shmHdr0 := h c\<rparr>)" "hdr_valid (h c)"
    using walIndexWriteHdr_post [OF m sl] unfolding Let_def h_def by blast
  let ?u = "(upd_hdr (\<lambda>_. h c) ?t)\<lparr>shmHdr1 := h c, shmHdr0 := h c\<rparr>"
  have "log_inv H w0 (frs @ G) (upd_wal (\<lambda>w. w\<lparr>iCallback := i\<rparr>) ?u)"
    by (rule inv) (use st(3,9) in \<open>simp_all add: t_def upd_hdr_def upd_wal_def same_log_def h_def\<close>)
  moreover have "published w0 (upd_wal (\<lambda>w. w\<lparr>iCallback := i\<rparr>) ?u)"
    using w(2) by (simp add: published_def upd_wal_def upd_hdr_def h_def t_def)
  moreover have "nPage (hdr (pWal ?u)) = nT" "walFile ?u = walFile s" "kept s (upd_wal (\<lambda>w. w\<lparr>iCallback := i\<rparr>) ?u)"
    by (simp_all add: h_def upd_hdr_def t_def kept_def upd_wal_def)
  ultimately show "\<exists>u. walIndexWriteHdr ?t = Some u \<and>
      walFile u = walFile s \<and> log_inv H w0 (frs @ G) (upd_wal (\<lambda>w. w\<lparr>iCallback := i\<rparr>) u) \<and>
      published w0 (upd_wal (\<lambda>w. w\<lparr>iCallback := i\<rparr>) u) \<and> nPage (hdr (pWal u)) = nT \<and> kept s (upd_wal (\<lambda>w. w\<lparr>iCallback := i\<rparr>) u)"
    using w(1) by blast
qed

lemma frames_writtenI:
  assumes "indexed frs s'" and "j \<le> length F" and "codec_total E (take j pgs)" and "walFile s' = H @ concat (frs @ take j F) @ r"
    and "rc = SQLITE_OK \<Longrightarrow> length pgs \<le> j \<and> log_inv H w0 (frs @ take j F) s' \<and> (c \<longrightarrow> published w0 s' \<and> nPage (hdr (pWal s')) = nT)"
  shows "frames_written E H w0 frs F pgs c nT rc s'"
  unfolding frames_written_def using assms by blast

text \<open>What \<open>sqlite3WalFrames\<close> does after the header of the log.\<close>

definition frames_tail :: "codec \<Rightarrow> nat \<Rightarrow> u32 \<Rightarrow> (u32 \<times> u8 list) list \<Rightarrow> u32 \<Rightarrow> bool \<Rightarrow> nat \<Rightarrow> walst \<Rightarrow> (int \<times> walst) option" where
  "frames_tail E m sz pgs nT c fl s = do {
     (rc, stop, k, s) \<leftarrow> write_log E m sz pgs nT c fl s;
     if stop then Some (rc, s)
     else let s = limit_log c sz (length pgs + k) s in
     if rc \<noteq> SQLITE_OK then Some (rc, s)
     else do {
       (rc, iFrame, s) \<leftarrow> append_pages (map fst pgs @ replicate k (fst (last pgs))) (mxFrame (hdr (pWal s))) s;
       if rc \<noteq> SQLITE_OK then Some (rc, s)
       else do {
         let s = upd_hdr (\<lambda>h. h\<lparr>szPageHdr := pack_szPage sz, mxFrame := iFrame\<rparr>) s;
         if c then do {
           s \<leftarrow> walIndexWriteHdr (upd_hdr (\<lambda>h. h\<lparr>iChange := iChange h + 1, nPage := nT\<rparr>) s);
           Some (rc, upd_wal (\<lambda>w. w\<lparr>iCallback := iFrame\<rparr>) s)
         }
         else Some (rc, s)
       }
     }
   }"

lemma sqlite3WalFrames_tail:
  assumes "readLock (pWal s) \<noteq> 0"
  shows "sqlite3WalFrames K E m sz pgs nT c fl s = do {
    (rc, s) \<leftarrow> (if mxFrame (hdr (pWal s)) = 0 then write_log_header K sz fl s else Some (SQLITE_OK, s));
    if rc \<noteq> SQLITE_OK then Some (rc, s) else frames_tail E m sz pgs nT c fl s }"
  using assms unfolding sqlite3WalFrames_def walRestartLog_def frames_tail_def by simp

lemma frames_tail_post:
  assumes inv: "log_inv H w0 frs s"
    and pg: "pages_ok E (page_bytes w0) pgs" "pgs \<noteq> []" and m: "0 < m" and b: "length frs + length pgs + m + 4096 < 2 ^ 32"
  shows "\<exists>rc s'. frames_tail E m (szPage w0) pgs nT c fl s = Some (rc, s') \<and> (answers s = [] \<and> codec_total E pgs \<longrightarrow> rc = SQLITE_OK) \<and>
    kept s s' \<and> frames_written E H w0 frs (all_frames E (after w0 frs) pgs c nT m) pgs c nT rc s'"
proof -
  let ?n = "length frs" and ?w = "after w0 frs" and ?sz = "szPage w0"
  let ?F = "all_frames E ?w pgs c nT m"
  obtain rest gs where i: "log_header H w0" "chain w0 frs" "same_log ?w (pWal s)" "walFile s = (H @ concat frs) @ rest" "index_ok gs s"
      "?n \<le> length gs" "take ?n gs = map fpgno frs" "mxFrame (hdr (pWal s)) = of_nat ?n" "mapped s 0" "writeLock (pWal s)"
    using inv unfolding log_inv_def indexed_def by auto
  have n: "?n < 2 ^ 32" using b by simp
  have mx: "unat (mxFrame (hdr (pWal s))) = ?n" using n by (simp add: i(8) unsigned_of_nat take_bit_nat_eq_self)
  have ok: "wal_ok w0" using log_header_ok(1) [OF i(1)] .
  have pW: "wal_ok (pWal s)" "page_bytes (pWal s) = page_bytes w0" "szPage (pWal s) = ?sz"
    using same_log_frames(2) [OF i(3)] ok same_log_frame(3) [OF i(3)] i(3) by (simp_all add: wal_ok_def same_log_def)
  have fr: "all_frames E (pWal s) pgs c nT k = all_frames E ?w pgs c nT k" for k
    using same_log_frames(1) [OF i(3)] by (simp add: all_frames_def)
  have off: "length (H @ concat frs) = walFrameOffset (mxFrame (hdr (pWal s)) + 1) ?sz" unfolding i(8) by (rule frame_offset [OF i(1,2) n])
  obtain rc1 stop k s1 where 1: "write_log E m ?sz pgs nT c fl s = Some (rc1, stop, k, s1)" "write_step s s1" "k \<le> m"
      "\<exists>j\<le>length (all_frames E ?w pgs c nT k). \<exists>r'. walFile s1 = (H @ concat frs) @ concat (take j (all_frames E ?w pgs c nT k)) @ r' \<and>
        (k \<noteq> 0 \<longrightarrow> length pgs \<le> j) \<and> codec_total E (take j pgs)"
      "answers s = [] \<and> codec_total E pgs \<longrightarrow> rc1 = SQLITE_OK" "rc1 = SQLITE_OK \<longrightarrow> \<not> stop"
      "\<not> stop \<longrightarrow> codec_total E pgs \<and> walFile s1 = (H @ concat frs) @ concat (all_frames E ?w pgs c nT k) @ drop (length (concat (all_frames E ?w pgs c nT k))) rest \<and>
        pWal s1 = after (pWal s) (all_frames E ?w pgs c nT k)"
    using write_log_post [OF i(4) off pW(1) pg(1) [folded pW(2)] pg(2) pW(3) [symmetric] m, of nT c fl] unfolding Let_def fr by blast
  let ?G = "all_frames E ?w pgs c nT k"
  have lk: "length (all_frames E ?w pgs c nT k) = length pgs + k" for k by (simp add: all_frames_def)
  have G': "take (length pgs + k) ?F = ?G" using all_frames_take [of pgs k E ?w c nT "m - k"] 1(3) by simp
  have G: "take j ?G = take j ?F" if "j \<le> length pgs + k" for j
    using that by (simp add: G' [symmetric] min_absorb1)
  note start = frames_tail_def [of E m ?sz pgs nT c fl s, unfolded 1(1) bind.bind_lunit prod.case]
  show ?thesis
  proof (cases stop)
    case True
    then have e: "frames_tail E m ?sz pgs nT c fl s = Some (rc1, s1)" "rc1 \<noteq> SQLITE_OK" using start 1(6) by simp_all
    obtain j r' where j: "j \<le> length pgs + k" "walFile s1 = (H @ concat frs) @ concat (take j ?G) @ r'" "codec_total E (take j pgs)"
      using 1(4) unfolding lk by blast
    have ix: "indexed frs s1" by (rule indexedI [of gs]) (use i(5-7) write_step_simps(16) [OF 1(2)] in simp_all)
    have "frames_written E H w0 frs ?F pgs c nT rc1 s1"
      by (rule frames_writtenI [where j = j and r = r']) (use j 1(3) e(2) G [OF j(1)] ix in \<open>simp_all add: lk\<close>)
    then show ?thesis using e 1(5) kept_step(1) [OF 1(2)] by blast
  next
    case False
    then have s1: "codec_total E pgs" "walFile s1 = (H @ concat (frs @ ?G)) @ drop (length (concat ?G)) rest" "pWal s1 = after (pWal s) ?G"
      using 1(7) by simp_all
    note F = all_frames_props [OF _ _ s1(1) pg(2), of ?w c nT k]
    have wl: "wal_ok ?w" "pages_ok E (page_bytes ?w) pgs" using ok pg(1) by (simp_all add: wal_ok_def)
    have ch: "chain w0 (frs @ ?G)" using i(2) F(1) [OF wl] by (simp add: chain_append)
    have lG: "length (frs @ ?G) = ?n + (length pgs + k)" by (simp add: lk)
    have bG: "length (frs @ ?G) < 2 ^ 32" using b 1(3) unfolding lG by simp
    have o2: "walFrameOffset (mxFrame (hdr (pWal s1)) + of_nat (length pgs + k) + 1) ?sz = length (H @ concat (frs @ ?G))"
      using frame_offset [OF i(1) ch bG] write_step_simps(18) [OF 1(2)] i(8) unfolding lG by (simp add: ac_simps)
    obtain r' a tr where l: "limit_log c ?sz (length pgs + k) s1 = s1\<lparr>walFile := (H @ concat (frs @ ?G)) @ r', answers := a, pWal := (pWal s1)\<lparr>truncateOnCommit := tr\<rparr>\<rparr>"
        "answers s1 = [] \<longrightarrow> a = []" using limit_log_post [OF s1(2) o2, of c] by blast
    define s2 where "s2 = s1\<lparr>walFile := (H @ concat (frs @ ?G)) @ r', answers := a, pWal := (pWal s1)\<lparr>truncateOnCommit := tr\<rparr>\<rparr>"
    have s2: "index_ok gs s2" "writeLock (pWal s2)" "mxFrame (hdr (pWal s2)) = of_nat ?n" "mapped s2 0"
        "same_log (after w0 (frs @ ?G)) (pWal s2)" "walFile s2 = H @ concat (frs @ ?G) @ r'" "answers s = [] \<longrightarrow> answers s2 = []"
    proof -
      show "index_ok gs s2" "mapped s2 0"
        using shm_ok_cong(2,3) [of s2 s1] write_step_simps(14,16) [OF 1(2)] i(5,9) by (simp_all add: s2_def)
      show "writeLock (pWal s2)" "mxFrame (hdr (pWal s2)) = of_nat ?n"
        using write_step_simps(12,18) [OF 1(2)] i(8,10) by (simp_all add: s2_def)
      show "same_log (after w0 (frs @ ?G)) (pWal s2)"
        using same_log_after [OF i(3), of ?G] s1(3) by (simp add: s2_def same_log_def after_append)
      show "answers s = [] \<longrightarrow> answers s2 = []" using write_step_simps(11) [OF 1(2)] l(2) by (simp add: s2_def)
    qed (simp add: s2_def)
    have jF: "length pgs + k \<le> length ?F" "codec_total E (take (length pgs + k) pgs)" using 1(3) s1(1) by (simp_all add: lk)
    let ?ps = "map fst pgs @ replicate k (fst (last pgs))"
    have ps: "0 \<notin> set ?ps" using pg last_in_set [OF pg(2)] by (auto simp: pages_ok_def)
    have bp: "?n + length ?ps + 34 < 2 ^ 32" using b 1(3) by simp
    have mx2: "?n = length gs \<or> unat (mxFrame (hdr (pWal s2))) = ?n" using mx i(8) by (simp add: s2(3))
    obtain rc2 x s3 gs' where 2: "append_pages ?ps (of_nat ?n) s2 = Some (rc2, x, s3)" "idx_step s2 s3" "answers s2 = [] \<longrightarrow> rc2 = SQLITE_OK"
        "index_ok gs' s3" "?n \<le> length gs'" "take ?n gs' = take ?n gs"
        "rc2 = SQLITE_OK \<longrightarrow> x = of_nat (?n + length ?ps) \<and> ?n + length ?ps \<le> length gs' \<and> take (?n + length ?ps) gs' = take ?n gs @ ?ps"
      using append_pages_post [OF s2(1) i(6) mx2 s2(2) ps bp] by blast
    have w3: "walFile s3 = H @ concat (frs @ ?G) @ r'" using idx_step_simps(15) [OF 2(2)] s2(6) by simp
    have w2: "walFile s2 = H @ concat (frs @ take (length pgs + k) ?F) @ r'" using s2(6) unfolding G' .
    have psl: "?n + length ?ps = length (frs @ ?G)" by (simp add: lk)
    have start': "frames_tail E m ?sz pgs nT c fl s = (if rc1 \<noteq> SQLITE_OK then Some (rc1, s2)
        else if rc2 \<noteq> SQLITE_OK then Some (rc2, s3)
        else let s = upd_hdr (\<lambda>h. h\<lparr>szPageHdr := pack_szPage ?sz, mxFrame := x\<rparr>) s3 in
             if c then do {
               s \<leftarrow> walIndexWriteHdr (upd_hdr (\<lambda>h. h\<lparr>iChange := iChange h + 1, nPage := nT\<rparr>) s);
               Some (rc2, upd_wal (\<lambda>w. w\<lparr>iCallback := x\<rparr>) s)
             }
             else Some (rc2, s))"
      unfolding start l(1) s2_def [symmetric] using False 2(1) s2(3) by (simp add: Let_def)
    have ix: "indexed frs s2" "indexed frs s3"
      using indexedI [OF s2(1) i(6,7)] indexedI [OF 2(4,5)] 2(6) i(7) by simp_all
    have k2: "kept s s2" using kept_step(1) [OF 1(2)] s2(7) by (simp add: kept_def s2_def)
    have k3: "kept s s3" using kept_trans [OF k2 kept_step(2) [OF 2(2)]] .
    have ans: "answers s = [] \<and> codec_total E pgs \<longrightarrow> rc1 = SQLITE_OK \<and> rc2 = SQLITE_OK" using 1(5) 2(3) s2(7) by blast
    have res: "frames_written E H w0 frs ?F pgs c nT rc t" if "walFile t = H @ concat (frs @ ?G) @ r'" "indexed frs t"
        and "rc = SQLITE_OK \<Longrightarrow> log_inv H w0 (frs @ ?G) t \<and> (c \<longrightarrow> published w0 t \<and> nPage (hdr (pWal t)) = nT)" for rc t
      by (rule frames_writtenI [OF that(2) jF]) (use that in \<open>simp_all add: G'\<close>)
    show ?thesis
    proof (cases "rc1 = SQLITE_OK \<and> rc2 = SQLITE_OK")
      case fail: False
      have "frames_written E H w0 frs ?F pgs c nT rc1 s2" if "rc1 \<noteq> SQLITE_OK" by (rule res) (use that s2(6) ix in simp_all)
      moreover have "frames_written E H w0 frs ?F pgs c nT rc2 s3" if "rc2 \<noteq> SQLITE_OK" by (rule res) (use that w3 ix in simp_all)
      ultimately show ?thesis using start' fail ans k2 k3 by (cases "rc1 = SQLITE_OK") auto
    next
      case True
      have "idx_step s2 s3 \<Longrightarrow> same_log (after w0 (frs @ ?G)) (pWal s3)"
        using s2(5) idx_step_simps(1,2) [OF 2(2)] by (simp add: same_log_def)
      moreover have "x = of_nat (length (frs @ ?G))" "length (frs @ ?G) \<le> length gs'" "take (length (frs @ ?G)) gs' = map fpgno frs @ ?ps"
        using 2(7) True i(7) unfolding psl by simp_all
      ultimately have st: "same_log (after w0 (frs @ ?G)) (pWal s3)" "length (frs @ ?G) \<le> length gs'" "take (length (frs @ ?G)) gs' = map fpgno (frs @ ?G)"
          "mapped s3 0" "writeLock (pWal s3)" "x = of_nat (length (frs @ ?G))"
        using 2(2) F(3) [OF wl] s2(2,4) idx_step_simps(5,19) [OF 2(2)] by simp_all
      note fin = finish_frames [OF i(1) ch st(1) w3 2(4) st(2-6)]
      show ?thesis
      proof (cases c)
        case False
        let ?t = "upd_hdr (\<lambda>h. h\<lparr>szPageHdr := pack_szPage ?sz, mxFrame := x\<rparr>) s3"
        have "frames_written E H w0 frs ?F pgs c nT rc2 ?t" by (rule res) (use fin(1) w3 False log_inv_indexed [OF fin(1)] in \<open>simp_all add: upd_hdr_def\<close>)
        moreover have "kept s ?t" using k3 by (simp add: kept_def upd_hdr_def)
        ultimately show ?thesis using start' True False ans by (auto simp: Let_def)
      next
        case c: True
        obtain u where u: "walIndexWriteHdr (upd_hdr (\<lambda>h. h\<lparr>iChange := iChange h + 1, nPage := nT\<rparr>) (upd_hdr (\<lambda>h. h\<lparr>szPageHdr := pack_szPage ?sz, mxFrame := x\<rparr>) s3)) = Some u"
            "walFile u = walFile s3" "log_inv H w0 (frs @ ?G) (upd_wal (\<lambda>w. w\<lparr>iCallback := x\<rparr>) u)" "published w0 (upd_wal (\<lambda>w. w\<lparr>iCallback := x\<rparr>) u)"
            "nPage (hdr (pWal u)) = nT" "kept s3 (upd_wal (\<lambda>w. w\<lparr>iCallback := x\<rparr>) u)"
          using fin(2) [where nT = nT] by blast
        have "frames_written E H w0 frs ?F pgs c nT rc2 (upd_wal (\<lambda>w. w\<lparr>iCallback := x\<rparr>) u)"
          by (rule res) (use u w3 log_inv_indexed [OF u(3)] in \<open>simp_all add: upd_wal_def\<close>)
        then show ?thesis using start' True c u(1) ans kept_trans [OF k3 u(6)] by (simp add: Let_def)
      qed
    qed
  qed
qed

end
