(* ===== verification/WalCrash.thy ===== *)
theory WalCrash
  imports WalTxn
begin

text \<open>
  What a transaction on the log guarantees: the first one writes the header of the log; every commit either is found by recovery
  as a whole or not at all, whatever call of the system has failed; and a reader finds the pages of its snapshot.
\<close>

section \<open>The header of the log\<close>

lemma write_log_header_post:
  assumes ok: "shm_ok s" "mapped s 0" "writeLock (pWal s)" "mxFrame (hdr (pWal s)) = 0" and a: "length (aSalt (hdr (pWal s))) = 8"
    and sz: "valid_size sz"
  shows "\<exists>rc s'. write_log_header K sz fl s = Some (rc, s') \<and> (answers s = [] \<longrightarrow> rc = SQLITE_OK \<and> answers s' = []) \<and>
    readLock (pWal s') = readLock (pWal s) \<and> exclusiveMode (pWal s') = exclusiveMode (pWal s) \<and> (rc = SQLITE_OK \<longrightarrow> (\<exists>H. log_inv H (pWal s') [] s' \<and> szPage (pWal s') = sz))"
proof -
  obtain salts r where sr: "(if nCkpt (pWal s) = 0 then sqlite3_randomness K 8 (rng s) else (aSalt (hdr (pWal s)), rng s)) = (salts, r)"
    by fastforce
  have sl: "length salts = 8" using sr a length_randomness [of K 8 "rng s"] by (auto split: if_splits)
  define h0 where "h0 = sqlite3Put4byte (WAL_MAGIC OR ucast SQLITE_BIGENDIAN) @ sqlite3Put4byte WAL_MAX_VERSION @ sqlite3Put4byte sz @
       sqlite3Put4byte (nCkpt (pWal s)) @ salts"
  have l0: "length h0 = 24" by (simp add: h0_def sl)
  then have "\<exists>c. walChecksumBytes True h0 (0, 0) = Some c" by (intro cksum_total) auto
  then obtain c where c: "walChecksumBytes True h0 (0, 0) = Some c" ..
  define H where "H = h0 @ sqlite3Put4byte (fst c) @ sqlite3Put4byte (snd c)"
  define s1 where "s1 = upd_wal (\<lambda>w. w\<lparr>szPage := sz, truncateOnCommit := True,
       hdr := (hdr w)\<lparr>aSalt := salts, bigEndCksum := SQLITE_BIGENDIAN, aFrameCksum := c\<rparr>\<rparr>) (s\<lparr>rng := r\<rparr>)"
  have lH: "length H = 32" by (simp add: H_def l0)
  obtain rc2 s2 where w: "wal_write 0 H s1 = (rc2, s2)" by (cases "wal_write 0 H s1")
  have f1: "walFile s1 = [] @ walFile s1" by simp
  note p = wal_write_post [OF f1 _ w, simplified]
  obtain rc3 s3 where w3: "os_plain s2 = (rc3, s3)" by (cases "os_plain s2")
  note p3 = os_plain_post [OF w3]
  define go where "go = (syncHeader (pWal s2) \<and> fl \<noteq> 0)"
  have "write_log_header K sz fl s = do {
      c \<leftarrow> walChecksumBytes True (take (WAL_HDRSIZE - 2 * 4) h0) (0, 0);
      let s = upd_wal (\<lambda>w. w\<lparr>szPage := sz, truncateOnCommit := True,
         hdr := (hdr w)\<lparr>aSalt := salts, bigEndCksum := SQLITE_BIGENDIAN, aFrameCksum := c\<rparr>\<rparr>) (s\<lparr>rng := r\<rparr>);
      let (rc, s) = wal_write 0 (h0 @ sqlite3Put4byte (fst c) @ sqlite3Put4byte (snd c)) s;
      Some (if rc \<noteq> SQLITE_OK then (rc, s) else if syncHeader (pWal s) \<and> fl \<noteq> 0 then os_plain s else (rc, s)) }"
    unfolding write_log_header_def sr h0_def by (simp only: Let_def prod.case)
  then have e: "write_log_header K sz fl s = Some (if rc2 \<noteq> SQLITE_OK then (rc2, s2) else if go then (rc3, s3) else (rc2, s2))"
    using c l0 w w3 by (simp add: H_def [symmetric] s1_def [symmetric] go_def WAL_HDRSIZE_def)
  have hd: "log_header H (pWal s1)"
  proof -
    have d: "drop 4 H = sqlite3Put4byte WAL_MAX_VERSION @ drop 8 H" "drop 8 H = sqlite3Put4byte sz @ drop 12 H"
        "drop 12 H = sqlite3Put4byte (nCkpt (pWal s)) @ drop 16 H" "drop 16 H = salts @ drop 24 H"
        "drop 24 H = sqlite3Put4byte (fst c) @ sqlite3Put4byte (snd c)" "drop 28 H = sqlite3Put4byte (snd c)"
        "H = sqlite3Put4byte (WAL_MAGIC OR ucast SQLITE_BIGENDIAN) @ drop 4 H" "take 24 H = h0"
      by (simp_all add: H_def h0_def sl)
    have m: "(WAL_MAGIC OR ucast SQLITE_BIGENDIAN) AND 0xFFFFFFFE = (WAL_MAGIC :: u32)"
      "SQLITE_BIGENDIAN = ucast ((WAL_MAGIC OR ucast SQLITE_BIGENDIAN) AND (1 :: u32))"
      by (simp_all add: WAL_MAGIC_def SQLITE_BIGENDIAN_def)
    have g: "sqlite3Get4byte H = Some (WAL_MAGIC OR ucast SQLITE_BIGENDIAN)" "sqlite3Get4byte (drop 4 H) = Some WAL_MAX_VERSION"
        "sqlite3Get4byte (drop 8 H) = Some sz" "sqlite3Get4byte (drop 12 H) = Some (nCkpt (pWal s))" "take 8 (drop 16 H) = salts"
        "sqlite3Get4byte (drop 24 H) = Some (fst c)" "sqlite3Get4byte (drop 28 H) = Some (snd c)"
      by (subst d, simp add: sl)+
    show ?thesis unfolding log_header_def
      using lH g m c sz d(8) by (simp add: s1_def upd_wal_def WAL_HDRSIZE_def)
  qed
  have inv: "log_inv H (pWal t) [] t" if "file_step s1 t" "walFile t = H @ drop (length H) (walFile s1)" for t
  proof -
    have "pWal t = pWal s1" "index_ok [] t" "mapped t 0"
      using file_step_simps(1,14,15) [OF that(1)] shm_ok_cong(1,3) [of s1 s] ok(1,2) by (simp_all add: s1_def upd_wal_def index_ok_Nil)
    moreover have "mxFrame (hdr (pWal s1)) = 0" "writeLock (pWal s1)" using ok(3,4) by (simp_all add: s1_def upd_wal_def)
    ultimately show ?thesis unfolding log_inv_def using hd that(2) indexedI [of "[]" t "[]"]
      by (intro conjI exI [of _ "drop (length H) (walFile s1)"]) (simp_all add: same_log_def)
  qed
  have fs3: "file_step s1 s3" using file_step_trans [OF p(1) p3(1)] .
  let ?t = "if rc2 = SQLITE_OK \<and> go then s3 else s2" and ?rc = "if rc2 = SQLITE_OK \<and> go then rc3 else rc2"
  have st: "file_step s1 ?t" using p(1) fs3 by simp
  have fin: "?rc = SQLITE_OK \<longrightarrow> walFile ?t = H @ drop (length H) (walFile s1)" using p(2) p3(2) by auto
  have s: "answers s1 = answers s" "readLock (pWal s1) = readLock (pWal s)" "szPage (pWal s1) = sz"
    "exclusiveMode (pWal s1) = exclusiveMode (pWal s)" by (simp_all add: s1_def upd_wal_def)
  have "answers s = [] \<longrightarrow> ?rc = SQLITE_OK \<and> answers ?t = []" using p(4) p3(3) file_step_simps(11) [OF p(1)] file_step_simps(11) [OF fs3] s(1) by auto
  moreover have "write_log_header K sz fl s = Some (?rc, ?t)" using e by auto
  moreover have "readLock (pWal ?t) = readLock (pWal s)" "szPage (pWal ?t) = sz" "exclusiveMode (pWal ?t) = exclusiveMode (pWal s)" using file_step_simps(1) [OF st] s by simp_all
  ultimately show ?thesis using inv [OF st] fin by blast
qed

lemma frames_from_inv:
  assumes "log_inv H w0 frs s" and "frs \<noteq> []" and "length frs < 2 ^ 32" and "readLock (pWal s) \<noteq> 0"
  shows "sqlite3WalFrames K E m (szPage w0) pgs nT c fl s = frames_tail E m (szPage w0) pgs nT c fl s"
proof -
  have "mxFrame (hdr (pWal s)) = of_nat (length frs)" using assms(1) by (simp add: log_inv_def)
  then have "unat (mxFrame (hdr (pWal s))) = length frs" using assms(3) by (simp add: unsigned_of_nat take_bit_nat_eq_self)
  then have "mxFrame (hdr (pWal s)) \<noteq> 0" using assms(2) by auto
  then show ?thesis using assms(4) by (simp add: sqlite3WalFrames_tail)
qed

section \<open>Commits and crashes\<close>

lemma frames_written_commit:
  assumes fw: "frames_written E H w0 frs (all_frames E (after w0 frs) pgs True nT m) pgs True nT SQLITE_OK s'"
    and "wal_ok w0" and pg: "pages_ok E (page_bytes w0) pgs" "pgs \<noteq> []" and "nT \<noteq> 0"
  shows "\<exists>G. log_inv H w0 (frs @ G) s' \<and> length G \<le> length pgs + m \<and> published w0 s' \<and> nPage (hdr (pWal s')) = nT \<and>
    overlay (frs @ G) = overlay frs ++ tx_pages E pgs \<and> committed (frs @ G) = frs @ G"
proof -
  let ?F = "all_frames E (after w0 frs) pgs True nT m"
  obtain j where j: "j \<le> length ?F" "codec_total E (take j pgs)" "length pgs \<le> j" "log_inv H w0 (frs @ take j ?F) s'"
      "published w0 s'" "nPage (hdr (pWal s')) = nT" using fw unfolding frames_written_def by blast
  have lF: "length ?F = length pgs + m" by (simp add: all_frames_def)
  have w: "wal_ok (after w0 frs)" "pages_ok E (page_bytes (after w0 frs)) pgs" using assms(2) pg(1) by (simp_all add: wal_ok_def)
  have ct: "codec_total E pgs" using j(2,3) by simp
  note n = new_commit [OF w ct pg(2) j(3) j(1) [unfolded lF], where frs = frs and nT = nT]
  show ?thesis using j n(1) n(2) [OF assms(5)] lF by (intro exI [of _ "take j ?F"]) (simp add: committed_def)
qed

text \<open>
  What is in the file after the frames of this call continues the log only with a frame of the call itself: other writers
  left nothing with the right checksum there.
\<close>

definition no_stray :: "u8 list \<Rightarrow> Wal \<Rightarrow> u8 list list \<Rightarrow> u8 list list \<Rightarrow> u8 list \<Rightarrow> bool" where
  "no_stray H w0 frs F f \<longleftrightarrow> (\<forall>j r. j \<le> length F \<and> f = H @ concat (frs @ take j F) @ r \<longrightarrow>
     stops (after w0 (frs @ take j F)) r \<or> j < length F \<and> take (page_bytes w0 + 24) r = F ! j)"

lemma last_valid_frame:
  assumes "no_stray H w0 frs F f" and "j0 \<le> length F" and "f = H @ concat (frs @ take j0 F) @ r0"
  shows "\<exists>j r. j0 \<le> j \<and> j \<le> length F \<and> f = H @ concat (frs @ take j F) @ r \<and> stops (after w0 (frs @ take j F)) r"
  using assms(2,3)
proof (induction "length F - j0" arbitrary: j0 r0)
  case 0
  then have "stops (after w0 (frs @ take j0 F)) r0" using assms(1) unfolding no_stray_def by fastforce
  then show ?case using 0 by blast
next
  case (Suc d)
  have "stops (after w0 (frs @ take j0 F)) r0 \<or> j0 < length F \<and> take (page_bytes w0 + 24) r0 = F ! j0"
    using assms(1) Suc.prems unfolding no_stray_def by blast
  then show ?case
  proof
    assume "stops (after w0 (frs @ take j0 F)) r0"
    then show ?thesis using Suc.prems by (intro exI [of _ j0] exI [of _ r0]) simp
  next
    assume j: "j0 < length F \<and> take (page_bytes w0 + 24) r0 = F ! j0"
    let ?r = "drop (page_bytes w0 + 24) r0"
    have e: "f = H @ concat (frs @ take (Suc j0) F) @ ?r"
      using j Suc.prems(2) append_take_drop_id [of "page_bytes w0 + 24" r0] by (simp add: take_Suc_conv_app_nth)
    have d: "d = length F - Suc j0" "Suc j0 \<le> length F" using Suc.hyps(2) j by auto
    obtain j r where "Suc j0 \<le> j" "j \<le> length F" "f = H @ concat (frs @ take j F) @ r" "stops (after w0 (frs @ take j F)) r"
      using Suc.hyps(1) [OF d e] by blast
    then show ?thesis by (intro exI [of _ j] exI [of _ r]) simp
  qed
qed

text \<open>A connection that opens the log after a crash: it has the write lock and no header yet.\<close>

definition after_crash :: "walst \<Rightarrow> bool" where
  "after_crash t \<longleftrightarrow> shm_ok t \<and> writeLock (pWal t) \<and> mapped t 0"

text \<open>The log after a call that was to commit: the old contents, if the call failed, or the new ones.\<close>

lemma crash_commit_post:
  assumes inv: "log_inv H w0 frs s" "frs \<noteq> []" "readLock (pWal s) \<noteq> 0"
    and pg: "pages_ok E (page_bytes w0) pgs" "pgs \<noteq> []" "codec_total E pgs" and m: "0 < m"
    and b: "length frs + length pgs + m + 4096 < 2 ^ 32" and nT: "nT \<noteq> 0"
    and call: "sqlite3WalFrames K E m (szPage w0) pgs nT True fl s = Some (rc, s')"
    and stray: "no_stray H w0 frs (all_frames E (after w0 frs) pgs True nT m) (walFile s')"
    and t: "after_crash t" "walFile t = walFile s'"
  shows "\<exists>rc' t' fs. walIndexRecover t = Some (rc', t') \<and> walFile t' = walFile t \<and> (rc' = SQLITE_OK \<longrightarrow> recovered w0 fs t') \<and>
    (rc \<noteq> SQLITE_OK \<and> overlay (committed fs) = overlay (committed frs) \<and> commit_size fs = commit_size frs \<or>
     overlay (committed fs) = overlay frs ++ tx_pages E pgs \<and> commit_size fs = nT)"
proof -
  let ?w = "after w0 frs" let ?F = "all_frames E ?w pgs True nT m"
  have lF: "length ?F = length pgs + m" by (simp add: all_frames_def)
  have i: "log_header H w0" "chain w0 frs" using inv(1) by (simp_all add: log_inv_def)
  have w: "wal_ok ?w" "pages_ok E (page_bytes ?w) pgs" using log_header_ok(1) [OF i(1)] pg(1) by (simp_all add: wal_ok_def)
  have n: "length frs < 2 ^ 32" using b by simp
  have "frames_written E H w0 frs ?F pgs True nT rc s'"
    using frames_tail_post [OF inv(1) pg(1,2) m b, of nT True fl] call frames_from_inv [OF inv(1,2) n inv(3)] by auto
  then obtain j0 r0 where j0: "j0 \<le> length ?F" "walFile s' = H @ concat (frs @ take j0 ?F) @ r0" "rc = SQLITE_OK \<longrightarrow> length pgs \<le> j0"
    unfolding frames_written_def by blast
  obtain j r where j: "j0 \<le> j" "j \<le> length ?F" "walFile s' = H @ concat (frs @ take j ?F) @ r" "stops (after w0 (frs @ take j ?F)) r"
    using last_valid_frame [OF stray j0(1,2)] by blast
  let ?fs = "frs @ take j ?F"
  have "chain w0 ?fs"
  proof -
    have "chain ?w (take j ?F @ drop j ?F)" using all_frames_props(1) [OF w pg(3,2), of True nT m] by simp
    then show ?thesis using i(2) by (simp add: chain_append del: append_take_drop_id)
  qed
  moreover have "length ?fs + 4096 < 2 ^ 32" using b j(2) lF by simp
  ultimately obtain rc' t' where rec: "walIndexRecover t = Some (rc', t')" "walFile t' = walFile t" "rc' = SQLITE_OK \<longrightarrow> recovered w0 ?fs t'"
    using walIndexRecover_post [OF j(3) [folded t(2)] i(1) _ j(4)] t(1) unfolding after_crash_def by blast
  show ?thesis
  proof (cases "length pgs \<le> j")
    case True
    note nc = new_commit [OF w pg(3,2) True j(2) [unfolded lF], where frs = frs and nT = nT]
    have "committed ?fs = ?fs" using nc(2) [OF nT] j(2) by (simp add: committed_def min_absorb2)
    then show ?thesis using rec nc(1) nc(3) [OF nT] by (intro exI [of _ rc'] exI [of _ t'] exI [of _ ?fs]) simp
  next
    case False
    have "codec_total E (take j pgs)" using pg(3) by (auto simp: codec_total_def dest: in_set_takeD)
    then have "committed ?fs = committed frs" "commit_size ?fs = commit_size frs" using old_commit [OF w] False by simp_all
    moreover have "rc \<noteq> SQLITE_OK" using j0(3) j(1) False by auto
    ultimately show ?thesis using rec by (intro exI [of _ rc'] exI [of _ t'] exI [of _ ?fs]) simp
  qed
qed

section \<open>The first commit\<close>

text \<open>A writer that finds the log empty: it writes the header and then the frames.\<close>

definition empty_log :: "walst \<Rightarrow> bool" where
  "empty_log s \<longleftrightarrow> shm_ok s \<and> mapped s 0 \<and> writeLock (pWal s) \<and> mxFrame (hdr (pWal s)) = 0 \<and> length (aSalt (hdr (pWal s))) = 8 \<and>
     readLock (pWal s) \<noteq> 0"

lemma first_commit_post:
  assumes s: "empty_log s" "answers s = []" and sz: "valid_size sz" and pg: "pages_ok E (unat sz) pgs" "pgs \<noteq> []" "codec_total E pgs"
    and m: "0 < m" and b: "length pgs + m + 4096 < 2 ^ 32" and nT: "nT \<noteq> 0"
  shows "\<exists>s' H w0 G. sqlite3WalFrames K E m sz pgs nT True fl s = Some (SQLITE_OK, s') \<and> log_inv H w0 G s' \<and> G \<noteq> [] \<and>
    length G \<le> length pgs + m \<and> published w0 s' \<and> nPage (hdr (pWal s')) = nT \<and> answers s' = [] \<and> readLock (pWal s') \<noteq> 0 \<and> szPage w0 = sz \<and>
    overlay G = tx_pages E pgs \<and> committed G = G \<and> exclusiveMode (pWal s') = exclusiveMode (pWal s)"
proof -
  have st: "shm_ok s" "mapped s 0" "writeLock (pWal s)" "mxFrame (hdr (pWal s)) = 0" "length (aSalt (hdr (pWal s))) = 8" "readLock (pWal s) \<noteq> 0"
    using s(1) by (simp_all add: empty_log_def)
  obtain s1 H where 1: "write_log_header K sz fl s = Some (SQLITE_OK, s1)" "answers s1 = []" "readLock (pWal s1) = readLock (pWal s)"
      "log_inv H (pWal s1) [] s1" "szPage (pWal s1) = sz" "exclusiveMode (pWal s1) = exclusiveMode (pWal s)"
    using write_log_header_post [OF st(1-5) sz, of K fl] s(2) by auto
  let ?w = "pWal s1"
  have w: "wal_ok ?w" "pages_ok E (page_bytes ?w) pgs"
    using log_header_ok(1) 1(4,5) pg(1) unfolding log_inv_def page_bytes_def by auto
  have b': "length ([] :: u8 list list) + length pgs + m + 4096 < 2 ^ 32" using b by simp
  obtain rc s' where 2: "frames_tail E m sz pgs nT True fl s1 = Some (rc, s')" "rc = SQLITE_OK" "kept s1 s'"
      "frames_written E H ?w [] (all_frames E (after ?w []) pgs True nT m) pgs True nT rc s'"
    using frames_tail_post [OF 1(4) w(2) pg(2) m b', of nT True fl] 1(2,5) pg(3) by auto
  obtain G where G: "log_inv H ?w ([] @ G) s'" "length G \<le> length pgs + m" "published ?w s'" "nPage (hdr (pWal s')) = nT"
      "overlay ([] @ G) = overlay [] ++ tx_pages E pgs" "committed ([] @ G) = [] @ G"
    using frames_written_commit [OF 2(4) [unfolded 2(2)] w pg(2) nT] by blast
  have "sqlite3WalFrames K E m sz pgs nT True fl s = Some (SQLITE_OK, s')"
    using 1(1) 2(1,2) st(4,6) by (simp add: sqlite3WalFrames_tail)
  moreover have "tx_pages E pgs (fst (hd pgs)) \<noteq> None"
    using pg(2) by (simp add: tx_pages_def map_of_eq_None_iff image_image)
  then have "G \<noteq> []"
  proof (rule contrapos_nn)
    assume "G = []"
    then have "tx_pages E pgs = Map.empty" using G(5) by simp
    then show "tx_pages E pgs (fst (hd pgs)) = None" by simp
  qed
  moreover have "answers s' = []" "readLock (pWal s') \<noteq> 0" "exclusiveMode (pWal s') = exclusiveMode (pWal s)" using 2(3) 1(2,3,6) st(6) by (simp_all add: kept_def)
  ultimately show ?thesis using G 1(5)
    by (intro exI [of _ s'] exI [of _ H] exI [of _ ?w] exI [of _ G]) simp
qed

end
