(* ===== verification/WalSnapshot.thy ===== *)
theory WalSnapshot
  imports WalCrash
begin

text \<open>
  Readers and writers. A reader with the header of a commit finds the pages of that commit, also while a writer appends
  to the log; the commit that a writer has finished, or that recovery has found, is what the next reader gets.
\<close>

section \<open>The snapshot of a reader\<close>

definition snapshot :: "u8 list \<Rightarrow> Wal \<Rightarrow> u8 list list \<Rightarrow> walst \<Rightarrow> bool" where
  "snapshot H w0 frs s \<longleftrightarrow> log_header H w0 \<and> chain w0 frs \<and> (\<exists>rest. walFile s = H @ concat frs @ rest) \<and> indexed frs s \<and>
     mxFrame (hdr (pWal s)) = of_nat (length frs) \<and> szPageHdr (hdr (pWal s)) = pack_szPage (szPage w0)"

text \<open>A writer after its commit has a snapshot of it.\<close>

lemma snapshot_writer: "log_inv H w0 frs s \<Longrightarrow> published w0 s \<Longrightarrow> snapshot H w0 frs s"
  by (simp add: log_inv_def published_def snapshot_def)

lemma snapshot_recovered:
  assumes "recovered w0 fs s" and "log_header H w0" and "chain w0 fs" and "walFile s = H @ concat fs @ rest" and "commit_len fs \<noteq> 0"
  shows "snapshot H w0 (committed fs) s"
proof -
  have s: "fs = committed fs @ drop (commit_len fs) fs" "length (committed fs) = commit_len fs"
    using commit_len_le [of fs] by (simp_all add: committed_def min_absorb2)
  have "chain w0 (committed fs)" using assms(3) s(1) chain_append by metis
  moreover have "walFile s = H @ concat (committed fs) @ (concat (drop (commit_len fs) fs) @ rest)"
    using assms(4) s(1) by (metis append.assoc concat_append)
  moreover have "indexed fs s" using assms(1) by (intro indexedI [of "map fpgno fs"]) (simp_all add: recovered_def)
  then have "indexed (committed fs) s" using indexed_prefix s(1) by metis
  ultimately show ?thesis using assms(1,2,5) s(2) unfolding snapshot_def recovered_def by auto
qed

lemma and_pred_power:
  assumes "(n :: nat) AND (n - 1) = 0" and "0 < n"
  shows "\<exists>k. n = 2 ^ k"
  using assms
proof (induction n rule: less_induct)
  case (less n)
  show ?case
  proof (cases "n = 1")
    case False
    then have h: "even n" "n div 2 AND (n div 2 - 1) = 0" using half_and_pred [of n] less.prems by auto
    then obtain k where "n div 2 = 2 ^ k" using less.IH [of "n div 2"] less.prems(2) False by auto
    then have "n = 2 ^ Suc k" using h(1) by (metis dvd_mult_div_cancel power_Suc)
    then show ?thesis ..
  qed (auto intro: exI [of _ 0])
qed

lemma valid_size_cases:
  assumes "valid_size sz"
  shows "sz \<in> {512, 1024, 2048, 4096, 8192, 16384, 32768, 65536}"
proof -
  let ?n = "unat sz"
  have b: "2 ^ 9 \<le> ?n" "?n \<le> 2 ^ 16" using assms by (simp_all add: valid_size_def word_le_nat_alt SQLITE_MAX_PAGE_SIZE_def)
  have "unat (sz - 1) = ?n - 1" using b(1) by (intro unat_minus_one) auto
  then have "?n AND (?n - 1) = unat (sz AND (sz - 1))" by (simp add: unsigned_and_eq)
  then have "?n AND (?n - 1) = 0" using assms by (simp add: valid_size_def)
  then obtain k where k: "?n = 2 ^ k" using and_pred_power b(1) by fastforce
  have "9 \<le> k" by (rule power_le_imp_le_exp [OF _ b(1) [unfolded k]]) simp
  moreover have "k \<le> 16" by (rule power_le_imp_le_exp [OF _ b(2) [unfolded k]]) simp
  ultimately have "k \<in> {9, 10, 11, 12, 13, 14, 15, 16}" by auto
  then have "?n \<in> (\<lambda>k. 2 ^ k) ` {9, 10, 11, 12, 13, 14, 15, 16}" unfolding k by (rule imageI)
  then show ?thesis by (simp add: word_unat_eq_iff)
qed

lemma frame_bytes:
  assumes "log_header H w0" and "chain w0 frs" and "i < length frs" and "m \<le> page_bytes w0"
  shows "take m (drop (WAL_HDRSIZE + i * (page_bytes w0 + 24) + 24) (H @ concat frs @ rest)) = take m (drop 24 (frs ! i))"
    and "WAL_HDRSIZE + i * (page_bytes w0 + 24) + 24 + m \<le> length (H @ concat frs @ rest)"
proof -
  let ?k = "page_bytes w0 + 24"
  have lH: "length H = WAL_HDRSIZE" using assms(1) by (simp add: log_header_def)
  have e: "take ?k (drop (i * ?k) (concat frs @ rest)) = frs ! i"
    by (rule nth_frame [OF _ assms(3)]) (use chain_lengths [OF assms(2)] in auto)
  have "take m (drop 24 (take ?k X)) = take m (drop 24 X)" for X :: "u8 list" using assms(4) by (simp add: drop_take min_absorb1)
  then have "take m (drop 24 (frs ! i)) = take m (drop 24 (drop (i * ?k) (concat frs @ rest)))" unfolding e [symmetric] .
  moreover have "drop (WAL_HDRSIZE + j + 24) (H @ X) = drop 24 (drop j X)" for j X using lH by (simp add: add.commute)
  ultimately show "take m (drop (WAL_HDRSIZE + i * ?k + 24) (H @ concat frs @ rest)) = take m (drop 24 (frs ! i))"
    by (simp only:)
  have "Suc i * ?k \<le> length frs * ?k" using assms(3) by (intro mult_le_mono1) simp
  then show "WAL_HDRSIZE + i * ?k + 24 + m \<le> length (H @ concat frs @ rest)"
    using lH assms(4) chain_length_concat [OF assms(2)] by simp
qed

lemma snapshot_read_post:
  assumes sn: "snapshot H w0 frs s" and "readLock (pWal s) \<noteq> 0" and "answers s = []" and n: "length frs + 4096 < 2 ^ 32"
  shows "\<exists>r s'. sqlite3WalFindFrame g s = Some (SQLITE_OK, r, s') \<and>
    (case overlay frs g of None \<Rightarrow> r = 0 | Some d \<Rightarrow> r \<noteq> 0 \<and> (\<forall>nOut. \<exists>s''. sqlite3WalReadFrame r nOut s' = (SQLITE_OK, take nOut d, s'')))"
proof -
  obtain rest gs where h: "log_header H w0" "chain w0 frs" "walFile s = H @ concat frs @ rest" "index_ok gs s" "length frs \<le> length gs"
      "take (length frs) gs = map fpgno frs" "mxFrame (hdr (pWal s)) = of_nat (length frs)" "szPageHdr (hdr (pWal s)) = pack_szPage (szPage w0)"
    using sn unfolding snapshot_def indexed_def by blast
  have mx: "unat (mxFrame (hdr (pWal s))) = length frs" using n by (simp add: h(7) unsigned_of_nat take_bit_nat_eq_self)
  obtain r s' where f: "sqlite3WalFindFrame g s = Some (SQLITE_OK, r, s')" "map_step s s'" "unat r = latest (map fpgno frs) g"
    using sqlite3WalFindFrame_post [OF h(4) mx h(5) n assms(2), of g] assms(3) h(6) by auto
  have s': "walFile s' = walFile s" "walPagesize (pWal s') = szPage w0" "answers s' = []"
  proof -
    show "walFile s' = walFile s" "answers s' = []" using map_step_simps [OF f(2)] assms(3) by simp_all
    have "valid_size (szPage w0)" using h(1) by (simp add: log_header_def)
    then show "walPagesize (pWal s') = szPage w0"
      using map_step_simps(1) [OF f(2)] h(8) by (intro walPagesize_pack valid_size_cases) simp_all
  qed
  show ?thesis
  proof (cases "latest (map fpgno frs) g")
    case 0
    then have "r = 0" using f(3) by (simp add: unat_eq_zero)
    then show ?thesis using f(1) 0 by (simp add: overlay_latest)
  next
    case (Suc i)
    have i: "i < length frs" using latest_Suc(1) [OF Suc] by simp
    have r: "r \<noteq> 0" "unat (r - 1) = i" using f(3) Suc by (auto simp: unat_sub word_le_nat_alt)
    have ld: "length (drop 24 (frs ! i)) = page_bytes w0" using chain_lengths [OF h(2)] i by simp
    have "sqlite3WalReadFrame r nOut s' = (SQLITE_OK, take nOut (drop 24 (frs ! i)), s')" for nOut
    proof -
      let ?m = "if nOut > unat (szPage w0) then unat (szPage w0) else nOut"
      have m: "?m \<le> page_bytes w0" by (simp add: page_bytes_def)
      have off: "walFrameOffset r (szPage w0) + WAL_FRAME_HDRSIZE = WAL_HDRSIZE + i * (page_bytes w0 + 24) + 24"
        by (simp add: walFrameOffset_def r(2) WAL_FRAME_HDRSIZE_def page_bytes_def)
      have "take ?m (drop 24 (frs ! i)) = take nOut (drop 24 (frs ! i))" using ld by (simp add: page_bytes_def)
      then show ?thesis
        using frame_bytes [OF h(1,2) i m, of rest] h(3) s' unfolding sqlite3WalReadFrame_def os_read_def ask_def by (simp add: off Let_def)
    qed
    then show ?thesis using f(1) r(1) Suc by (simp add: overlay_latest)
  qed
qed

section \<open>Two connections\<close>

text \<open>The connection \<open>u\<close> on the shared memory and the files as another connection \<open>s\<close> has left them.\<close>

definition share :: "walst \<Rightarrow> walst \<Rightarrow> walst" where
  "share u s = u\<lparr>regions := regions s, shmHdr0 := shmHdr0 s, shmHdr1 := shmHdr1 s, nBackfill := nBackfill s,
     aReadMark := aReadMark s, walFile := walFile s, dbFile := dbFile s\<rparr>"

text \<open>Both connections have mapped pages of the same wal-index; neither keeps it in private memory.\<close>

definition same_shm :: "walst \<Rightarrow> walst \<Rightarrow> bool" where
  "same_shm u s \<longleftrightarrow> shm_ok u \<and> regions u = regions s \<and> exclusiveMode (pWal u) \<noteq> WAL_HEAPMEMORY_MODE"

lemma indexed_share:
  assumes "same_shm u s" and "length (regions s) \<le> length (regions s')" and "indexed frs s'"
  shows "indexed frs (share u s')"
proof -
  obtain gs where g: "index_ok gs s'" "length frs \<le> length gs" "take (length frs) gs = map fpgno frs" using assms(3) unfolding indexed_def by blast
  have "shm_ok (share u s')"
    using assms(1,2) g(1) unfolding share_def same_shm_def index_ok_def shm_ok_def mapped_def by force
  then have "index_ok gs (share u s')" using g(1) by (simp add: index_ok_def share_def)
  then show ?thesis using g(2,3) by (rule indexedI)
qed

lemma snapshot_share:
  assumes "snapshot H w0 frs u" and "same_shm u s" and "length (regions s) \<le> length (regions s')" and "indexed frs s'"
    and "walFile s' = H @ concat frs @ rest"
  shows "snapshot H w0 frs (share u s')"
  using assms(1) indexed_share [OF assms(2-4)] assms(5) unfolding snapshot_def by (simp add: share_def)

text \<open>The facts of a call of \<open>sqlite3WalFrames\<close> in one place: it returns, and what it has written.\<close>

lemma call_facts:
  assumes inv: "log_inv H w0 frs s" "frs \<noteq> []" "readLock (pWal s) \<noteq> 0"
    and pg: "pages_ok E (page_bytes w0) pgs" "pgs \<noteq> []" and m: "0 < m" and b: "length frs + length pgs + m + 4096 < 2 ^ 32"
  shows "\<exists>rc s'. sqlite3WalFrames K E m (szPage w0) pgs nT c fl s = Some (rc, s') \<and> (answers s = [] \<and> codec_total E pgs \<longrightarrow> rc = SQLITE_OK) \<and>
    kept s s' \<and> frames_written E H w0 frs (all_frames E (after w0 frs) pgs c nT m) pgs c nT rc s'"
proof -
  have "length frs < 2 ^ 32" using b by simp
  then show ?thesis using frames_tail_post [OF inv(1) pg m b, of nT c fl] frames_from_inv [OF inv(1,2) _ inv(3)] by auto
qed

lemma reader_undisturbed_post:
  assumes reader: "snapshot H w0 frs u" "same_shm u s"
    and writer: "log_inv H w0 (frs @ later) s" "frs @ later \<noteq> []" "readLock (pWal s) \<noteq> 0"
    and pg: "pages_ok E (page_bytes w0) pgs" "pgs \<noteq> []" and m: "0 < m"
    and b: "length (frs @ later) + length pgs + m + 4096 < 2 ^ 32"
    and call: "sqlite3WalFrames K E m (szPage w0) pgs nT c fl s = Some (rc, s')"
  shows "snapshot H w0 frs (share u s')"
proof -
  have fw: "kept s s'" "frames_written E H w0 (frs @ later) (all_frames E (after w0 (frs @ later)) pgs c nT m) pgs c nT rc s'"
    using call_facts [OF writer pg m b, of K nT c fl] call by auto
  then obtain j r where "walFile s' = H @ concat ((frs @ later) @ take j (all_frames E (after w0 (frs @ later)) pgs c nT m)) @ r"
      "indexed (frs @ later) s'" unfolding frames_written_def by blast
  then show ?thesis using fw(1) reader indexed_prefix unfolding kept_def by (intro snapshot_share [of H w0 frs u s]) auto
qed

text \<open>A connection that reads the header which a commit has published.\<close>

lemma read_published:
  assumes w: "log_inv H w0 frs s" "published w0 s" and u: "same_shm u s0" "length (regions s0) \<le> length (regions s)" "mapped u 0"
  shows "\<exists>ch u'. walIndexTryHdr ch0 (share u s) = Some (False, ch, u') \<and> snapshot H w0 frs u' \<and> readLock (pWal u') = readLock (pWal u) \<and>
    nPage (hdr (pWal u')) = nPage (hdr (pWal s)) \<and> answers u' = answers u"
proof -
  let ?h = "hdr (pWal s)" and ?v = "share u s"
  have h: "shmHdr0 ?v = ?h" "shmHdr1 ?v = ?h" "hdr_valid ?h" "szPageHdr ?h = pack_szPage (szPage w0)" "mapped ?v 0" "answers ?v = answers u"
      "pWal ?v = pWal u" using w(2) u(3) by (simp_all add: published_def share_def mapped_def)
  let ?u = "if hdr (pWal u) \<noteq> ?h then upd_wal (\<lambda>w. w\<lparr>szPage := walPagesize w\<rparr>) (upd_hdr (\<lambda>_. ?h) ?v) else ?v"
  have e: "walIndexTryHdr ch0 ?v = Some (False, hdr (pWal u) \<noteq> ?h \<or> ch0, ?u)"
    using h by (simp add: walIndexTryHdr_def hdr_valid_def Let_def)
  have i: "indexed frs ?v" using indexed_share [OF u(1,2)] w(1) by (simp add: log_inv_def)
  have "regions ?u = regions ?v" "apWiData (pWal ?u) = apWiData (pWal ?v)" "exclusiveMode (pWal ?u) = exclusiveMode (pWal ?v)"
      "walFile ?u = walFile s" "hdr (pWal ?u) = ?h" "readLock (pWal ?u) = readLock (pWal u)" "answers ?u = answers u"
    by (simp_all add: upd_wal_def upd_hdr_def share_def)
  moreover from this(1-3) have "indexed frs ?u" using i shm_ok_cong(2) [of ?u ?v] unfolding indexed_def by simp
  ultimately have "snapshot H w0 frs ?u \<and> readLock (pWal ?u) = readLock (pWal u) \<and> nPage (hdr (pWal ?u)) = nPage ?h \<and> answers ?u = answers u"
    using w(1) h(4) unfolding snapshot_def log_inv_def by simp
  then show ?thesis using e by blast
qed

end
