(* ===== verification/WalIterate.thy ===== *)
theory WalIterate
  imports WalCkpt WalSnapshot
begin

text \<open>
  The iterator of a checkpoint visits the pages of the log in the order of their numbers, each with its last frame. What is left of a segment is a
  sorted list of pages with their frames; the last segment that has a page tells its frame.
\<close>

section \<open>Steps of the iterator\<close>

definition entries :: "WalSegment \<Rightarrow> (u32 \<times> u32) list" where
  "entries seg = map (\<lambda>k. (segPgno seg ! k, segZero seg + of_nat k)) (drop (iNext seg) (aIndex seg))"

definition seg_ok :: "WalSegment \<Rightarrow> bool" where
  "seg_ok seg \<longleftrightarrow> nEntry seg = length (aIndex seg) \<and> sorted_wrt (<) (map fst (entries seg))"

primrec seg_find :: "WalSegment list \<Rightarrow> u32 \<Rightarrow> u32 option" where
  "seg_find [] g = None"
| "seg_find (seg # segs) g = (case seg_find segs g of Some f \<Rightarrow> Some f | None \<Rightarrow> map_of (entries seg) g)"

lemma entries_hd: "iNext seg < length (aIndex seg) \<Longrightarrow>
  entries seg = (segPgno seg ! (aIndex seg ! iNext seg), segZero seg + of_nat (aIndex seg ! iNext seg)) # entries (seg\<lparr>iNext := iNext seg + 1\<rparr>)"
  by (simp add: entries_def Cons_nth_drop_Suc [symmetric])

lemma entries_Nil: "\<not> iNext seg < length (aIndex seg) \<Longrightarrow> entries seg = []"
  by (simp add: entries_def)

lemma next_entry_post:
  assumes "seg_ok seg"
  shows "seg_ok (next_entry m seg) \<and> entries (next_entry m seg) = dropWhile (\<lambda>x. fst x \<le> m) (entries seg)"
  using assms
proof (induction m seg rule: next_entry.induct)
  case (1 m seg)
  have n: "nEntry seg = length (aIndex seg)" using 1(2) by (simp add: seg_ok_def)
  show ?case
  proof (cases "iNext seg < nEntry seg \<and> \<not> segPgno seg ! (aIndex seg ! iNext seg) > m")
    case True
    then have e: "next_entry m seg = next_entry m (seg\<lparr>iNext := iNext seg + 1\<rparr>)" by (subst next_entry.simps) simp
    have h: "entries seg = (segPgno seg ! (aIndex seg ! iNext seg), segZero seg + of_nat (aIndex seg ! iNext seg)) # entries (seg\<lparr>iNext := iNext seg + 1\<rparr>)"
      using True n by (intro entries_hd) simp
    then have "seg_ok (seg\<lparr>iNext := iNext seg + 1\<rparr>)" using 1(2) by (simp add: seg_ok_def)
    then show ?thesis using 1(1) [OF True] True h unfolding e by (simp add: not_less)
  next
    case False
    have e: "next_entry m seg = seg" by (subst next_entry.simps) (simp only: False if_False)
    have "entries seg = dropWhile (\<lambda>x. fst x \<le> m) (entries seg)"
      using False n entries_hd [of seg] entries_Nil [of seg] by (cases "iNext seg < length (aIndex seg)") (simp_all add: not_le)
    then show ?thesis using 1(2) unfolding e by simp
  qed
qed

lemma map_of_dropWhile:
  assumes "sorted_wrt (<) (map fst xs)" and "m < g"
  shows "map_of (dropWhile (\<lambda>x. fst x \<le> m) xs) g = map_of xs (g :: u32)"
  using assms by (induction xs) auto

text \<open>What one round of the iterator returns: the least page above \<open>m\<close>.\<close>

lemma next_segments_post:
  assumes "\<forall>seg \<in> set segs. seg_ok seg" and "next_segments m segs = (r, f, segs')"
  shows "(\<forall>seg \<in> set segs'. seg_ok seg) \<and> (\<forall>g. m < g \<longrightarrow> seg_find segs' g = seg_find segs g) \<and>
    (\<forall>g. m < g \<and> g < r \<longrightarrow> seg_find segs g = None) \<and> (r \<noteq> 0xFFFFFFFF \<longrightarrow> m < r \<and> seg_find segs r = Some f)"
  using assms
proof (induction segs arbitrary: r f segs')
  case (Cons seg segs)
  obtain r1 f1 segs1 where n: "next_segments m segs = (r1, f1, segs1)" by (cases "next_segments m segs")
  have ih: "\<forall>seg \<in> set segs1. seg_ok seg" "\<And>g. m < g \<Longrightarrow> seg_find segs1 g = seg_find segs g" "\<And>g. m < g \<Longrightarrow> g < r1 \<Longrightarrow> seg_find segs g = None"
      "r1 \<noteq> 0xFFFFFFFF \<Longrightarrow> m < r1 \<and> seg_find segs r1 = Some f1" using Cons.IH [OF _ n] Cons.prems(1) by auto
  let ?s = "next_entry m seg"
  have s: "seg_ok ?s" "entries ?s = dropWhile (\<lambda>x. fst x \<le> m) (entries seg)"
    using next_entry_post [of seg m] Cons.prems(1) by simp_all
  have sorted: "sorted_wrt (<) (map fst (entries seg))" using Cons.prems(1) by (simp add: seg_ok_def)
  have fs: "map_of (entries ?s) g = map_of (entries seg) g" if "m < g" for g unfolding s(2) by (rule map_of_dropWhile [OF sorted that])
  have same: "seg_find (?s # segs1) g = seg_find (seg # segs) g" if "m < g" for g
    using ih(2) [OF that] fs [OF that] by (simp split: option.split)
  let ?h = "iNext ?s < nEntry ?s" and ?p = "segPgno ?s ! (aIndex ?s ! iNext ?s)"
  have ne: "nEntry ?s = length (aIndex ?s)" using s(1) by (simp add: seg_ok_def)
  have least: "map_of (entries ?s) g = None" if "?h \<longrightarrow> g < ?p" for g
  proof (cases ?h)
    case True
    have "\<forall>x \<in> set (entries ?s). ?p \<le> fst x" using s(1) True ne entries_hd [of ?s] by (auto simp: seg_ok_def less_imp_le)
    then show ?thesis using that True by (auto simp: map_of_eq_None_iff dest: leD)
  next
    case False
    then show ?thesis using entries_Nil [of ?s] ne by simp
  qed
  show ?case
  proof (cases "?h \<and> ?p < r1")
    case True
    have r: "r = ?p" "f = segZero ?s + of_nat (aIndex ?s ! iNext ?s)" "segs' = ?s # segs1"
      using Cons.prems(2) True n by (simp_all add: Let_def)
    have mp: "m < ?p" using next_entry_stops True by blast
    have "map_of (entries ?s) ?p = Some f" using entries_hd [of ?s] True ne r(2) by simp
    then have "seg_find (seg # segs) r = Some f" using ih(3) [OF mp] True fs [OF mp] r(1) by simp
    moreover have "seg_find (seg # segs) g = None" if "m < g" "g < r" for g
    proof -
      have "g < r1" using that(2) True r(1) by (metis order.strict_trans)
      then show ?thesis using ih(3) [OF that(1)] that True r(1) least [of g] fs [OF that(1)] by simp
    qed
    ultimately show ?thesis using ih(1) same s(1) mp unfolding r by simp
  next
    case False
    have r: "r = r1" "f = f1" "segs' = ?s # segs1" using Cons.prems(2) False n by (auto simp: Let_def split: if_splits)
    have "seg_find (seg # segs) g = None" if "m < g" "g < r1" for g
      using ih(3) [OF that] that False least [of g] fs [OF that(1)] by fastforce
    then show ?thesis using ih(1,4) same s(1) unfolding r by auto
  qed
qed simp

section \<open>The initial segments\<close>

text \<open>The iterator stands at page \<open>iPrior\<close>: above it every page is found, with the last of the frames \<open>fs\<close> that has it.\<close>

definition iterates :: "u32 list \<Rightarrow> WalIterator \<Rightarrow> bool" where
  "iterates fs p \<longleftrightarrow> (\<forall>seg \<in> set (aSegment p). seg_ok seg) \<and>
     (\<forall>g. iPrior p < g \<longrightarrow> seg_find (aSegment p) g = (if g \<in> set fs then Some (of_nat (latest fs g)) else None))"

lemma walIteratorNext_post:
  assumes "iterates fs p" and "walIteratorNext p = (r, p')"
  shows "case r of
      None \<Rightarrow> \<forall>g \<in> set fs. g \<le> iPrior p \<or> g = 0xFFFFFFFF
    | Some (pg, fr) \<Rightarrow> iterates fs p' \<and> iPrior p' = pg \<and> iPrior p < pg \<and> pg \<in> set fs \<and> fr = of_nat (latest fs pg) \<and>
        (\<forall>g \<in> set fs. iPrior p < g \<longrightarrow> pg \<le> g)"
proof -
  obtain q f segs where n: "next_segments (iPrior p) (aSegment p) = (q, f, segs)" by (cases "next_segments (iPrior p) (aSegment p)")
  have ok: "\<forall>seg \<in> set (aSegment p). seg_ok seg" and
    fnd: "\<And>g. iPrior p < g \<Longrightarrow> seg_find (aSegment p) g = (if g \<in> set fs then Some (of_nat (latest fs g)) else None)"
    using assms(1) by (simp_all add: iterates_def)
  note post = next_segments_post [OF ok n]
  have low: "q \<le> g" if "iPrior p < g" "g \<in> set fs" for g
    using post fnd [OF that(1)] that by (auto simp: not_less [symmetric])
  show ?thesis
  proof (cases "q = 0xFFFFFFFF")
    case True
    have m: "(- 1 :: u32) = 0xFFFFFFFF" by simp
    have "g = 0xFFFFFFFF" if "(0xFFFFFFFF :: u32) \<le> g" for g using word_order.extremum_uniqueI [of g] that unfolding m .
    then show ?thesis using assms(2) n True low by (auto simp: walIteratorNext_def not_le [symmetric])
  next
    case False
    then have q: "iPrior p < q" "seg_find (aSegment p) q = Some f" using post by simp_all
    have "seg_find segs g = (if g \<in> set fs then Some (of_nat (latest fs g)) else None)" if "q < g" for g
    proof -
      have "iPrior p < g" using q(1) that by (rule order.strict_trans)
      then show ?thesis using post fnd [of g] by simp
    qed
    then have "iterates fs \<lparr>iPrior = q, aSegment = segs\<rparr>" using post by (simp add: iterates_def)
    moreover have "q \<in> set fs" "f = of_nat (latest fs q)" using q(2) fnd [OF q(1)] by (simp_all split: if_splits)
    ultimately show ?thesis using assms(2) n False low q(1) by (auto simp: walIteratorNext_def)
  qed
qed

text \<open>A sorted segment finds the last of its entries.\<close>

lemma lasts_find:
  assumes "lasts c 0 (length es) xs" and "\<And>j. j < length es \<Longrightarrow> c ! j = es ! j"
  shows "map_of (map (\<lambda>k. (c ! k, z + of_nat k)) xs) g = (if g \<in> set es then Some (z + of_nat (latest es g - 1)) else None)"
proof (cases "g \<in> set es")
  case True
  then obtain i where i: "latest es g = Suc i" using latest_zero_iff [of es g] by (cases "latest es g") auto
  note l = latest_Suc [OF i]
  have "sorted_wrt (<) (map (\<lambda>k. c ! k) xs)" using assms(1) by (simp add: lasts_def sorted_wrt_map)
  then have d: "distinct (map fst (map (\<lambda>k. (c ! k, z + of_nat k)) xs))" using strict_sorted_iff [of "map (\<lambda>k. c ! k) xs"] by (simp add: comp_def)
  have "i \<in> set xs" using assms l by (simp add: lasts_def)
  then have "(g, z + of_nat i) \<in> set (map (\<lambda>k. (c ! k, z + of_nat k)) xs)"
    using imageI [of i "set xs" "\<lambda>k. (c ! k, z + of_nat k)"] l(1,2) assms(2) by simp
  then show ?thesis using True i map_of_is_SomeI [OF d] by simp
next
  case False
  have "c ! x \<noteq> g" if "x \<in> set xs" for x
  proof -
    have "x < length es" using that assms(1) by (simp add: lasts_def)
    then show ?thesis using assms(2) [of x] nth_mem [of x es] False by metis
  qed
  then have "g \<notin> fst ` set (map (\<lambda>k. (c ! k, z + of_nat k)) xs)" by (auto simp: image_image)
  then show ?thesis using False by (simp only: map_of_eq_None_iff [symmetric] if_False)
qed

lemma drop_blk: "drop (blk_zero a) fs = blk a fs @ drop (blk_zero (Suc a)) fs"
  by (simp add: blk_def blk_zero_Suc add.commute flip: drop_drop)

definition segment :: "nat \<Rightarrow> nat \<Rightarrow> u32 list \<Rightarrow> WalSegment" where
  "segment i n p = (let xs = walMergesort p n in \<lparr>iNext = 0, aIndex = xs, segPgno = p, nEntry = length xs, segZero = of_nat (blk_zero i) + 1\<rparr>)"

lemma segment_post:
  assumes "index_ok gs s" and "blk_zero i < n" and "n \<le> length gs"
  shows "seg_ok (segment i (length (blk i (take n gs))) (aPgno (regions s ! i)))" (is "seg_ok ?seg")
    and "map_of (entries (segment i (length (blk i (take n gs))) (aPgno (regions s ! i)))) g =
      (if g \<in> set (blk i (take n gs)) then Some (of_nat (blk_zero i + latest (blk i (take n gs)) g)) else None)"
proof -
  let ?es = "blk i (take n gs)" and ?p = "aPgno (regions s ! i)"
  have "?p = blk i gs @ replicate (blk_cap i - length (blk i gs)) 0"
    using index_okD(2) [OF assms(1)] assms(2,3) by (simp add: block_ok_def)
  moreover have "blk_zero i \<le> length (take n gs)" using assms(2,3) by simp
  ultimately have p: "?p ! j = ?es ! j" if "j < length ?es" for j using that assms(3) by (auto simp: blk_def nth_append)
  have len: "0 < length ?es" "length ?es \<le> 4096" using assms(2,3) blk_cap_bounds [of i] by (simp_all add: blk_def)
  note l = walMergesort_post [OF len, of ?p]
  have e: "entries ?seg = map (\<lambda>k. (?p ! k, of_nat (blk_zero i) + 1 + of_nat k)) (walMergesort ?p (length ?es))"
    by (simp add: entries_def segment_def Let_def)
  show "seg_ok ?seg" using l unfolding seg_ok_def e by (simp add: segment_def Let_def lasts_def sorted_wrt_map comp_def)
  have "of_nat (blk_zero i) + 1 + of_nat (latest ?es g - 1) = (of_nat (blk_zero i + latest ?es g) :: u32)" if "g \<in> set ?es"
    using that latest_zero_iff [of ?es g] by (cases "latest ?es g") simp_all
  moreover have "map_of (entries ?seg) g = (if g \<in> set ?es then Some (of_nat (blk_zero i) + 1 + of_nat (latest ?es g - 1)) else None)"
    unfolding e by (rule lasts_find [OF l p])
  ultimately show "map_of (entries ?seg) g = (if g \<in> set ?es then Some (of_nat (blk_zero i + latest ?es g)) else None)"
    by (cases "g \<in> set ?es") (simp_all only: if_True if_False)
qed

lemma init_segments_post:
  assumes "index_ok gs s" and n: "0 < n" "n \<le> length gs" "n + 4096 < 2 ^ 32" and "a \<le> page_of n + 1" and "iLast = of_nat n"
  shows "\<exists>rc segs s'. init_segments (page_of n + 1) [a..<page_of n + 1] iLast s = Some (rc, segs, s') \<and> map_step s s' \<and> shm_ok s' \<and>
    (answers s = [] \<longrightarrow> rc = SQLITE_OK) \<and>
    (rc = SQLITE_OK \<longrightarrow> (\<forall>seg \<in> set segs. seg_ok seg) \<and> (\<forall>g. seg_find segs g =
       (if g \<in> set (drop (blk_zero a) (take n gs)) then Some (of_nat (blk_zero a + latest (drop (blk_zero a) (take n gs)) g)) else None)))"
  using assms(1,5)
proof (induction "page_of n + 1 - a" arbitrary: a s)
  case 0
  then have "a = page_of n + 1" by simp
  then have "n \<le> blk_zero a" using page_of_bounds(2) [of "n - 1"] n(1) by (simp add: blk_zero_Suc)
  then show ?case using 0 map_step_refl by (simp add: index_ok_def)
next
  case (Suc d)
  let ?fs = "take n gs"
  have a: "a \<le> page_of n" using Suc.hyps(2) by simp
  then have za: "blk_zero a < n" using blk_zero_le_iff [of a "n - 1"] n(1) by simp
  have sp: "[a..<page_of n + 1] = a # [Suc a..<page_of n + 1]" using a by (intro upt_conv_Cons) simp
  have sh: "shm_ok s" "a < length (regions s)" using Suc.prems(1) index_okD(1) [OF Suc.prems(1), of a] za n(2) by (simp_all add: index_ok_def)
  obtain rc z s1 where w: "walHashGet a s = Some (rc, z, s1)" using walHashGet_post(2) [OF sh(1)] sh(2) by blast
  note wp = walHashGet_post(1) [OF sh(1) w]
  show ?case
  proof (cases "rc = SQLITE_OK")
    case False
    then show ?thesis using w wp unfolding sp by simp
  next
    case True
    have ok: "index_ok gs s1" using index_ok_map_step [OF Suc.prems(1)] wp by blast
    let ?n = "if a + 1 = page_of n + 1 then unat (iLast - z) else if a = 0 then HASHTABLE_NPAGE_ONE else HASHTABLE_NPAGE"
    have l: "?n = length (blk a ?fs)"
    proof (cases "a = page_of n")
      case True
      have "unat (iLast - z) = n - blk_zero a" using frame_minus_zero [of a n] za n(3) wp \<open>rc = SQLITE_OK\<close> assms(6) by simp
      moreover have "n \<le> blk_zero a + blk_cap a" using page_of_bounds(2) [of "n - 1"] n(1) True by simp
      ultimately show ?thesis using True n(2) by (simp add: blk_def)
    next
      case False
      then have "blk_zero (Suc a) \<le> n - 1" using blk_zero_le_iff [of "Suc a" "n - 1"] a n(1) by simp
      then have "blk_zero a + blk_cap a \<le> n" by (simp add: blk_zero_Suc)
      then have "length (blk a ?fs) = blk_cap a" using n(2) by (simp add: blk_def)
      then show ?thesis using False by (simp add: blk_cap_def)
    qed
    have "d = page_of n + 1 - Suc a" "Suc a \<le> page_of n + 1" using Suc.hyps(2) a by simp_all
    then obtain rc' segs s' where i: "init_segments (page_of n + 1) [Suc a..<page_of n + 1] iLast s1 = Some (rc', segs, s')" "map_step s1 s'" "shm_ok s'"
        "answers s1 = [] \<longrightarrow> rc' = SQLITE_OK" "rc' = SQLITE_OK \<longrightarrow> (\<forall>seg \<in> set segs. seg_ok seg) \<and> (\<forall>g. seg_find segs g =
          (if g \<in> set (drop (blk_zero (Suc a)) ?fs) then Some (of_nat (blk_zero (Suc a) + latest (drop (blk_zero (Suc a)) ?fs) g)) else None))"
      using Suc.hyps(1) [OF _ ok] by blast
    have z: "z = of_nat (blk_zero a)" using wp True by simp
    let ?seg = "segment a (length (blk a ?fs)) (aPgno (regions s1 ! a))"
    note sg = segment_post [OF ok za n(2)]
    have "init_segments (page_of n + 1) [a..<page_of n + 1] iLast s = Some (rc', ?seg # segs, s')"
      by (simp only: sp init_segments.simps w bind.bind_lunit prod.case True simp_thms if_False Let_def l i(1) segment_def z [symmetric])
    moreover have "map_step s s'" using map_step_trans wp i(2) by blast
    moreover have "answers s = [] \<longrightarrow> rc' = SQLITE_OK" using wp i(4) map_step_simps(17) [of s s1] by blast
    moreover have "seg_find (?seg # segs) g = (if g \<in> set (drop (blk_zero a) ?fs)
        then Some (of_nat (blk_zero a + latest (drop (blk_zero a) ?fs) g)) else None)" if "rc' = SQLITE_OK" for g
    proof (cases "g \<in> set (drop (blk_zero (Suc a)) ?fs)")
      case True
      then have "drop (blk_zero (Suc a)) ?fs \<noteq> []" by auto
      then have "length (blk a ?fs) = blk_cap a" using n(2) by (simp add: blk_def blk_zero_Suc)
      then show ?thesis using i(5) that True unfolding drop_blk [of a] by (simp add: latest_append blk_zero_Suc)
    next
      case False
      then show ?thesis using i(5) that sg(2) [of g] unfolding drop_blk [of a] by (simp add: latest_append)
    qed
    ultimately show ?thesis using i(3,5) sg(1) by auto
  qed
qed

text \<open>A new iterator stands before all pages of the log.\<close>

lemma walIteratorInit_post:
  assumes "index_ok gs s" and "unat (mxFrame (hdr (pWal s))) = n" and n: "0 < n" "n \<le> length gs" "n + 4096 < 2 ^ 32"
  shows "\<exists>rc p s'. walIteratorInit s = Some (rc, p, s') \<and> map_step s s' \<and> index_ok gs s' \<and> (answers s = [] \<longrightarrow> rc = SQLITE_OK) \<and>
    (rc = SQLITE_OK \<longrightarrow> iterates (take n gs) p \<and> iPrior p = 0)"
proof -
  let ?mx = "mxFrame (hdr (pWal s))"
  have mx: "?mx = of_nat n" unfolding assms(2) [symmetric] by simp
  have np: "walFramePage ?mx = page_of n" using walFramePage_nat [of n] n by (simp add: mx page_of_def)
  have ask: "\<exists>x t'. ask t = (x, t') \<and> map_step t t' \<and> index_ok gs t' \<and> (answers t = [] \<longrightarrow> x = Success)" if "index_ok gs t" for t
    using that map_step_ask [of t] by (cases rule: ask_cases [of t]) (auto simp: index_ok_def shm_ok_def mapped_def)
  obtain x s1 where 1: "ask s = (x, s1)" "map_step s s1" "index_ok gs s1" "answers s = [] \<longrightarrow> x = Success" using ask [OF assms(1)] by blast
  obtain y s2 where 2: "ask s1 = (y, s2)" "map_step s1 s2" "index_ok gs s2" "answers s1 = [] \<longrightarrow> y = Success" using ask [OF 1(3)] by blast
  obtain rc segs s3 where 3: "init_segments (page_of n + 1) [0..<page_of n + 1] ?mx s2 = Some (rc, segs, s3)" "map_step s2 s3" "shm_ok s3"
      "answers s2 = [] \<longrightarrow> rc = SQLITE_OK" "rc = SQLITE_OK \<longrightarrow> (\<forall>seg \<in> set segs. seg_ok seg) \<and> (\<forall>g. seg_find segs g =
        (if g \<in> set (drop (blk_zero 0) (take n gs)) then Some (of_nat (blk_zero 0 + latest (drop (blk_zero 0) (take n gs)) g)) else None))"
    using init_segments_post [OF 2(3) n, of 0 ?mx] mx by auto
  have i: "map_step s s2" "map_step s s3" "index_ok gs s3" using 1(2) 2(2) 3(2) map_step_trans index_ok_map_step [OF 2(3) 3(2,3)] by blast+
  have z: "blk_zero 0 = 0" by (simp add: blk_zero_def)
  show ?thesis
  proof (cases "x = Success \<and> y = Success")
    case True
    have "walIteratorInit s = Some (rc, \<lparr>iPrior = 0, aSegment = segs\<rparr>, s3)"
      using 1(1) 2(1) 3(1) True by (simp only: walIteratorInit_def Let_def np prod.case answer.case bind.bind_lunit)
    moreover have "answers s = [] \<longrightarrow> rc = SQLITE_OK" using map_step_simps(17) [OF i(1)] 3(4) by blast
    moreover have "rc = SQLITE_OK \<longrightarrow> iterates (take n gs) \<lparr>iPrior = 0, aSegment = segs\<rparr>" using 3(5) unfolding z by (simp add: iterates_def)
    ultimately show ?thesis using i by auto
  next
    case False
    then consider a b where "x = Failure a b" | a b where "x = Success" "y = Failure a b" by (cases x; cases y) auto
    then have "\<exists>s'. (s' = s1 \<or> s' = s2) \<and> walIteratorInit s = Some (SQLITE_NOMEM, \<lparr>iPrior = 0, aSegment = []\<rparr>, s')"
      by cases (use 1(1) 2(1) in \<open>simp_all add: walIteratorInit_def Let_def\<close>)
    moreover have "answers s \<noteq> []" using False 1(4) 2(4) map_step_simps(17) [OF 1(2)] by blast
    ultimately show ?thesis using 1(2,3) 2(3) i(1) by auto
  qed
qed

end
