(* ===== verification/WalBackfill.thy ===== *)
theory WalBackfill
  imports WalIterate
begin

text \<open>
  What a checkpoint does to the database file. A file is seen as its bytes, those past the end being zero; the pages that a checkpoint
  copies are those whose last frame is behind the ones that are copied already, and not beyond the last safe one.
\<close>

section \<open>Pages of the database file\<close>

definition byte :: "u8 list \<Rightarrow> nat \<Rightarrow> u8" where
  "byte f i = (if i < length f then f ! i else 0)"

definition span :: "nat \<Rightarrow> u32 \<Rightarrow> nat set" where
  "span sz g = {(unat g - 1) * sz..<unat g * sz}"

definition db_page :: "nat \<Rightarrow> u8 list \<Rightarrow> u32 \<Rightarrow> u8 list" where
  "db_page sz f g = map (byte f) [(unat g - 1) * sz..<unat g * sz]"

lemma db_page_cong: "(\<And>i. i \<in> span sz g \<Longrightarrow> byte f' i = byte f i) \<Longrightarrow> db_page sz f' g = db_page sz f g"
  by (simp add: db_page_def span_def)

lemma span_disjoint:
  assumes "i \<in> span sz g" and "i \<in> span sz h" and "0 < g" and "0 < h"
  shows "g = h"
proof -
  have "unat g \<le> unat h" if "i \<in> span sz g" "i \<in> span sz h" for g h :: u32
  proof (rule ccontr)
    assume "\<not> unat g \<le> unat h"
    then have "unat h * sz \<le> (unat g - 1) * sz" by (intro mult_le_mono1) simp
    then show False using that unfolding span_def atLeastLessThan_iff by linarith
  qed
  then have "unat g = unat h" using assms(1,2) by (intro le_antisym)
  then show ?thesis by (simp add: word_unat_eq_iff)
qed

lemma byte_write_at:
  "byte (write_at off bs f) i = (if off \<le> i \<and> i < off + length bs then bs ! (i - off) else byte f i)"
proof (cases "bs = []")
  case False
  have l: "length (take off (f @ replicate (off - length f) 0)) = off" by simp
  consider "i < off" | "off \<le> i" "i < off + length bs" | "off + length bs \<le> i" by linarith
  then show ?thesis
  proof cases
    case 1
    then have "\<not> i < length f \<Longrightarrow> i - length f < off - length f" by simp
    then show ?thesis using 1 False by (auto simp: byte_def write_at_def nth_append)
  next
    case 2
    then have "i < length (write_at off bs f)" using False by (simp add: write_at_def)
    moreover have "i - off < length bs" using 2 by linarith
    then have "write_at off bs f ! i = bs ! (i - off)" using 2 False l by (simp only: write_at_def if_False nth_append) simp
    ultimately show ?thesis using 2 by (simp add: byte_def)
  next
    case 3
    then show ?thesis using False l by (auto simp: byte_def write_at_def nth_append add.commute)
  qed
qed (auto simp: write_at_def)

lemma byte_take: "i < n \<Longrightarrow> byte (take n f) i = byte f i"
  by (simp add: byte_def)

lemma db_page_write:
  assumes "0 < g" and "length bs = sz"
  shows "db_page sz (write_at (unat (g - 1) * sz) bs f) g = bs"
    and "i \<notin> span sz g \<Longrightarrow> byte (write_at (unat (g - 1) * sz) (take n bs) f) i = byte f i"
proof -
  have g: "unat (g - 1) = unat g - 1" "0 < unat g" using assms(1) by (simp_all add: unat_minus_one unat_gt_0)
  then have e: "unat g * sz = (unat g - 1) * sz + sz" by (cases "unat g") simp_all
  show "db_page sz (write_at (unat (g - 1) * sz) bs f) g = bs"
    using assms(2) by (intro nth_equalityI) (simp_all add: db_page_def byte_write_at g e del: upt_Suc)
  show "byte (write_at (unat (g - 1) * sz) (take n bs) f) i = byte f i" if "i \<notin> span sz g"
    using that assms(2) by (auto simp: byte_write_at span_def g e)
qed

lemma db_write_post:
  assumes "0 < g" and "length bs = sz" and "db_write (unat (g - 1) * sz) bs s = (rc, s')"
  shows "\<exists>a f. s' = s\<lparr>answers := a, dbFile := f\<rparr> \<and> (answers s = [] \<longrightarrow> a = [] \<and> rc = SQLITE_OK) \<and>
    (\<forall>i. i \<notin> span sz g \<longrightarrow> byte f i = byte (dbFile s) i) \<and> (rc = SQLITE_OK \<longrightarrow> db_page sz f g = bs)"
proof (cases rule: ask_cases [of s])
  case (success s1)
  have "byte (write_at (unat (g - 1) * sz) bs (dbFile s)) i = byte (dbFile s) i" if "i \<notin> span sz g" for i
    using db_page_write(2) [OF assms(1,2) that, of "length bs"] by simp
  moreover have "s' = s\<lparr>answers := tl (answers s), dbFile := write_at (unat (g - 1) * sz) bs (dbFile s)\<rparr>" "rc = SQLITE_OK"
    using assms(3) success by (auto simp: db_write_def)
  ultimately show ?thesis using db_page_write(1) [OF assms(1,2)] by (intro exI conjI) auto
next
  case (failure e n s1)
  have "s' = s\<lparr>answers := tl (answers s), dbFile := write_at (unat (g - 1) * sz) (take n bs) (dbFile s)\<rparr>" "rc \<noteq> SQLITE_OK"
    using assms(3) failure by (auto simp: db_write_def)
  then show ?thesis using db_page_write(2) [OF assms(1,2)] failure(3) by (intro exI conjI) auto
qed

section \<open>The pages that are copied\<close>

definition due :: "u32 list \<Rightarrow> u32 \<Rightarrow> u32 \<Rightarrow> u32 \<Rightarrow> u32 \<Rightarrow> u32 set" where
  "due fs lo b m x = {g \<in> set fs. lo < g \<and> g < 0xFFFFFFFF \<and> unat b < latest fs g \<and> latest fs g \<le> unat m \<and> g \<le> x}"

definition copied :: "nat \<Rightarrow> u8 list list \<Rightarrow> u32 set \<Rightarrow> int \<Rightarrow> walst \<Rightarrow> walst \<Rightarrow> bool" where
  "copied sz frs D rc s s' \<longleftrightarrow> (\<exists>a f. s' = s\<lparr>answers := a, dbFile := f\<rparr> \<and> (answers s = [] \<longrightarrow> a = [] \<and> rc = SQLITE_OK) \<and>
     (\<forall>i. (\<forall>g \<in> D. i \<notin> span sz g) \<longrightarrow> byte f i = byte (dbFile s) i) \<and>
     (rc = SQLITE_OK \<longrightarrow> (\<forall>g \<in> D. Some (db_page sz f g) = overlay frs g)))"

lemma copiedI:
  assumes "s' = s\<lparr>answers := a, dbFile := f\<rparr>" and "answers s = [] \<longrightarrow> a = [] \<and> rc = SQLITE_OK"
    and "\<And>i. \<forall>g \<in> D. i \<notin> span sz g \<Longrightarrow> byte f i = byte (dbFile s) i"
    and "\<And>g. rc = SQLITE_OK \<Longrightarrow> g \<in> D \<Longrightarrow> Some (db_page sz f g) = overlay frs g"
  shows "copied sz frs D rc s s'"
  unfolding copied_def using assms by (intro exI [of _ a] exI [of _ f]) simp

lemma os_read_post:
  assumes "os_read f n off s = (rc, buf, s')" and "off + n \<le> length f"
  shows "s' = s\<lparr>answers := tl (answers s)\<rparr> \<and> (answers s = [] \<longrightarrow> rc = SQLITE_OK) \<and> (rc = SQLITE_OK \<longrightarrow> buf = take n (drop off f))"
  using assms by (cases rule: ask_cases [of s]) (auto simp: os_read_def)

lemma copy_pages_post:
  assumes "iterates (map fpgno frs) p" and "log_header H w0" and "chain w0 frs" and "walFile s = H @ concat frs @ rest"
    and "length frs < 2 ^ 32" and "sz = szPage w0"
  shows "copied (unat sz) frs (due (map fpgno frs) (iPrior p) b m x) (fst (copy_pages sz b m x p s)) s (snd (copy_pages sz b m x p s))"
  using assms
proof (induction sz b m x p s rule: copy_pages.induct)
  case (1 sz b m x p s)
  let ?fs = "map fpgno frs"
  obtain r p' where n: "walIteratorNext p = (r, p')" by (cases "walIteratorNext p")
  note np = walIteratorNext_post [OF "1.prems"(1) n]
  show ?case
  proof (cases r)
    case None
    then have "due ?fs (iPrior p) b m x = {}" using np by (auto simp: due_def)
    moreover have "copy_pages sz b m x p s = (SQLITE_OK, s)" by (subst copy_pages.simps) (simp add: n None)
    ultimately show ?thesis by (intro copiedI [where a = "answers s" and f = "dbFile s"]) simp_all
  next
    case (Some q)
    obtain pg fr where q: "q = (pg, fr)" by (cases q)
    have P: "iterates ?fs p'" "iPrior p' = pg" "iPrior p < pg" "pg \<in> set ?fs" "fr = of_nat (latest ?fs pg)"
        "\<And>g. g \<in> set ?fs \<Longrightarrow> iPrior p < g \<Longrightarrow> pg \<le> g" using np Some q by auto
    let ?k = "latest ?fs pg" and ?skip = "fr \<le> b \<or> fr > m \<or> pg > x"
    have k: "0 < ?k" "?k \<le> length frs" using P(4) latest_zero_iff [of ?fs pg] latest_le [of ?fs pg] by auto
    have fr: "unat fr = ?k" using k(2) "1.prems"(5) unfolding P(5) by (simp add: unsigned_of_nat take_bit_nat_eq_self)
    have top: "pg \<noteq> 0xFFFFFFFF" using n Some q by (auto simp: walIteratorNext_def split: prod.splits if_splits)
    moreover have "(- 1 :: u32) = 0xFFFFFFFF" by simp
    ultimately have pg: "pg < 0xFFFFFFFF" using word_order.not_eq_extremum [of pg] by metis
    have D: "due ?fs (iPrior p) b m x = (if ?skip then {} else {pg}) \<union> due ?fs pg b m x"
    proof -
      have lo: "iPrior p < g \<longleftrightarrow> g = pg \<or> pg < g" if "g \<in> set ?fs" for g using P(6) [OF that] P(3) by auto
      have sk: "?skip \<longleftrightarrow> \<not> (unat b < ?k \<and> ?k \<le> unat m \<and> pg \<le> x)"
        unfolding fr [symmetric] by (simp add: word_le_nat_alt word_less_nat_alt not_le not_less)
      have "g \<in> due ?fs (iPrior p) b m x \<longleftrightarrow> g \<in> (if ?skip then {} else {pg}) \<union> due ?fs pg b m x" for g
      proof (cases "g = pg")
        case True
        then show ?thesis using P(3,4) pg sk by (simp add: due_def)
      next
        case False
        then show ?thesis using lo [of g] by (auto simp: due_def)
      qed
      then show ?thesis by blast
    qed
    show ?thesis
    proof (cases ?skip)
      case True
      have e: "copy_pages sz b m x p s = copy_pages sz b m x p' s" by (subst copy_pages.simps) (simp add: n Some q True)
      show ?thesis unfolding e D using "1.IH"(1) [OF n [symmetric] Some q [symmetric] True P(1)] "1.prems" P(2) True by simp
    next
      case False
      let ?off = "walFrameOffset fr sz + WAL_FRAME_HDRSIZE" and ?d = "drop 24 (frs ! (?k - 1))" and ?D = "due ?fs (iPrior p) b m x"
      have sz: "unat sz = page_bytes w0" using "1.prems"(6) by (simp add: page_bytes_def)
      have ov: "overlay frs pg = Some ?d" using k(1) by (cases ?k) (simp_all add: overlay_latest)
      have ld: "length ?d = unat sz" using chain_lengths [OF "1.prems"(3)] k sz by simp
      have "unat (fr - 1) = ?k - 1" using k(1) fr by (simp add: unat_sub word_le_nat_alt)
      then have off: "?off = WAL_HDRSIZE + (?k - 1) * (page_bytes w0 + 24) + 24" by (simp add: walFrameOffset_def WAL_FRAME_HDRSIZE_def sz)
      have i: "?k - 1 < length frs" using k by simp
      note fb = frame_bytes [OF "1.prems"(2,3) i order.refl, of rest]
      obtain rc buf s1 where rd: "os_read (walFile s) (unat sz) ?off s = (rc, buf, s1)" by (metis prod_cases3)
      have s1: "s1 = s\<lparr>answers := tl (answers s)\<rparr>" "answers s = [] \<longrightarrow> rc = SQLITE_OK" "rc = SQLITE_OK \<longrightarrow> buf = ?d"
      proof -
        have "?off + unat sz \<le> length (walFile s)" using fb(2) unfolding "1.prems"(4) off sz .
        moreover have "take (unat sz) (drop ?off (walFile s)) = ?d" using fb(1) ld unfolding "1.prems"(4) off sz by simp
        ultimately show "s1 = s\<lparr>answers := tl (answers s)\<rparr>" "answers s = [] \<longrightarrow> rc = SQLITE_OK" "rc = SQLITE_OK \<longrightarrow> buf = ?d"
          using os_read_post [OF rd] by simp_all
      qed
      show ?thesis
      proof (cases "rc = SQLITE_OK")
        case rc: False
        then have "copy_pages sz b m x p s = (rc, s1)" by (subst copy_pages.simps) (simp add: n Some q False rd)
        moreover have "s1 = s\<lparr>answers := tl (answers s), dbFile := dbFile s\<rparr>" by (simp add: s1(1))
        ultimately show ?thesis using rc s1(2) by (intro copiedI [where a = "tl (answers s)" and f = "dbFile s"]) auto
      next
        case rc: True
        obtain rc' s2 where wr: "db_write (unat (pg - 1) * unat sz) buf s1 = (rc', s2)" by (metis surj_pair)
        have pos: "0 < pg" using word_zero_le [of "iPrior p"] P(3) by (rule order.strict_trans1)
        have "\<exists>a f. s2 = s1\<lparr>answers := a, dbFile := f\<rparr> \<and> (answers s1 = [] \<longrightarrow> a = [] \<and> rc' = SQLITE_OK) \<and>
            (\<forall>i. i \<notin> span (unat sz) pg \<longrightarrow> byte f i = byte (dbFile s1) i) \<and> (rc' = SQLITE_OK \<longrightarrow> db_page (unat sz) f pg = ?d)"
          using db_write_post [OF pos ld] wr s1(3) rc by simp
        then obtain a f where t: "s2 = s1\<lparr>answers := a, dbFile := f\<rparr>" "answers s1 = [] \<longrightarrow> a = [] \<and> rc' = SQLITE_OK"
            "\<forall>i. i \<notin> span (unat sz) pg \<longrightarrow> byte f i = byte (dbFile s1) i" "rc' = SQLITE_OK \<longrightarrow> db_page (unat sz) f pg = ?d" by blast
        have s2: "s2 = s\<lparr>answers := a, dbFile := f\<rparr>" "answers s = [] \<longrightarrow> a = [] \<and> rc' = SQLITE_OK"
            "\<And>i. i \<notin> span (unat sz) pg \<Longrightarrow> byte f i = byte (dbFile s) i" "rc' = SQLITE_OK \<longrightarrow> db_page (unat sz) f pg = ?d"
          using t s1(1) by simp_all
        show ?thesis
        proof (cases "rc' = SQLITE_OK")
          case rc': False
          have "copy_pages sz b m x p s = (rc', s2)" by (subst copy_pages.simps) (simp add: n Some q False rd rc wr rc')
          then show ?thesis using rc' s2(1-3) False unfolding D by (intro copiedI [where a = a and f = f]) auto
        next
          case rc': True
          let ?r = "copy_pages sz b m x p' s2"
          have e: "copy_pages sz b m x p s = ?r" by (subst copy_pages.simps) (simp add: n Some q False rd rc wr rc')
          have "copied (unat sz) frs (due ?fs pg b m x) (fst ?r) s2 (snd ?r)"
            using "1.IH"(2) [OF n [symmetric] Some q [symmetric] False rd [symmetric] refl _ wr [symmetric] _ P(1)] "1.prems" P(2) s2(1) rc rc' by simp
          then obtain a' f' where c: "snd ?r = s2\<lparr>answers := a', dbFile := f'\<rparr>" "answers s2 = [] \<longrightarrow> a' = [] \<and> fst ?r = SQLITE_OK"
              "\<And>i. (\<forall>g \<in> due ?fs pg b m x. i \<notin> span (unat sz) g) \<Longrightarrow> byte f' i = byte f i"
              "fst ?r = SQLITE_OK \<longrightarrow> (\<forall>g \<in> due ?fs pg b m x. Some (db_page (unat sz) f' g) = overlay frs g)"
            unfolding copied_def using s2(1) by auto
          have "i \<notin> span (unat sz) g" if "i \<in> span (unat sz) pg" "g \<in> due ?fs pg b m x" for i g
          proof
            assume g: "i \<in> span (unat sz) g"
            have "pg < g" using that(2) by (simp add: due_def)
            then show False using span_disjoint [OF that(1) g pos] pos order.strict_trans [OF pos] by blast
          qed
          then have "db_page (unat sz) f' pg = ?d" using c(3) s2(4) rc' db_page_cong [of "unat sz" pg f' f] by metis
          note pv = this
          show ?thesis unfolding e
          proof (rule copiedI [where a = a' and f = f'])
            show "snd ?r = s\<lparr>answers := a', dbFile := f'\<rparr>" using c(1) s2(1) by simp
            show "answers s = [] \<longrightarrow> a' = [] \<and> fst ?r = SQLITE_OK" using c(2) s2(1,2) by simp
            show "byte f' i = byte (dbFile s) i" if "\<forall>g \<in> ?D. i \<notin> span (unat sz) g" for i
              using that c(3) [of i] s2(3) [of i] False unfolding D by simp
            show "Some (db_page (unat sz) f' g) = overlay frs g" if "fst ?r = SQLITE_OK" "g \<in> ?D" for g
              using that c(4) pv ov False unfolding D by auto
          qed
        qed
      qed
    qed
  qed
qed

section \<open>The last safe frame\<close>

text \<open>A lock call changes the locks of the connection and takes answers; the search for the last safe frame sets marks too.\<close>

lemma lock_step_trans:
  assumes "lock_step s s'" and "lock_step s' s''"
  shows "lock_step s s''"
proof -
  obtain l a where 1: "s' = s\<lparr>ownLocks := l, answers := a\<rparr>" "answers s = [] \<longrightarrow> a = []" using assms(1) unfolding lock_step_def by blast
  obtain k b where 2: "s'' = s'\<lparr>ownLocks := k, answers := b\<rparr>" "answers s' = [] \<longrightarrow> b = []" using assms(2) unfolding lock_step_def by blast
  show ?thesis using 1 2 by (intro lock_stepI [where l = k and a = b]) simp_all
qed

definition mark_step :: "walst \<Rightarrow> walst \<Rightarrow> bool" where
  "mark_step s s' \<longleftrightarrow> (\<exists>a l ms. s' = s\<lparr>answers := a, ownLocks := l, aReadMark := ms\<rparr> \<and> (answers s = [] \<longrightarrow> a = []) \<and> length ms = length (aReadMark s))"

lemma mark_stepI: "answers s = [] \<longrightarrow> a = [] \<Longrightarrow> length ms = length (aReadMark s) \<Longrightarrow> mark_step s (s\<lparr>answers := a, ownLocks := l, aReadMark := ms\<rparr>)"
  unfolding mark_step_def by blast

lemma lock_step_mark:
  assumes "lock_step s s'"
  shows "mark_step s s' \<and> aReadMark s' = aReadMark s"
proof -
  obtain l a where 1: "s' = s\<lparr>ownLocks := l, answers := a\<rparr>" "answers s = [] \<longrightarrow> a = []" using assms unfolding lock_step_def by blast
  then have "s' = s\<lparr>answers := a, ownLocks := l, aReadMark := aReadMark s\<rparr>" by simp
  then show ?thesis using mark_stepI [OF 1(2) refl, of l] by simp
qed

lemma mark_step_trans:
  assumes "mark_step s s'" and "mark_step s' s''"
  shows "mark_step s s''"
proof -
  obtain a l ms where 1: "s' = s\<lparr>answers := a, ownLocks := l, aReadMark := ms\<rparr>" "answers s = [] \<longrightarrow> a = []" "length ms = length (aReadMark s)"
    using assms(1) unfolding mark_step_def by blast
  obtain b k ns where 2: "s'' = s'\<lparr>answers := b, ownLocks := k, aReadMark := ns\<rparr>" "answers s' = [] \<longrightarrow> b = []" "length ns = length (aReadMark s')"
    using assms(2) unfolding mark_step_def by blast
  have "s'' = s\<lparr>answers := b, ownLocks := k, aReadMark := ns\<rparr>" unfolding 1(1) 2(1) by simp
  then show ?thesis using 1 2(2,3) mark_stepI [of s b ns k] by simp
qed

lemma mark_step_simps:
  assumes "mark_step s s'"
  shows "pWal s' = pWal s" "shmHdr0 s' = shmHdr0 s" "shmHdr1 s' = shmHdr1 s" "nBackfill s' = nBackfill s" "regions s' = regions s"
    "siblings s' = siblings s" "walFile s' = walFile s" "dbFile s' = dbFile s" "answers s = [] \<Longrightarrow> answers s' = []"
    "length (aReadMark s') = length (aReadMark s)"
  using assms unfolding mark_step_def by auto

lemma mark_step_set: "mark_step s (s\<lparr>aReadMark := (aReadMark s)[i := y]\<rparr>)"
  using mark_stepI [of s "answers s" "(aReadMark s)[i := y]" "ownLocks s"] by simp

text \<open>A lock that some other connection holds is not granted.\<close>

definition locked :: "nat \<Rightarrow> nat \<Rightarrow> walst \<Rightarrow> bool" where
  "locked i n s \<longleftrightarrow> exclusiveMode (pWal s) = WAL_NORMAL_MODE \<and> (\<exists>x \<in> set (siblings s). fst x AND lock_mask i n \<noteq> 0)"

lemma walLockExclusive_post:
  assumes "walLockExclusive i n s = (rc, s')"
  shows "lock_step s s' \<and> (locked i n s \<longrightarrow> rc = SQLITE_BUSY \<and> s' = s)"
  using assms unixShmLock_step [of s i n LOCK_EXCLUSIVE]
  by (auto simp: walLockExclusive_def unixShmLock_def locked_def lock_step_refl Let_def split: prod.splits if_splits)

lemma walBusyLock_post:
  assumes "walBusyLock xBusy i n s = (rc, xBusy', s')"
  shows "lock_step s s' \<and> (locked i n s \<longrightarrow> rc = SQLITE_BUSY)"
  using assms
proof (induction xBusy i n s rule: walBusyLock.induct)
  case (3 b bs i n s)
  obtain rc1 s1 where 1: "walLockExclusive i n s = (rc1, s1)" by (cases "walLockExclusive i n s")
  note p = walLockExclusive_post [OF 1]
  show ?case
  proof (cases "rc1 = SQLITE_BUSY \<and> b")
    case True
    then have "walBusyLock (Some bs) i n s1 = (rc, xBusy', s')" using 3(2) 1 by simp
    then have "lock_step s1 s' \<and> (locked i n s1 \<longrightarrow> rc = SQLITE_BUSY)" using 3(1) [OF 1 [symmetric]] True by simp
    then show ?thesis using p lock_step_trans by blast
  next
    case False
    then show ?thesis using 3(2) 1 p by (auto split: if_splits)
  qed
qed (auto dest: walLockExclusive_post split: prod.splits)

lemma locked_step: "mark_step s s' \<Longrightarrow> locked i n s' = locked i n s"
  by (simp add: locked_def mark_step_simps)

lemma safe_frame_post:
  assumes "safe_frame is mx rc xBusy s = (r, xBusy', s')" and "distinct is" and "rc \<in> {SQLITE_OK, SQLITE_BUSY}"
  shows "mark_step s s' \<and> (case r of
      Inl rc' \<Rightarrow> rc' \<notin> {SQLITE_OK, SQLITE_BUSY}
    | Inr (mx', rc') \<Rightarrow> rc' \<in> {SQLITE_OK, SQLITE_BUSY} \<and> mx' \<le> mx \<and> (\<forall>i \<in> set is. locked (WAL_READ_LOCK i) 1 s \<longrightarrow> mx' \<le> aReadMark s ! i))"
  using assms
proof (induction "is" mx rc xBusy s rule: safe_frame.induct)
  case (1 mx rc xBusy s)
  then show ?case using lock_step_mark [OF lock_step_refl] by auto
next
  case (2 i "is" mx rc xBusy s)
  let ?y = "aReadMark s ! i"
  obtain rc1 b1 s1 where 1: "walBusyLock xBusy (WAL_READ_LOCK i) 1 s = (rc1, b1, s1)" by (metis prod_cases3)
  note w = walBusyLock_post [OF 1]
  have m1: "mark_step s s1" "aReadMark s1 = aReadMark s" using w lock_step_mark by blast+
  have d: "distinct is" "i \<notin> set is" using 2(5) by simp_all
  consider (free) "mx \<le> ?y" | (got) "?y < mx" "rc1 = SQLITE_OK" | (busy) "?y < mx" "rc1 = SQLITE_BUSY" | (bad) "?y < mx" "rc1 \<notin> {SQLITE_OK, SQLITE_BUSY}"
    by fastforce
  then show ?case
  proof cases
    case free
    then have "\<not> ?y < mx" by simp
    then have "safe_frame is mx rc xBusy s = (r, xBusy', s')" using 2(4) by (simp add: Let_def)
    then show ?thesis using 2(3) [OF refl _ _ d(1) 2(6)] free by (auto simp: not_less split: sum.splits dest: order.trans)
  next
    case got
    let ?s2 = "walUnlockExclusive (WAL_READ_LOCK i) 1 (s1\<lparr>aReadMark := (aReadMark s1)[i := if i = 1 then mx else READMARK_NOT_USED]\<rparr>)"
    have e: "safe_frame is mx rc1 b1 ?s2 = (r, xBusy', s')" using 2(4) 1 got by (simp add: Let_def)
    have m2: "mark_step s ?s2" "aReadMark ?s2 = (aReadMark s1)[i := if i = 1 then mx else READMARK_NOT_USED]"
      using m1(1) mark_step_trans mark_step_set lock_step_mark [OF wal_lock_step(4)] by (blast, simp)
    have "mark_step ?s2 s' \<and> (case r of Inl rc' \<Rightarrow> rc' \<notin> {SQLITE_OK, SQLITE_BUSY} | Inr (mx', rc') \<Rightarrow> rc' \<in> {SQLITE_OK, SQLITE_BUSY} \<and> mx' \<le> mx \<and>
        (\<forall>i \<in> set is. locked (WAL_READ_LOCK i) 1 ?s2 \<longrightarrow> mx' \<le> aReadMark ?s2 ! i))"
      using 2(1) [OF refl got(1) 1 [symmetric] refl got(2) e d(1)] got(2) by simp
    moreover have "\<not> locked (WAL_READ_LOCK i) 1 s" using w got(2) by auto
    moreover have "aReadMark ?s2 ! j = aReadMark s ! j" if "j \<in> set is" for j
    proof -
      have "i \<noteq> j" using that d(2) by blast
      then show ?thesis unfolding m2(2) using m1(2) by simp
    qed
    moreover have "mark_step s s'" if "mark_step ?s2 s'" using m2(1) that by (rule mark_step_trans)
    ultimately show ?thesis using locked_step [OF m2(1)] by (auto split: sum.splits)
  next
    case busy
    have e: "safe_frame is ?y rc1 None s1 = (r, xBusy', s')" using 2(4) 1 busy by (simp add: Let_def)
    have "mark_step s1 s' \<and> (case r of Inl rc' \<Rightarrow> rc' \<notin> {SQLITE_OK, SQLITE_BUSY} | Inr (mx', rc') \<Rightarrow> rc' \<in> {SQLITE_OK, SQLITE_BUSY} \<and> mx' \<le> ?y \<and>
        (\<forall>i \<in> set is. locked (WAL_READ_LOCK i) 1 s1 \<longrightarrow> mx' \<le> aReadMark s1 ! i))"
      using 2(2) [OF refl busy(1) 1 [symmetric] refl _ _ e d(1)] busy(2) by simp
    moreover have "x \<le> mx" if "x \<le> ?y" for x using that busy(1) by (meson le_less_trans less_imp_le)
    ultimately show ?thesis using m1 mark_step_trans locked_step [OF m1(1)] by (auto split: sum.splits)
  next
    case bad
    then show ?thesis using 2(4) 1 m1(1) by (auto simp: Let_def split: if_splits)
  qed
qed

text \<open>No connection holds one of the locks of the readers; then every attempt succeeds, and a lock that is given up again leaves it so.\<close>

definition reader_mask :: u16 where
  "reader_mask = lock_mask (WAL_READ_LOCK 0) WAL_NREADER"

definition no_readers :: "walst \<Rightarrow> bool" where
  "no_readers s \<longleftrightarrow> (\<forall>x \<in> set (ownLocks s # siblings s). fst x AND reader_mask = 0 \<and> snd x AND reader_mask = 0)"

lemma reader_locks: "i < WAL_NREADER \<Longrightarrow> reader_mask AND lock_mask (WAL_READ_LOCK i) 1 = lock_mask (WAL_READ_LOCK i) 1"
    "reader_mask AND lock_mask (WAL_READ_LOCK 1) (WAL_NREADER - 1) = lock_mask (WAL_READ_LOCK 1) (WAL_NREADER - 1)"
proof -
  have "i \<in> {0, 1, 2, 3, 4}" if "i < WAL_NREADER" using that by (auto simp: WAL_NREADER_def SQLITE_SHM_NLOCK_def)
  then show "i < WAL_NREADER \<Longrightarrow> reader_mask AND lock_mask (WAL_READ_LOCK i) 1 = lock_mask (WAL_READ_LOCK i) 1"
    by (auto simp: reader_mask_def lock_mask_def WAL_READ_LOCK_def WAL_NREADER_def SQLITE_SHM_NLOCK_def push_bit_eq_mult)
  show "reader_mask AND lock_mask (WAL_READ_LOCK 1) (WAL_NREADER - 1) = lock_mask (WAL_READ_LOCK 1) (WAL_NREADER - 1)"
    by (simp add: reader_mask_def lock_mask_def WAL_READ_LOCK_def WAL_NREADER_def SQLITE_SHM_NLOCK_def push_bit_eq_mult)
qed

lemma lock_cycle:
  assumes "no_readers s" and "answers s = []" and m: "reader_mask AND lock_mask i n = lock_mask i n" and b: "walBusyLock xBusy i n s = (rc, xBusy', s1)"
  shows "rc = SQLITE_OK \<and> answers s1 = [] \<and> xBusy' = xBusy \<and>
    (\<forall>t. ownLocks t = ownLocks s1 \<and> siblings t = siblings s1 \<and> pWal t = pWal s1 \<and> answers t = [] \<longrightarrow>
      no_readers (walUnlockExclusive i n t) \<and> answers (walUnlockExclusive i n t) = [])"
proof -
  obtain sh ex where l: "ownLocks s = (sh, ex)" by (cases "ownLocks s")
  have z: "v AND lock_mask i n = 0" if "v AND reader_mask = 0" for v
  proof -
    have "v AND lock_mask i n = (v AND reader_mask) AND lock_mask i n" using m by (simp add: and.assoc)
    then show ?thesis using that by simp
  qed
  have "fst (walLockExclusive i n s) = SQLITE_OK" using assms(1) z by (intro lock_exclusive_free [OF assms(2)]) (simp add: no_readers_def)
  then obtain s2 where s2: "walLockExclusive i n s = (SQLITE_OK, s2)" by (cases "walLockExclusive i n s") auto
  then have 1: "rc = SQLITE_OK" "xBusy' = xBusy" "s1 = s2" using b by (cases "(xBusy, i, n, s)" rule: walBusyLock.cases; simp)+
  note st = lock_step_simps [OF wal_lock_step(2) [OF s2]]
  have own: "ownLocks s2 = (sh, if exclusiveMode (pWal s) = WAL_NORMAL_MODE then ex OR lock_mask i n else ex)"
    using s2 l assms(2) by (auto simp: walLockExclusive_def unixShmLock_def Let_def unixShmSystemLock_def ask_def split: if_splits)
  have "no_readers (walUnlockExclusive i n t) \<and> answers (walUnlockExclusive i n t) = []"
    if t: "ownLocks t = ownLocks s2" "siblings t = siblings s2" "pWal t = pWal s2" "answers t = []" for t
  proof -
    have "(v AND NOT w) AND reader_mask = 0" if "v AND reader_mask = 0" for v w :: u16
    proof -
      have "(v AND NOT w) AND reader_mask = (v AND reader_mask) AND NOT w" by (simp add: ac_simps)
      then show ?thesis using that by simp
    qed
    moreover have "(ex OR lock_mask i n) AND NOT (lock_mask i n) = ex AND NOT (lock_mask i n)" by (auto simp: bit_eq_iff bit_simps)
    ultimately show ?thesis using t st assms(1) l own
      by (auto simp: walUnlockExclusive_def unixShmLock_def Let_def unixShmSystemLock_def ask_def no_readers_def)
  qed
  then show ?thesis using 1 st(11) assms(2) by blast
qed

lemma safe_frame_idle:
  assumes "no_readers s" and "answers s = []" and "\<forall>i \<in> set is. i < WAL_NREADER" and "rc = SQLITE_OK"
  shows "\<exists>b s'. safe_frame is mx rc xBusy s = (Inr (mx, SQLITE_OK), b, s') \<and> no_readers s' \<and> answers s' = []"
  using assms
proof (induction "is" arbitrary: s xBusy rc)
  case (Cons i "is")
  have "\<forall>i \<in> set is. i < WAL_NREADER" and i: "i < WAL_NREADER" using Cons.prems(3) by simp_all
  note ih = Cons.IH [OF _ _ this(1) refl]
  show ?case
  proof (cases "mx > aReadMark s ! i")
    case False
    then show ?thesis using ih [OF Cons.prems(1,2)] Cons.prems(4) by (simp add: Let_def)
  next
    case True
    obtain rc1 b1 s1 where 1: "walBusyLock xBusy (WAL_READ_LOCK i) 1 s = (rc1, b1, s1)" by (metis prod_cases3)
    let ?t = "s1\<lparr>aReadMark := (aReadMark s1)[i := if i = 1 then mx else READMARK_NOT_USED]\<rparr>"
    have "rc1 = SQLITE_OK \<and> no_readers (walUnlockExclusive (WAL_READ_LOCK i) 1 ?t) \<and> answers (walUnlockExclusive (WAL_READ_LOCK i) 1 ?t) = []"
      using lock_cycle [OF Cons.prems(1,2) reader_locks(1) [OF i] 1] by simp
    then show ?thesis using ih [of "walUnlockExclusive (WAL_READ_LOCK i) 1 ?t" b1] True 1 by (simp add: Let_def)
  qed
qed simp

end
