(* ===== verification/WalCheckpoint.thy ===== *)
theory WalCheckpoint
  imports WalBackfill
begin

text \<open>
  What a checkpoint keeps for the readers, and what it brings about for the database file: whatever fails on the way, every connection that reads
  under a shared lock finds its pages as before.
\<close>

section \<open>The checkpoint\<close>

text \<open>What a connection that reads with mark \<open>r\<close> and the frames \<open>frs\<close> takes for page \<open>g\<close>; a reader with mark 0 ignores the log.\<close>

definition page_view :: "nat \<Rightarrow> nat \<Rightarrow> u8 list list \<Rightarrow> u8 list \<Rightarrow> u32 \<Rightarrow> u8 list" where
  "page_view r sz frs db g = (case if r = 0 then None else overlay frs g of Some d \<Rightarrow> d | None \<Rightarrow> db_page sz db g)"

text \<open>The pages of the database up to \<open>x\<close> whose last frame has been copied are in the database file.\<close>

definition backfilled_ok :: "nat \<Rightarrow> u8 list list \<Rightarrow> u32 \<Rightarrow> u32 \<Rightarrow> u8 list \<Rightarrow> bool" where
  "backfilled_ok sz frs b x db \<longleftrightarrow>
     (\<forall>g. 0 < g \<and> g \<le> x \<and> 0 < latest (map fpgno frs) g \<and> latest (map fpgno frs) g \<le> unat b \<longrightarrow> Some (db_page sz db g) = overlay frs g)"

text \<open>A state in which the checkpoint has copied: the pages that changed, and what holds of the count of frames.\<close>

definition filled :: "nat \<Rightarrow> u8 list list \<Rightarrow> u32 \<Rightarrow> u32 \<Rightarrow> u32 \<Rightarrow> walst \<Rightarrow> walst \<Rightarrow> bool" where
  "filled sz frs mx b x s s' \<longleftrightarrow>
     (\<forall>i. i < unat x * sz \<or> mx \<noteq> mxFrame (shmHdr0 s) \<longrightarrow> (\<forall>g \<in> due (map fpgno frs) 0 b mx x. i \<notin> span sz g) \<longrightarrow> byte (dbFile s') i = byte (dbFile s) i) \<and>
     (nBackfill s' = nBackfill s \<or>
      nBackfill s' = mx \<and> (\<forall>g \<in> due (map fpgno frs) 0 b mx x. Some (db_page sz (dbFile s') g) = overlay frs g))"

lemma os_plain_step: "\<exists>a. snd (os_plain s) = s\<lparr>answers := a\<rparr> \<and> (answers s = [] \<longrightarrow> a = [] \<and> fst (os_plain s) = SQLITE_OK)"
  by (cases rule: ask_cases [of s]) (auto simp: os_plain_def)

lemma sync_post: "\<exists>rc a. (if q then os_plain s else (SQLITE_OK, s)) = (rc, s\<lparr>answers := a\<rparr>) \<and> (answers s = [] \<longrightarrow> a = [] \<and> rc = SQLITE_OK)"
proof -
  obtain a where "snd (os_plain s) = s\<lparr>answers := a\<rparr>" "answers s = [] \<longrightarrow> a = [] \<and> fst (os_plain s) = SQLITE_OK" using os_plain_step by blast
  then have "os_plain s = (fst (os_plain s), s\<lparr>answers := a\<rparr>)" by (metis prod.collapse)
  then show ?thesis using \<open>answers s = [] \<longrightarrow> _\<close> by (cases q) (auto intro: exI [of _ "answers s"])
qed

lemma db_truncate_post: "\<exists>rc a f. db_truncate n s = (rc, s\<lparr>answers := a, dbFile := f\<rparr>) \<and> (answers s = [] \<longrightarrow> a = [] \<and> rc = SQLITE_OK) \<and>
    (f = dbFile s \<or> f = take n (dbFile s))"
proof -
  obtain rc a where o: "os_plain s = (rc, s\<lparr>answers := a\<rparr>)" "answers s = [] \<longrightarrow> a = [] \<and> rc = SQLITE_OK"
    using sync_post [of True s] unfolding if_True by blast
  let ?f = "if rc = SQLITE_OK then take n (dbFile s) else dbFile s"
  have "db_truncate n s = (rc, s\<lparr>answers := a, dbFile := ?f\<rparr>)" using o(1) by (simp add: db_truncate_def)
  then show ?thesis using o(2) by (intro exI [of _ rc] exI [of _ a] exI [of _ ?f]) simp
qed

text \<open>The end of \<open>backfill\<close>, after the pages have been copied.\<close>

lemma finish_post:
  fixes s :: walst
  assumes "(let (rc, s) = (if q then let (rc, s) = db_truncate n s in if rc = SQLITE_OK \<and> c then os_plain s else (rc, s) else (SQLITE_OK, s))
            in if rc = SQLITE_OK then (rc, s\<lparr>nBackfill := mx\<rparr>) else (rc, s)) = (rc, s')"
  shows "\<exists>a f b. s' = s\<lparr>answers := a, dbFile := f, nBackfill := b\<rparr> \<and> (answers s = [] \<longrightarrow> a = [] \<and> rc = SQLITE_OK \<and> b = mx) \<and>
    (b = nBackfill s \<or> b = mx) \<and> (f = dbFile s \<or> q \<and> f = take n (dbFile s))"
proof -
  obtain rc1 a1 f where 1: "db_truncate n s = (rc1, s\<lparr>answers := a1, dbFile := f\<rparr>)" "answers s = [] \<longrightarrow> a1 = [] \<and> rc1 = SQLITE_OK"
      "f = dbFile s \<or> f = take n (dbFile s)" using db_truncate_post by blast
  let ?s1 = "s\<lparr>answers := a1, dbFile := f\<rparr>"
  obtain rc2 a2 where t: "os_plain ?s1 = (rc2, ?s1\<lparr>answers := a2\<rparr>)" "answers ?s1 = [] \<longrightarrow> a2 = [] \<and> rc2 = SQLITE_OK"
    using sync_post [of True ?s1] unfolding if_True by blast
  have 2: "os_plain ?s1 = (rc2, s\<lparr>answers := a2, dbFile := f\<rparr>)" "a1 = [] \<longrightarrow> a2 = [] \<and> rc2 = SQLITE_OK" using t by simp_all
  let ?F = "if q then f else dbFile s" and ?A = "if q then if rc1 = SQLITE_OK \<and> c then a2 else a1 else answers s"
    and ?R = "if q then if rc1 = SQLITE_OK \<and> c then rc2 else rc1 else SQLITE_OK"
  have "s' = s\<lparr>answers := ?A, dbFile := ?F, nBackfill := if ?R = SQLITE_OK then mx else nBackfill s\<rparr> \<and> rc = ?R"
    using assms 1(1) 2(1) by (auto simp: Let_def split: if_splits)
  then show ?thesis using 1(2,3) 2(2)
    by (intro exI [of _ ?A] exI [of _ ?F] exI [of _ "if ?R = SQLITE_OK then mx else nBackfill s"]) auto
qed

definition same_conn :: "walst \<Rightarrow> walst \<Rightarrow> bool" where
  "same_conn s s' \<longleftrightarrow> pWal s' = pWal s \<and> walFile s' = walFile s \<and> siblings s' = siblings s \<and> regions s' = regions s \<and> shmHdr0 s' = shmHdr0 s \<and>
     shmHdr1 s' = shmHdr1 s \<and> (answers s = [] \<longrightarrow> answers s' = [])"

text \<open>The state \<open>s'\<close> comes from giving up the lock of the readers that ignore the log.\<close>

definition gave_up :: "walst \<Rightarrow> walst \<Rightarrow> bool" where
  "gave_up s s' \<longleftrightarrow> (\<exists>t. s' = walUnlockExclusive (WAL_READ_LOCK 0) 1 t \<and> ownLocks t = ownLocks s \<and> siblings t = siblings s \<and>
     pWal t = pWal s \<and> (answers s = [] \<longrightarrow> answers t = []))"

lemma filled_same: "dbFile s' = dbFile s \<Longrightarrow> nBackfill s' = nBackfill s \<Longrightarrow> filled sz frs mx b x s s'"
  by (simp add: filled_def)

lemma unlock_fields: "dbFile (walUnlockExclusive i n s) = dbFile s" "nBackfill (walUnlockExclusive i n s) = nBackfill s"
    "same_conn t s \<Longrightarrow> same_conn t (walUnlockExclusive i n s)"
  using mark_step_simps [of s "walUnlockExclusive i n s"] lock_step_mark [OF wal_lock_step(4) [of s i n]]
  by (simp_all add: same_conn_def)

lemma due_span_below:
  assumes "g \<in> due fs 0 b m x" and "i \<in> span sz g"
  shows "i < unat x * sz"
proof -
  have "unat g \<le> unat x" using assms(1) by (simp add: due_def word_le_nat_alt)
  then have "unat g * sz \<le> unat x * sz" by (rule mult_le_mono1)
  then show ?thesis using assms(2) unfolding span_def atLeastLessThan_iff by linarith
qed

lemma backfill_post:
  assumes it: "iterates (map fpgno frs) p" "iPrior p = 0" and "log_header H w0" and "chain w0 frs" and "walFile s = H @ concat frs @ rest"
    and "length frs < 2 ^ 32" and sz: "walPagesize (pWal s) = szPage w0" and x: "nPage (hdr (pWal s)) = x" and b: "backfill fl mx x p s = (rc, s')"
  shows "filled (unat (szPage w0)) frs mx (nBackfill s) x s s' \<and> (answers s = [] \<longrightarrow> rc = SQLITE_OK \<and> nBackfill s' = mx) \<and> same_conn s s' \<and>
    gave_up s s'"
proof -
  let ?sz = "unat (szPage w0)" and ?D = "due (map fpgno frs) 0 (nBackfill s) mx x" and ?u = "walUnlockExclusive (WAL_READ_LOCK 0) 1"
  obtain rc1 a1 where 1: "(if fl \<noteq> 0 then os_plain s else (SQLITE_OK, s)) = (rc1, s\<lparr>answers := a1\<rparr>)" "answers s = [] \<longrightarrow> a1 = [] \<and> rc1 = SQLITE_OK"
    using sync_post by blast
  let ?s1 = "s\<lparr>answers := a1\<rparr>"
  obtain rc2 a2 where 2: "(if rc1 = SQLITE_OK then os_plain ?s1 else (rc1, ?s1)) = (rc2, s\<lparr>answers := a2\<rparr>)" "answers s = [] \<longrightarrow> a2 = [] \<and> rc2 = SQLITE_OK"
  proof (cases "rc1 = SQLITE_OK")
    case True
    obtain r a where o: "os_plain ?s1 = (r, ?s1\<lparr>answers := a\<rparr>)" "answers ?s1 = [] \<longrightarrow> a = [] \<and> r = SQLITE_OK"
      using sync_post [of True ?s1] unfolding if_True by blast
    show ?thesis using o 1(2) True by (intro that [of r a]) simp_all
  qed (use 1(2) that [of rc1 a1] in simp)
  let ?s2 = "s\<lparr>answers := a2\<rparr>"
  show ?thesis
  proof (cases "rc2 = SQLITE_OK")
    case False
    then have "backfill fl mx x p s = (rc2, ?u ?s2)" using 1(1) 2(1) by (simp add: backfill_def Let_def)
    moreover have "same_conn s ?s2" using 2(2) by (simp add: same_conn_def)
    moreover have "gave_up s (?u ?s2)" unfolding gave_up_def using 2(2) by (intro exI [of _ ?s2]) simp
    ultimately show ?thesis using b 2(2) False by (auto intro: filled_same simp: unlock_fields)
  next
    case True
    obtain rc3 s3 where 3: "copy_pages (szPage w0) (nBackfill s) mx x p ?s2 = (rc3, s3)" by (metis surj_pair)
    have w2: "walFile ?s2 = H @ concat frs @ rest" using assms(5) by simp
    have "copied ?sz frs ?D rc3 ?s2 s3"
      using copy_pages_post [OF it(1) assms(3,4) w2 assms(6) refl, of "nBackfill s" mx x] it(2) 3 by simp
    then obtain a3 f3 where t: "s3 = ?s2\<lparr>answers := a3, dbFile := f3\<rparr>" "answers ?s2 = [] \<longrightarrow> a3 = [] \<and> rc3 = SQLITE_OK"
        "\<forall>i. (\<forall>g \<in> ?D. i \<notin> span ?sz g) \<longrightarrow> byte f3 i = byte (dbFile ?s2) i" "rc3 = SQLITE_OK \<longrightarrow> (\<forall>g \<in> ?D. Some (db_page ?sz f3 g) = overlay frs g)"
      unfolding copied_def by blast
    have s3: "s3 = s\<lparr>answers := a3, dbFile := f3\<rparr>" "answers s = [] \<longrightarrow> a3 = [] \<and> rc3 = SQLITE_OK"
        "\<And>i. \<forall>g \<in> ?D. i \<notin> span ?sz g \<Longrightarrow> byte f3 i = byte (dbFile s) i" using t 2(2) by simp_all
    show ?thesis
    proof (cases "rc3 = SQLITE_OK")
      case False
      then have "backfill fl mx x p s = (rc3, ?u s3)" using 1(1) 2(1) 3 True sz by (simp add: backfill_def Let_def)
      moreover have "same_conn s s3" using s3(1,2) by (simp add: same_conn_def)
      moreover have "gave_up s (?u s3)" unfolding gave_up_def using s3(1,2) by (intro exI [of _ s3]) simp
      ultimately show ?thesis using b s3 False by (auto simp: filled_def unlock_fields)
    next
      case ok: True
      let ?q = "mx = mxFrame (shmHdr0 s)" and ?n = "unat x * ?sz"
      obtain rc4 s4 where f: "(let (rc, s) = (if ?q then let (rc, s) = db_truncate ?n s3 in if rc = SQLITE_OK \<and> fl \<noteq> 0 then os_plain s else (rc, s) else (SQLITE_OK, s3))
            in if rc = SQLITE_OK then (rc, s\<lparr>nBackfill := mx\<rparr>) else (rc, s)) = (rc4, s4)" by (rule prod.exhaust)
      obtain a4 f4 b4 where t: "s4 = s3\<lparr>answers := a4, dbFile := f4, nBackfill := b4\<rparr>" "answers s3 = [] \<longrightarrow> a4 = [] \<and> rc4 = SQLITE_OK \<and> b4 = mx"
          "b4 = nBackfill s3 \<or> b4 = mx" "f4 = dbFile s3 \<or> ?q \<and> f4 = take ?n (dbFile s3)" using finish_post [OF f] by blast
      have s4: "s4 = s\<lparr>answers := a4, dbFile := f4, nBackfill := b4\<rparr>" "answers s = [] \<longrightarrow> a4 = [] \<and> rc4 = SQLITE_OK \<and> b4 = mx"
          "b4 = nBackfill s \<or> b4 = mx" "f4 = f3 \<or> ?q \<and> f4 = take ?n f3" using t s3 by simp_all
      have "backfill fl mx x p s = (rc4, ?u s4)"
      proof -
        have k: "shmHdr0 s3 = shmHdr0 s" "nPage (hdr (pWal s3)) = x" using s3(1) x by simp_all
        show ?thesis by (simp only: backfill_def Let_def prod.case 1(1) 2(1) 3 True ok sz k if_True f [unfolded Let_def] refl)
      qed
      moreover have "same_conn s s4" using s4(1,2) by (simp add: same_conn_def)
      moreover have "gave_up s (?u s4)" unfolding gave_up_def using s4(1,2) by (intro exI [of _ s4]) simp
      moreover have "filled ?sz frs mx (nBackfill s) x s s4"
      proof -
        have eq: "byte f4 i = byte f3 i" if "i < ?n \<or> \<not> ?q" for i using s4(4) that byte_take [of i ?n f3] by auto
        have "db_page ?sz f4 g = db_page ?sz f3 g" if "g \<in> ?D" for g
          by (intro db_page_cong eq disjI1) (rule due_span_below [OF that])
        then show ?thesis using eq s3(3) t(3) s4(1,3) ok \<open>rc3 = SQLITE_OK \<longrightarrow> _\<close> by (auto simp: filled_def)
      qed
      ultimately show ?thesis using b s4(1,2) by (auto simp: filled_def unlock_fields)
    qed
  qed
qed

text \<open>A log with the frames \<open>frs\<close> that a connection has the header of.\<close>

lemma snapshotE:
  assumes "snapshot H w0 frs s"
  obtains rest gs where "log_header H w0" "chain w0 frs" "walFile s = H @ concat frs @ rest" "index_ok gs s" "length frs \<le> length gs"
    "take (length frs) gs = map fpgno frs" "mxFrame (hdr (pWal s)) = of_nat (length frs)" "walPagesize (pWal s) = szPage w0"
proof -
  obtain rest gs where h: "log_header H w0" "chain w0 frs" "walFile s = H @ concat frs @ rest" "index_ok gs s" "length frs \<le> length gs"
      "take (length frs) gs = map fpgno frs" "mxFrame (hdr (pWal s)) = of_nat (length frs)" "szPageHdr (hdr (pWal s)) = pack_szPage (szPage w0)"
    using assms unfolding snapshot_def indexed_def by blast
  have "valid_size (szPage w0)" using h(1) by (simp add: log_header_def)
  then have "walPagesize (pWal s) = szPage w0" using h(8) by (intro walPagesize_pack valid_size_cases) simp_all
  then show ?thesis using that h by blast
qed

lemma walPagesize_cong: "szPageHdr (hdr w) = szPageHdr (hdr v) \<Longrightarrow> walPagesize w = walPagesize v"
  by (simp add: walPagesize_def)

lemma filled_step:
  assumes "filled sz frs mx b x t s'" and "dbFile t = dbFile s" and "nBackfill t = nBackfill s" and "shmHdr0 t = shmHdr0 s"
  shows "filled sz frs mx b x s s'"
  using assms by (simp add: filled_def)

text \<open>The last part of \<open>walCheckpoint\<close>, which only takes and gives up locks.\<close>

lemma restart_step: "(case walBusyLock xBusy i n s of (rc, xBusy, s) \<Rightarrow> if rc = SQLITE_OK then (rc, walUnlockExclusive i n s) else (rc, s)) = (rc', s') \<Longrightarrow> lock_step s s'"
  using walBusyLock_post [of xBusy i n s] lock_step_trans wal_lock_step(4) by (fastforce split: prod.splits if_splits)

lemma copy_safe_post:
  assumes it: "iterates (map fpgno frs) p" "iPrior p = 0" and "log_header H w0" and "chain w0 frs" and "walFile s = H @ concat frs @ rest"
    and "length frs < 2 ^ 32" and "walPagesize (pWal s) = szPage w0" and "nPage (hdr (pWal s)) = x"
    and e: "(if nBackfill s < mx then
               let (rc, xBusy, s) = walBusyLock xBusy (WAL_READ_LOCK 0) 1 s
               in if rc = SQLITE_OK then let (rc, s) = backfill fl mx x p s in (rc, xBusy, s) else (rc, xBusy, s)
             else (rc, xBusy, s)) = (rc', b', s')"
  shows "filled (unat (szPage w0)) frs mx (nBackfill s) x s s' \<and> (locked (WAL_READ_LOCK 0) 1 s \<longrightarrow> dbFile s' = dbFile s) \<and> same_conn s s' \<and>
    (no_readers s \<and> answers s = [] \<and> rc = SQLITE_OK \<longrightarrow> rc' = SQLITE_OK \<and> mx \<le> nBackfill s' \<and> no_readers s')"
proof (cases "nBackfill s < mx")
  case False
  then have "s' = s" "rc' = rc" using e by simp_all
  then show ?thesis using filled_same [of s s] False by (simp add: same_conn_def not_less)
next
  case True
  obtain rc1 b1 s1 where 1: "walBusyLock xBusy (WAL_READ_LOCK 0) 1 s = (rc1, b1, s1)" by (metis prod_cases3)
  note w = walBusyLock_post [OF 1]
  then have m: "mark_step s s1" using lock_step_mark by blast
  note idle = lock_cycle [OF _ _ reader_locks(1) 1]
  have c: "same_conn s s1" using mark_step_simps [OF m] by (simp add: same_conn_def)
  show ?thesis
  proof (cases "rc1 = SQLITE_OK")
    case False
    then have "s' = s1" using e True 1 by simp
    then show ?thesis using c mark_step_simps [OF m] idle False by (auto intro: filled_same simp: WAL_NREADER_def SQLITE_SHM_NLOCK_def)
  next
    case ok: True
    have "backfill fl mx x p s1 = (rc', s')" using e True 1 ok by (auto split: prod.splits)
    then have bp: "filled (unat (szPage w0)) frs mx (nBackfill s1) x s1 s' \<and> same_conn s1 s'" "answers s1 = [] \<longrightarrow> rc' = SQLITE_OK \<and> nBackfill s' = mx"
        "gave_up s1 s'"
      using backfill_post [OF it assms(3,4), of s1 rest x fl mx rc' s'] assms(5-8) mark_step_simps [OF m] by simp_all
    have "no_readers s'" if "no_readers s" "answers s = []"
      using idle [OF that] bp(3) unfolding gave_up_def by (auto simp: WAL_NREADER_def SQLITE_SHM_NLOCK_def)
    moreover note bp(1)
    moreover have "\<not> locked (WAL_READ_LOCK 0) 1 s" using w ok by auto
    moreover have "same_conn s s'" if "same_conn s1 s'" using that c by (auto simp: same_conn_def)
    ultimately show ?thesis using mark_step_simps [OF m] filled_step [of "unat (szPage w0)" frs mx "nBackfill s1" x s1 s' s] bp(2) by simp
  qed
qed

lemma walCheckpoint_post:
  assumes sn: "snapshot H w0 frs s" and n: "length frs + 4096 < 2 ^ 32" and mp: "mapped s 0"
  shows "\<exists>rc s' mx. walCheckpoint eMode xBusy fl s = Some (rc, s') \<and> mx \<le> mxFrame (hdr (pWal s)) \<and>
    (\<forall>i \<in> {1..<WAL_NREADER}. locked (WAL_READ_LOCK i) 1 s \<longrightarrow> mx \<le> aReadMark s ! i) \<and>
    filled (unat (szPage w0)) frs mx (nBackfill s) (nPage (hdr (pWal s))) s s' \<and> (locked (WAL_READ_LOCK 0) 1 s \<longrightarrow> dbFile s' = dbFile s) \<and> walFile s' = walFile s \<and>
    (no_readers s \<and> answers s = [] \<longrightarrow> rc = SQLITE_OK \<and> mxFrame (hdr (pWal s)) \<le> nBackfill s')"
proof (cases "nBackfill s \<ge> mxFrame (hdr (pWal s))")
  case True
  then have "walCheckpoint eMode xBusy fl s = Some (SQLITE_OK, s)" using mp by (simp add: walCheckpoint_def)
  then show ?thesis using filled_same [of s s] True by (intro exI [of _ SQLITE_OK] exI [of _ s] exI [of _ 0]) simp
next
  case False
  obtain rest gs where h: "log_header H w0" "chain w0 frs" "walFile s = H @ concat frs @ rest" "index_ok gs s" "length frs \<le> length gs"
    "take (length frs) gs = map fpgno frs" "mxFrame (hdr (pWal s)) = of_nat (length frs)" "walPagesize (pWal s) = szPage w0" using snapshotE [OF sn] by blast
  let ?mx = "mxFrame (hdr (pWal s))" and ?x = "nPage (hdr (pWal s))" and ?sz = "unat (szPage w0)"
  have u: "unat ?mx = length frs" using n by (simp add: h(7) unsigned_of_nat take_bit_nat_eq_self)
  have pos: "0 < length frs" using False u by (metis gr0I leI le_zero_eq unat_eq_zero word_le_nat_alt word_zero_le)
  obtain rc1 p s1 where 1: "walIteratorInit s = Some (rc1, p, s1)" "map_step s s1" "rc1 = SQLITE_OK \<longrightarrow> iterates (take (length frs) gs) p \<and> iPrior p = 0"
      "answers s = [] \<longrightarrow> rc1 = SQLITE_OK"
    using walIteratorInit_post [OF h(4) u pos h(5) n] by blast
  note m1 = map_step_simps [OF 1(2)]
  have same: ?thesis if "walCheckpoint eMode xBusy fl s = Some (rc, t)" "dbFile t = dbFile s" "nBackfill t = nBackfill s" "walFile t = walFile s"
      "\<not> (no_readers s \<and> answers s = [])" for rc t
    using that filled_same [of t s] by (intro exI [of _ rc] exI [of _ t] exI [of _ 0]) auto
  show ?thesis
  proof (cases "rc1 = SQLITE_OK")
    case rc1: False
    then have "walCheckpoint eMode xBusy fl s = Some (rc1, s1)" using False mp 1(1) by (simp add: walCheckpoint_def)
    then show ?thesis using m1 rc1 1(4) by (intro same [of rc1 s1]) simp_all
  next
    case rc1: True
    then have it: "iterates (map fpgno frs) p" "iPrior p = 0" using 1(3) h(6) by simp_all
    obtain r b2 s2 where 2: "safe_frame [1..<WAL_NREADER] ?mx SQLITE_OK (if eMode \<noteq> CHECKPOINT_PASSIVE then xBusy else None) s1 = (r, b2, s2)"
      by (metis prod_cases3)
    note sf = safe_frame_post [OF 2]
    then have ms: "mark_step s1 s2" by simp
    note m2 = mark_step_simps [OF ms]
    have idle: "r = Inr (?mx, SQLITE_OK) \<and> no_readers s2 \<and> answers s2 = []" if "no_readers s" "answers s = []"
    proof -
      have "no_readers s1" "answers s1 = []" using that m1 by (simp_all add: no_readers_def)
      moreover have "\<forall>i \<in> set [1..<WAL_NREADER]. i < WAL_NREADER" by simp
      ultimately have "\<exists>b s'. safe_frame [1..<WAL_NREADER] ?mx SQLITE_OK (if eMode \<noteq> CHECKPOINT_PASSIVE then xBusy else None) s1 =
          (Inr (?mx, SQLITE_OK), b, s') \<and> no_readers s' \<and> answers s' = []" by (rule safe_frame_idle) (rule refl)
      then show ?thesis unfolding 2 by auto
    qed
    show ?thesis
    proof (cases r)
      case (Inl e)
      then have "walCheckpoint eMode xBusy fl s = Some (e, s2)" using False mp 1(1) 2 rc1 m1(1) by (simp add: walCheckpoint_def)
      then show ?thesis using m1 m2 idle Inl by (intro same [of e s2]) auto
    next
      case (Inr q)
      obtain mx rc2 where q: "r = Inr (mx, rc2)" using Inr by (cases q) simp
      have lk: "locked i k s1 = locked i k s" for i k using m1 by (simp add: locked_def)
      have mx: "mx \<le> ?mx" "\<And>i. i \<in> {1..<WAL_NREADER} \<Longrightarrow> locked (WAL_READ_LOCK i) 1 s \<Longrightarrow> mx \<le> aReadMark s ! i"
        using sf q m1(11) lk by auto
      obtain rc3 b3 s3 where 3: "(if nBackfill s2 < mx then
               let (rc, xBusy, s) = walBusyLock b2 (WAL_READ_LOCK 0) 1 s2
               in if rc = SQLITE_OK then let (rc, s) = backfill fl mx ?x p s in (rc, xBusy, s) else (rc, xBusy, s)
             else (rc2, b2, s2)) = (rc3, b3, s3)" by (rule prod_cases3)
      have f: "filled ?sz frs mx (nBackfill s2) ?x s2 s3 \<and> (locked (WAL_READ_LOCK 0) 1 s2 \<longrightarrow> dbFile s3 = dbFile s2) \<and> same_conn s2 s3 \<and>
          (no_readers s2 \<and> answers s2 = [] \<and> rc2 = SQLITE_OK \<longrightarrow> rc3 = SQLITE_OK \<and> mx \<le> nBackfill s3 \<and> no_readers s3)"
        using m1 m2 h(3,8) n walPagesize_cong [of "pWal s1" "pWal s"] by (intro copy_safe_post [OF it h(1,2) _ _ _ _ 3]) simp_all
      obtain rc4 s4 where 4: "(if (if rc3 = SQLITE_BUSY then SQLITE_OK else rc3) = SQLITE_OK \<and> eMode \<noteq> CHECKPOINT_PASSIVE then
                    if nBackfill s3 < mxFrame (hdr (pWal s3)) then (SQLITE_BUSY, s3)
                    else if eMode = CHECKPOINT_RESTART then
                      (case walBusyLock b3 (WAL_READ_LOCK 1) (WAL_NREADER - 1) s3 of (rc, xBusy, s) \<Rightarrow>
                         if rc = SQLITE_OK then (rc, walUnlockExclusive (WAL_READ_LOCK 1) (WAL_NREADER - 1) s) else (rc, s))
                    else (if rc3 = SQLITE_BUSY then SQLITE_OK else rc3, s3)
                  else (if rc3 = SQLITE_BUSY then SQLITE_OK else rc3, s3)) = (rc4, s4)" by (rule prod.exhaust)
      have "lock_step s3 s4" using 4 restart_step [where xBusy = b3 and s = s3 and i = "WAL_READ_LOCK 1" and n = "WAL_NREADER - 1"] lock_step_refl [of s3] by (auto split: if_splits)
      then have m4: "mark_step s3 s4" using lock_step_mark by blast
      have "walCheckpoint eMode xBusy fl s = Some (rc4, s4)"
        by (simp only: walCheckpoint_def mp False simp_thms if_True if_False 1(1) rc1 m1(1) bind.bind_lunit prod.case Let_def 2 q sum.case
            3 [unfolded Let_def] 4)
      moreover have "filled ?sz frs mx (nBackfill s) ?x s s4"
        using f mark_step_simps [OF m4] m1 m2 by (simp add: filled_def)
      moreover have "locked (WAL_READ_LOCK 0) 1 s \<longrightarrow> dbFile s4 = dbFile s"
        using f mark_step_simps [OF m4] m1 m2 lk locked_step [OF ms] by simp
      moreover have "walFile s4 = walFile s" using f mark_step_simps [OF m4] m1 m2 by (simp add: same_conn_def)
      moreover have "rc4 = SQLITE_OK \<and> ?mx \<le> nBackfill s4" if "no_readers s" "answers s = []"
      proof -
        have i: "mx = ?mx" "rc2 = SQLITE_OK" "no_readers s2" "answers s2 = []" using idle [OF that] q by simp_all
        then have 5: "rc3 = SQLITE_OK" "?mx \<le> nBackfill s3" "no_readers s3" "answers s3 = []" "hdr (pWal s3) = hdr (pWal s)"
          using f m1 m2 by (simp_all add: same_conn_def)
        obtain rc5 b5 s5 where 6: "walBusyLock b3 (WAL_READ_LOCK 1) (WAL_NREADER - 1) s3 = (rc5, b5, s5)" by (metis prod_cases3)
        have "rc5 = SQLITE_OK" using lock_cycle [OF 5(3,4) reader_locks(2) 6] by blast
        then have "rc4 = SQLITE_OK" using 4 [unfolded 6 5(1,5)] 5(2) by (auto split: if_splits)
        then show ?thesis using 5(2) mark_step_simps(4) [OF m4] by simp
      qed
      ultimately show ?thesis using mx by (intro exI [of _ rc4] exI [of _ s4] exI [of _ mx]) simp
    qed
  qed
qed

section \<open>What holds of the pages\<close>

lemma due_other:
  assumes "filled sz frs mx b x s s'" and "g \<notin> due (map fpgno frs) 0 b mx x" and "0 < g" and "g \<le> x \<or> mx \<noteq> mxFrame (shmHdr0 s)"
  shows "db_page sz (dbFile s') g = db_page sz (dbFile s) g"
proof (rule db_page_cong)
  fix i assume i: "i \<in> span sz g"
  have "i < unat x * sz" if "g \<le> x"
  proof -
    have "unat g * sz \<le> unat x * sz" using that by (intro mult_le_mono1) (simp add: word_le_nat_alt)
    then show ?thesis using i unfolding span_def atLeastLessThan_iff by linarith
  qed
  moreover have "i \<notin> span sz h" if "h \<in> due (map fpgno frs) 0 b mx x" for h
    using span_disjoint [OF i _ assms(3), of h] that assms(2) by (auto simp: due_def)
  ultimately show "byte (dbFile s') i = byte (dbFile s) i" using assms(1,4) by (auto simp: filled_def)
qed

lemma view_kept:
  assumes f: "filled sz frs mx b x s s'" and mx: "unat mx \<le> k" "k \<le> length frs" and g: "0 < g" "k = length frs \<longrightarrow> g \<le> x"
    and n: "length frs < 2 ^ 32" "mxFrame (shmHdr0 s) = of_nat (length frs)" and "r \<noteq> 0"
  shows "page_view r sz (take k frs) (dbFile s') g = page_view r sz (take k frs) (dbFile s) g"
proof (cases "overlay (take k frs) g")
  case None
  then have 0: "latest (map fpgno (take k frs)) g = 0" by (simp add: overlay_latest split: nat.splits)
  have "g \<notin> due (map fpgno frs) 0 b mx x"
  proof
    assume d: "g \<in> due (map fpgno frs) 0 b mx x"
    then obtain i where i: "latest (map fpgno frs) g = Suc i" by (cases "latest (map fpgno frs) g") (auto simp: due_def)
    have "i < k" using d i mx(1) by (simp add: due_def)
    moreover have "map fpgno frs ! i = g" using latest_Suc(2) [OF i] .
    ultimately have "g \<in> set (map fpgno (take k frs))" using mx(2) by (force simp: in_set_conv_nth)
    then show False using 0 latest_zero_iff by blast
  qed
  moreover have "mx \<noteq> mxFrame (shmHdr0 s)" if "k \<noteq> length frs"
  proof
    assume "mx = mxFrame (shmHdr0 s)"
    then have "unat mx = length frs" using n by (simp add: unsigned_of_nat take_bit_nat_eq_self)
    then show False using mx that by simp
  qed
  ultimately show ?thesis using due_other [OF f _ g(1)] g(2) None by (auto simp: page_view_def)
qed (simp add: page_view_def assms(8))

lemma filled_backfilled:
  assumes f: "filled sz frs mx (nBackfill s) x s s'" and x: "x < 0xFFFFFFFF" and b: "backfilled_ok sz frs (nBackfill s) x (dbFile s)"
  shows "backfilled_ok sz frs (nBackfill s') x (dbFile s')"
  unfolding backfilled_ok_def
proof (intro allI impI, elim conjE)
  fix g assume g: "0 < g" "g \<le> x" "0 < latest (map fpgno frs) g" "latest (map fpgno frs) g \<le> unat (nBackfill s')"
  let ?D = "due (map fpgno frs) 0 (nBackfill s) mx x"
  show "Some (db_page sz (dbFile s') g) = overlay frs g"
  proof (cases "latest (map fpgno frs) g \<le> unat (nBackfill s)")
    case True
    then have "g \<notin> ?D" by (simp add: due_def)
    then show ?thesis using due_other [OF f _ g(1)] g b True by (simp add: backfilled_ok_def)
  next
    case False
    moreover have "g < 0xFFFFFFFF" using g(2) x by (rule order.strict_trans1)
    moreover have "g \<in> set (map fpgno frs)" using g(3) latest_zero_iff [of "map fpgno frs" g] by auto
    ultimately have "nBackfill s' = mx \<longrightarrow> g \<in> ?D" using g by (auto simp: due_def)
    then show ?thesis using f False g(4) by (auto simp: filled_def)
  qed
qed

end
