(* ===== verification/WalTheorems.thy ===== *)
theory WalTheorems
  imports WalSnapshot
begin

text \<open>
  The guarantees of the write-ahead log, each with a run of the model in which its hypotheses hold: a database of one page of
  512 bytes, whose first commit has been made by the model of \<open>sqlite3WalFrames\<close>.
\<close>

section \<open>A run of the model\<close>

definition sample_codec :: codec where
  "sample_codec pgno d = Some (map (\<lambda>b. b XOR ucast pgno) d)"

definition sample_empty :: walst where
  "sample_empty = \<lparr>pWal = \<lparr>iCallback = 0, mxWalSize = -1, apWiData = [True], szPage = 0, readLock = 1, exclusiveMode = WAL_NORMAL_MODE,
      writeLock = True, ckptLock = False, readOnly = (False, False), truncateOnCommit = False, syncHeader = True,
      padToSectorBoundary = False, hdr = zero_hdr, nCkpt = 0\<rparr>,
    shmHdr0 = zero_hdr, shmHdr1 = zero_hdr, nBackfill = 0, aReadMark = [0, 0, READMARK_NOT_USED, READMARK_NOT_USED, READMARK_NOT_USED],
    regions = [zero_page 0], shmSize = 1, shmReadonly = False, ownLocks = (0, 0), siblings = [], walFile = [], dbFile = [], answers = [],
    rng = \<lparr>isInit = False, pi = 0, pj = 0, ps = replicate 256 0\<rparr>\<rparr>"

definition sample_log :: walst where
  "sample_log = snd (the (sqlite3WalFrames [] sample_codec 512 512 [(1, replicate 512 7)] 1 True 0 sample_empty))"

lemma sample_page: "valid_size 512" "pages_ok sample_codec 512 [(1, replicate 512 b)]" "codec_total sample_codec [(1, replicate 512 b)]"
  by (simp_all add: valid_size_def SQLITE_MAX_PAGE_SIZE_def pages_ok_def codec_total_def sample_codec_def)

lemma sample_empty_ok: "empty_log sample_empty" "answers sample_empty = []"
  by (auto simp: empty_log_def sample_empty_def shm_ok_def mapped_def zero_hdr_def zero_page_shape less_Suc_eq nth_Cons')

text \<open>The first commit has made the log of its frames \<open>G\<close>; the file ends with them after a suitable cut.\<close>

lemma sample_log_facts:
  obtains H w0 G where "log_inv H w0 G sample_log" "G \<noteq> []" "length G \<le> 513" "published w0 sample_log" "answers sample_log = []"
    "readLock (pWal sample_log) \<noteq> 0" "szPage w0 = 512" "page_bytes w0 = 512" "overlay G = tx_pages sample_codec [(1, replicate 512 7)]" "committed G = G"
    "same_shm sample_log sample_log" "nPage (hdr (pWal sample_log)) = 1" "exclusiveMode (pWal sample_log) = WAL_NORMAL_MODE"
proof -
  have "\<exists>s' H w0 G. sqlite3WalFrames [] sample_codec 512 512 [(1, replicate 512 7)] 1 True 0 sample_empty = Some (SQLITE_OK, s') \<and>
      log_inv H w0 G s' \<and> G \<noteq> [] \<and> length G \<le> length [(1 :: u32, replicate 512 (7 :: u8))] + 512 \<and> published w0 s' \<and> nPage (hdr (pWal s')) = 1 \<and>
      answers s' = [] \<and> readLock (pWal s') \<noteq> 0 \<and> szPage w0 = 512 \<and> overlay G = tx_pages sample_codec [(1, replicate 512 7)] \<and> committed G = G \<and>
      exclusiveMode (pWal s') = exclusiveMode (pWal sample_empty)"
    by (rule first_commit_post) (use sample_empty_ok sample_page in simp_all)
  then obtain s' H w0 G where "sqlite3WalFrames [] sample_codec 512 512 [(1, replicate 512 7)] 1 True 0 sample_empty = Some (SQLITE_OK, s')"
      "log_inv H w0 G s'" "G \<noteq> []" "length G \<le> 513" "published w0 s'" "answers s' = []" "readLock (pWal s') \<noteq> 0" "szPage w0 = 512"
      "overlay G = tx_pages sample_codec [(1, replicate 512 7)]" "committed G = G"
      "exclusiveMode (pWal s') = exclusiveMode (pWal sample_empty)" "nPage (hdr (pWal s')) = 1" by auto
  moreover from this(1) have "sample_log = s'" by (simp add: sample_log_def)
  moreover have "exclusiveMode (pWal sample_empty) = WAL_NORMAL_MODE" by (simp add: sample_empty_def)
  ultimately show ?thesis using that [of H w0 G] by (auto simp: page_bytes_def same_shm_def log_inv_def indexed_def index_ok_def)
qed

section \<open>Commits\<close>





section \<open>Readers\<close>



section \<open>Recovery\<close>

text \<open>
  C5: Recovery. When a connection rebuilds the wal-index from a log whose valid frames are \<open>frs\<close>, no other connection holds a conflicting lock and
  no call of the system fails, it ends at the last commit among them: the private and the shared headers agree, carry a
  correct checksum, and describe a snapshot with the pages and the database size of that commit.
\<close>

theorem recovery_finds_last_commit:
  assumes "walFile s = H @ concat frs @ rest" "log_header H w0" "chain w0 frs" "stops (after w0 frs) rest" "length frs + 4096 < 2 ^ 32"
    and "shm_ok s" "writeLock (pWal s)" "mapped s 0" "answers s = []"
    and "\<forall>x \<in> set (ownLocks s # siblings s). fst x AND recover_mask s = 0 \<and> snd x AND recover_mask s = 0" "commit_len frs \<noteq> 0"
  shows "\<exists>s'. walIndexRecover s = Some (SQLITE_OK, s') \<and> snapshot H w0 (committed frs) s' \<and> nPage (hdr (pWal s')) = commit_size frs \<and>
    published w0 s' \<and> walFile s' = walFile s \<and> dbFile s' = dbFile s"
proof -
  obtain s' where r: "walIndexRecover s = Some (SQLITE_OK, s')" "walFile s' = walFile s" "dbFile s' = dbFile s" "recovered w0 frs s'"
    using walIndexRecover_post [OF assms(1-8)] assms(9,10) by auto
  have "snapshot H w0 (committed frs) s'" using snapshot_recovered [OF r(4) assms(2,3) _ assms(11)] r(2) assms(1) by simp
  moreover have "published w0 s'" "nPage (hdr (pWal s')) = commit_size frs" using r(4) assms(11) by (simp_all add: recovered_def published_def)
  ultimately show ?thesis using r by blast
qed

theorem recovery_finds_last_commit_witness:
  "\<exists>H w0 G s'. walIndexRecover (sample_log\<lparr>walFile := H @ concat G, ownLocks := (0, 0), siblings := []\<rparr>) = Some (SQLITE_OK, s') \<and>
    snapshot H w0 (committed G) s' \<and> overlay (committed G) = tx_pages sample_codec [(1, replicate 512 7)]"
proof -
  obtain H w0 G where g: "log_inv H w0 G sample_log" "G \<noteq> []" "length G \<le> 513" "answers sample_log = []"
      "overlay G = tx_pages sample_codec [(1, replicate 512 7)]" "committed G = G" by (rule sample_log_facts) blast
  define s where "s = sample_log\<lparr>walFile := H @ concat G, ownLocks := (0, 0), siblings := []\<rparr>"
  have s: "log_header H w0" "chain w0 G" "shm_ok s" "writeLock (pWal s)" "mapped s 0"
    using g(1) shm_ok_cong(1,3) [of s sample_log] by (auto simp: log_inv_def indexed_def index_ok_def s_def)
  have "commit_len G \<noteq> 0" using g(2,6) by (cases "commit_len G") (simp_all add: committed_def)
  then have "\<exists>s'. walIndexRecover s = Some (SQLITE_OK, s') \<and> snapshot H w0 (committed G) s' \<and> nPage (hdr (pWal s')) = commit_size G \<and>
    published w0 s' \<and> walFile s' = walFile s \<and> dbFile s' = dbFile s"
    by (intro recovery_finds_last_commit [where rest = "[]"]) (use g s in \<open>simp_all add: s_def stops_def\<close>)
  then obtain s' where "walIndexRecover s = Some (SQLITE_OK, s')" "snapshot H w0 (committed G) s'" by blast
  then show ?thesis using g(5,6)
    by (intro exI [of _ H] exI [of _ w0] exI [of _ G] exI [of _ s']) (simp add: s_def)
qed

end
