(* ===== verification/WalCkptTheorems.thy ===== *)
theory WalCkptTheorems
  imports WalCheckpoint WalTheorems
begin

text \<open>
  The guarantees of a checkpoint: the order of the pages that it copies, the readers that it may not disturb, the count of the frames
  that are in the database file, and its completion when nobody is in the way.
\<close>

section \<open>A run of the model\<close>

text \<open>The log after its first commit, with other connections \<open>conns\<close>, of which one may read with the mark 1.\<close>

definition sample_conns :: "(u16 \<times> u16) list \<Rightarrow> walst" where
  "sample_conns conns = sample_log\<lparr>nBackfill := 0, aReadMark := replicate 5 0, ownLocks := (0, 0), siblings := conns\<rparr>"

definition sample_reader :: "u16 \<times> u16" where
  "sample_reader = (lock_mask (WAL_READ_LOCK 1) 1, 0)"

lemma sample_conns_facts:
  obtains H w0 G where "snapshot H w0 G (sample_conns conns)" "length G + 4096 < 2 ^ 32" "mapped (sample_conns conns) 0"
    "shmHdr0 (sample_conns conns) = hdr (pWal (sample_conns conns))" "nPage (hdr (pWal (sample_conns conns))) = 1"
    "exclusiveMode (pWal (sample_conns conns)) = WAL_NORMAL_MODE" "answers (sample_conns conns) = []" "overlay G 1 = Some (replicate 512 6)" "page_bytes w0 = 512"
proof -
  obtain H w0 G where g: "log_inv H w0 G sample_log" "length G \<le> 513" "published w0 sample_log" "answers sample_log = []" "page_bytes w0 = 512"
      "overlay G = tx_pages sample_codec [(1, replicate 512 7)]" "nPage (hdr (pWal sample_log)) = 1" "exclusiveMode (pWal sample_log) = WAL_NORMAL_MODE"
    by (rule sample_log_facts) blast
  let ?s = "sample_conns conns"
  have f: "pWal ?s = pWal sample_log" "walFile ?s = walFile sample_log" "regions ?s = regions sample_log" "answers ?s = answers sample_log"
      "shmHdr0 ?s = shmHdr0 sample_log" by (simp_all add: sample_conns_def)
  have "index_ok gs ?s = index_ok gs sample_log" "mapped ?s 0 = mapped sample_log 0" for gs using shm_ok_cong(2,3) [of ?s sample_log] f by simp_all
  then have "snapshot H w0 G ?s" "mapped ?s 0" using snapshot_writer [OF g(1,3)] g(1) unfolding snapshot_def indexed_def log_inv_def by (simp_all add: f)
  moreover have "overlay G 1 = Some (replicate 512 6)" using g(6) by (simp add: tx_pages_def sample_codec_def)
  ultimately show ?thesis using that [of H w0 G] g f by (simp add: published_def)
qed

section \<open>The sort of the pages\<close>

text \<open>
  C8: \<open>walMergesort\<close> on the indices below \<open>n\<close>, of which a page of the wal-index has at most 4096, sorts them by page number strictly, and keeps of each page
  exactly the largest index, which is its last frame.
\<close>

theorem walMergesort_lasts:
  assumes "0 < n" and "n \<le> HASHTABLE_NPAGE"
  shows "sorted_wrt (\<lambda>i j. aContent ! i < aContent ! j) (walMergesort aContent n) \<and>
    set (walMergesort aContent n) = {i. i < n \<and> (\<forall>j. i < j \<and> j < n \<longrightarrow> aContent ! j \<noteq> aContent ! i)}"
  using walMergesort_post [of n aContent] assms by (simp add: lasts_def HASHTABLE_NPAGE_def)

theorem walMergesort_lasts_witness:
  "sorted_wrt (\<lambda>i j. [7, 3, 7, 5, 3] ! i < ([7, 3, 7, 5, 3] :: u32 list) ! j) (walMergesort [7, 3, 7, 5, 3] 5) \<and>
    set (walMergesort [7, 3, 7, 5, 3] 5) = {i. i < 5 \<and> (\<forall>j. i < j \<and> j < 5 \<longrightarrow> [7, 3, 7, 5, 3] ! j \<noteq> ([7, 3, 7, 5, 3] :: u32 list) ! i)}"
  by (rule walMergesort_lasts) (simp_all add: HASHTABLE_NPAGE_def)

section \<open>Checkpoints\<close>

text \<open>
  C3: A checkpoint disturbs no reader. While a connection holds the shared lock of read mark \<open>r\<close>, and reads the first \<open>k\<close> frames of the log, which are no
  fewer than the mark says, a checkpoint in any mode, whatever fails on the way, leaves the log as it is and every page that the reader may ask for: the page from
  the log, or the one from the database file, whose length may have been cut to the size of the last commit. A reader with mark 0 ignores the log.
\<close>

theorem checkpoint_keeps_readers:
  assumes "snapshot H w0 frs s" "length frs + 4096 < 2 ^ 32" "mapped s 0" "shmHdr0 s = hdr (pWal s)"
    and "r < WAL_NREADER" "locked (WAL_READ_LOCK r) 1 s" "unat (aReadMark s ! r) \<le> k" "k \<le> length frs"
    and "0 < g" "k = length frs \<longrightarrow> g \<le> nPage (hdr (pWal s))"
    and "walCheckpoint eMode xBusy sync_flags s = Some (rc, s')"
  shows "walFile s' = walFile s \<and>
    page_view r (page_bytes w0) (take k frs) (dbFile s') g = page_view r (page_bytes w0) (take k frs) (dbFile s) g"
proof -
  obtain mx where c: "\<forall>i \<in> {1..<WAL_NREADER}. locked (WAL_READ_LOCK i) 1 s \<longrightarrow> mx \<le> aReadMark s ! i"
      "filled (page_bytes w0) frs mx (nBackfill s) (nPage (hdr (pWal s))) s s'" "locked (WAL_READ_LOCK 0) 1 s \<longrightarrow> dbFile s' = dbFile s"
      "walFile s' = walFile s"
    using walCheckpoint_post [OF assms(1-3), of eMode xBusy sync_flags] assms(11) unfolding page_bytes_def by auto
  show ?thesis
  proof (cases "r = 0")
    case True
    then show ?thesis using c(3,4) assms(6) by simp
  next
    case False
    then have "unat mx \<le> k" using c(1) assms(5-7) by (fastforce simp: word_le_nat_alt)
    moreover have "mxFrame (shmHdr0 s) = of_nat (length frs)" "length frs < 2 ^ 32" using assms(1,2,4) by (simp_all add: snapshot_def)
    ultimately show ?thesis using view_kept [OF c(2) _ assms(8-10) _ _ False] c(4) by blast
  qed
qed

theorem checkpoint_keeps_readers_witness:
  "\<exists>G rc s'. walCheckpoint CHECKPOINT_FULL None 2 (sample_conns [sample_reader]) = Some (rc, s') \<and>
    page_view 1 512 (take 0 G) (dbFile s') 1 = page_view 1 512 (take 0 G) (dbFile (sample_conns [sample_reader])) 1 \<and> overlay G 1 \<noteq> None"
proof -
  let ?s = "sample_conns [sample_reader]"
  obtain H w0 G where g: "snapshot H w0 G ?s" "length G + 4096 < 2 ^ 32" "mapped ?s 0" "shmHdr0 ?s = hdr (pWal ?s)" "nPage (hdr (pWal ?s)) = 1"
      "exclusiveMode (pWal ?s) = WAL_NORMAL_MODE" "overlay G 1 = Some (replicate 512 6)" "page_bytes w0 = 512" by (rule sample_conns_facts) blast
  have lk: "locked (WAL_READ_LOCK 1) 1 ?s" using g(6)
    by (simp add: locked_def sample_conns_def sample_reader_def lock_mask_def WAL_READ_LOCK_def push_bit_eq_mult)
  have mk: "unat (aReadMark ?s ! 1) \<le> 0" by (simp add: sample_conns_def)
  obtain rc s' where c: "walCheckpoint CHECKPOINT_FULL None 2 ?s = Some (rc, s')" using walCheckpoint_post [OF g(1-3)] by blast
  have "walFile s' = walFile ?s \<and> page_view 1 (page_bytes w0) (take 0 G) (dbFile s') 1 = page_view 1 (page_bytes w0) (take 0 G) (dbFile ?s) 1"
    by (rule checkpoint_keeps_readers [OF g(1-4) _ lk mk _ _ _ c]) (simp_all add: WAL_NREADER_def SQLITE_SHM_NLOCK_def g(5))
  then show ?thesis using c g(7,8) by (intro exI [of _ G] exI [of _ rc] exI [of _ s']) simp
qed

text \<open>
  C6: The count of the frames in the database file is sound. If every page up to the size of the database whose last frame is among the first \<open>nBackfill\<close> frames
  has the content of that frame in the database file, then this holds again after a checkpoint, with the new \<open>nBackfill\<close>, whatever has failed.
\<close>

theorem checkpoint_count_sound:
  assumes "snapshot H w0 frs s" "length frs + 4096 < 2 ^ 32" "mapped s 0" "nPage (hdr (pWal s)) < 0xFFFFFFFF"
    and "backfilled_ok (page_bytes w0) frs (nBackfill s) (nPage (hdr (pWal s))) (dbFile s)"
    and "walCheckpoint eMode xBusy sync_flags s = Some (rc, s')"
  shows "backfilled_ok (page_bytes w0) frs (nBackfill s') (nPage (hdr (pWal s))) (dbFile s')"
proof -
  obtain mx where "filled (page_bytes w0) frs mx (nBackfill s) (nPage (hdr (pWal s))) s s'"
    using walCheckpoint_post [OF assms(1-3), of eMode xBusy sync_flags] assms(6) unfolding page_bytes_def by auto
  then show ?thesis using filled_backfilled [OF _ assms(4,5)] by blast
qed

theorem checkpoint_count_sound_witness:
  "\<exists>G rc s'. walCheckpoint CHECKPOINT_PASSIVE None 2 (sample_conns [sample_reader]\<lparr>answers := [Success, Success, Failure 10 0]\<rparr>) = Some (rc, s') \<and>
    backfilled_ok 512 G (nBackfill s') 1 (dbFile s') \<and> overlay G 1 \<noteq> None"
proof -
  let ?t = "sample_conns [sample_reader]" and ?s = "sample_conns [sample_reader]\<lparr>answers := [Success, Success, Failure 10 0]\<rparr>"
  obtain H w0 G where g: "snapshot H w0 G ?t" "length G + 4096 < 2 ^ 32" "mapped ?t 0" "nPage (hdr (pWal ?t)) = 1"
      "overlay G 1 = Some (replicate 512 6)" "page_bytes w0 = 512" by (rule sample_conns_facts) blast
  have i: "index_ok gs ?s = index_ok gs ?t" for gs using shm_ok_cong(2) [of ?s ?t] by simp
  have sn: "snapshot H w0 G ?s" using g(1) unfolding snapshot_def indexed_def by (simp add: i)
  have mp: "mapped ?s 0" using g(3) by (simp add: mapped_def)
  have b: "backfilled_ok (page_bytes w0) G (nBackfill ?s) (nPage (hdr (pWal ?s))) (dbFile ?s)" by (auto simp: backfilled_ok_def sample_conns_def)
  have x: "nPage (hdr (pWal ?s)) < 0xFFFFFFFF" using g(4) by simp
  obtain rc s' where c: "walCheckpoint CHECKPOINT_PASSIVE None 2 ?s = Some (rc, s')" using walCheckpoint_post [OF sn g(2) mp] by blast
  have "backfilled_ok (page_bytes w0) G (nBackfill s') (nPage (hdr (pWal ?s))) (dbFile s')"
    by (rule checkpoint_count_sound [OF sn g(2) mp x b c])
  then show ?thesis using c g(4-6) by (intro exI [of _ G] exI [of _ rc] exI [of _ s']) simp
qed

text \<open>
  C7: A checkpoint completes. When no connection reads and no call of the system fails, a checkpoint in any mode returns \<open>SQLITE_OK\<close>, counts
  all frames as copied, and every page of the database is in the database file as the log had it, so that the log is not needed any more.
\<close>

theorem checkpoint_completes:
  assumes "snapshot H w0 frs s" "length frs + 4096 < 2 ^ 32" "mapped s 0" "nPage (hdr (pWal s)) < 0xFFFFFFFF"
    and "backfilled_ok (page_bytes w0) frs (nBackfill s) (nPage (hdr (pWal s))) (dbFile s)"
    and "no_readers s" "answers s = []"
  shows "\<exists>s'. walCheckpoint eMode xBusy sync_flags s = Some (SQLITE_OK, s') \<and> mxFrame (hdr (pWal s)) \<le> nBackfill s' \<and>
    (\<forall>g. 0 < g \<and> g \<le> nPage (hdr (pWal s)) \<longrightarrow> db_page (page_bytes w0) (dbFile s') g = page_view 1 (page_bytes w0) frs (dbFile s) g)"
proof -
  obtain s' mx where c: "walCheckpoint eMode xBusy sync_flags s = Some (SQLITE_OK, s')" "mxFrame (hdr (pWal s)) \<le> nBackfill s'"
      "filled (page_bytes w0) frs mx (nBackfill s) (nPage (hdr (pWal s))) s s'"
    using walCheckpoint_post [OF assms(1-3), of eMode xBusy sync_flags] assms(6,7) unfolding page_bytes_def by auto
  have ok: "backfilled_ok (page_bytes w0) frs (nBackfill s') (nPage (hdr (pWal s))) (dbFile s')" using filled_backfilled [OF c(3) assms(4,5)] .
  have n: "length frs \<le> unat (nBackfill s')"
    using c(2) assms(1,2) by (simp add: snapshot_def word_le_nat_alt unsigned_of_nat take_bit_nat_eq_self)
  have "db_page (page_bytes w0) (dbFile s') g = page_view 1 (page_bytes w0) frs (dbFile s) g" if g: "0 < g" "g \<le> nPage (hdr (pWal s))" for g
  proof (cases "latest (map fpgno frs) g")
    case 0
    then have "db_page (page_bytes w0) (dbFile s') g = db_page (page_bytes w0) (dbFile s) g" using g by (intro due_other [OF c(3)]) (auto simp: due_def)
    then show ?thesis using 0 by (simp add: page_view_def overlay_latest)
  next
    case (Suc i)
    then have "Some (db_page (page_bytes w0) (dbFile s') g) = overlay frs g"
      using ok g n latest_le [of "map fpgno frs" g] by (auto simp: backfilled_ok_def)
    from this [symmetric] show ?thesis by (simp add: page_view_def)
  qed
  then show ?thesis using c(1,2) by blast
qed

theorem checkpoint_completes_witness:
  "\<exists>s'. walCheckpoint CHECKPOINT_RESTART None 2 (sample_conns []) = Some (SQLITE_OK, s') \<and> db_page 512 (dbFile s') 1 = replicate 512 6"
proof -
  let ?s = "sample_conns []"
  obtain H w0 G where g: "snapshot H w0 G ?s" "length G + 4096 < 2 ^ 32" "mapped ?s 0" "nPage (hdr (pWal ?s)) = 1" "answers ?s = []"
      "overlay G 1 = Some (replicate 512 6)" "page_bytes w0 = 512" by (rule sample_conns_facts) blast
  have "\<exists>s'. walCheckpoint CHECKPOINT_RESTART None 2 ?s = Some (SQLITE_OK, s') \<and> mxFrame (hdr (pWal ?s)) \<le> nBackfill s' \<and>
    (\<forall>g. 0 < g \<and> g \<le> nPage (hdr (pWal ?s)) \<longrightarrow> db_page (page_bytes w0) (dbFile s') g = page_view 1 (page_bytes w0) G (dbFile ?s) g)"
  proof (rule checkpoint_completes [OF g(1-3)])
    show "backfilled_ok (page_bytes w0) G (nBackfill ?s) (nPage (hdr (pWal ?s))) (dbFile ?s)" by (auto simp: backfilled_ok_def sample_conns_def)
    show "no_readers ?s" by (simp add: no_readers_def sample_conns_def)
  qed (simp_all add: g(4,5))
  then show ?thesis unfolding g(4,7) by (auto simp: page_view_def g(6))
qed

end
