(* ===== verification/Spec2Isabelle.thy ===== *)
theory Spec2Isabelle
  imports Varint Strings Bitvec_Test RowSet Hash RecordFormat LockProtocol Codec_Main WalCkptTheorems
begin

text \<open>
  A verification library for the storage engine of the repository: SQLite 3.8.0.2 with the page encryption of SQLCipher, the C sources
  under \<^verbatim>\<open>src/sqlcipher-2.2.0/src\<close>. All file names below are relative to that directory.

  \<^bold>\<open>The program.\<close> A connection reads and writes a database file of pages of equal size. The pager moves pages between the file and its cache; on the way
  every page passes the codec (\<^verbatim>\<open>crypto.c\<close>, \<^verbatim>\<open>crypto_impl.c\<close>), which encrypts and authenticates it with a provider (\<^verbatim>\<open>crypto_openssl.c\<close>). Connections
  of several processes exclude each other with file locks (\<^verbatim>\<open>os_unix.c\<close>), or, in the other journal mode, share a write-ahead log with an index in shared
  memory (\<^verbatim>\<open>wal.c\<close>, \<^verbatim>\<open>os_unix.c\<close>). Above the pager are b-trees of records (\<^verbatim>\<open>vdbe.c\<close>, \<^verbatim>\<open>vdbeaux.c\<close>) in the variable-length integers of \<^verbatim>\<open>util.c\<close>, whose values
  \<^verbatim>\<open>vdbemem.c\<close> orders and \<^verbatim>\<open>utf.c\<close> translates. The page bitmap (\<^verbatim>\<open>bitvec.c\<close>), the row set (\<^verbatim>\<open>rowset.c\<close>), the hash table (\<^verbatim>\<open>hash.c\<close>) and the
  random generator (\<^verbatim>\<open>random.c\<close>) serve all of them.

  \<^bold>\<open>Theories and sources.\<close>

  \<^item> \<open>Prelude\<close>: integers of C at their width, buffers with checked access, result codes, lemmas on words and lists.
  \<^item> \<open>Ctype\<close> (\<^verbatim>\<open>global.c\<close>), \<open>IntOps\<close>, \<open>Strings\<close>, \<open>Varint\<close> (\<^verbatim>\<open>util.c\<close>): character tables, checked arithmetic, strings and numbers, varints. The unrolled
    reader of varints equals a loop over bytes; the round trips go through the contract \<open>prefix_codec\<close> of theory \<open>Codec\<close>.
  \<^item> \<open>Prng\<close> (\<^verbatim>\<open>random.c\<close>), \<open>Bitvec\<close>, \<open>Bitvec_Correct\<close>, \<open>Bitvec_Test\<close> (\<^verbatim>\<open>bitvec.c\<close>): the bitmap refines a set of page numbers (contract \<open>page_set\<close> of
    theory \<open>Page_Set\<close>), so its built-in self test finds no difference.
  \<^item> \<open>RowSet\<close> (\<^verbatim>\<open>rowset.c\<close>) refines a set of row ids by batches; \<open>Hash\<close> (\<^verbatim>\<open>hash.c\<close>) refines a map, the contract \<open>keyed_map\<close> of theory \<open>Keyed_Map\<close>.
  \<^item> \<open>Utf\<close> (\<^verbatim>\<open>utf.c\<close>): the encodings under the contract \<open>char_codec\<close>; translation in bounds and with the same text.
  \<^item> \<open>Serial\<close>, \<open>MemCompare\<close>, \<open>RecordFormat\<close> (\<^verbatim>\<open>vdbeaux.c\<close>, \<^verbatim>\<open>vdbemem.c\<close>, \<^verbatim>\<open>vdbe.c\<close>): a record gives back its values, and comparing records is
    comparing their fields.
  \<^item> \<open>UnixLock\<close>, \<open>LockProtocol\<close> (\<^verbatim>\<open>os_unix.c\<close>): the locking methods as programs of system calls, and the exclusion that they achieve in every
    interleaving of processes, by rule induction over the reachable states.
  \<^item> \<open>Cipher_Ctx\<close>, \<open>Page_Codec\<close>, \<open>OpenSSL_Provider\<close> (\<^verbatim>\<open>crypto_impl.c\<close>, \<^verbatim>\<open>crypto.c\<close>, \<^verbatim>\<open>crypto_openssl.c\<close>): contexts, the encryption of a page, the
    provider. \<open>Page_Codec_Correct\<close> has the layout of an encrypted page and its inversion, \<open>Codec_History\<close> the invariant of contexts over all histories,
    \<open>Codec_Main\<close> the properties.
  \<^item> The write-ahead log (\<^verbatim>\<open>wal.c\<close>, and the shared memory of \<^verbatim>\<open>os_unix.c\<close>). Definitions: \<open>WalFormat\<close> (frames and checksums), \<open>WalBlock\<close> (one hash table of the
    wal-index), \<open>WalShm\<close> (state, files, locks, mapping, look-up), \<open>WalRead\<close> (recovery, read and write transactions), \<open>WalWrite\<close> (writing and rolling back),
    \<open>WalSort\<close> and \<open>WalCkpt\<close> (checkpoints, opening, closing). Lemmas: \<open>WalIndex\<close> (the wal-index stands for the sequence of page numbers of the
    frames), \<open>WalLog\<close> (the file stands for a sequence of valid frames; recovery), \<open>WalCommit\<close> and \<open>WalTxn\<close> (what a call of \<open>sqlite3WalFrames\<close>
    writes), \<open>WalCrash\<close> (crashes), \<open>WalSnapshot\<close> (readers), \<open>WalIterate\<close>, \<open>WalBackfill\<close> and \<open>WalCheckpoint\<close> (what a checkpoint copies).
    Properties: \<open>WalTheorems\<close>, \<open>WalCkptTheorems\<close>.

  \<^bold>\<open>State.\<close> A C structure is a record of the same name, with the fields that matter; the state of a connection to a log is the record \<open>walst\<close>: its own
  object \<open>pWal\<close>, the two header copies, the counters and the pages of the shared wal-index, the two files, the locks of this and of other connections. Another
  connection on the same shared memory is \<open>share u s\<close>. An operation returns its result code with the new state. The result \<open>None\<close> is an access outside a buffer or
  through a null pointer; the theorems show that it does not happen. Calls of the system and of the allocator are answered by an oracle: a stream of
  outcomes for the log, a predicate on the number of the allocation elsewhere, explicit system calls in \<open>UnixLock\<close>; every theorem that does not say otherwise
  holds for all answers.

  \<^bold>\<open>Properties.\<close> Of the log: a crash loses no commit and splits none; a reader keeps its snapshot while others write or
  checkpoint; a commit is visible; recovery finds the last commit; checkpoints count only frames that they have copied, and complete when nobody is in the way;
  damaged frames are refused. Of the codec: a page can be read again with the key; a forged page is zeros and an error; no history of settings makes the codec leave its
  buffers. Of the locks: exclusion, the agreement of the counters with the system, and the ability to unlock. Of the data
  structures: refinement of a set, a map, or a sorted sequence. Of the formats: round trips, bounds, and order.

  \<^bold>\<open>Bounds and fuel.\<close> A log has fewer than \<open>2\<^sup>3\<^sup>2 - 4096\<close> frames, counted with those to be written, so that frame numbers and the arithmetic on blocks do not wrap.
  The bitmap has four levels, which \<open>bv_fuel_enough\<close> shows to be enough for 32-bit page numbers; its self test is given the number of
  rounds of its program, and ends within it. The look-up in a block of the wal-index makes at most \<open>HASHTABLE_NSLOT\<close> steps, as in the code, and \<open>begin_loop\<close>
  ends by the counter of the code. Loops that copy pages or pad the log are proved to terminate. The sort takes at most 4096 indices, the capacity of
  a block.

  \<^bold>\<open>Simplifications.\<close> An operation of the log is one step: interleavings inside of it, memory barriers and dirty reads of the header are not modelled; the two connections of
  a theorem alternate between operations. A crash leaves what has been written; that older bytes behind the new frames do not continue the checksum by accident is
  the hypothesis \<open>no_stray\<close>. Byte order is little-endian. Delays, tracing, mutexes, the wiping of memory and hints to the file system have no effect in
  the models. OpenSSL and the codec of the log are parameters: cipher, hash and key derivation are arbitrary functions with the documented lengths, and decryption
  inverts encryption.

  \<^bold>\<open>Not modelled.\<close> The pager with its rollback journal, the b-tree and the virtual machine are larger than the rest of this library together, and
  need each other; the page cache and the allocators are pointer structures below them. The parser is generated, the planner and the code generator
  have no meaning without the virtual machine. Dates, formatting and the conversion to floating point depend on the arithmetic of the platform. The Windows file system,
  the other lock styles, the extensions, the test harness, the tools, OpenSSL and the Objective-C application are outside the scope.
\<close>

end
